(* ===== verification/Prelude.thy ===== *)
theory Prelude
  imports Main "HOL-Library.Word" "HOL-Library.More_List"
begin

text \<open>
  Shared vocabulary of the development: the vector operations of the Rust standard library
  and of \<open>SmallVec\<close> that several components use (resizing, in-place zipping), generic facts
  about them, and the fact collections the component theories extend.
\<close>

named_theorems frame_simps \<open>fields an operation does not write\<close>
named_theorems wf_intros \<open>operations keep the representation invariant\<close>

section \<open>Comparisons\<close>

datatype ordering = Less | Equal | Greater

text \<open>\<open>Ord::cmp\<close>, and \<open>Ordering::then_with\<close>.\<close>

definition ord_cmp :: "'k::linorder \<Rightarrow> 'k \<Rightarrow> ordering" where
  "ord_cmp a b = (if a < b then Less else if a = b then Equal else Greater)"

fun then_with :: "ordering \<Rightarrow> ordering \<Rightarrow> ordering" where
  "then_with Equal other = other"
| "then_with Less _ = Less"
| "then_with Greater _ = Greater"

section \<open>Vectors\<close>

text \<open>\<open>SmallVec::resize(new_len, value)\<close>: truncate, or pad with copies of \<open>value\<close>.\<close>

definition resize :: "nat \<Rightarrow> 'a \<Rightarrow> 'a list \<Rightarrow> 'a list" where
  "resize n x xs = take n xs @ replicate (n - length xs) x"

lemma length_resize [simp]: "length (resize n x xs) = n"
  by (simp add: resize_def)

lemma nth_default_replicate [simp]: "nth_default x (replicate n x) i = x"
  by (simp add: nth_default_def)

lemma nth_default_resize [simp]:
  "length xs \<le> n \<Longrightarrow> nth_default x (resize n x xs) = nth_default x xs"
  by (rule ext) (simp add: resize_def nth_default_append nth_default_def)

text \<open>
  \<open>for (l, r) in left.iter_mut().zip(right)\<close> with an assignment \<open>*l = f(l, r)\<close>: the common
  prefix is rewritten, the rest of the left vector is kept.
\<close>

fun zip_assign :: "('a \<Rightarrow> 'b \<Rightarrow> 'a) \<Rightarrow> 'a list \<Rightarrow> 'b list \<Rightarrow> 'a list" where
  "zip_assign f (x # xs) (y # ys) = f x y # zip_assign f xs ys"
| "zip_assign f [] ys = []"
| "zip_assign f xs [] = xs"

lemma length_zip_assign [simp]: "length (zip_assign f xs ys) = length xs"
  by (induction f xs ys rule: zip_assign.induct) auto

lemma nth_zip_assign:
  "i < length xs \<Longrightarrow>
   zip_assign f xs ys ! i = (if i < length ys then f (xs ! i) (ys ! i) else xs ! i)"
  by (induction f xs ys arbitrary: i rule: zip_assign.induct) (auto simp: nth_Cons split: nat.splits)

lemma nth_default_zip_assign:
  assumes "length ys \<le> length xs" and "\<And>x. f x 0 = x"
  shows "nth_default 0 (zip_assign f xs ys) i =
    (if i < length xs then f (nth_default 0 xs i) (nth_default 0 ys i) else (0::'a::zero))"
  using assms by (auto simp: nth_default_def nth_zip_assign)

lemma nth_default_update:
  "nth_default d (xs[i := x]) j = (if j = i \<and> i < length xs then x else nth_default d xs j)"
  by (auto simp: nth_default_def)

lemma nth_resize: "i < n \<Longrightarrow> length xs \<le> n \<Longrightarrow> resize n d xs ! i = nth_default d xs i"
  by (simp add: resize_def nth_append nth_default_def)

lemma zip_assign_Nil2 [simp]: "zip_assign f xs [] = xs"
  by (cases xs) auto

text \<open>\<open>chunks(n)\<close>: consecutive blocks of \<open>n\<close> elements, the last one possibly shorter.\<close>

function chunks :: "nat \<Rightarrow> 'a list \<Rightarrow> 'a list list" where
  "chunks n xs = (if xs = [] \<or> n = 0 then [] else take n xs # chunks n (drop n xs))"
  by pat_completeness auto
termination
  by (relation "measure (\<lambda>(n, xs). length xs)") auto

declare chunks.simps [simp del]

lemma chunks_Nil [simp]: "chunks n [] = []"
  by (subst chunks.simps) simp

lemma chunks_step: "xs \<noteq> [] \<Longrightarrow> 0 < n \<Longrightarrow> chunks n xs = take n xs # chunks n (drop n xs)"
  by (subst chunks.simps) simp

lemma chunks_short: "xs \<noteq> [] \<Longrightarrow> length xs \<le> n \<Longrightarrow> chunks n xs = [xs]"
proof -
  assume "xs \<noteq> []" "length xs \<le> n"
  then have "0 < n" by (cases xs) auto
  with \<open>xs \<noteq> []\<close> \<open>length xs \<le> n\<close> show ?thesis by (subst chunks_step) auto
qed

lemma chunks_full_prefix: "0 < n \<Longrightarrow> length xs = n \<Longrightarrow> chunks n (xs @ ys) = xs # chunks n ys"
  by (subst chunks_step) auto

lemma concat_chunks: "0 < n \<Longrightarrow> concat (chunks n xs) = xs"
proof (induction n xs rule: chunks.induct)
  case (1 n xs)
  then show ?case by (cases "xs = []") (simp_all add: chunks_step)
qed

lemma chunks_bounds: "ys \<in> set (chunks n xs) \<Longrightarrow> ys \<noteq> [] \<and> length ys \<le> n \<and> set ys \<subseteq> set xs"
proof (induction n xs rule: chunks.induct)
  case (1 n xs)
  show ?case
  proof (cases "xs = [] \<or> n = 0")
    case True
    with 1(2) show ?thesis by (simp add: chunks.simps [of n xs])
  next
    case False
    then consider "ys = take n xs" | "ys \<in> set (chunks n (drop n xs))"
      using 1(2) by (auto simp: chunks.simps [of n xs])
    then show ?thesis
    proof cases
      case 1
      with False show ?thesis by (auto dest: in_set_takeD)
    next
      case 2
      with 1(1) [OF False] show ?thesis by (auto dest: in_set_dropD)
    qed
  qed
qed

lemma length_chunks_le: "length (chunks n xs) \<le> length xs"
proof (induction n xs rule: chunks.induct)
  case (1 n xs)
  show ?case
  proof (cases "xs = [] \<or> n = 0")
    case False
    then have "chunks n xs = take n xs # chunks n (drop n xs)" and "length (drop n xs) < length xs"
      by (auto simp: chunks_step)
    with 1 [OF False] show ?thesis by simp
  qed (auto simp: chunks.simps [of 0])
qed

lemma length_chunks_less:
  assumes "1 < n" "1 < length xs"
  shows "length (chunks n xs) < length xs"
proof -
  have "chunks n xs = take n xs # chunks n (drop n xs)"
    using assms by (intro chunks_step) auto
  with assms length_chunks_le [of n "drop n xs"] show ?thesis
    by (cases "length xs \<le> n") auto
qed

text \<open>Vectors without trailing zeros.\<close>

definition no_trailing_zero :: "'a::zero list \<Rightarrow> bool" where
  "no_trailing_zero xs \<longleftrightarrow> (xs \<noteq> [] \<longrightarrow> last xs \<noteq> 0)"

lemma no_trailing_zero_Nil [simp]: "no_trailing_zero []"
  by (simp add: no_trailing_zero_def)

lemma no_trailing_zero_length_le:
  assumes nz: "no_trailing_zero ys" and le: "\<And>i. nth_default 0 ys i \<noteq> 0 \<Longrightarrow> i < n"
  shows "length ys \<le> n"
proof (cases "ys = []")
  case False
  then have "nth_default 0 ys (length ys - 1) \<noteq> 0"
    using nz by (simp add: no_trailing_zero_def nth_default_def last_conv_nth)
  from le [OF this] show ?thesis by simp
qed simp

end
