(* ===== verification/Clock.thy ===== *)
theory Clock
  imports Prelude
begin

text \<open>
  The logical clocks of \<open>crates/clock/src/clock.rs\<close>: Lamport timestamps and version vectors
  (\<open>Global\<close>). Sequence numbers are \<open>u32\<close>, replica identifiers \<open>u16\<close>; both are kept at
  their width, and additions wrap as they do in a release build.
\<close>

unbundle bit_operations_syntax

section \<open>Replica identifiers and Lamport timestamps\<close>

type_synonym replica_id = "16 word"
type_synonym seq = "32 word"

definition LOCAL :: replica_id where "LOCAL = 0"
definition REMOTE_SERVER :: replica_id where "REMOTE_SERVER = 1"
definition AGENT :: replica_id where "AGENT = 2"
definition LOCAL_BRANCH :: replica_id where "LOCAL_BRANCH = 3"
definition FIRST_COLLAB_ID :: replica_id where "FIRST_COLLAB_ID = 8"

definition is_remote :: "replica_id \<Rightarrow> bool" where
  "is_remote r \<longleftrightarrow> r = REMOTE_SERVER \<or> r \<ge> FIRST_COLLAB_ID"

datatype lamport = Lamport (lamport_value: seq) (lamport_replica: replica_id)

text \<open>\<open>impl Ord for Lamport\<close>: compare the values, break ties by the replica.\<close>

definition lamport_cmp :: "lamport \<Rightarrow> lamport \<Rightarrow> ordering" where
  "lamport_cmp a b =
     then_with (ord_cmp (lamport_value a) (lamport_value b)) (ord_cmp (lamport_replica a) (lamport_replica b))"

instantiation lamport :: linorder
begin

definition less_eq_lamport :: "lamport \<Rightarrow> lamport \<Rightarrow> bool" where
  "less_eq_lamport a b \<longleftrightarrow>
     lamport_value a < lamport_value b \<or>
     lamport_value a = lamport_value b \<and> lamport_replica a \<le> lamport_replica b"

definition less_lamport :: "lamport \<Rightarrow> lamport \<Rightarrow> bool" where
  "less_lamport a b \<longleftrightarrow>
     lamport_value a < lamport_value b \<or>
     lamport_value a = lamport_value b \<and> lamport_replica a < lamport_replica b"

instance
  by standard (auto simp: less_eq_lamport_def less_lamport_def lamport.expand)

end

lemma lamport_cmp_order: "lamport_cmp a b = ord_cmp a b"
  by (auto simp: lamport_cmp_def ord_cmp_def less_lamport_def lamport.expand)

definition lamport_MIN :: lamport where "lamport_MIN = Lamport 0 0"
definition lamport_MAX :: lamport where "lamport_MAX = Lamport (- 1) (- 1)"

definition lamport_new :: "replica_id \<Rightarrow> lamport" where
  "lamport_new r = Lamport 1 r"

definition as_u64 :: "lamport \<Rightarrow> 64 word" where
  "as_u64 t = push_bit 32 (ucast (lamport_value t)) OR ucast (lamport_replica t)"

lemma lamport_MIN_least [simp]: "lamport_MIN \<le> t"
  by (simp add: lamport_MIN_def less_eq_lamport_def word_coorder.extremum_strict word_le_less_eq flip: word_neq_0_conv)

text \<open>\<open>tick\<close> returns the old timestamp and advances the clock; the pair is (result, clock).\<close>

definition tick :: "lamport \<Rightarrow> lamport \<times> lamport" where
  "tick c = (c, Lamport (lamport_value c + 1) (lamport_replica c))"

definition lamport_observe :: "lamport \<Rightarrow> lamport \<Rightarrow> lamport" where
  "lamport_observe c t =
     Lamport (max (lamport_value c) (lamport_value t) + 1) (lamport_replica c)"

section \<open>Version vectors\<close>

record global =
  g_values :: "seq list"

definition global_new :: global where
  "global_new = \<lparr>g_values = []\<rparr>"

definition global_get :: "global \<Rightarrow> replica_id \<Rightarrow> seq" where
  "global_get g r = (if unat r < length (g_values g) then g_values g ! unat r else 0)"

definition observe :: "global \<Rightarrow> lamport \<Rightarrow> global" where
  "observe g t =
     (if lamport_value t > 0 then
        let i = unat (lamport_replica t);
            new_len = i + 1;
            vs = (if new_len > length (g_values g) then resize new_len 0 (g_values g)
                  else g_values g)
        in g\<lparr>g_values := vs[i := max (vs ! i) (lamport_value t)]\<rparr>
      else g)"

definition join :: "global \<Rightarrow> global \<Rightarrow> global" where
  "join g other =
     (let vs = (if length (g_values other) > length (g_values g)
                then resize (length (g_values other)) 0 (g_values g) else g_values g)
      in g\<lparr>g_values := zip_assign max vs (g_values other)\<rparr>)"

text \<open>The body of the loop of \<open>meet\<close>, and the loop with its running \<open>new_len\<close>.\<close>

fun meet_entry :: "seq \<Rightarrow> seq \<Rightarrow> seq" where
  "meet_entry l r = (if l = 0 then r else if r = 0 then l else min l r)"

fun meet_loop :: "nat \<Rightarrow> nat \<Rightarrow> seq list \<Rightarrow> seq list \<Rightarrow> seq list \<times> nat" where
  "meet_loop ix new_len (l # ls) (r # rs) =
     (let l' = meet_entry l r;
          new_len' = (if l' \<noteq> 0 then ix + 1 else new_len);
          (ls', n) = meet_loop (ix + 1) new_len' ls rs
      in (l' # ls', n))"
| "meet_loop ix new_len ls rs = (ls, new_len)"

definition meet :: "global \<Rightarrow> global \<Rightarrow> global" where
  "meet g other =
     (let vs = (if length (g_values other) > length (g_values g)
                then resize (length (g_values other)) 0 (g_values g) else g_values g);
          (vs', new_len) = meet_loop 0 0 vs (g_values other)
      in g\<lparr>g_values := (if length (g_values other) = length vs' then take new_len vs' else vs')\<rparr>)"

definition observed :: "global \<Rightarrow> lamport \<Rightarrow> bool" where
  "observed g t \<longleftrightarrow> global_get g (lamport_replica t) \<ge> lamport_value t"

definition global_iter :: "global \<Rightarrow> lamport list" where
  "global_iter g = map (\<lambda>(i, v). Lamport v (of_nat i)) (enumerate 0 (g_values g))"

definition observed_any :: "global \<Rightarrow> global \<Rightarrow> bool" where
  "observed_any g other \<longleftrightarrow>
     list_ex (\<lambda>(l, r). lamport_value r > 0 \<and> lamport_value l \<ge> lamport_value r)
       (zip (global_iter g) (global_iter other))"

definition observed_all :: "global \<Rightarrow> global \<Rightarrow> bool" where
  "observed_all g other \<longleftrightarrow>
     (if length (g_values g) < length (g_values other) then False
      else list_all (\<lambda>(l, r). lamport_value l \<ge> lamport_value r)
             (zip (global_iter g) (global_iter other)))"

definition changed_since :: "global \<Rightarrow> global \<Rightarrow> bool" where
  "changed_since g other \<longleftrightarrow>
     length (g_values g) > length (g_values other) \<or>
     list_ex (\<lambda>(l, r). l > r) (zip (g_values g) (g_values other))"

text \<open>\<open>Iterator::max_by_key\<close> returns the last of several maximal elements.\<close>

fun max_by_value :: "lamport \<Rightarrow> lamport list \<Rightarrow> lamport" where
  "max_by_value m [] = m"
| "max_by_value m (t # ts) =
     max_by_value (if lamport_value m \<le> lamport_value t then t else m) ts"

definition most_recent :: "global \<Rightarrow> lamport option" where
  "most_recent g = (case global_iter g of [] \<Rightarrow> None | t # ts \<Rightarrow> Some (max_by_value t ts))"

definition global_from_iter :: "lamport list \<Rightarrow> global" where
  "global_from_iter ts = foldl observe global_new ts"

section \<open>Pointwise readings of the operations\<close>

abbreviation val :: "global \<Rightarrow> nat \<Rightarrow> seq" where
  "val g i \<equiv> nth_default 0 (g_values g) i"

lemma global_get_eq: "global_get g r = val g (unat r)"
  by (simp add: global_get_def nth_default_def)

lemma unat_replica_less [simp]: "unat (r :: replica_id) < 65536"
  by (rule order.strict_trans2 [OF unsigned_less]) simp

lemma uint_as_u64: "uint (as_u64 t) = uint (lamport_value t) * 2 ^ 32 + uint (lamport_replica t)"
proof -
  have "as_u64 t = push_bit 32 (ucast (lamport_value t)) + ucast (lamport_replica t)"
    unfolding as_u64_def
    by (rule disjunctive_add_eq_or [symmetric]) 
      (rule bit_eqI, auto simp: bit_simps dest: bit_imp_le_length)
  moreover have "uint (push_bit 32 (ucast (lamport_value t) :: 64 word)) = uint (lamport_value t) * 2 ^ 32"
    using uint_lt2p [of "lamport_value t"]
    by (simp add: push_bit_eq_mult uint_word_ariths unsigned_ucast_eq take_bit_eq_mod)
  moreover have "uint (ucast (lamport_replica t) :: 64 word) = uint (lamport_replica t)"
    using uint_lt2p [of "lamport_replica t"]
    by (simp add: unsigned_ucast_eq take_bit_eq_mod)
  ultimately show ?thesis
    using uint_lt2p [of "lamport_value t"] uint_lt2p [of "lamport_replica t"]
    by (simp add: uint_word_ariths)
qed

lemma lex_int_less:
  fixes v w r s :: int
  assumes "0 \<le> r" "r < 65536" "0 \<le> s" "s < 65536"
  shows "v * 2 ^ 32 + r < w * 2 ^ 32 + s \<longleftrightarrow> v < w \<or> v = w \<and> r < s"
proof (cases "v < w \<or> v = w")
  case True then show ?thesis using assms by auto
next
  case False then show ?thesis using assms by auto
qed

lemma as_u64_less: "as_u64 a < as_u64 b \<longleftrightarrow> a < b"
proof -
  have "uint (lamport_replica a) < 65536" "uint (lamport_replica b) < 65536"
    using uint_lt2p [of "lamport_replica a"] uint_lt2p [of "lamport_replica b"] by auto
  then show ?thesis
    unfolding word_less_def uint_as_u64 less_lamport_def word_uint_eq_iff
    by (intro lex_int_less) simp_all
qed


lemma length_observe:
  "length (g_values (observe g t)) =
    (if lamport_value t = 0 then length (g_values g)
     else max (length (g_values g)) (unat (lamport_replica t) + 1))"
  by (simp add: observe_def Let_def word_gt_0 max_def)

lemma val_observe:
  "val (observe g t) i =
    (if i = unat (lamport_replica t) then max (val g i) (lamport_value t) else val g i)"
  by (simp add: observe_def nth_default_update Let_def word_gt_0 nth_resize nth_default_nth)

lemma length_join: "length (g_values (join a b)) = max (length (g_values a)) (length (g_values b))"
  by (simp add: join_def Let_def max_def)

lemma val_join: "val (join a b) i = max (val a i) (val b i)"
proof -
  have "max (x :: seq) 0 = x" for x by simp
  then show ?thesis
    by (simp add: join_def Let_def nth_default_zip_assign) (auto simp: nth_default_def)
qed

lemma meet_entry_0 [simp]: "meet_entry l 0 = l" by simp
declare meet_entry.simps [simp del]

lemma meet_loop_values: "fst (meet_loop ix n ls rs) = zip_assign meet_entry ls rs"
  by (induction ix n ls rs rule: meet_loop.induct) (auto simp: Let_def split: prod.splits)

lemma meet_loop_len_ge:
  "n \<le> ix \<Longrightarrow> n \<le> snd (meet_loop ix n ls rs)"
  by (induction ix n ls rs rule: meet_loop.induct) (force simp: Let_def split: prod.splits)+

lemma meet_loop_covers:
  assumes "n \<le> ix" "i < length ls" "i < length rs" "zip_assign meet_entry ls rs ! i \<noteq> 0"
  shows "ix + i < snd (meet_loop ix n ls rs)"
  using assms
proof (induction ix n ls rs arbitrary: i rule: meet_loop.induct)
  case (1 ix n l ls r rs)
  show ?case
  proof (cases i)
    case 0
    then show ?thesis
      using 1(2,5) meet_loop_len_ge [of "ix + 1" "ix + 1" ls rs]
      by (auto simp: Let_def split: prod.splits)
  next
    case (Suc j)
    then show ?thesis using 1(2-) 1(1) [OF refl refl, of j]
      by (auto simp: Let_def split: prod.splits if_splits)
  qed
qed auto

lemma meet_loop_tight:
  assumes "n \<le> ix"
  shows "snd (meet_loop ix n ls rs) = n \<or>
    (ix < snd (meet_loop ix n ls rs) \<and>
     snd (meet_loop ix n ls rs) \<le> ix + min (length ls) (length rs) \<and>
     zip_assign meet_entry ls rs ! (snd (meet_loop ix n ls rs) - 1 - ix) \<noteq> 0)"
  using assms
proof (induction ix n ls rs rule: meet_loop.induct)
  case (1 ix n l ls r rs)
  define n' where "n' = (if meet_entry l r \<noteq> 0 then ix + 1 else n)"
  define m where "m = snd (meet_loop (ix + 1) n' ls rs)"
  have m: "snd (meet_loop ix n (l # ls) (r # rs)) = m"
    by (simp add: m_def n'_def Let_def split: prod.splits)
  have "m = n' \<or> (ix + 1 < m \<and> m \<le> ix + 1 + min (length ls) (length rs) \<and>
      zip_assign meet_entry ls rs ! (m - 1 - (ix + 1)) \<noteq> 0)"
    unfolding m_def n'_def using 1(1) [OF refl refl] 1(2) by auto
  then show ?case
    unfolding m by (auto simp: n'_def nth_Cons' split: if_splits)
qed auto


lemma meet_cases:
  fixes a b :: global
  defines "vs \<equiv> (if length (g_values b) > length (g_values a)
     then resize (length (g_values b)) 0 (g_values a) else g_values a)"
  defines "zs \<equiv> zip_assign meet_entry vs (g_values b)"
  obtains (longer) "length (g_values b) < length (g_values a)" "g_values (meet a b) = zs"
  | (truncated) m where "length (g_values a) \<le> length (g_values b)" "length vs = length (g_values b)"
      "g_values (meet a b) = take m zs" "m \<le> length zs"
      "m = 0 \<or> zs ! (m - 1) \<noteq> 0" "\<And>i. i < length zs \<Longrightarrow> zs ! i \<noteq> 0 \<Longrightarrow> i < m"
proof -
  define m where "m = snd (meet_loop 0 0 vs (g_values b))"
  have loop: "meet_loop 0 0 vs (g_values b) = (zs, m)"
    by (simp add: zs_def m_def meet_loop_values prod_eq_iff)
  have eq: "g_values (meet a b) = (if length (g_values b) = length vs then take m zs else zs)"
    unfolding meet_def vs_def [symmetric] Let_def loop by (simp add: zs_def)
  have len: "length vs = max (length (g_values a)) (length (g_values b))" by (simp add: vs_def)
  show ?thesis
  proof (cases "length (g_values a) \<le> length (g_values b)")
    case True
    show ?thesis
    proof (rule truncated [of m])
      show "m \<le> length zs" "m = 0 \<or> zs ! (m - 1) \<noteq> 0"
        using meet_loop_tight [of 0 0 vs "g_values b"] len by (auto simp: m_def zs_def)
      show "i < m" if "i < length zs" "zs ! i \<noteq> 0" for i
        using meet_loop_covers [of 0 0 i vs "g_values b"] that len True by (simp add: m_def zs_def)
    qed (use True eq len in auto)
  next
    case False
    show ?thesis by (rule longer) (use False eq len in auto)
  qed
qed

lemma val_meet: "val (meet a b) i = meet_entry (val a i) (val b i)"
proof -
  define vs where "vs = (if length (g_values b) > length (g_values a)
     then resize (length (g_values b)) 0 (g_values a) else g_values a)"
  define zs where "zs = zip_assign meet_entry vs (g_values b)"
  have len: "length (g_values b) \<le> length vs" by (simp add: vs_def)
  have vs: "nth_default 0 vs = val a" by (simp add: vs_def)
  have zs: "nth_default 0 zs i = meet_entry (val a i) (val b i)"
  proof -
    have "nth_default 0 vs i = 0 \<and> val b i = 0" if "\<not> i < length vs"
      using len that by (simp add: nth_default_def)
    then show ?thesis
      using len by (auto simp: zs_def nth_default_zip_assign vs [symmetric] meet_entry.simps)
  qed
  have "val (meet a b) i = nth_default 0 zs i"
  proof (cases a b rule: meet_cases)
    case longer then show ?thesis by (simp add: zs_def vs_def)
  next
    case (truncated m)
    then have "i < length zs \<Longrightarrow> zs ! i \<noteq> 0 \<Longrightarrow> i < m" by (simp add: zs_def vs_def)
    then have "nth_default 0 (take m zs) i = nth_default 0 zs i"
      by (cases "i < length zs \<and> zs ! i \<noteq> 0") (auto simp: nth_default_def)
    moreover have "val (meet a b) = nth_default 0 (take m zs)"
      using truncated(3) by (simp add: zs_def vs_def)
    ultimately show ?thesis by simp
  qed
  with zs show ?thesis by simp
qed

lemma meet_last:
  assumes "length (g_values a) \<le> length (g_values b)"
  shows "length (g_values (meet a b)) \<le> length (g_values b) \<and>
    (g_values (meet a b) = [] \<or> val (meet a b) (length (g_values (meet a b)) - 1) \<noteq> 0)"
proof (cases a b rule: meet_cases)
  case longer with assms show ?thesis by simp
next
  case (truncated m)
  then show ?thesis by (cases "m = 0") (auto simp: nth_default_def)
qed

lemma length_meet_longer:
  "length (g_values b) < length (g_values a) \<Longrightarrow> length (g_values (meet a b)) = length (g_values a)"
  by (cases a b rule: meet_cases) auto

text \<open>Representation invariant\<close>
definition global_wf :: "global \<Rightarrow> bool" where
  "global_wf g \<longleftrightarrow> no_trailing_zero (g_values g) \<and> length (g_values g) \<le> 65536"

lemma global_wf_iff:
  "global_wf g \<longleftrightarrow> length (g_values g) \<le> 65536 \<and>
    (length (g_values g) = 0 \<or> val g (length (g_values g) - 1) \<noteq> 0)"
  by (cases "g_values g = []") (auto simp: global_wf_def no_trailing_zero_def nth_default_def last_conv_nth)

lemma wf_new [wf_intros]: "global_wf global_new"
  by (simp add: global_wf_def global_new_def)

lemma wf_observe [wf_intros]: "global_wf g \<Longrightarrow> global_wf (observe g t)"
proof (cases "lamport_value t = 0")
  case True
  then show "global_wf g \<Longrightarrow> global_wf (observe g t)" by (simp add: observe_def)
next
  case False
  then show "global_wf g \<Longrightarrow> global_wf (observe g t)"
    using unat_replica_less [of "lamport_replica t"]
    by (auto simp: global_wf_iff length_observe val_observe max_def word_le_nat_alt unat_eq_0
        simp del: unat_replica_less)
qed

lemma wf_join [wf_intros]: "global_wf a \<Longrightarrow> global_wf b \<Longrightarrow> global_wf (join a b)"
  by (auto simp: global_wf_iff length_join val_join max_def)

lemma wf_meet [wf_intros]: "global_wf a \<Longrightarrow> global_wf b \<Longrightarrow> global_wf (meet a b)"
proof (cases "length (g_values a) \<le> length (g_values b)")
  case True
  then show "global_wf a \<Longrightarrow> global_wf b \<Longrightarrow> global_wf (meet a b)"
    using meet_last [OF True] by (auto simp: global_wf_iff)
next
  case False
  then show "global_wf a \<Longrightarrow> global_wf b \<Longrightarrow> global_wf (meet a b)"
    by (auto simp: global_wf_iff val_meet meet_entry.simps length_meet_longer min_def)
qed

lemma length_iter [simp]: "length (global_iter g) = length (g_values g)"
  by (simp add: global_iter_def)

lemma nth_iter [simp]:
  "i < length (g_values g) \<Longrightarrow> global_iter g ! i = Lamport (g_values g ! i) (of_nat i)"
  by (simp add: global_iter_def nth_enumerate_eq)

text \<open>Comparisons of normalised vectors\<close>

lemma observed_all_val:
  assumes "global_wf b"
  shows "observed_all a b \<longleftrightarrow> (\<forall>i. val b i \<le> val a i)"
proof (cases "length (g_values a) < length (g_values b)")
  case True
  then have "val b (length (g_values b) - 1) \<noteq> 0" "val a (length (g_values b) - 1) = 0"
    using assms by (auto simp: global_wf_iff nth_default_def)
  then have "\<not> val b (length (g_values b) - 1) \<le> val a (length (g_values b) - 1)" by simp
  with True show ?thesis by (auto simp: observed_all_def)
next
  case False
  then show ?thesis by (auto simp: observed_all_def list_all_length nth_default_def)
qed

lemma changed_since_val:
  assumes "global_wf a"
  shows "changed_since a b \<longleftrightarrow> (\<exists>i. val b i < val a i)"
proof (cases "length (g_values b) < length (g_values a)")
  case True
  then have "val a (length (g_values a) - 1) \<noteq> 0" "val b (length (g_values a) - 1) = 0"
    using assms by (auto simp: global_wf_iff nth_default_def)
  then have "val b (length (g_values a) - 1) < val a (length (g_values a) - 1)"
    by (simp add: word_gt_0)
  with True show ?thesis by (auto simp: changed_since_def)
next
  case False
  then have "changed_since a b \<longleftrightarrow> (\<exists>i < length (g_values a). g_values b ! i < g_values a ! i)"
    by (simp add: changed_since_def list_ex_length min_absorb1 cong: conj_cong)
  moreover have "val b i < val a i \<longleftrightarrow> i < length (g_values a) \<and> g_values b ! i < g_values a ! i" for i
    using False by (cases "i < length (g_values a)") (simp_all add: nth_default_def)
  ultimately show ?thesis by simp
qed

lemma val_replica:
  assumes "global_wf g" "val g i \<noteq> 0"
  shows "val g i = global_get g (of_nat i)"
proof -
  from assms have "i < 65536" by (auto simp: global_wf_iff nth_default_def split: if_splits)
  then show ?thesis by (simp add: global_get_eq unat_of_nat)
qed

lemma observed_all_get:
  assumes "global_wf b"
  shows "observed_all a b \<longleftrightarrow> (\<forall>r. global_get b r \<le> global_get a r)"
  unfolding observed_all_val [OF assms]
proof safe
  fix i assume all: "\<forall>r. global_get b r \<le> global_get a r"
  show "val b i \<le> val a i"
  proof (cases "val b i = 0")
    case False
    then have "i < 65536" using assms by (auto simp: global_wf_iff nth_default_def split: if_splits)
    then show ?thesis using all [rule_format, of "of_nat i"] by (simp add: global_get_eq unat_of_nat)
  qed simp
qed (simp add: global_get_eq)

lemma changed_since_get:
  assumes "global_wf a"
  shows "changed_since a b \<longleftrightarrow> (\<exists>r. global_get b r < global_get a r)"
  unfolding changed_since_val [OF assms]
proof safe
  fix i assume lt: "val b i < val a i"
  then have "val a i \<noteq> 0" by auto
  then have "i < 65536" using assms by (auto simp: global_wf_iff nth_default_def split: if_splits)
  with lt show "\<exists>r. global_get b r < global_get a r"
    by (intro exI [of _ "of_nat i"]) (simp add: global_get_eq unat_of_nat)
qed (auto simp: global_get_eq)

lemma global_eqI:
  assumes "global_wf a" "global_wf b" "\<And>r. global_get a r = global_get b r"
  shows "a = b"
proof -
  have le: "length (g_values x) \<le> length (g_values y)"
    if "global_wf x" "\<And>i. val x i = val y i" for x y
    using that unfolding global_wf_def
    by (intro no_trailing_zero_length_le) (auto simp: nth_default_def split: if_splits)
  have v: "val a i = val b i" for i
    using observed_all_val [OF assms(1), of b] observed_all_val [OF assms(2), of a]
      observed_all_get [OF assms(1), of b] observed_all_get [OF assms(2), of a] assms(3)
    by (simp add: antisym)
  have "length (g_values a) = length (g_values b)"
    using le [of a b] le [of b a] v assms by (simp add: antisym)
  then have "g_values a = g_values b"
    using v by (metis nth_default_nth nth_equalityI)
  then show ?thesis by simp
qed

lemma observe_get:
  "global_get (observe g t) r =
    (if r = lamport_replica t then max (global_get g r) (lamport_value t) else global_get g r)"
  by (simp add: global_get_eq val_observe flip: word_unat_eq_iff)

lemma join_get: "global_get (join a b) r = max (global_get a r) (global_get b r)"
  by (simp add: global_get_eq val_join)

lemma meet_get: "global_get (meet a b) r = meet_entry (global_get a r) (global_get b r)"
  by (simp add: global_get_eq val_meet)

lemma wf_from_iter [wf_intros]: "global_wf (global_from_iter ts)"
proof -
  have "global_wf g \<Longrightarrow> global_wf (foldl observe g ts)" for g
    by (induction ts arbitrary: g) (auto intro: wf_intros)
  then show ?thesis by (simp add: global_from_iter_def wf_new)
qed

lemma seq_less_plus_1: "(x :: seq) < - 1 \<Longrightarrow> x < x + 1"
  by uint_arith

section \<open>Properties\<close>

text \<open>
  The 64-bit encoding of a Lamport timestamp (value in the high word, replica in the low
  bits) orders exactly as \<open>cmp\<close> orders the timestamps, so it can be used as a sort key.
\<close>

theorem as_u64_order_embedding:
  "(as_u64 a < as_u64 b \<longleftrightarrow> a < b) \<and> ord_cmp (as_u64 a) (as_u64 b) = lamport_cmp a b"
  using as_u64_less [of a b] as_u64_less [of b a] by (auto simp: lamport_cmp_order ord_cmp_def)

text \<open>
  C28: unless the 32-bit counter overflows, a clock that has observed a timestamp hands out
  next a timestamp later than the observed one and than every earlier one of its own; the
  replica stays.
\<close>

theorem observe_then_tick_is_later:
  assumes "lamport_value c < - 1" and "lamport_value t < - 1"
  shows "t < fst (tick (lamport_observe c t)) \<and> c < fst (tick (lamport_observe c t)) \<and>
    lamport_replica (fst (tick (lamport_observe c t))) = lamport_replica c"
  using assms seq_less_plus_1 [of "max (lamport_value c) (lamport_value t)"]
  by (auto simp: tick_def lamport_observe_def less_lamport_def max_def)

theorem observe_then_tick_is_later_witness:
  "Lamport 7 2 < fst (tick (lamport_observe (Lamport 3 1) (Lamport 7 2)))"
  using observe_then_tick_is_later [of "Lamport 3 1" "Lamport 7 2"] by simp

text \<open>
  On well-formed version vectors \<open>join\<close> is the least upper bound of the order
  \<open>observed_all\<close>, and it is well-formed again.
\<close>

theorem join_is_least_upper_bound:
  assumes "global_wf a" and "global_wf b"
  shows "global_wf (join a b) \<and> observed_all (join a b) a \<and> observed_all (join a b) b \<and>
    (\<forall>c. observed_all c a \<and> observed_all c b \<longleftrightarrow> observed_all c (join a b))"
  using assms wf_join [OF assms]
  by (auto simp: observed_all_get join_get intro: order.trans [OF max.cobounded1] order.trans [OF max.cobounded2])

theorem join_is_least_upper_bound_witness:
  "observed_all (join \<lparr>g_values = [1, 5]\<rparr> \<lparr>g_values = [2]\<rparr>) \<lparr>g_values = [2]\<rparr>"
  using join_is_least_upper_bound [of "\<lparr>g_values = [1, 5]\<rparr>" "\<lparr>g_values = [2]\<rparr>"]
  by (simp add: global_wf_def no_trailing_zero_def)

text \<open>
  \<open>meet\<close> takes the other vector's entry where this one has observed nothing, keeps its
  own where the other has observed nothing and takes the minimum elsewhere; the truncation it
  performs at the end loses no entry and leaves a well-formed vector.
\<close>

theorem meet_pointwise:
  assumes "global_wf a" and "global_wf b"
  shows "global_wf (meet a b) \<and>
    (\<forall>r. global_get (meet a b) r =
      (if global_get a r = 0 then global_get b r
       else if global_get b r = 0 then global_get a r
       else min (global_get a r) (global_get b r)))"
  using assms by (simp add: wf_meet meet_get meet_entry.simps)

theorem meet_pointwise_witness:
  "global_get (meet \<lparr>g_values = [0, 5]\<rparr> \<lparr>g_values = [2, 3, 9]\<rparr>) 1 = 3"
proof -
  have wf: "global_wf \<lparr>g_values = [0, 5]\<rparr>" "global_wf \<lparr>g_values = [2, 3, 9]\<rparr>"
    by (simp_all add: global_wf_def no_trailing_zero_def)
  show ?thesis
    using meet_pointwise [OF wf, THEN conjunct2, rule_format, of 1] by (simp add: global_get_def)
qed

text \<open>
  \<open>changed_since\<close>, which compares lengths and then entries, is exactly the failure of
  \<open>observed_all\<close> in the other direction: a vector has changed since another one iff the other
  one has not observed all of it.
\<close>

theorem changed_since_iff_not_observed:
  assumes "global_wf a"
  shows "changed_since a b \<longleftrightarrow> \<not> observed_all b a"
  using assms by (auto simp: changed_since_get observed_all_get not_le)

theorem changed_since_iff_not_observed_witness:
  "changed_since \<lparr>g_values = [0, 1]\<rparr> \<lparr>g_values = [9]\<rparr>"
  using changed_since_iff_not_observed [of "\<lparr>g_values = [0, 1]\<rparr>" "\<lparr>g_values = [9]\<rparr>"]
  by (simp add: global_wf_def no_trailing_zero_def observed_all_def)

end
