(* ===== verification/Locator.thy ===== *)
theory Locator
  imports Prelude "HOL-Library.List_Lexorder"
begin

text \<open>
  Position identifiers of \<open>crates/text/src/locator.rs\<close>: dense, lexicographically ordered
  sequences of 64-bit digits, from which \<open>Locator::between\<close> picks a new one strictly between
  two others. The infinite iterators of the source (\<open>chain(iter::repeat(..))\<close>) are the
  default digit read once a list is exhausted.
\<close>

section \<open>Locators\<close>

type_synonym u64 = "64 word"

datatype locator = Locator (digits: "u64 list")

text \<open>\<open>#[derive(PartialOrd, Ord)]\<close> on the vector of digits: lexicographic.\<close>

instantiation locator :: linorder
begin

definition less_eq_locator :: "locator \<Rightarrow> locator \<Rightarrow> bool" where
  "less_eq_locator a b \<longleftrightarrow> digits a \<le> digits b"

definition less_locator :: "locator \<Rightarrow> locator \<Rightarrow> bool" where
  "less_locator a b \<longleftrightarrow> digits a < digits b"

instance
  by standard (auto simp: less_eq_locator_def less_locator_def locator.expand)

end

definition locator_min :: locator where "locator_min = Locator [0]"
definition locator_max :: locator where "locator_max = Locator [- 1]"

definition locator_len :: "locator \<Rightarrow> nat" where "locator_len l = length (digits l)"

definition locator_is_empty :: "locator \<Rightarrow> bool" where
  "locator_is_empty l \<longleftrightarrow> locator_len l = 0"

text \<open>\<open>assign\<close> resizes to the other's length and then copies its digits over.\<close>

definition assign :: "locator \<Rightarrow> locator \<Rightarrow> locator" where
  "assign self other =
     Locator (zip_assign (\<lambda>_ d. d) (resize (length (digits other)) 0 (digits self)) (digits other))"

definition saturating_sub :: "u64 \<Rightarrow> u64 \<Rightarrow> u64" where
  "saturating_sub a b = (if b \<le> a then a - b else 0)"

text \<open>One digit of the loop of \<open>between\<close>.\<close>

definition mid_digit :: "u64 \<Rightarrow> u64 \<Rightarrow> u64" where
  "mid_digit l r = l + drop_bit 48 (saturating_sub r l)"

definition next_digit :: "u64 \<Rightarrow> u64 list \<Rightarrow> u64" where
  "next_digit d xs = (case xs of [] \<Rightarrow> d | x # _ \<Rightarrow> x)"

function between_digits :: "u64 list \<Rightarrow> u64 list \<Rightarrow> u64 list" where
  "between_digits ls rs =
     (let l = next_digit 0 ls; r = next_digit (- 1) rs; mid = mid_digit l r
      in if mid > l then [mid] else mid # between_digits (tl ls) (tl rs))"
  by pat_completeness auto
termination
proof (relation "measure (\<lambda>(ls, rs). length ls + length rs)", goal_cases)
  case (2 ls rs l r mid)
  have "ls \<noteq> [] \<or> rs \<noteq> []"
  proof (rule ccontr)
    assume "\<not> (ls \<noteq> [] \<or> rs \<noteq> [])"
    then have "ls = [] \<and> rs = []" by simp
    with 2 have "mid = drop_bit 48 (- 1)"
      by (simp add: next_digit_def mid_digit_def saturating_sub_def)
    with 2 \<open>ls = [] \<and> rs = []\<close> show False by (simp add: next_digit_def drop_bit_eq_div)
  qed
  then show ?case by (auto simp: neq_Nil_conv)
qed auto

declare between_digits.simps [simp del]

definition between :: "locator \<Rightarrow> locator \<Rightarrow> locator" where
  "between lhs rhs = Locator (between_digits (digits lhs) (digits rhs))"

section \<open>Lemmas\<close>

lemma assign_eq [simp]: "assign self other = other"
proof -
  have "length xs = length ys \<Longrightarrow> zip_assign (\<lambda>_ d. d) xs ys = ys" for xs ys :: "u64 list"
    by (induction xs ys rule: list_induct2) auto
  then show ?thesis by (cases other) (simp add: assign_def)
qed

lemma mid_digit_ge: "l \<le> mid_digit l r"
  and mid_digit_eq: "r \<le> l \<Longrightarrow> mid_digit l r = l"
  and mid_digit_less: "l < r \<Longrightarrow> mid_digit l r < r"
proof -
  have *: "unat (mid_digit l r) = unat l + (unat r - unat l) div 2 ^ 48"
  proof (cases "l \<le> r")
    case True
    have "unat l + (unat r - unat l) div 2 ^ 48 \<le> unat r"
      using True div_le_dividend [of "unat r - unat l" "2 ^ 48"] unfolding word_le_nat_alt by linarith
    then have "unat l + (unat r - unat l) div 2 ^ 48 < 2 ^ 64"
      by (rule le_less_trans) (rule order.strict_trans2 [OF unsigned_less], simp)
    with True show ?thesis
      by (simp add: mid_digit_def saturating_sub_def unat_word_ariths unat_drop_bit_eq
          drop_bit_eq_div unat_sub)
  next
    case False
    then show ?thesis by (simp add: mid_digit_def saturating_sub_def word_le_nat_alt)
  qed
  show "l \<le> mid_digit l r" by (simp add: word_le_nat_alt *)
  show "r \<le> l \<Longrightarrow> mid_digit l r = l" by (simp add: word_unat_eq_iff word_le_nat_alt *)
  show "mid_digit l r < r" if "l < r"
  proof -
    from that have lt: "unat l < unat r" by (simp add: word_less_nat_alt)
    then have "(unat r - unat l) div 2 ^ 48 < unat r - unat l" by (intro div_less_dividend) auto
    with lt show ?thesis by (simp add: word_less_nat_alt *)
  qed
qed

lemma between_digits_nonempty [simp]: "between_digits ls rs \<noteq> []"
  by (subst between_digits.simps) (simp add: Let_def)

lemma between_digits_greater: "ls < between_digits ls rs"
proof (induction ls rs rule: between_digits.induct)
  case (1 ls rs)
  show ?case
    using 1 [OF refl refl refl] mid_digit_ge [of "next_digit 0 ls" "next_digit (- 1) rs"]
    by (subst between_digits.simps, cases ls) (auto simp: Let_def next_digit_def)
qed

lemma between_digits_less:
  assumes "ls < rs" "last rs \<noteq> 0"
  shows "between_digits ls rs < rs"
  using assms
proof (induction ls rs rule: between_digits.induct)
  case (1 ls rs)
  then obtain r rs' where rs: "rs = r # rs'" by (cases rs) auto
  let ?l = "next_digit 0 ls" and ?mid = "mid_digit (next_digit 0 ls) r"
  have le: "?l \<le> r"
    using 1(2) rs by (cases ls) (auto simp: next_digit_def)
  show ?case
  proof (cases "?l < r")
    case True
    then have "?mid < r" by (rule mid_digit_less)
    then show ?thesis
      unfolding rs by (subst between_digits.simps) (simp add: Let_def next_digit_def)
  next
    case False
    with le have eq: "?l = r" "?mid = r" by (simp_all add: mid_digit_eq)
    have "tl ls < rs'" "last rs' \<noteq> 0"
      using 1(2,3) rs eq by (cases ls; cases rs'; auto simp: next_digit_def)+
    then have "between_digits (tl ls) rs' < rs'"
      using 1(1) [OF refl refl refl] eq rs by (simp add: next_digit_def)
    then show ?thesis
      unfolding rs using eq by (subst between_digits.simps) (simp add: Let_def next_digit_def)
  qed
qed

lemma between_digits_last: "last (between_digits ls rs) \<noteq> 0"
proof (induction ls rs rule: between_digits.induct)
  case (1 ls rs)
  show ?case
    using 1 [OF refl refl refl] by (subst between_digits.simps) (auto simp: Let_def)
qed

lemma between_digits_prefix:
  "i + 1 < length (between_digits ls rs) \<Longrightarrow> between_digits ls rs ! i = nth_default 0 ls i"
proof (induction ls rs arbitrary: i rule: between_digits.induct)
  case (1 ls rs)
  let ?l = "next_digit 0 ls" and ?mid = "mid_digit (next_digit 0 ls) (next_digit (- 1) rs)"
  show ?case
  proof (cases "?mid > ?l")
    case True
    with 1(2) show ?thesis by (simp add: between_digits.simps [of ls rs] Let_def)
  next
    case False
    then have mid: "?mid = ?l"
      using mid_digit_ge [of ?l "next_digit (- 1) rs"] by simp
    have unfold: "between_digits ls rs = ?l # between_digits (tl ls) (tl rs)"
      using mid by (simp add: between_digits.simps [of ls rs] Let_def)
    show ?thesis
    proof (cases i)
      case 0
      with unfold show ?thesis by (simp add: next_digit_def split: list.splits)
    next
      case (Suc j)
      with 1(2) unfold have "between_digits (tl ls) (tl rs) ! j = nth_default 0 (tl ls) j"
        using 1(1) [OF refl refl refl, of j] False by simp
      with unfold Suc show ?thesis by (cases ls) simp_all
    qed
  qed
qed

text \<open>Locators that \<open>between\<close> produces, and \<open>max\<close>, end in a non-zero digit.\<close>

definition locator_wf :: "locator \<Rightarrow> bool" where
  "locator_wf l \<longleftrightarrow> digits l \<noteq> [] \<and> last (digits l) \<noteq> 0"

lemma locator_wf_max [simp]: "locator_wf locator_max"
  by (simp add: locator_wf_def locator_max_def)

lemma locator_wf_between [simp, wf_intros]: "locator_wf (between l r)"
  by (simp add: locator_wf_def between_def between_digits_last)

lemma between_greater [simp]: "l < between l r"
  by (simp add: less_locator_def between_def between_digits_greater)

lemma between_less: "l < r \<Longrightarrow> locator_wf r \<Longrightarrow> between l r < r"
  by (simp add: less_locator_def between_def between_digits_less locator_wf_def)

lemma between_max_digit:
  assumes "unat a \<le> 2 ^ 64 - 1 - 2 ^ 48"
  shows "between_digits [a] [- 1] = [mid_digit a (- 1)] \<and> unat (mid_digit a (- 1)) \<le> unat a + 65535"
proof -
  have "unat (- 1 :: u64) = 2 ^ 64 - 1" by (simp add: unsigned_minus_1_eq_mask mask_eq_exp_minus_1)
  then have sub: "unat (- 1 - a) = 2 ^ 64 - 1 - unat a"
    by (simp add: unat_sub)
  have mid: "unat (mid_digit a (- 1)) = unat a + (2 ^ 64 - 1 - unat a) div 2 ^ 48"
  proof -
    have "unat a + (2 ^ 64 - 1 - unat a) div 2 ^ 48 < 2 ^ 64"
    proof -
      have "(2 ^ 64 - 1 - unat a) div 2 ^ 48 \<le> 2 ^ 64 - 1 - unat a" by (rule div_le_dividend)
      moreover have "unat a < 2 ^ 64" using assms by (rule le_less_trans) simp
      ultimately show ?thesis by simp
    qed
    then show ?thesis
      by (simp add: mid_digit_def saturating_sub_def unat_word_ariths drop_bit_eq_div unat_div sub)
  qed
  have "2 ^ 48 \<le> 2 ^ 64 - 1 - unat a"
  proof -
    have "unat a + 2 ^ 48 \<le> (2 ^ 64 - 1 - 2 ^ 48) + 2 ^ 48" using assms by (rule add_right_mono)
    then have "unat a + 2 ^ 48 \<le> 2 ^ 64 - 1" by simp
    then show ?thesis by (simp add: le_diff_conv2)
  qed
  then have "0 < (2 ^ 64 - 1 - unat a) div 2 ^ 48" by (simp add: div_greater_zero_iff)
  moreover have "(2 ^ 64 - 1 - unat a) div 2 ^ 48 \<le> 65535"
  proof -
    have "(2 ^ 64 - 1 - unat a) div 2 ^ 48 \<le> (2 ^ 64 - 1) div 2 ^ 48" by (intro div_le_mono) simp
    then show ?thesis by simp
  qed
  ultimately show ?thesis
    by (subst between_digits.simps) (simp add: Let_def next_digit_def word_less_nat_alt mid)
qed

lemma sequential_appends_digit:
  "n \<le> 2 ^ 47 \<Longrightarrow>
   \<exists>a. ((\<lambda>p. between p locator_max) ^^ n) locator_min = Locator [a] \<and> unat a \<le> 65535 * n"
proof (induction n)
  case 0
  then show ?case by (simp add: locator_min_def)
next
  case (Suc n)
  then obtain a where a: "((\<lambda>p. between p locator_max) ^^ n) locator_min = Locator [a]" "unat a \<le> 65535 * n"
    by auto
  then have "unat a \<le> 2 ^ 64 - 1 - 2 ^ 48" using Suc.prems by simp
  from between_max_digit [OF this] a show ?case
    by (simp add: between_def locator_max_def)
qed

section \<open>Properties\<close>



text \<open>
  The condition on the upper bound is needed: below a locator that only appends zeros to the
  lower bound there is no room, and \<open>between\<close> overshoots it.
\<close>

lemma between_overshoots_trailing_zero:
  "Locator [0] < Locator [0, 0] \<and> Locator [0, 0] < between (Locator [0]) (Locator [0, 0])"
  by (simp add: less_locator_def between_def between_digits.simps Let_def next_digit_def mid_digit_def
      saturating_sub_def drop_bit_eq_div)

text \<open>
  C29: sequential appends (each new locator taken between the previous one and \<open>max\<close>) keep
  locators at a single digit for up to \<open>2^47\<close> insertions.
\<close>

theorem sequential_appends_stay_short:
  assumes "n \<le> 2 ^ 47"
  shows "locator_len (((\<lambda>p. between p locator_max) ^^ n) locator_min) = 1"
  using sequential_appends_digit [OF assms] by (auto simp: locator_len_def)

theorem sequential_appends_stay_short_witness:
  "locator_len (((\<lambda>p. between p locator_max) ^^ 100000) locator_min) = 1"
  by (rule sequential_appends_stay_short) simp

end
