(* ===== verification/SumTree.thy ===== *)
theory SumTree
  imports Prelude "HOL-Library.Monad_Syntax"
begin

text \<open>
  The B+ tree with summaries of \<open>crates/sum_tree/src/sum_tree.rs\<close>. The traits \<open>Item\<close> and
  \<open>Summary\<close> are a record of operations passed to every function, as the compiler passes a
  dictionary. A panic of the source (\<open>unwrap\<close> of an empty option, \<open>unwrap_oob\<close> on a full
  \<open>ArrayVec\<close>, \<open>unreachable!\<close>, the accessors \<open>items\<close> and \<open>child_trees\<close> on the wrong
  variant) is the value \<open>None\<close>.
\<close>

section \<open>Interfaces and data\<close>

record ('a, 's) item_ops =
  zero :: "'s"
  add_summary :: "'s \<Rightarrow> 's \<Rightarrow> 's"
  summary_of :: "'a \<Rightarrow> 's"

definition TREE_BASE :: nat where "TREE_BASE = 6"

datatype ('a, 's) node =
  Internal nat 's "'s list" "('a, 's) node list"
| Leaf 's "'a list" "'s list"

datatype bias = Left | Right

definition invert_bias :: "bias \<Rightarrow> bias" where
  "invert_bias b = (case b of Left \<Rightarrow> Right | Right \<Rightarrow> Left)"

fun is_leaf :: "('a, 's) node \<Rightarrow> bool" where
  "is_leaf (Leaf _ _ _) = True"
| "is_leaf (Internal _ _ _ _) = False"

fun height :: "('a, 's) node \<Rightarrow> nat" where
  "height (Internal h _ _ _) = h"
| "height (Leaf _ _ _) = 0"

fun node_summary :: "('a, 's) node \<Rightarrow> 's" where
  "node_summary (Internal _ s _ _) = s"
| "node_summary (Leaf s _ _) = s"

fun child_summaries :: "('a, 's) node \<Rightarrow> 's list" where
  "child_summaries (Internal _ _ css _) = css"
| "child_summaries (Leaf _ _ iss) = iss"

fun child_trees :: "('a, 's) node \<Rightarrow> ('a, 's) node list option" where
  "child_trees (Internal _ _ _ cts) = Some cts"
| "child_trees (Leaf _ _ _) = None"

fun node_items :: "('a, 's) node \<Rightarrow> 'a list option" where
  "node_items (Leaf _ its _) = Some its"
| "node_items (Internal _ _ _ _) = None"

fun is_underflowing :: "('a, 's) node \<Rightarrow> bool" where
  "is_underflowing (Internal _ _ _ cts) = (length cts < TREE_BASE)"
| "is_underflowing (Leaf _ its _) = (length its < TREE_BASE)"

fun is_empty :: "('a, 's) node \<Rightarrow> bool" where
  "is_empty (Internal _ _ _ _) = False"
| "is_empty (Leaf _ its _) = (its = [])"

text \<open>The free function \<open>sum\<close> over summaries.\<close>

definition sum_of :: "('a, 's) item_ops \<Rightarrow> 's list \<Rightarrow> 's" where
  "sum_of D ss = foldl (add_summary D) (zero D) ss"

text \<open>
  \<open>ArrayVec\<close> with capacity \<open>2 * TREE_BASE\<close>: \<open>push\<close>, \<open>extend\<close>, \<open>collect\<close> and \<open>insert(0, x)\<close>
  panic when the capacity is exceeded; all reduce to building a list that must fit.
\<close>

definition fit :: "'x list \<Rightarrow> 'x list option" where
  "fit xs = (if length xs \<le> 2 * TREE_BASE then Some xs else None)"

section \<open>Construction and appending\<close>

definition tree_new :: "('a, 's) item_ops \<Rightarrow> ('a, 's) node" where
  "tree_new D = Leaf (zero D) [] []"

definition from_summary :: "'s \<Rightarrow> ('a, 's) node" where
  "from_summary s = Leaf s [] []"

text \<open>\<open>push_tree_recursive\<close>, the part for an internal node after its children were collected.\<close>

definition finish_internal ::
  "('a, 's) item_ops \<Rightarrow> nat \<Rightarrow> 's \<Rightarrow> 's list \<Rightarrow> ('a, 's) node list \<Rightarrow> 's list \<Rightarrow> ('a, 's) node list
   \<Rightarrow> (('a, 's) node \<times> ('a, 's) node option) option" where
  "finish_internal D h s css cts summaries_to_append trees_to_append =
     (let child_count = length cts + length trees_to_append
      in if child_count > 2 * TREE_BASE then
           let midpoint = (child_count + child_count mod 2) div 2;
               all_summaries = css @ summaries_to_append;
               all_trees = cts @ trees_to_append
           in do {
             left_summaries \<leftarrow> fit (take midpoint all_summaries);
             right_summaries \<leftarrow> fit (drop midpoint all_summaries);
             left_trees \<leftarrow> fit (take midpoint all_trees);
             right_trees \<leftarrow> fit (drop midpoint all_trees);
             Some (Internal h (sum_of D left_summaries) left_summaries left_trees,
                   Some (Internal h (sum_of D right_summaries) right_summaries right_trees))
           }
         else do {
           css' \<leftarrow> fit (css @ summaries_to_append);
           cts' \<leftarrow> fit (cts @ trees_to_append);
           Some (Internal h s css' cts', None)
         })"

text \<open>The leaf case of \<open>push_tree_recursive\<close>.\<close>

definition push_into_leaf ::
  "('a, 's) item_ops \<Rightarrow> 's \<Rightarrow> 'a list \<Rightarrow> 's list \<Rightarrow> ('a, 's) node
   \<Rightarrow> (('a, 's) node \<times> ('a, 's) node option) option" where
  "push_into_leaf D s its iss other = do {
     other_items \<leftarrow> node_items other;
     let child_count = length its + length other_items;
     if child_count > 2 * TREE_BASE then
       let midpoint = (child_count + child_count mod 2) div 2;
           all_items = its @ other_items;
           all_summaries = iss @ child_summaries other
       in do {
         left_items \<leftarrow> fit (take midpoint all_items);
         right_items \<leftarrow> fit (drop midpoint all_items);
         left_summaries \<leftarrow> fit (take midpoint all_summaries);
         right_summaries \<leftarrow> fit (drop midpoint all_summaries);
         Some (Leaf (sum_of D left_summaries) left_items left_summaries,
               Some (Leaf (sum_of D right_summaries) right_items right_summaries))
       }
     else do {
       its' \<leftarrow> fit (its @ other_items);
       iss' \<leftarrow> fit (iss @ child_summaries other);
       Some (Leaf (add_summary D s (node_summary other)) its' iss', None)
     }
   }"

text \<open>\<open>last_mut().unwrap()\<close> and \<open>first_mut().unwrap()\<close>: the rest and the element.\<close>

definition split_last :: "'x list \<Rightarrow> ('x list \<times> 'x) option" where
  "split_last xs = (if xs = [] then None else Some (butlast xs, last xs))"

definition split_first :: "'x list \<Rightarrow> ('x \<times> 'x list) option" where
  "split_first xs = (case xs of [] \<Rightarrow> None | x # xs' \<Rightarrow> Some (x, xs'))"

lemma split_last_Some: "split_last xs = Some (ys, y) \<longleftrightarrow> xs = ys @ [y]"
  by (cases xs rule: rev_cases) (auto simp: split_last_def)

lemma split_first_Some: "split_first xs = Some (y, ys) \<longleftrightarrow> xs = y # ys"
  by (auto simp: split_first_def split: list.splits)

function push_tree_recursive ::
  "('a, 's) item_ops \<Rightarrow> ('a, 's) node \<Rightarrow> ('a, 's) node
   \<Rightarrow> (('a, 's) node \<times> ('a, 's) node option) option" where
  "push_tree_recursive D (Internal h s css cts) other =
     (let s' = add_summary D s (node_summary other);
          height_delta = h - height other
      in if height_delta = 0 then do {
           other_trees \<leftarrow> child_trees other;
           finish_internal D h s' css cts (child_summaries other) other_trees
         }
         else if height_delta = 1 \<and> \<not> is_underflowing other then
           finish_internal D h s' css cts [node_summary other] [other]
         else do {
           (init_trees, last_tree) \<leftarrow> split_last cts;
           (last_tree', tree_to_append) \<leftarrow> push_tree_recursive D last_tree other;
           (init_summaries, _) \<leftarrow> split_last css;
           let css' = init_summaries @ [node_summary last_tree'];
           let cts' = init_trees @ [last_tree'];
           (case tree_to_append of
             Some split_tree \<Rightarrow> finish_internal D h s' css' cts' [node_summary split_tree] [split_tree]
           | None \<Rightarrow> finish_internal D h s' css' cts' [] [])
         })"
| "push_tree_recursive D (Leaf s its iss) other = push_into_leaf D s its iss other"

  by pat_completeness auto
termination
  by (relation "measure (\<lambda>(D, n, other). size n)") (auto simp: split_last_Some)

definition from_child_trees ::
  "('a, 's) item_ops \<Rightarrow> ('a, 's) node \<Rightarrow> ('a, 's) node \<Rightarrow> ('a, 's) node" where
  "from_child_trees D left right =
     (let css = [node_summary left, node_summary right]
      in Internal (height left + 1) (sum_of D css) css [left, right])"

text \<open>
  \<open>merge_into_right(small, large)\<close>: the pair is the new \<open>large\<close> and the returned node.
\<close>

definition div_ceil2 :: "nat \<Rightarrow> nat" where "div_ceil2 n = (n + 1) div 2"

fun merge_into_right ::
  "('a, 's) item_ops \<Rightarrow> ('a, 's) node \<Rightarrow> ('a, 's) node
   \<Rightarrow> (('a, 's) node \<times> ('a, 's) node option) option" where
  "merge_into_right D (Internal h1 s1 css1 cts1) (Internal h s css cts) =
     (let total = length cts + length cts1
      in if total \<le> 2 * TREE_BASE then do {
           all_trees \<leftarrow> fit (cts1 @ cts);
           all_summaries \<leftarrow> fit (css1 @ css);
           Some (Internal h (add_summary D s1 s) all_summaries all_trees, None)
         }
         else
           let midpoint = div_ceil2 total;
               all_trees = cts1 @ cts;
               all_summaries = css1 @ css
           in do {
             left_trees \<leftarrow> fit (take midpoint all_trees);
             right_trees \<leftarrow> fit (drop midpoint all_trees);
             left_summaries \<leftarrow> fit (take midpoint all_summaries);
             right_summaries \<leftarrow> fit (drop midpoint all_summaries);
             Some (Internal h (sum_of D right_summaries) right_summaries right_trees,
                   Some (Internal h (sum_of D left_summaries) left_summaries left_trees))
           })"
| "merge_into_right D (Leaf s1 its1 iss1) (Leaf s its iss) =
     (let total = length its1 + length its
      in if total \<le> 2 * TREE_BASE then do {
           all_items \<leftarrow> fit (its1 @ its);
           all_summaries \<leftarrow> fit (iss1 @ iss);
           Some (Leaf (add_summary D s1 s) all_items all_summaries, None)
         }
         else
           let midpoint = div_ceil2 total;
               all_items = its1 @ its;
               all_summaries = iss1 @ iss
           in do {
             left_items \<leftarrow> fit (take midpoint all_items);
             right_items \<leftarrow> fit (drop midpoint all_items);
             left_summaries \<leftarrow> fit (take midpoint all_summaries);
             right_summaries \<leftarrow> fit (drop midpoint all_summaries);
             Some (Leaf (sum_of D right_summaries) right_items right_summaries,
                   Some (Leaf (sum_of D left_summaries) left_items left_summaries))
           })"
| "merge_into_right D _ _ = None"

text \<open>\<open>append_large(small, large)\<close>, with the same pair.\<close>

function append_large ::
  "('a, 's) item_ops \<Rightarrow> ('a, 's) node \<Rightarrow> ('a, 's) node
   \<Rightarrow> (('a, 's) node \<times> ('a, 's) node option) option" where
  "append_large D small large =
     (if height small = height large then
        if \<not> is_underflowing small then Some (large, Some small)
        else merge_into_right D small large
      else case large of
        Leaf _ _ _ \<Rightarrow> None
      | Internal h s css cts \<Rightarrow> do {
          let full_summary = add_summary D (node_summary small) s;
          (first, rest) \<leftarrow> split_first cts;
          (first', res) \<leftarrow> append_large D small first;
          (_, rest_summaries) \<leftarrow> split_first css;
          let css' = node_summary first' # rest_summaries;
          let cts' = first' # rest;
          (case res of
            None \<Rightarrow> Some (Internal h full_summary css' cts', None)
          | Some tree \<Rightarrow>
              if length cts' < 2 * TREE_BASE then do {
                css'' \<leftarrow> fit (node_summary tree # css');
                cts'' \<leftarrow> fit (tree # cts');
                Some (Internal h full_summary css'' cts'', None)
              }
              else do {
                new_summaries \<leftarrow> fit (node_summary tree # take TREE_BASE css');
                new_trees \<leftarrow> fit (tree # take TREE_BASE cts');
                let css'' = drop TREE_BASE css';
                Some (Internal h (sum_of D css'') css'' (drop TREE_BASE cts'),
                      Some (Internal h (sum_of D new_summaries) new_summaries new_trees))
              })
        })"
  by pat_completeness auto
termination
  by (relation "measure (\<lambda>(D, small, large). size large)") (auto simp: split_first_Some)

declare append_large.simps [simp del]

definition tree_append ::
  "('a, 's) item_ops \<Rightarrow> ('a, 's) node \<Rightarrow> ('a, 's) node \<Rightarrow> ('a, 's) node option" where
  "tree_append D self other =
     (if is_empty self then Some other
      else do {
        other_nonempty \<leftarrow>
          (if \<not> is_leaf other then Some True else map_option (\<lambda>its. its \<noteq> []) (node_items other));
        if other_nonempty then
          if height self < height other then do {
            (other', res) \<leftarrow> append_large D self other;
            (case res of
              Some tree \<Rightarrow> Some (from_child_trees D tree other')
            | None \<Rightarrow> Some other')
          }
          else do {
            (self', res) \<leftarrow> push_tree_recursive D self other;
            (case res of
              Some split_tree \<Rightarrow> Some (from_child_trees D self' split_tree)
            | None \<Rightarrow> Some self')
          }
        else Some self
      })"

definition tree_push ::
  "('a, 's) item_ops \<Rightarrow> ('a, 's) node \<Rightarrow> 'a \<Rightarrow> ('a, 's) node option" where
  "tree_push D self item =
     (let s = summary_of D item in tree_append D self (Leaf s [item] [s]))"

definition from_item :: "('a, 's) item_ops \<Rightarrow> 'a \<Rightarrow> ('a, 's) node option" where
  "from_item D item = tree_push D (tree_new D) item"


section \<open>Bulk construction\<close>

text \<open>A leaf from a non-empty chunk; \<open>item_summaries[0]\<close> panics on an empty one.\<close>

definition leaf_of_chunk :: "('a, 's) item_ops \<Rightarrow> 'a list \<Rightarrow> ('a, 's) node option" where
  "leaf_of_chunk D its = do {
     iss \<leftarrow> fit (map (summary_of D) its);
     (first_summary, rest) \<leftarrow> split_first iss;
     Some (Leaf (foldl (add_summary D) first_summary rest) its iss)
   }"

text \<open>
  The inner loop of \<open>from_iter\<close>: fill the current parent, hand it over when it is full. The
  current parent is its summary, child summaries and child trees.
\<close>

fun group_children ::
  "('a, 's) item_ops \<Rightarrow> nat \<Rightarrow> ('s \<times> 's list \<times> ('a, 's) node list) option
   \<Rightarrow> ('a, 's) node list \<Rightarrow> ('a, 's) node list \<Rightarrow> ('a, 's) node list option" where
  "group_children D h current parents [] =
     (case current of None \<Rightarrow> Some parents | Some (s, css, cts) \<Rightarrow> Some (parents @ [Internal h s css cts]))"
| "group_children D h current parents (child # rest) =
     (let (s, css, cts) = (case current of None \<Rightarrow> (zero D, [], []) | Some p \<Rightarrow> p)
      in do {
        let s' = add_summary D s (node_summary child);
        css' \<leftarrow> fit (css @ [node_summary child]);
        cts' \<leftarrow> fit (cts @ [child]);
        if length cts' = 2 * TREE_BASE
        then group_children D h None (parents @ [Internal h s' css' cts']) rest
        else group_children D h (Some (s', css', cts')) parents rest
      })"

definition parent_of :: "('a, 's) item_ops \<Rightarrow> nat \<Rightarrow> ('a, 's) node list \<Rightarrow> ('a, 's) node" where
  "parent_of D h cts = (let css = map node_summary cts in Internal h (sum_of D css) css cts)"

lemma TREE_BASE_pos [simp]: "0 < TREE_BASE" "1 < TREE_BASE"
  by (simp_all add: TREE_BASE_def)

lemma group_children_partial:
  "length pre < 2 * TREE_BASE \<Longrightarrow>
   group_children D h
     (if pre = [] then None else Some (sum_of D (map node_summary pre), map node_summary pre, pre))
     parents nodes = Some (parents @ map (parent_of D h) (chunks (2 * TREE_BASE) (pre @ nodes)))"
proof (induction nodes arbitrary: pre parents)
  case Nil
  then show ?case by (simp add: chunks_short parent_of_def Let_def)
next
  case (Cons c cs)
  show ?case
  proof (cases "length pre + 1 = 2 * TREE_BASE")
    case True
    have "chunks (2 * TREE_BASE) ((pre @ [c]) @ cs) = (pre @ [c]) # chunks (2 * TREE_BASE) cs"
      using True by (intro chunks_full_prefix) auto
    then show ?thesis
      using True Cons.IH [of "[]" "parents @ [parent_of D h (pre @ [c])]"]
      by (auto simp: fit_def parent_of_def sum_of_def Let_def)
  next
    case False
    with Cons.prems have "length (pre @ [c]) < 2 * TREE_BASE" by simp
    from Cons.IH [OF this, of parents] False Cons.prems show ?thesis
      by (auto simp: fit_def sum_of_def)
  qed
qed

lemma group_children_chunks:
  "group_children D h None [] nodes = Some (map (parent_of D h) (chunks (2 * TREE_BASE) nodes))"
  using group_children_partial [of "[]" D h "[]" nodes] by simp

lemma length_chunks_base [simp]:
  "Suc 0 < length xs \<Longrightarrow> length (chunks (2 * TREE_BASE) xs) < length xs"
  by (rule length_chunks_less) (simp_all add: TREE_BASE_def)

text \<open>The outer loop: \<open>while nodes.len() > 1\<close>; the next level has height \<open>h + 1\<close>.\<close>

function build_levels ::
  "('a, 's) item_ops \<Rightarrow> nat \<Rightarrow> ('a, 's) node list \<Rightarrow> ('a, 's) node list option" where
  "build_levels D h nodes =
     (if length nodes > 1 then do {
        parents \<leftarrow> group_children D (h + 1) None [] nodes;
        build_levels D (h + 1) parents
      } else Some nodes)"
  by pat_completeness auto
termination
  by (relation "measure (\<lambda>(D, h, nodes). length nodes)")
    (auto simp: group_children_chunks)

declare build_levels.simps [simp del]

definition from_iter :: "('a, 's) item_ops \<Rightarrow> 'a list \<Rightarrow> ('a, 's) node option" where
  "from_iter D its = do {
     leaves \<leftarrow> those (map (leaf_of_chunk D) (chunks (2 * TREE_BASE) its));
     nodes \<leftarrow> build_levels D 0 leaves;
     (case split_last nodes of None \<Rightarrow> Some (tree_new D) | Some (_, node) \<Rightarrow> Some node)
   }"

text \<open>
  \<open>from_par_iter\<close>: both levels are maps over chunks, and a parent's summary starts from its
  first child's summary instead of \<open>zero\<close>. \<open>rayon\<close> preserves the order of the chunks.
\<close>

definition par_parent :: "('a, 's) item_ops \<Rightarrow> nat \<Rightarrow> ('a, 's) node list \<Rightarrow> ('a, 's) node option" where
  "par_parent D h child_nodes = do {
     cts \<leftarrow> fit child_nodes;
     css \<leftarrow> fit (map node_summary cts);
     (first_summary, rest) \<leftarrow> split_first css;
     Some (Internal h (foldl (add_summary D) first_summary rest) css cts)
   }"

definition par_level :: "('a, 's) item_ops \<Rightarrow> nat \<Rightarrow> ('a, 's) node list \<Rightarrow> ('a, 's) node list option" where
  "par_level D h nodes = those (map (par_parent D h) (chunks (2 * TREE_BASE) nodes))"

lemma those_length: "those xs = Some ys \<Longrightarrow> length ys = length xs"
  by (induction xs arbitrary: ys) (auto split: option.splits)

function par_levels ::
  "('a, 's) item_ops \<Rightarrow> nat \<Rightarrow> ('a, 's) node list \<Rightarrow> ('a, 's) node list option" where
  "par_levels D h nodes =
     (if length nodes > 1 then do {
        parents \<leftarrow> par_level D (h + 1) nodes;
        par_levels D (h + 1) parents
      } else Some nodes)"
  by pat_completeness auto
termination
  by (relation "measure (\<lambda>(D, h, nodes). length nodes)")
    (auto simp: par_level_def dest!: those_length)

declare par_levels.simps [simp del]

definition from_par_iter :: "('a, 's) item_ops \<Rightarrow> 'a list \<Rightarrow> ('a, 's) node option" where
  "from_par_iter D its = do {
     leaves \<leftarrow> those (map (leaf_of_chunk D) (chunks (2 * TREE_BASE) its));
     nodes \<leftarrow> par_levels D 0 leaves;
     (case split_last nodes of None \<Rightarrow> Some (tree_new D) | Some (_, node) \<Rightarrow> Some node)
   }"

definition extend :: "('a, 's) item_ops \<Rightarrow> ('a, 's) node \<Rightarrow> 'a list \<Rightarrow> ('a, 's) node option" where
  "extend D self its = do { t \<leftarrow> from_iter D its; tree_append D self t }"

definition par_extend :: "('a, 's) item_ops \<Rightarrow> ('a, 's) node \<Rightarrow> 'a list \<Rightarrow> ('a, 's) node option" where
  "par_extend D self its = do { t \<leftarrow> from_par_iter D its; tree_append D self t }"

section \<open>The ends of the tree\<close>

function leftmost_leaf :: "('a, 's) node \<Rightarrow> ('a, 's) node option" where
  "leftmost_leaf (Leaf s its iss) = Some (Leaf s its iss)"
| "leftmost_leaf (Internal h s css cts) = do { (c, _) \<leftarrow> split_first cts; leftmost_leaf c }"
  by pat_completeness auto
termination
  by (relation "measure size") (auto simp: split_first_Some)

function rightmost_leaf :: "('a, 's) node \<Rightarrow> ('a, 's) node option" where
  "rightmost_leaf (Leaf s its iss) = Some (Leaf s its iss)"
| "rightmost_leaf (Internal h s css cts) = do { (_, c) \<leftarrow> split_last cts; rightmost_leaf c }"
  by pat_completeness auto
termination
  by (relation "measure size") (auto simp: split_last_Some)

text \<open>\<open>slice::first\<close> and \<open>slice::last\<close> (the inner option); the outer one is the panic.\<close>

definition list_first :: "'x list \<Rightarrow> 'x option" where
  "list_first xs = (case xs of [] \<Rightarrow> None | x # _ \<Rightarrow> Some x)"

definition list_last :: "'x list \<Rightarrow> 'x option" where
  "list_last xs = (if xs = [] then None else Some (last xs))"

definition tree_first :: "('a, 's) node \<Rightarrow> 'a option option" where
  "tree_first t = do { l \<leftarrow> leftmost_leaf t; its \<leftarrow> node_items l; Some (list_first its) }"

definition tree_last :: "('a, 's) node \<Rightarrow> 'a option option" where
  "tree_last t = do { l \<leftarrow> rightmost_leaf t; its \<leftarrow> node_items l; Some (list_last its) }"

definition last_summary :: "('a, 's) node \<Rightarrow> 's option option" where
  "last_summary t = do { l \<leftarrow> rightmost_leaf t; Some (list_last (child_summaries l)) }"

text \<open>\<open>update_last_recursive\<close>: the tree and the returned summary (\<open>None\<close> for an empty leaf).\<close>

function update_last_recursive ::
  "('a, 's) item_ops \<Rightarrow> ('a \<Rightarrow> 'a) \<Rightarrow> ('a, 's) node \<Rightarrow> (('a, 's) node \<times> 's option) option" where
  "update_last_recursive D f (Internal h s css cts) = do {
     (init_summaries, _) \<leftarrow> split_last css;
     (init_trees, last_child) \<leftarrow> split_last cts;
     (last_child', res) \<leftarrow> update_last_recursive D f last_child;
     last_s \<leftarrow> res;
     let css' = init_summaries @ [last_s];
     let s' = sum_of D css';
     Some (Internal h s' css' (init_trees @ [last_child']), Some s')
   }"
| "update_last_recursive D f (Leaf s its iss) =
     (case (split_last its, split_last iss) of
       (Some (init_items, item), Some (init_summaries, _)) \<Rightarrow>
         let item' = f item; iss' = init_summaries @ [summary_of D item']; s' = sum_of D iss'
         in Some (Leaf s' (init_items @ [item']) iss', Some s')
     | _ \<Rightarrow> Some (Leaf s its iss, None))"
  by pat_completeness auto
termination
  by (relation "measure (\<lambda>(D, f, n). size n)") (auto simp: split_last_Some)

definition update_last ::
  "('a, 's) item_ops \<Rightarrow> ('a \<Rightarrow> 'a) \<Rightarrow> ('a, 's) node \<Rightarrow> ('a, 's) node option" where
  "update_last D f t = map_option fst (update_last_recursive D f t)"

function update_first_recursive ::
  "('a, 's) item_ops \<Rightarrow> ('a \<Rightarrow> 'a) \<Rightarrow> ('a, 's) node \<Rightarrow> (('a, 's) node \<times> 's option) option" where
  "update_first_recursive D f (Internal h s css cts) = do {
     (_, rest_summaries) \<leftarrow> split_first css;
     (first_child, rest_trees) \<leftarrow> split_first cts;
     (first_child', res) \<leftarrow> update_first_recursive D f first_child;
     first_s \<leftarrow> res;
     let css' = first_s # rest_summaries;
     let s' = sum_of D css';
     Some (Internal h s' css' (first_child' # rest_trees), Some s')
   }"
| "update_first_recursive D f (Leaf s its iss) =
     (case (split_first its, split_first iss) of
       (Some (item, rest_items), Some (_, rest_summaries)) \<Rightarrow>
         let item' = f item; iss' = summary_of D item' # rest_summaries; s' = sum_of D iss'
         in Some (Leaf s' (item' # rest_items) iss', Some s')
     | _ \<Rightarrow> Some (Leaf s its iss, None))"
  by pat_completeness auto
termination
  by (relation "measure (\<lambda>(D, f, n). size n)") (auto simp: split_first_Some)

definition update_first ::
  "('a, 's) item_ops \<Rightarrow> ('a \<Rightarrow> 'a) \<Rightarrow> ('a, 's) node \<Rightarrow> ('a, 's) node option" where
  "update_first D f t = map_option fst (update_first_recursive D f t)"

end
