(* ===== verification/SumTreeCorrect.thy ===== *)
theory SumTreeCorrect
  imports SumTree
begin

text \<open>
  Correctness of the B+ tree against the sequence of its items: the representation invariant
  (\<open>wf_node\<close>), and for every constructing operation that it does not panic, keeps the
  invariant and yields the expected sequence. The laws a summary must satisfy are the
  \<open>assumes\<close> of the locale \<open>summary_laws\<close>.
\<close>

section \<open>Abstraction and invariant\<close>

fun to_list :: "('a, 's) node \<Rightarrow> 'a list" where
  "to_list (Internal h s css cts) = concat (map to_list cts)"
| "to_list (Leaf s its iss) = its"

fun wf_node :: "('a, 's) item_ops \<Rightarrow> ('a, 's) node \<Rightarrow> bool" where
  "wf_node D (Internal h s css cts) \<longleftrightarrow>
     cts \<noteq> [] \<and> length cts \<le> 2 * TREE_BASE \<and>
     (\<forall>c \<in> set cts. wf_node D c \<and> Suc (height c) = h) \<and>
     css = map node_summary cts \<and> s = sum_of D css"
| "wf_node D (Leaf s its iss) \<longleftrightarrow>
     its \<noteq> [] \<and> length its \<le> 2 * TREE_BASE \<and> iss = map (summary_of D) its \<and> s = sum_of D iss"

text \<open>A whole tree may also be a single empty leaf, with the summary of no item.\<close>

definition wf_tree :: "('a, 's) item_ops \<Rightarrow> ('a, 's) node \<Rightarrow> bool" where
  "wf_tree D t \<longleftrightarrow> wf_node D t \<or> t = Leaf (zero D) [] []"

lemma fit_Some [simp]: "fit xs = Some ys \<longleftrightarrow> ys = xs \<and> length xs \<le> 2 * TREE_BASE"
  by (auto simp: fit_def)

lemma fit_ok [simp]: "length xs \<le> 2 * TREE_BASE \<Longrightarrow> fit xs = Some xs"
  by (simp add: fit_def)

lemma wf_node_nonempty: "wf_node D n \<Longrightarrow> to_list n \<noteq> []"
  by (induction n) (auto simp: neq_Nil_conv)

lemma wf_node_leaf_iff: "wf_node D n \<Longrightarrow> is_leaf n \<longleftrightarrow> height n = 0"
  by (cases n) (auto simp: neq_Nil_conv)

lemma wf_tree_empty_iff: "wf_tree D t \<Longrightarrow> is_empty t \<longleftrightarrow> to_list t = []"
proof -
  assume "wf_tree D t"
  then consider "wf_node D t" | "t = Leaf (zero D) [] []" by (auto simp: wf_tree_def)
  then show "is_empty t \<longleftrightarrow> to_list t = []"
  proof cases
    case 1
    then have "to_list t \<noteq> []" by (rule wf_node_nonempty)
    moreover have "\<not> is_empty t" using 1 by (cases t) auto
    ultimately show ?thesis by simp
  qed simp
qed

lemma wf_tree_node: "wf_tree D t \<Longrightarrow> to_list t \<noteq> [] \<Longrightarrow> wf_node D t"
  by (auto simp: wf_tree_def)

lemma wf_tree_new [simp]: "wf_tree D (tree_new D)" "to_list (tree_new D) = []"
  by (simp_all add: wf_tree_def tree_new_def)

lemma wf_node_tree: "wf_node D t \<Longrightarrow> wf_tree D t"
  by (simp add: wf_tree_def)

section \<open>The laws of a summary\<close>

text \<open>
  The summaries that occur: that of no item, those of the items, and their sums. The laws are
  asked of these only, as the source relies on no other (a text summary of arbitrary numbers,
  say, is not the summary of a text).
\<close>

inductive is_summary :: "('a, 's) item_ops \<Rightarrow> 's \<Rightarrow> bool" for D where
  is_summary_zero: "is_summary D (zero D)"
| is_summary_item: "is_summary D (summary_of D x)"
| is_summary_add: "is_summary D a \<Longrightarrow> is_summary D b \<Longrightarrow> is_summary D (add_summary D a b)"

declare is_summary.intros [simp, intro]

lemma is_summary_foldl:
  "is_summary D s \<Longrightarrow> \<forall>x \<in> set xs. is_summary D x \<Longrightarrow> is_summary D (foldl (add_summary D) s xs)"
  by (induction xs arbitrary: s) auto

lemma is_summary_sum_of [intro]: "\<forall>x \<in> set xs. is_summary D x \<Longrightarrow> is_summary D (sum_of D xs)"
  by (simp add: sum_of_def is_summary_foldl)

lemma is_summary_node [simp, intro]: "wf_node D n \<Longrightarrow> is_summary D (node_summary n)"
  by (induction n) (auto intro!: is_summary_sum_of)

locale summary_laws =
  fixes D :: "('a, 's) item_ops"
  assumes add_assoc: "is_summary D a \<Longrightarrow> is_summary D b \<Longrightarrow> is_summary D c \<Longrightarrow>
      add_summary D (add_summary D a b) c = add_summary D a (add_summary D b c)"
    and add_zero_left: "is_summary D a \<Longrightarrow> add_summary D (zero D) a = a"
begin

lemma foldl_add:
  "is_summary D a \<Longrightarrow> is_summary D b \<Longrightarrow> \<forall>x \<in> set xs. is_summary D x \<Longrightarrow>
   foldl (add_summary D) (add_summary D a b) xs = add_summary D a (foldl (add_summary D) b xs)"
  by (induction xs arbitrary: b) (simp_all add: add_assoc)

lemma sum_of_Cons: "is_summary D x \<Longrightarrow> sum_of D (x # xs) = foldl (add_summary D) x xs"
  by (simp add: sum_of_def add_zero_left)

lemma sum_of_append:
  assumes "ys \<noteq> []" "\<forall>x \<in> set xs. is_summary D x" "\<forall>x \<in> set ys. is_summary D x"
  shows "sum_of D (xs @ ys) = add_summary D (sum_of D xs) (sum_of D ys)"
  using assms is_summary_sum_of [of xs D]
  by (cases ys) (auto simp: sum_of_def add_zero_left foldl_add)

lemma sum_of_single [simp]: "is_summary D x \<Longrightarrow> sum_of D [x] = x"
  by (simp add: sum_of_def add_zero_left)

lemma sum_of_concat:
  "\<forall>xs \<in> set xss. xs \<noteq> [] \<and> (\<forall>x \<in> set xs. is_summary D x) \<Longrightarrow>
   sum_of D (concat xss) = sum_of D (map (sum_of D) xss)"
proof (induction xss rule: rev_induct)
  case (snoc xs xss)
  from snoc.prems show ?case
    by (simp add: sum_of_append ball_Un is_summary_sum_of)
       (simp add: snoc.IH sum_of_single is_summary_sum_of)
qed (simp add: sum_of_def)

text \<open>Every cached summary is the sum over the items below it.\<close>

lemma node_summary_items:
  "wf_node D n \<Longrightarrow> node_summary n = sum_of D (map (summary_of D) (to_list n))"
proof (induction n)
  case (Internal h s css cts)
  have "sum_of D css = sum_of D (map (\<lambda>c. sum_of D (map (summary_of D) (to_list c))) cts)"
    using Internal by (intro arg_cong [where f = "sum_of D"]) simp
  also have "\<dots> = sum_of D (concat (map (\<lambda>c. map (summary_of D) (to_list c)) cts))"
    using Internal.prems by (subst sum_of_concat) (auto simp: comp_def dest: wf_node_nonempty)
  finally show ?case using Internal.prems by (simp add: map_concat comp_def)
qed simp

abbreviation items_sum :: "'a list \<Rightarrow> 's" where
  "items_sum xs \<equiv> sum_of D (map (summary_of D) xs)"

lemma add_items_sum: "ys \<noteq> [] \<Longrightarrow> add_summary D (items_sum xs) (items_sum ys) = items_sum (xs @ ys)"
  by (simp add: sum_of_append)

lemma sum_children:
  assumes "\<forall>c \<in> set cts. wf_node D c"
  shows "sum_of D (map node_summary cts) = items_sum (concat (map to_list cts))"
proof -
  have "items_sum (concat (map to_list cts)) = sum_of D (concat (map (map (summary_of D) \<circ> to_list) cts))"
    by (simp only: map_concat map_map)
  also have "\<dots> = sum_of D (map (sum_of D) (map (map (summary_of D) \<circ> to_list) cts))"
    using assms by (intro sum_of_concat) (auto dest: wf_node_nonempty)
  also have "\<dots> = sum_of D (map node_summary cts)"
    using assms by (intro arg_cong [where f = "sum_of D"]) (auto simp: node_summary_items)
  finally show ?thesis by simp
qed

text \<open>
  Adding a neighbour's summary to a node's gives the sum of any children holding both.
\<close>

lemma add_node_summaries:
  assumes "wf_node D l" "wf_node D r" "\<forall>c \<in> set cts. wf_node D c"
    and "concat (map to_list cts) = to_list l @ to_list r"
  shows "add_summary D (node_summary l) (node_summary r) = sum_of D (map node_summary cts)"
  using assms by (simp add: node_summary_items add_items_sum wf_node_nonempty sum_children)

text \<open>What an operation that may split owes: no panic, and the pair holds the items in order.\<close>

definition split_ok :: "nat \<Rightarrow> 'a list \<Rightarrow> (('a, 's) node \<times> ('a, 's) node option) option \<Rightarrow> bool" where
  "split_ok h xs r \<longleftrightarrow> (\<exists>n sp. r = Some (n, sp) \<and> wf_node D n \<and> height n = h \<and>
     (case sp of None \<Rightarrow> to_list n = xs
      | Some t \<Rightarrow> wf_node D t \<and> height t = h \<and> to_list n @ to_list t = xs))"

text \<open>Cutting a list of children, or of items, at \<open>m\<close> gives two well-formed nodes.\<close>

lemma internal_halves:
  assumes "0 < m" "m < length xs" "m \<le> 2 * TREE_BASE" "length xs - m \<le> 2 * TREE_BASE"
    and "\<forall>c \<in> set xs. wf_node D c \<and> Suc (height c) = h" and "ss = map node_summary xs"
  defines "L \<equiv> Internal h (sum_of D (take m ss)) (take m ss) (take m xs)"
    and "R \<equiv> Internal h (sum_of D (drop m ss)) (drop m ss) (drop m xs)"
  shows "wf_node D L" "wf_node D R" "to_list L @ to_list R = concat (map to_list xs)"
    "fit (take m xs) = Some (take m xs)" "fit (drop m xs) = Some (drop m xs)"
    "fit (take m ss) = Some (take m ss)" "fit (drop m ss) = Some (drop m ss)"
proof -
  show "wf_node D L" "wf_node D R"
    using assms by (auto simp: take_map drop_map dest: in_set_takeD in_set_dropD)
  show "to_list L @ to_list R = concat (map to_list xs)"
    by (simp add: L_def R_def flip: concat_append map_append)
qed (use assms in auto)

lemma leaf_halves:
  assumes "0 < m" "m < length xs" "m \<le> 2 * TREE_BASE" "length xs - m \<le> 2 * TREE_BASE"
    and "ss = map (summary_of D) xs"
  defines "L \<equiv> Leaf (sum_of D (take m ss)) (take m xs) (take m ss)"
    and "R \<equiv> Leaf (sum_of D (drop m ss)) (drop m xs) (drop m ss)"
  shows "wf_node D L" "wf_node D R" "to_list L @ to_list R = xs"
    "fit (take m xs) = Some (take m xs)" "fit (drop m xs) = Some (drop m xs)"
    "fit (take m ss) = Some (take m ss)" "fit (drop m ss) = Some (drop m ss)"
  using assms by (auto simp: take_map drop_map)

lemma finish_internal_ok:
  assumes "cts \<noteq> []" "length cts \<le> 2 * TREE_BASE" "length ts \<le> 2 * TREE_BASE"
    and "\<forall>c \<in> set (cts @ ts). wf_node D c \<and> Suc (height c) = h"
    and "css = map node_summary cts" "ss = map node_summary ts" "s = sum_of D (css @ ss)"
  shows "split_ok h (concat (map to_list (cts @ ts))) (finish_internal D h s css cts ss ts)"
proof (cases "length cts + length ts > 2 * TREE_BASE")
  case True
  define m where "m = (length cts + length ts + (length cts + length ts) mod 2) div 2"
  define xs where "xs = cts @ ts"
  define sums where "sums = css @ ss"
  have m: "0 < m" "m < length xs" "m \<le> 2 * TREE_BASE" "length xs - m \<le> 2 * TREE_BASE"
    using assms(1-3) True by (auto simp: m_def TREE_BASE_def xs_def)
  have "\<forall>c \<in> set xs. wf_node D c \<and> Suc (height c) = h" "sums = map node_summary xs"
    using assms by (auto simp: xs_def sums_def)
  note halves = internal_halves [OF m this]
  from halves True show ?thesis
    unfolding finish_internal_def Let_def m_def [symmetric] xs_def [symmetric] sums_def [symmetric]
    by (auto simp: split_ok_def simp del: to_list.simps wf_node.simps)
next
  case False
  then show ?thesis
    using assms by (auto simp: finish_internal_def split_ok_def)
qed

lemma push_into_leaf_ok:
  assumes "wf_node D (Leaf s its iss)" "wf_node D other" "height other = 0"
  shows "split_ok 0 (its @ to_list other) (push_into_leaf D s its iss other)"
proof -
  from assms(2,3) obtain s2 its2 iss2 where other: "other = Leaf s2 its2 iss2"
    by (cases other) (auto simp: neq_Nil_conv)
  show ?thesis
  proof (cases "length its + length its2 > 2 * TREE_BASE")
    case True
    define m where "m = (length its + length its2 + (length its + length its2) mod 2) div 2"
    define xs where "xs = its @ its2"
    define sums where "sums = iss @ iss2"
    have m: "0 < m" "m < length xs" "m \<le> 2 * TREE_BASE" "length xs - m \<le> 2 * TREE_BASE"
      using assms True by (auto simp: m_def TREE_BASE_def other xs_def)
    have "sums = map (summary_of D) xs" using assms by (auto simp: xs_def sums_def other)
    note halves = leaf_halves [OF m this]
    from halves True show ?thesis
      unfolding push_into_leaf_def Let_def other node_items.simps child_summaries.simps bind.bind_lunit
        m_def [symmetric] xs_def [symmetric] sums_def [symmetric] to_list.simps
      by (auto simp: split_ok_def simp del: wf_node.simps)
  next
    case False
    then show ?thesis
      using assms by (auto simp: push_into_leaf_def split_ok_def other sum_of_append)
  qed
qed

lemma replace_last_child_ok:
  assumes n: "wf_node D (Internal h s (map node_summary cts) cts)" "wf_node D other"
    and cts: "cts = init @ [c]" and c': "wf_node D c'" "Suc (height c') = h"
    and ts: "\<forall>t \<in> set ts. wf_node D t \<and> Suc (height t) = h" "length ts \<le> 1"
    and items: "to_list c' @ concat (map to_list ts) = to_list c @ to_list other"
  shows "split_ok h (concat (map to_list cts) @ to_list other)
    (finish_internal D h (add_summary D s (node_summary other)) (map node_summary (init @ [c']))
      (init @ [c']) (map node_summary ts) ts)"
proof -
  have "add_summary D s (node_summary other) = sum_of D (map node_summary ((init @ [c']) @ ts))"
    using n cts c' ts items by (intro add_node_summaries [OF n, simplified]) auto
  moreover have "concat (map to_list ((init @ [c']) @ ts)) = concat (map to_list cts) @ to_list other"
    using items cts by simp
  moreover have "length (init @ [c']) \<le> 2 * TREE_BASE" "length ts \<le> 2 * TREE_BASE"
    using n cts ts by (auto simp: TREE_BASE_def)
  ultimately show ?thesis
    using finish_internal_ok [of "init @ [c']" ts h "map node_summary (init @ [c'])"
        "map node_summary ts" "add_summary D s (node_summary other)"] n cts c' ts
    by (simp add: ball_Un)
qed

lemma push_same_height_ok:
  assumes "wf_node D (Internal h s css cts)" "wf_node D other" "height other = h"
  shows "split_ok h (concat (map to_list cts) @ to_list other)
    (push_tree_recursive D (Internal h s css cts) other)"
proof -
  from assms(1) have "0 < h" by (auto simp: neq_Nil_conv)
  with assms(3) obtain s2 css2 cts2 where other: "other = Internal h s2 css2 cts2"
    by (cases other) auto
  have "split_ok h (concat (map to_list (cts @ cts2)))
      (finish_internal D h (add_summary D s (node_summary other)) css cts css2 cts2)"
    using assms unfolding other by (intro finish_internal_ok) (auto simp: sum_of_append)
  then show ?thesis by (simp add: other Let_def)
qed

lemma push_new_child_ok:
  assumes "wf_node D (Internal h s css cts)" "wf_node D other" "Suc (height other) = h" "\<not> is_underflowing other"
  shows "split_ok h (concat (map to_list cts) @ to_list other)
    (push_tree_recursive D (Internal h s css cts) other)"
proof -
  have "split_ok h (concat (map to_list (cts @ [other])))
      (finish_internal D h (add_summary D s (node_summary other)) css cts [node_summary other] [other])"
    using assms by (intro finish_internal_ok) (auto simp: sum_of_append TREE_BASE_def)
  moreover have "h - height other = 1" using assms by simp
  ultimately show ?thesis using assms by (simp add: Let_def)
qed

lemma push_tree_recursive_ok:
  assumes "wf_node D n" "wf_node D other" "height other \<le> height n"
  shows "split_ok (height n) (to_list n @ to_list other) (push_tree_recursive D n other)"
  using assms
proof (induction n)
  case (Internal h s css cts)
  consider "height other = h" | "Suc (height other) = h" "\<not> is_underflowing other"
    | (deeper) "height other < h" "Suc (height other) \<noteq> h \<or> is_underflowing other"
    using Internal.prems by fastforce
  then show ?case
  proof cases
    case deeper
    from Internal.prems obtain init c where split: "cts = init @ [c]"
      by (cases cts rule: rev_cases) auto
    then have c: "wf_node D c" "Suc (height c) = h" and css: "css = map node_summary cts"
      using Internal.prems by auto
    with deeper Internal.prems(2) Internal.IH [of c] split
    have "split_ok (height c) (to_list c @ to_list other) (push_tree_recursive D c other)" by auto
    then obtain c' sp where res: "push_tree_recursive D c other = Some (c', sp)"
      and c': "wf_node D c'" "Suc (height c') = h"
      and sp: "case sp of None \<Rightarrow> to_list c' = to_list c @ to_list other
        | Some t \<Rightarrow> wf_node D t \<and> Suc (height t) = h \<and> to_list c' @ to_list t = to_list c @ to_list other"
      using c by (auto simp: split_ok_def split: option.splits)
    define ts where "ts = (case sp of None \<Rightarrow> [] | Some t \<Rightarrow> [t])"
    have "split_last cts = Some (init, c)" "split_last css = Some (map node_summary init, node_summary c)"
      "h - height other \<noteq> 0" "\<not> (h - height other = 1 \<and> \<not> is_underflowing other)"
      using deeper split css by (auto simp: split_last_Some)
    then have "push_tree_recursive D (Internal h s css cts) other =
        finish_internal D h (add_summary D s (node_summary other)) (map node_summary (init @ [c']))
          (init @ [c']) (map node_summary ts) ts"
      using res by (auto simp: Let_def ts_def split: option.splits)
    then show ?thesis
      using replace_last_child_ok [OF Internal.prems(1,2) [unfolded css] split c', of ts] sp
      by (auto simp: ts_def split: option.splits)
  qed (use Internal.prems in \<open>simp_all add: push_same_height_ok push_new_child_ok del: push_tree_recursive.simps\<close>)
qed (simp add: push_into_leaf_ok)

text \<open>The same promise with the returned node on the left.\<close>

definition merge_ok :: "nat \<Rightarrow> 'a list \<Rightarrow> (('a, 's) node \<times> ('a, 's) node option) option \<Rightarrow> bool" where
  "merge_ok h xs r \<longleftrightarrow> (\<exists>n sp. r = Some (n, sp) \<and> wf_node D n \<and> height n = h \<and>
     (case sp of None \<Rightarrow> to_list n = xs
      | Some t \<Rightarrow> wf_node D t \<and> height t = h \<and> to_list t @ to_list n = xs))"

lemma merge_into_right_ok:
  assumes "wf_node D small" "wf_node D large" "height small = height large"
  shows "merge_ok (height large) (to_list small @ to_list large) (merge_into_right D small large)"
proof (cases large)
  case large: (Internal h s css cts)
  with assms obtain s1 css1 cts1 where small: "small = Internal h s1 css1 cts1"
    by (cases small) (auto simp: neq_Nil_conv)
  show ?thesis
  proof (cases "length cts + length cts1 \<le> 2 * TREE_BASE")
    case True
    with assms show ?thesis by (auto simp: large small merge_ok_def sum_of_append)
  next
    case False
    define m where "m = div_ceil2 (length cts + length cts1)"
    define xs where "xs = cts1 @ cts"
    define sums where "sums = css1 @ css"
    have m: "0 < m" "m < length xs" "m \<le> 2 * TREE_BASE" "length xs - m \<le> 2 * TREE_BASE"
      using assms False by (auto simp: m_def TREE_BASE_def xs_def large small div_ceil2_def)
    have "\<forall>c \<in> set xs. wf_node D c \<and> Suc (height c) = h" "sums = map node_summary xs"
      using assms by (auto simp: xs_def sums_def large small)
    note halves = internal_halves [OF m this]
    from halves False show ?thesis
      unfolding large small merge_into_right.simps Let_def m_def [symmetric] xs_def [symmetric]
        sums_def [symmetric]
      by (auto simp: merge_ok_def xs_def simp del: wf_node.simps)
  qed
next
  case large: (Leaf s its iss)
  with assms obtain s1 its1 iss1 where small: "small = Leaf s1 its1 iss1"
    by (cases small) (auto simp: neq_Nil_conv)
  show ?thesis
  proof (cases "length its1 + length its \<le> 2 * TREE_BASE")
    case True
    with assms show ?thesis by (auto simp: large small merge_ok_def sum_of_append)
  next
    case False
    define m where "m = div_ceil2 (length its1 + length its)"
    define xs where "xs = its1 @ its"
    define sums where "sums = iss1 @ iss"
    have m: "0 < m" "m < length xs" "m \<le> 2 * TREE_BASE" "length xs - m \<le> 2 * TREE_BASE"
      using assms False by (auto simp: m_def TREE_BASE_def xs_def large small div_ceil2_def)
    have "sums = map (summary_of D) xs" using assms by (auto simp: xs_def sums_def large small)
    note halves = leaf_halves [OF m this]
    from halves False show ?thesis
      unfolding large small merge_into_right.simps Let_def m_def [symmetric] xs_def [symmetric]
        sums_def [symmetric]
      by (auto simp: merge_ok_def xs_def simp del: wf_node.simps)
  qed
qed

text \<open>
  The first child \<open>first\<close> has become \<open>f\<close>, and possibly a node \<open>t\<close> has to go in front of it;
  \<open>replace_first\<close> is what \<open>append_large\<close> then makes of the node.
\<close>

definition replace_first ::
  "nat \<Rightarrow> 's \<Rightarrow> ('a, 's) node list \<Rightarrow> ('a, 's) node option \<Rightarrow> (('a, 's) node \<times> ('a, 's) node option) option" where
  "replace_first h full xs sp = (case sp of
     None \<Rightarrow> Some (Internal h full (map node_summary xs) xs, None)
   | Some t \<Rightarrow>
       if length xs < 2 * TREE_BASE
       then Some (Internal h full (map node_summary (t # xs)) (t # xs), None)
       else Some (parent_of D h (drop TREE_BASE xs), Some (parent_of D h (t # take TREE_BASE xs))))"

lemma append_large_Internal:
  assumes "height small \<noteq> h" "append_large D small first = Some (f, sp)" "length rest < 2 * TREE_BASE"
  shows "append_large D small (Internal h s (map node_summary (first # rest)) (first # rest)) =
    replace_first h (add_summary D (node_summary small) s) (f # rest) sp"
  using assms
  by (subst append_large.simps)
    (auto simp: split_first_def replace_first_def parent_of_def take_map drop_map Let_def TREE_BASE_def
      drop_Cons' take_Cons' split: option.splits)

lemma wf_parent_of:
  "cts \<noteq> [] \<Longrightarrow> length cts \<le> 2 * TREE_BASE \<Longrightarrow> \<forall>c \<in> set cts. wf_node D c \<and> Suc (height c) = h \<Longrightarrow>
   wf_node D (parent_of D h cts) \<and> height (parent_of D h cts) = h \<and>
   to_list (parent_of D h cts) = concat (map to_list cts)"
  by (simp add: parent_of_def Let_def)

lemma replace_first_ok:
  assumes large: "wf_node D small" "wf_node D (Internal h s (map node_summary (first # rest)) (first # rest))"
    and f: "wf_node D f" "Suc (height f) = h"
    and sp: "case sp of None \<Rightarrow> to_list f = to_list small @ to_list first
      | Some t \<Rightarrow> wf_node D t \<and> Suc (height t) = h \<and> to_list t @ to_list f = to_list small @ to_list first"
  shows "merge_ok h (to_list small @ concat (map to_list (first # rest)))
    (replace_first h (add_summary D (node_summary small) s) (f # rest) sp)"
proof -
  have xs: "\<forall>c \<in> set (f # rest). wf_node D c \<and> Suc (height c) = h" "length (f # rest) \<le> 2 * TREE_BASE"
    using large f by auto
  have full: "add_summary D (node_summary small) s = sum_of D (map node_summary ys)"
    if "\<forall>c \<in> set ys. wf_node D c"
      "concat (map to_list ys) = to_list small @ concat (map to_list (first # rest))" for ys
    using add_node_summaries [OF large that(1)] that(2) by simp
  show ?thesis
  proof (cases sp)
    case None
    then show ?thesis using full [of "f # rest"] xs sp by (auto simp: replace_first_def merge_ok_def)
  next
    case (Some t)
    with sp have t: "wf_node D t" "Suc (height t) = h" "to_list t @ to_list f = to_list small @ to_list first"
      by auto
    show ?thesis
    proof (cases "length (f # rest) < 2 * TREE_BASE")
      case True
      then show ?thesis using full [of "t # f # rest"] t xs Some
        by (auto simp: replace_first_def merge_ok_def)
    next
      case False
      define ys where "ys = f # rest"
      with False xs have ys: "length ys = 2 * TREE_BASE" "\<forall>c \<in> set ys. wf_node D c \<and> Suc (height c) = h" by auto
      have right: "wf_node D (parent_of D h (drop TREE_BASE ys)) \<and> height (parent_of D h (drop TREE_BASE ys)) = h \<and>
          to_list (parent_of D h (drop TREE_BASE ys)) = concat (map to_list (drop TREE_BASE ys))"
        using ys by (intro wf_parent_of) (auto simp: TREE_BASE_def dest: in_set_dropD)
      have left: "wf_node D (parent_of D h (t # take TREE_BASE ys)) \<and> height (parent_of D h (t # take TREE_BASE ys)) = h \<and>
          to_list (parent_of D h (t # take TREE_BASE ys)) = concat (map to_list (t # take TREE_BASE ys))"
        using ys t by (intro wf_parent_of) (auto simp: TREE_BASE_def dest: in_set_takeD)
      have "to_list t @ concat (map to_list ys) = to_list small @ concat (map to_list (first # rest))"
        using t(3) by (simp add: ys_def)
      with left right False Some show ?thesis
        by (simp add: replace_first_def merge_ok_def flip: ys_def concat_append map_append)
    qed
  qed
qed

lemma append_large_ok:
  assumes "wf_node D small" "wf_node D large" "height small \<le> height large"
  shows "merge_ok (height large) (to_list small @ to_list large) (append_large D small large)"
  using assms
proof (induction large)
  case (Internal h s css cts)
  show ?case
  proof (cases "height small = h")
    case True
    then show ?thesis
      using merge_into_right_ok [OF Internal.prems(1,2)] Internal.prems
      by (subst append_large.simps) (auto simp: merge_ok_def)
  next
    case False
    from Internal.prems(2) obtain first rest where cts: "cts = first # rest" "css = map node_summary cts"
      and len: "length rest < 2 * TREE_BASE" and first: "wf_node D first" "Suc (height first) = h"
      by (cases cts) auto
    have "merge_ok (height first) (to_list small @ to_list first) (append_large D small first)"
      using Internal.IH [of first] Internal.prems(1,3) first cts False by auto
    then obtain f sp where res: "append_large D small first = Some (f, sp)"
      and f: "wf_node D f" "Suc (height f) = h"
      and sp: "case sp of None \<Rightarrow> to_list f = to_list small @ to_list first
        | Some t \<Rightarrow> wf_node D t \<and> Suc (height t) = h \<and> to_list t @ to_list f = to_list small @ to_list first"
      using first by (auto simp: merge_ok_def split: option.splits)
    show ?thesis
      using append_large_Internal [OF False res len] replace_first_ok [OF Internal.prems(1) _ f sp]
        Internal.prems(2) cts by auto
  qed
next
  case (Leaf s its iss)
  then show ?case
    using merge_into_right_ok [of small "Leaf s its iss"]
    by (subst append_large.simps) (auto simp: merge_ok_def)
qed

lemma from_child_trees_ok:
  assumes "wf_node D l" "wf_node D r" "height l = height r"
  shows "wf_node D (from_child_trees D l r)" "to_list (from_child_trees D l r) = to_list l @ to_list r"
  using assms by (simp_all add: from_child_trees_def Let_def TREE_BASE_def)

lemma tree_append_ok:
  assumes "wf_tree D a" "wf_tree D b"
  shows "\<exists>t. tree_append D a b = Some t \<and> wf_tree D t \<and> to_list t = to_list a @ to_list b"
proof (cases "to_list a = []")
  case True
  then show ?thesis using assms wf_tree_empty_iff [OF assms(1)] by (simp add: tree_append_def)
next
  case a_ne: False
  have a: "wf_node D a" "\<not> is_empty a" using a_ne assms wf_tree_node wf_tree_empty_iff by blast+
  show ?thesis
  proof (cases "to_list b = []")
    case True
    then have "b = Leaf (zero D) [] []"
      using assms(2) wf_node_nonempty [of D b] by (auto simp: wf_tree_def)
    then show ?thesis using a assms by (simp add: tree_append_def)
  next
    case False
    then have b: "wf_node D b" using assms wf_tree_node by blast
    have nonempty: "(if \<not> is_leaf b then Some True else map_option (\<lambda>its. its \<noteq> []) (node_items b)) = Some True"
      using b by (cases b) auto
    show ?thesis
    proof (cases "height a < height b")
      case True
      obtain n sp where n: "append_large D a b = Some (n, sp)" "wf_node D n"
        "case sp of None \<Rightarrow> to_list n = to_list a @ to_list b
         | Some t \<Rightarrow> wf_node D t \<and> height t = height n \<and> to_list t @ to_list n = to_list a @ to_list b"
        using append_large_ok [OF a(1) b] True by (auto simp: merge_ok_def split: option.splits)
      then show ?thesis
        using a nonempty True from_child_trees_ok [of _ n]
        by (cases sp) (auto simp: tree_append_def wf_tree_def)
    next
      case not_lt: False
      obtain n sp where n: "push_tree_recursive D a b = Some (n, sp)" "wf_node D n"
        "case sp of None \<Rightarrow> to_list n = to_list a @ to_list b
         | Some t \<Rightarrow> wf_node D t \<and> height n = height t \<and> to_list n @ to_list t = to_list a @ to_list b"
        using push_tree_recursive_ok [OF a(1) b] not_lt by (auto simp: split_ok_def split: option.splits)
      then show ?thesis
        using a nonempty not_lt from_child_trees_ok [of n]
        by (cases sp) (auto simp: tree_append_def wf_tree_def)
    qed
  qed
qed

lemma tree_push_ok:
  assumes "wf_tree D t"
  shows "\<exists>t'. tree_push D t x = Some t' \<and> wf_tree D t' \<and> to_list t' = to_list t @ [x]"
proof -
  have "wf_tree D (Leaf (summary_of D x) [x] [summary_of D x])"
    by (simp add: wf_tree_def TREE_BASE_def)
  from tree_append_ok [OF assms this] show ?thesis by (simp add: tree_push_def Let_def)
qed


section \<open>Bulk construction\<close>

lemma leaf_of_chunk_ok:
  "its \<noteq> [] \<Longrightarrow> length its \<le> 2 * TREE_BASE \<Longrightarrow>
   leaf_of_chunk D its = Some (Leaf (items_sum its) its (map (summary_of D) its))"
  by (cases its) (simp_all add: leaf_of_chunk_def split_first_def sum_of_Cons)

lemma those_map_Some: "(\<And>x. x \<in> set xs \<Longrightarrow> f x = Some (g x)) \<Longrightarrow> those (map f xs) = Some (map g xs)"
  by (induction xs) auto

lemma concat_map_concat: "concat (map (concat \<circ> map f) xss) = concat (map f (concat xss))"
  by (induction xss) auto

text \<open>A level of the bulk construction: well-formed trees of height \<open>h\<close> that hold \<open>its\<close>.\<close>

definition level_ok :: "nat \<Rightarrow> 'a list \<Rightarrow> ('a, 's) node list \<Rightarrow> bool" where
  "level_ok h its nodes \<longleftrightarrow>
     (\<forall>n \<in> set nodes. wf_node D n \<and> height n = h) \<and> concat (map to_list nodes) = its"

lemma leaves_ok:
  "\<exists>nodes. those (map (leaf_of_chunk D) (chunks (2 * TREE_BASE) its)) = Some nodes \<and> level_ok 0 its nodes"
proof -
  let ?leaf = "\<lambda>its. Leaf (items_sum its) its (map (summary_of D) its)"
  have "those (map (leaf_of_chunk D) (chunks (2 * TREE_BASE) its)) = Some (map ?leaf (chunks (2 * TREE_BASE) its))"
    by (intro those_map_Some leaf_of_chunk_ok) (auto dest: chunks_bounds)
  moreover have "level_ok 0 its (map ?leaf (chunks (2 * TREE_BASE) its))"
    by (auto simp: level_ok_def comp_def concat_chunks dest: chunks_bounds)
  ultimately show ?thesis by blast
qed

lemma parents_ok:
  assumes "level_ok h its nodes"
  shows "level_ok (h + 1) its (map (parent_of D (h + 1)) (chunks (2 * TREE_BASE) nodes))"
proof -
  have wf: "wf_node D (parent_of D (h + 1) cts) \<and> height (parent_of D (h + 1) cts) = h + 1 \<and>
      to_list (parent_of D (h + 1) cts) = concat (map to_list cts)"
    if "cts \<in> set (chunks (2 * TREE_BASE) nodes)" for cts
    using chunks_bounds [OF that] assms by (intro wf_parent_of) (auto simp: level_ok_def)
  have "concat (map to_list (map (parent_of D (h + 1)) (chunks (2 * TREE_BASE) nodes)))
      = concat (map (concat \<circ> map to_list) (chunks (2 * TREE_BASE) nodes))"
    using wf by (intro arg_cong [where f = concat]) auto
  also have "\<dots> = concat (map to_list (concat (chunks (2 * TREE_BASE) nodes)))"
    by (rule concat_map_concat)
  finally show ?thesis
    using wf assms by (auto simp: level_ok_def concat_chunks)
qed

lemma build_levels_ok:
  "level_ok h its nodes \<Longrightarrow>
   \<exists>h' nodes'. build_levels D h nodes = Some nodes' \<and> level_ok h' its nodes' \<and> length nodes' \<le> 1"
proof (induction nodes arbitrary: h rule: measure_induct_rule [where f = length])
  case (less nodes)
  show ?case
  proof (cases "length nodes > 1")
    case True
    then show ?thesis
      using less.IH [OF _ parents_ok [OF less.prems]]
      by (subst build_levels.simps) (simp add: group_children_chunks)
  next
    case False
    with less.prems show ?thesis by (subst build_levels.simps) auto
  qed
qed

lemma from_iter_ok: "\<exists>t. from_iter D its = Some t \<and> wf_tree D t \<and> to_list t = its"
proof -
  obtain leaves where leaves: "those (map (leaf_of_chunk D) (chunks (2 * TREE_BASE) its)) = Some leaves"
    "level_ok 0 its leaves" using leaves_ok by blast
  from build_levels_ok [OF leaves(2)] obtain h nodes where nodes: "build_levels D 0 leaves = Some nodes"
    "level_ok h its nodes" "length nodes \<le> 1" by blast
  show ?thesis
  proof (cases nodes)
    case Nil
    then show ?thesis using leaves nodes by (simp add: from_iter_def split_last_def level_ok_def)
  next
    case (Cons n ns)
    then have "nodes = [n]" using nodes(3) by simp
    then show ?thesis
      using leaves nodes by (auto simp: from_iter_def split_last_def level_ok_def wf_tree_def)
  qed
qed

text \<open>The parallel construction builds the very same tree.\<close>

lemma par_level_eq:
  assumes "level_ok l its nodes"
  shows "par_level D h nodes = Some (map (parent_of D h) (chunks (2 * TREE_BASE) nodes))"
proof -
  have "par_parent D h cts = Some (parent_of D h cts)" if "cts \<in> set (chunks (2 * TREE_BASE) nodes)" for cts
  proof (cases cts)
    case Nil
    then show ?thesis using chunks_bounds [OF that] by simp
  next
    case (Cons c cs)
    then have "is_summary D (node_summary c)" using chunks_bounds [OF that] assms by (auto simp: level_ok_def)
    then show ?thesis using chunks_bounds [OF that] Cons
      by (simp add: par_parent_def parent_of_def split_first_def Let_def sum_of_Cons)
  qed
  then show ?thesis by (simp add: par_level_def those_map_Some)
qed

lemma par_levels_eq: "level_ok h its nodes \<Longrightarrow> par_levels D h nodes = build_levels D h nodes"
proof (induction nodes arbitrary: h rule: measure_induct_rule [where f = length])
  case (less nodes)
  then show ?case using parents_ok [OF less.prems]
    by (subst par_levels.simps, subst build_levels.simps) (simp add: par_level_eq group_children_chunks)
qed

lemma from_par_iter_eq: "from_par_iter D its = from_iter D its"
proof -
  obtain leaves where "those (map (leaf_of_chunk D) (chunks (2 * TREE_BASE) its)) = Some leaves"
    "level_ok 0 its leaves" using leaves_ok by blast
  then show ?thesis by (simp add: from_par_iter_def from_iter_def par_levels_eq)
qed

lemma extend_ok:
  "wf_tree D t \<Longrightarrow> \<exists>t'. extend D t its = Some t' \<and> wf_tree D t' \<and> to_list t' = to_list t @ its"
  using from_iter_ok [of its] tree_append_ok [of t] by (auto simp: extend_def)

section \<open>The ends of the tree\<close>

lemma rightmost_leaf_ok:
  "wf_node D t \<Longrightarrow> \<exists>s its iss. rightmost_leaf t = Some (Leaf s its iss) \<and> wf_node D (Leaf s its iss) \<and>
     (\<exists>pre. to_list t = pre @ its)"
proof (induction t)
  case (Internal h s css cts)
  then obtain init c where cts: "cts = init @ [c]" by (cases cts rule: rev_cases) auto
  from Internal.IH [of c] Internal.prems cts obtain s' its iss pre
    where "rightmost_leaf c = Some (Leaf s' its iss)" "wf_node D (Leaf s' its iss)" "to_list c = pre @ its"
    by auto
  then show ?case by (auto simp: cts split_last_def intro: exI [of _ "concat (map to_list init) @ pre"])
qed auto

lemma leftmost_leaf_ok:
  "wf_node D t \<Longrightarrow> \<exists>s its iss. leftmost_leaf t = Some (Leaf s its iss) \<and> wf_node D (Leaf s its iss) \<and>
     (\<exists>post. to_list t = its @ post)"
proof (induction t)
  case (Internal h s css cts)
  then obtain c rest where cts: "cts = c # rest" by (cases cts) auto
  from Internal.IH [of c] Internal.prems cts obtain s' its iss post
    where "leftmost_leaf c = Some (Leaf s' its iss)" "wf_node D (Leaf s' its iss)" "to_list c = its @ post"
    by auto
  then show ?case by (auto simp: cts split_first_def)
qed auto

lemma wf_tree_cases:
  assumes "wf_tree D t"
  obtains (node) "wf_node D t" | (empty) "t = Leaf (zero D) [] []"
  using assms by (auto simp: wf_tree_def)

lemma tree_first_ok:
  assumes "wf_tree D t"
  shows "tree_first t = Some (list_first (to_list t))"
  using assms
proof (cases rule: wf_tree_cases)
  case node
  from leftmost_leaf_ok [OF node] obtain s its iss post where
    "leftmost_leaf t = Some (Leaf s its iss)" "its \<noteq> []" "to_list t = its @ post" by auto
  then show ?thesis by (cases its) (auto simp: tree_first_def list_first_def)
qed (simp add: tree_first_def list_first_def)

lemma tree_last_ok:
  assumes "wf_tree D t"
  shows "tree_last t = Some (list_last (to_list t))"
    and "last_summary t = Some (list_last (map (summary_of D) (to_list t)))"
proof -
  have "tree_last t = Some (list_last (to_list t)) \<and>
    last_summary t = Some (list_last (map (summary_of D) (to_list t)))"
    using assms
  proof (cases rule: wf_tree_cases)
    case node
    from rightmost_leaf_ok [OF node] obtain s its iss pre where
      "rightmost_leaf t = Some (Leaf s its iss)" "its \<noteq> []" "iss = map (summary_of D) its"
      "to_list t = pre @ its" by auto
    then show ?thesis by (simp add: tree_last_def last_summary_def list_last_def last_map)
  qed (simp add: tree_last_def last_summary_def list_last_def)
  then show "tree_last t = Some (list_last (to_list t))"
    and "last_summary t = Some (list_last (map (summary_of D) (to_list t)))" by auto
qed

lemma update_last_recursive_ok:
  "wf_node D t \<Longrightarrow>
   \<exists>t'. update_last_recursive D f t = Some (t', Some (node_summary t')) \<and> wf_node D t' \<and>
     height t' = height t \<and> to_list t' = butlast (to_list t) @ [f (last (to_list t))]"
proof (induction t)
  case (Internal h s css cts)
  then obtain init c where cts: "cts = init @ [c]" by (cases cts rule: rev_cases) auto
  from Internal.IH [of c] Internal.prems cts obtain c'
    where c': "update_last_recursive D f c = Some (c', Some (node_summary c'))" "wf_node D c'"
      "height c' = height c" "to_list c' = butlast (to_list c) @ [f (last (to_list c))]" by auto
  have "to_list c \<noteq> []" using Internal.prems cts by (auto dest: wf_node_nonempty)
  then show ?case
    using c' Internal.prems cts by (auto simp: split_last_def butlast_append Let_def)
next
  case (Leaf s its iss)
  then obtain init x where "its = init @ [x]" by (cases its rule: rev_cases) auto
  with Leaf show ?case by (auto simp: split_last_def Let_def)
qed

lemma update_first_recursive_ok:
  "wf_node D t \<Longrightarrow>
   \<exists>t'. update_first_recursive D f t = Some (t', Some (node_summary t')) \<and> wf_node D t' \<and>
     height t' = height t \<and> to_list t' = f (hd (to_list t)) # tl (to_list t)"
proof (induction t)
  case (Internal h s css cts)
  then obtain c rest where cts: "cts = c # rest" by (cases cts) auto
  from Internal.IH [of c] Internal.prems cts obtain c'
    where c': "update_first_recursive D f c = Some (c', Some (node_summary c'))" "wf_node D c'"
      "height c' = height c" "to_list c' = f (hd (to_list c)) # tl (to_list c)" by auto
  have "to_list c \<noteq> []" using Internal.prems cts by (auto dest: wf_node_nonempty)
  then show ?case
    using c' Internal.prems cts by (auto simp: split_first_def Let_def)
next
  case (Leaf s its iss)
  then obtain x xs where "its = x # xs" by (cases its) auto
  with Leaf show ?case by (auto simp: split_first_def Let_def)
qed

end

end
