(* ===== verification/Cursor.thy ===== *)
theory Cursor
  imports SumTreeCorrect
begin

text \<open>
  Seeking in a B+ tree: the searches \<open>find\<close>, \<open>find_exact\<close> and \<open>find_with_prev\<close> of
  \<open>crates/sum_tree/src/sum_tree.rs\<close> and the stateful cursor of
  \<open>crates/sum_tree/src/cursor.rs\<close> with its three seek aggregates. A dimension is a record of
  operations, a seek target the function \<open>\<lambda>location. target.cmp(location)\<close>. The cursor's
  stack is a list with the top entry first; the fixed capacity of 16 of the source's stack
  (the height of a tree is below that) is not modelled.
\<close>

section \<open>Dimensions and targets\<close>

record ('d, 's) dim_ops =
  d_zero :: "'d"
  d_add :: "'d \<Rightarrow> 's \<Rightarrow> 'd"

text \<open>\<open>Dimensions\<close>: two positions at once.\<close>

definition dims2 :: "('d, 's) dim_ops \<Rightarrow> ('e, 's) dim_ops \<Rightarrow> ('d \<times> 'e, 's) dim_ops" where
  "dims2 M N = \<lparr>d_zero = (d_zero M, d_zero N), d_add = (\<lambda>(p, q) s. (d_add M p s, d_add N q s))\<rparr>"

text \<open>\<open>extent\<close>: the position at the end of a tree.\<close>

definition extent :: "('d, 's) dim_ops \<Rightarrow> ('a, 's) node \<Rightarrow> 'd" where
  "extent M t = d_add M (d_zero M) (node_summary t)"

text \<open>The test \<open>Greater \<or> (Equal \<and> bias == Right)\<close>: the target lies at or past this end.\<close>

definition passes :: "('d \<Rightarrow> ordering) \<Rightarrow> bias \<Rightarrow> 'd \<Rightarrow> bool" where
  "passes target b end_pos \<longleftrightarrow>
     target end_pos = Greater \<or> (target end_pos = Equal \<and> b = Right)"

text \<open>The complementary test \<open>Less \<or> (Equal \<and> bias == Left)\<close>.\<close>

definition target_in :: "('d \<Rightarrow> ordering) \<Rightarrow> bias \<Rightarrow> 'd \<Rightarrow> bool" where
  "target_in target b end_pos \<longleftrightarrow>
     target end_pos = Less \<or> (target end_pos = Equal \<and> b = Left)"

lemma target_in_iff: "target_in target b p \<longleftrightarrow> \<not> passes target b p"
  by (cases "target p"; cases b) (auto simp: target_in_def passes_def)

section \<open>Searches without a cursor\<close>

text \<open>
  The loop over a node's children or items: advance the position until the end of an entry
  satisfies the test; the entry found comes with its end.
\<close>

fun scan :: "('d, 's) dim_ops \<Rightarrow> ('d \<Rightarrow> bool) \<Rightarrow> 'd \<Rightarrow> ('x \<times> 's) list \<Rightarrow> 'd \<times> ('x \<times> 'd) option" where
  "scan M stop pos [] = (pos, None)"
| "scan M stop pos ((x, s) # rest) =
     (let end_pos = d_add M pos s
      in if stop end_pos then (pos, Some (x, end_pos)) else scan M stop end_pos rest)"

lemma scan_Some_mem: "scan M stop pos xs = (p, Some (x, e)) \<Longrightarrow> x \<in> fst ` set xs"
  by (induction M stop pos xs rule: scan.induct) (auto simp: Let_def split: if_splits)

function find_iterate ::
  "('d, 's) dim_ops \<Rightarrow> bool \<Rightarrow> ('d \<Rightarrow> ordering) \<Rightarrow> bias \<Rightarrow> 'd \<Rightarrow> ('a, 's) node
   \<Rightarrow> 'd \<times> ('a \<times> 'd) option" where
  "find_iterate M exact target b pos (Internal h s css cts) =
     (case scan M (target_in target b) pos (zip cts css) of
       (pos', Some (child, _)) \<Rightarrow> find_iterate M exact target b pos' child
     | (pos', None) \<Rightarrow> (pos', None))"
| "find_iterate M exact target b pos (Leaf s its iss) =
     scan M (\<lambda>e. if exact then target e = Equal else target_in target b e) pos (zip its iss)"
  by pat_completeness auto
termination
  by (relation "measure (\<lambda>(M, exact, target, b, pos, n). size n)")
    (auto dest!: scan_Some_mem [OF sym] set_zip_leftD simp: less_Suc_eq_le
      intro: order.trans [OF size_list_estimation'])

definition find_gen ::
  "('a, 's) item_ops \<Rightarrow> ('d, 's) dim_ops \<Rightarrow> bool \<Rightarrow> ('d \<Rightarrow> ordering) \<Rightarrow> bias \<Rightarrow> ('a, 's) node
   \<Rightarrow> 'd \<times> 'd \<times> 'a option" where
  "find_gen D M exact target b t =
     (let tree_end = d_add M (d_zero M) (node_summary t)
      in if passes target b tree_end then (tree_end, tree_end, None)
         else case find_iterate M exact target b (d_zero M) t of
           (pos, Some (item, end_pos)) \<Rightarrow> (pos, end_pos, Some item)
         | (pos, None) \<Rightarrow> (pos, pos, None))"

definition tree_find_exact ::
  "('a, 's) item_ops \<Rightarrow> ('d, 's) dim_ops \<Rightarrow> ('d \<Rightarrow> ordering) \<Rightarrow> bias \<Rightarrow> ('a, 's) node
   \<Rightarrow> 'd \<times> 'd \<times> 'a option" where
  "tree_find_exact D M target b t = find_gen D M True target b t"

definition tree_find ::
  "('a, 's) item_ops \<Rightarrow> ('d, 's) dim_ops \<Rightarrow> ('d \<Rightarrow> ordering) \<Rightarrow> bias \<Rightarrow> ('a, 's) node
   \<Rightarrow> 'd \<times> 'd \<times> 'a option" where
  "tree_find D M target b t = find_gen D M False target b t"

section \<open>The cursor\<close>

record ('a, 's, 'd) stack_entry =
  se_tree :: "('a, 's) node"
  se_index :: nat
  se_position :: "'d"

record ('a, 's, 'd) cursor =
  c_tree :: "('a, 's) node"
  c_stack :: "('a, 's, 'd) stack_entry list"
  c_position :: "'d"
  c_did_seek :: bool
  c_at_end :: bool

definition cursor_new :: "('d, 's) dim_ops \<Rightarrow> ('a, 's) node \<Rightarrow> ('a, 's, 'd) cursor" where
  "cursor_new M t =
     \<lparr>c_tree = t, c_stack = [], c_position = d_zero M, c_did_seek = False, c_at_end = is_empty t\<rparr>"

definition cursor_reset :: "('d, 's) dim_ops \<Rightarrow> ('a, 's, 'd) cursor \<Rightarrow> ('a, 's, 'd) cursor" where
  "cursor_reset M c =
     c\<lparr>c_did_seek := False, c_at_end := is_empty (c_tree c), c_stack := [], c_position := d_zero M\<rparr>"

text \<open>
  \<open>item\<close> and \<open>item_summary\<close>: the outer option is the panic of \<open>assert_did_seek\<close>, of
  \<open>unreachable!\<close> and of an index out of range.
\<close>

definition cursor_entry_get ::
  "(('a, 's) node \<Rightarrow> 'x list option) \<Rightarrow> ('a, 's, 'd) cursor \<Rightarrow> 'x option option" where
  "cursor_entry_get get c =
     (if \<not> c_did_seek c then None
      else case c_stack c of
        [] \<Rightarrow> Some None
      | e # _ \<Rightarrow> do {
          xs \<leftarrow> get (se_tree e);
          if se_index e = length xs then Some None
          else if se_index e < length xs then Some (Some (xs ! se_index e)) else None
        })"

definition cursor_item :: "('a, 's, 'd) cursor \<Rightarrow> 'a option option" where
  "cursor_item c = cursor_entry_get node_items c"

definition leaf_summaries :: "('a, 's) node \<Rightarrow> 's list option" where
  "leaf_summaries n = (if is_leaf n then Some (child_summaries n) else None)"

definition cursor_item_summary :: "('a, 's, 'd) cursor \<Rightarrow> 's option option" where
  "cursor_item_summary c = cursor_entry_get leaf_summaries c"

definition cursor_end :: "('d, 's) dim_ops \<Rightarrow> ('a, 's, 'd) cursor \<Rightarrow> 'd option" where
  "cursor_end M c = do {
     s \<leftarrow> cursor_item_summary c;
     Some (case s of Some s \<Rightarrow> d_add M (c_position c) s | None \<Rightarrow> c_position c)
   }"

subsection \<open>Seek aggregates\<close>

record ('g, 'a, 's) agg_ops =
  end_leaf :: "'g \<Rightarrow> 'g option"
  push_item :: "'g \<Rightarrow> 'a \<Rightarrow> 's \<Rightarrow> 'g option"
  push_tree :: "'g \<Rightarrow> ('a, 's) node \<Rightarrow> 's \<Rightarrow> 'g option"

definition unit_agg :: "(unit, 'a, 's) agg_ops" where
  "unit_agg = \<lparr>end_leaf = (\<lambda>g. Some g), push_item = (\<lambda>g _ _. Some g), push_tree = (\<lambda>g _ _. Some g)\<rparr>"

record ('a, 's) slice_state =
  sl_tree :: "('a, 's) node"
  sl_leaf_items :: "'a list"
  sl_leaf_item_summaries :: "'s list"
  sl_leaf_summary :: "'s"

definition slice_end_leaf ::
  "('a, 's) item_ops \<Rightarrow> ('a, 's) slice_state \<Rightarrow> ('a, 's) slice_state option" where
  "slice_end_leaf D g = do {
     t \<leftarrow> tree_append D (sl_tree g) (Leaf (sl_leaf_summary g) (sl_leaf_items g) (sl_leaf_item_summaries g));
     Some (g\<lparr>sl_tree := t, sl_leaf_items := [], sl_leaf_item_summaries := [], sl_leaf_summary := zero D\<rparr>)
   }"

definition slice_push_item ::
  "('a, 's) item_ops \<Rightarrow> ('a, 's) slice_state \<Rightarrow> 'a \<Rightarrow> 's \<Rightarrow> ('a, 's) slice_state option" where
  "slice_push_item D g x s = do {
     its \<leftarrow> fit (sl_leaf_items g @ [x]);
     iss \<leftarrow> fit (sl_leaf_item_summaries g @ [s]);
     Some (g\<lparr>sl_leaf_items := its, sl_leaf_item_summaries := iss,
              sl_leaf_summary := add_summary D (sl_leaf_summary g) s\<rparr>)
   }"

definition slice_push_tree ::
  "('a, 's) item_ops \<Rightarrow> ('a, 's) slice_state \<Rightarrow> ('a, 's) node \<Rightarrow> 's \<Rightarrow> ('a, 's) slice_state option" where
  "slice_push_tree D g t s = do {
     t' \<leftarrow> tree_append D (sl_tree g) t;
     Some (g\<lparr>sl_tree := t'\<rparr>)
   }"

definition slice_agg :: "('a, 's) item_ops \<Rightarrow> (('a, 's) slice_state, 'a, 's) agg_ops" where
  "slice_agg D = \<lparr>end_leaf = slice_end_leaf D, push_item = slice_push_item D, push_tree = slice_push_tree D\<rparr>"

definition summary_agg :: "('o, 's) dim_ops \<Rightarrow> ('o, 'a, 's) agg_ops" where
  "summary_agg N = \<lparr>end_leaf = (\<lambda>g. Some g), push_item = (\<lambda>g _ s. Some (d_add N g s)),
     push_tree = (\<lambda>g _ s. Some (d_add N g s))\<rparr>"

subsection \<open>Seeking\<close>

text \<open>
  The loop over the remaining children of an internal node: position, aggregate and index
  after it, and the child in which the search continues, if any.
\<close>

fun seek_children ::
  "('d, 's) dim_ops \<Rightarrow> ('g, 'a, 's) agg_ops \<Rightarrow> ('d \<Rightarrow> bool) \<Rightarrow> 'd \<Rightarrow> 'g \<Rightarrow> nat
   \<Rightarrow> (('a, 's) node \<times> 's) list \<Rightarrow> ('d \<times> 'g \<times> nat \<times> ('a, 's) node option) option" where
  "seek_children M A pass pos g ix [] = Some (pos, g, ix, None)"
| "seek_children M A pass pos g ix ((child, s) # rest) =
     (let child_end = d_add M pos s
      in if pass child_end then do {
           g' \<leftarrow> push_tree A g child s;
           seek_children M A pass child_end g' (ix + 1) rest
         }
         else Some (pos, g, ix, Some child))"

text \<open>The loop over the remaining items of a leaf; the flag says whether it broke off.\<close>

fun seek_items ::
  "('d, 's) dim_ops \<Rightarrow> ('g, 'a, 's) agg_ops \<Rightarrow> ('d \<Rightarrow> bool) \<Rightarrow> 'd \<Rightarrow> 'g \<Rightarrow> nat
   \<Rightarrow> ('a \<times> 's) list \<Rightarrow> ('d \<times> 'g \<times> nat \<times> bool) option" where
  "seek_items M A pass pos g ix [] = Some (pos, g, ix, False)"
| "seek_items M A pass pos g ix ((x, s) # rest) =
     (let child_end = d_add M pos s
      in if pass child_end then do {
           g' \<leftarrow> push_item A g x s;
           seek_items M A pass child_end g' (ix + 1) rest
         }
         else Some (pos, g, ix, True))"

text \<open>\<open>xs[i..]\<close> panics when \<open>i\<close> is past the end.\<close>

definition slice_from :: "nat \<Rightarrow> 'x list \<Rightarrow> 'x list option" where
  "slice_from i xs = (if i \<le> length xs then Some (drop i xs) else None)"

text \<open>Work left on a stack, for the termination of the loops that walk it.\<close>

fun weight :: "('a, 's) node \<Rightarrow> nat" where
  "weight (Leaf _ _ _) = 2"
| "weight (Internal _ _ _ cts) = 2 + sum_list (map weight cts)"

definition entry_weight :: "nat \<Rightarrow> ('a, 's, 'd) stack_entry \<Rightarrow> nat" where
  "entry_weight k e = 1 + (case se_tree e of
     Internal _ _ _ cts \<Rightarrow> sum_list (map weight (drop (se_index e + k) cts)) | Leaf _ _ _ \<Rightarrow> 0)"

fun stack_weight :: "bool \<Rightarrow> ('a, 's, 'd) stack_entry list \<Rightarrow> nat" where
  "stack_weight ascending [] = 0"
| "stack_weight ascending (e # st) =
     entry_weight (if ascending then 1 else 0) e + sum_list (map (entry_weight 1) st)"

lemma seek_children_child:
  "seek_children M A pass pos g ix xs = Some (pos', g', ix', Some c) \<Longrightarrow>
   \<exists>k < length xs. ix' = ix + k \<and> c = fst (xs ! k)"
proof (induction M A pass pos g ix xs rule: seek_children.induct)
  case (2 M A pass pos g ix child s rest)
  show ?case
  proof (cases "pass (d_add M pos s)")
    case True
    with 2(2) obtain g1 where "seek_children M A pass (d_add M pos s) g1 (ix + 1) rest = Some (pos', g', ix', Some c)"
      and "push_tree A g child s = Some g1"
      by (auto simp: Let_def Option.bind_eq_Some_conv)
    with 2(1) [OF refl True] obtain k where "k < length rest" "ix' = ix + 1 + k" "c = fst (rest ! k)" by auto
    then show ?thesis by (intro exI [of _ "Suc k"]) auto
  next
    case False
    with 2(2) show ?thesis by (auto simp: Let_def)
  qed
qed simp

lemma sum_drop_nth:
  "i + k < length xs \<Longrightarrow>
   f (xs ! (i + k)) + sum_list (map f (drop (Suc (i + k)) xs)) \<le> (sum_list (map f (drop i xs)) :: nat)"
proof (induction k arbitrary: i)
  case 0
  then show ?case by (simp add: Cons_nth_drop_Suc [symmetric])
next
  case (Suc k)
  from Suc.IH [of "Suc i"] Suc.prems show ?case
    by (simp add: Cons_nth_drop_Suc [symmetric, of i])
qed

lemma stack_weight_pop: "stack_weight True st \<le> sum_list (map (entry_weight 1) st)"
  by (cases st) auto

lemma entry_weight_pos: "0 < entry_weight k e"
  by (simp add: entry_weight_def)


lemma pop_weight: "stack_weight True st < stack_weight a (e # st)"
  using stack_weight_pop [of st] entry_weight_pos [of _ e] by (simp add: less_add_same_cancel2 add.commute le_less_trans)

lemma child_weight:
  assumes "se_tree e = Internal h s css cts" "se_index e + (if a then 1 else 0) \<le> ix'" "ix' < length cts"
    and "se_tree e'' = se_tree e" "se_index e'' = ix'"
  shows "stack_weight False (\<lparr>se_tree = cts ! ix', se_index = 0, se_position = p\<rparr> # e'' # st)
    < stack_weight a (e # st)"
proof -
  define ix where "ix = se_index e + (if a then 1 else 0)"
  with assms(2) obtain k where k: "ix' = ix + k" by (auto simp: le_iff_add)
  have "weight (cts ! ix') + sum_list (map weight (drop (Suc ix') cts)) \<le> sum_list (map weight (drop ix cts))"
    using sum_drop_nth [of ix k cts weight] k assms(3) by simp
  moreover have "entry_weight 0 \<lparr>se_tree = cts ! ix', se_index = 0, se_position = p\<rparr> < weight (cts ! ix')"
    by (cases "cts ! ix'") (auto simp: entry_weight_def)
  moreover have "entry_weight 1 e'' = 1 + sum_list (map weight (drop (Suc ix') cts))"
    using assms by (simp add: entry_weight_def)
  moreover have "entry_weight (if a then 1 else 0) e = 1 + sum_list (map weight (drop ix cts))"
    using assms by (simp add: entry_weight_def ix_def)
  ultimately show ?thesis by simp
qed

lemma descend_weight:
  assumes "se_tree e = Internal h s css cts" "ix = se_index e + (if a then 1 else 0)"
    and "slice_from ix cts = Some ts" "slice_from ix css = Some ss"
    and "seek_children M A pass pos g ix (zip ts ss) = Some (pos', g', ix', Some child)"
    and "se_tree e'' = se_tree e" "se_index e'' = ix'"
  shows "stack_weight False (\<lparr>se_tree = child, se_index = 0, se_position = p\<rparr> # e'' # st) < stack_weight a (e # st)"
proof -
  have drop: "ts = drop ix cts" using assms(3) by (auto simp: slice_from_def split: if_splits)
  from seek_children_child [OF assms(5)] obtain k where k: "k < length ts" "ix' = ix + k" "child = ts ! k" by auto
  then have "child = cts ! ix'" "ix' < length cts" using drop by auto
  then show ?thesis using child_weight [OF assms(1), of a ix' e''] assms k by simp
qed

function seek_loop ::
  "('d, 's) dim_ops \<Rightarrow> ('g, 'a, 's) agg_ops \<Rightarrow> ('d \<Rightarrow> bool) \<Rightarrow> bool \<Rightarrow> 'd \<Rightarrow> 'g
   \<Rightarrow> ('a, 's, 'd) stack_entry list \<Rightarrow> (('a, 's, 'd) stack_entry list \<times> 'd \<times> 'g) option" where
  "seek_loop M A pass ascending pos g [] = Some ([], pos, g)"
| "seek_loop M A pass ascending pos g (e # st) =
     (case se_tree e of
       Internal h s css cts \<Rightarrow> do {
         let e' = (if ascending then e\<lparr>se_index := se_index e + 1, se_position := pos\<rparr> else e);
         rest_trees \<leftarrow> slice_from (se_index e') cts;
         rest_summaries \<leftarrow> slice_from (se_index e') css;
         (pos', g', ix', found) \<leftarrow>
           seek_children M A pass pos g (se_index e') (zip rest_trees rest_summaries);
         let e'' = (if ix' = se_index e' then e' else e'\<lparr>se_index := ix', se_position := pos'\<rparr>);
         (case found of
           Some child \<Rightarrow>
             seek_loop M A pass False pos' g'
               (\<lparr>se_tree = child, se_index = 0, se_position = pos'\<rparr> # e'' # st)
         | None \<Rightarrow> seek_loop M A pass True pos' g' st)
       }
     | Leaf s its iss \<Rightarrow> do {
         rest_items \<leftarrow> slice_from (se_index e) its;
         rest_summaries \<leftarrow> slice_from (se_index e) iss;
         (pos', g', ix', stopped) \<leftarrow>
           seek_items M A pass pos g (se_index e) (zip rest_items rest_summaries);
         g'' \<leftarrow> end_leaf A g';
         if stopped then Some (e\<lparr>se_index := ix'\<rparr> # st, pos', g'')
         else seek_loop M A pass True pos' g'' st
       })"
  by pat_completeness auto
termination
proof (relation "measure (\<lambda>(M, A, pass, ascending, pos, g, st). stack_weight ascending st)", goal_cases)
  case (3 M A pass ascending pos g e st h s css cts e' ts ss r pos' r2 g' r3 ix' found e'' child)
  then have "stack_weight False (\<lparr>se_tree = child, se_index = 0, se_position = pos'\<rparr> # e'' # st)
      < stack_weight ascending (e # st)"
    by (intro descend_weight [of e h s css cts "se_index e'" ascending ts ss M A pass pos g pos' g' ix' child e''])
      auto
  then show ?case by simp
qed (auto simp del: stack_weight.simps simp: pop_weight)


definition seek_internal ::
  "('d, 's) dim_ops \<Rightarrow> ('g, 'a, 's) agg_ops \<Rightarrow> ('d \<Rightarrow> ordering) \<Rightarrow> bias
   \<Rightarrow> ('a, 's, 'd) cursor \<Rightarrow> 'g \<Rightarrow> (bool \<times> ('a, 's, 'd) cursor \<times> 'g) option" where
  "seek_internal M A target b c g =
     (if target (c_position c) = Less then None
      else do {
        let stack = (if c_did_seek c then c_stack c
                     else \<lparr>se_tree = c_tree c, se_index = 0, se_position = d_zero M\<rparr> # c_stack c);
        (stack', pos', g') \<leftarrow> seek_loop M A (passes target b) False (c_position c) g stack;
        let c' = c\<lparr>c_did_seek := True, c_stack := stack', c_position := pos', c_at_end := (stack' = [])\<rparr>;
        s \<leftarrow> cursor_item_summary c';
        let end_pos = (case s of Some s \<Rightarrow> if b = Left then d_add M pos' s else pos' | None \<Rightarrow> pos');
        Some (target end_pos = Equal, c', g')
      })"

definition cursor_seek ::
  "('d, 's) dim_ops \<Rightarrow> ('d \<Rightarrow> ordering) \<Rightarrow> bias \<Rightarrow> ('a, 's, 'd) cursor
   \<Rightarrow> (bool \<times> ('a, 's, 'd) cursor) option" where
  "cursor_seek M target b c = do {
     (found, c', _) \<leftarrow> seek_internal M unit_agg target b (cursor_reset M c) ();
     Some (found, c')
   }"

definition cursor_seek_forward ::
  "('d, 's) dim_ops \<Rightarrow> ('d \<Rightarrow> ordering) \<Rightarrow> bias \<Rightarrow> ('a, 's, 'd) cursor
   \<Rightarrow> (bool \<times> ('a, 's, 'd) cursor) option" where
  "cursor_seek_forward M target b c = do {
     (found, c', _) \<leftarrow> seek_internal M unit_agg target b c ();
     Some (found, c')
   }"

definition slice_init :: "('a, 's) item_ops \<Rightarrow> ('a, 's) slice_state" where
  "slice_init D = \<lparr>sl_tree = tree_new D, sl_leaf_items = [], sl_leaf_item_summaries = [],
     sl_leaf_summary = zero D\<rparr>"

definition cursor_slice ::
  "('a, 's) item_ops \<Rightarrow> ('d, 's) dim_ops \<Rightarrow> ('d \<Rightarrow> ordering) \<Rightarrow> bias \<Rightarrow> ('a, 's, 'd) cursor
   \<Rightarrow> (('a, 's) node \<times> ('a, 's, 'd) cursor) option" where
  "cursor_slice D M target b c = do {
     (_, c', g) \<leftarrow> seek_internal M (slice_agg D) target b c (slice_init D);
     Some (sl_tree g, c')
   }"

text \<open>\<open>End\<close> compares greater than every location.\<close>

definition end_target :: "'d \<Rightarrow> ordering" where
  "end_target _ = Greater"

definition cursor_suffix ::
  "('a, 's) item_ops \<Rightarrow> ('d, 's) dim_ops \<Rightarrow> ('a, 's, 'd) cursor
   \<Rightarrow> (('a, 's) node \<times> ('a, 's, 'd) cursor) option" where
  "cursor_suffix D M c = cursor_slice D M end_target Right c"

definition cursor_summary ::
  "('d, 's) dim_ops \<Rightarrow> ('o, 's) dim_ops \<Rightarrow> ('d \<Rightarrow> ordering) \<Rightarrow> bias \<Rightarrow> ('a, 's, 'd) cursor
   \<Rightarrow> ('o \<times> ('a, 's, 'd) cursor) option" where
  "cursor_summary M N target b c = do {
     (_, c', g) \<leftarrow> seek_internal M (summary_agg N) target b c (d_zero N);
     Some (g, c')
   }"

subsection \<open>Stepping forward\<close>

text \<open>Skip entries whose summary the filter rejects; the flag says whether one was accepted.\<close>

fun skip_summaries ::
  "('d, 's) dim_ops \<Rightarrow> ('s \<Rightarrow> bool) \<Rightarrow> 'd \<Rightarrow> nat \<Rightarrow> 's list \<Rightarrow> 'd \<times> nat \<times> bool" where
  "skip_summaries M keep pos ix [] = (pos, ix, False)"
| "skip_summaries M keep pos ix (s # ss) =
     (if keep s then (pos, ix, True) else skip_summaries M keep (d_add M pos s) (ix + 1) ss)"

lemma skip_summaries_ix: "skip_summaries M keep pos ix ss = (pos', ix', found) \<Longrightarrow> ix \<le> ix'"
  by (induction M keep pos ix ss rule: skip_summaries.induct) (auto split: if_splits dest: Suc_leD)

definition get_child :: "nat \<Rightarrow> 'x list \<Rightarrow> 'x option" where
  "get_child i xs = (if i < length xs then Some (xs ! i) else None)"

text \<open>The loop of \<open>search_forward\<close>; the flag of the result says that it returned early, on an item.\<close>

function forward_loop ::
  "('d, 's) dim_ops \<Rightarrow> ('s \<Rightarrow> bool) \<Rightarrow> bool \<Rightarrow> 'd \<Rightarrow> ('a, 's, 'd) stack_entry list
   \<Rightarrow> (('a, 's, 'd) stack_entry list \<times> 'd \<times> bool) option" where
  "forward_loop M keep descend pos [] = Some ([], pos, False)"
| "forward_loop M keep descend pos (e # st) =
     (case se_tree e of
       Internal h s css cts \<Rightarrow>
         let e' = (if descend then e else e\<lparr>se_index := se_index e + 1, se_position := pos\<rparr>);
             (pos', ix', _) = skip_summaries M keep pos (se_index e') (drop (se_index e') css);
             e'' = (if ix' = se_index e' then e'
                    else e'\<lparr>se_index := ix', se_position := foldl (d_add M) (se_position e')
                      (take (ix' - se_index e') (drop (se_index e') css))\<rparr>)
         in (case get_child ix' cts of
              Some subtree \<Rightarrow>
                forward_loop M keep True pos'
                  (\<lparr>se_tree = subtree, se_index = 0, se_position = pos'\<rparr> # e'' # st)
            | None \<Rightarrow> forward_loop M keep False pos' st)
     | Leaf s its iss \<Rightarrow> do {
         (ix, pos0, epos) \<leftarrow>
           (if descend then Some (se_index e, pos, se_position e)
            else if se_index e < length iss
            then Some (se_index e + 1, d_add M pos (iss ! se_index e), d_add M (se_position e) (iss ! se_index e))
            else None);
         let (pos', ix', found) = skip_summaries M keep pos0 ix (drop ix iss);
         let e' = e\<lparr>se_index := ix', se_position := foldl (d_add M) epos (take (ix' - ix) (drop ix iss))\<rparr>;
         (if found then Some (e' # st, pos', True) else forward_loop M keep False pos' st)
       })"
  by pat_completeness auto
termination
proof (relation "measure (\<lambda>(M, keep, descend, pos, st). stack_weight (\<not> descend) st)", goal_cases)
  case (3 M keep descend pos e st h s css cts e' r pos' r2 ix' found e'' subtree)
  then have "se_index e' \<le> ix'" by (auto dest!: skip_summaries_ix [OF sym])
  moreover have "subtree = cts ! ix'" "ix' < length cts"
    using 3 by (auto simp: get_child_def split: if_splits)
  ultimately have "stack_weight False (\<lparr>se_tree = subtree, se_index = 0, se_position = pos'\<rparr> # e'' # st)
      < stack_weight (\<not> descend) (e # st)"
    using child_weight [of e h s css cts "\<not> descend" ix' e'' pos' st] 3 by (auto split: if_splits)
  then show ?case by simp
qed (auto simp del: stack_weight.simps simp: pop_weight)

definition search_forward ::
  "('d, 's) dim_ops \<Rightarrow> ('s \<Rightarrow> bool) \<Rightarrow> ('a, 's, 'd) cursor \<Rightarrow> ('a, 's, 'd) cursor option" where
  "search_forward M keep c =
     (let (stack, descend, did_seek) =
        (if c_stack c = [] then
           (if \<not> c_at_end c then [\<lparr>se_tree = c_tree c, se_index = 0, se_position = d_zero M\<rparr>] else [],
            \<not> c_at_end c, True)
         else (c_stack c, False, c_did_seek c))
      in do {
        (stack', pos', returned) \<leftarrow> forward_loop M keep descend (c_position c) stack;
        Some (c\<lparr>c_stack := stack', c_position := pos', c_did_seek := did_seek,
                c_at_end := (if returned then c_at_end c else stack' = [])\<rparr>)
      })"

definition cursor_next :: "('d, 's) dim_ops \<Rightarrow> ('a, 's, 'd) cursor \<Rightarrow> ('a, 's, 'd) cursor option" where
  "cursor_next M c = search_forward M (\<lambda>_. True) c"

end
