(* ===== verification/CursorCorrect.thy ===== *)
theory CursorCorrect
  imports Cursor
begin

text \<open>
  Correctness of the searches and of the cursor against the item sequence. A seek consumes
  the longest run of items whose ends the target passes; the laws this needs of a dimension
  are the locale \<open>seek_laws\<close>, the laws of what a seek collects the locale \<open>seek_aggregate\<close>.
\<close>

section \<open>Positions in a sequence\<close>

fun ends :: "('a, 's) item_ops \<Rightarrow> ('d, 's) dim_ops \<Rightarrow> 'd \<Rightarrow> 'a list \<Rightarrow> 'd list" where
  "ends D M pos [] = []"
| "ends D M pos (x # xs) = (let e = d_add M pos (summary_of D x) in e # ends D M e xs)"

definition after :: "('a, 's) item_ops \<Rightarrow> ('d, 's) dim_ops \<Rightarrow> 'd \<Rightarrow> 'a list \<Rightarrow> 'd" where
  "after D M pos xs = foldl (\<lambda>p x. d_add M p (summary_of D x)) pos xs"

text \<open>The specification of a seek: the items passed, and the rest.\<close>

fun advance ::
  "('a, 's) item_ops \<Rightarrow> ('d, 's) dim_ops \<Rightarrow> ('d \<Rightarrow> bool) \<Rightarrow> 'd \<Rightarrow> 'a list \<Rightarrow> 'a list \<times> 'a list" where
  "advance D M pass pos [] = ([], [])"
| "advance D M pass pos (x # xs) =
     (let e = d_add M pos (summary_of D x)
      in if pass e then (let (ys, zs) = advance D M pass e xs in (x # ys, zs)) else ([], x # xs))"

text \<open>Along the sequence, once an end is not passed no later one is.\<close>

definition pass_mono :: "('a, 's) item_ops \<Rightarrow> ('d, 's) dim_ops \<Rightarrow> ('d \<Rightarrow> bool) \<Rightarrow> 'd \<Rightarrow> 'a list \<Rightarrow> bool" where
  "pass_mono D M pass pos xs \<longleftrightarrow> sorted_wrt (\<lambda>p q. pass q \<longrightarrow> pass p) (ends D M pos xs)"

lemma after_simps [simp]:
  "after D M pos [] = pos"
  "after D M pos (x # xs) = after D M (d_add M pos (summary_of D x)) xs"
  "after D M pos (xs @ ys) = after D M (after D M pos xs) ys"
  by (simp_all add: after_def)

lemma ends_append [simp]: "ends D M pos (xs @ ys) = ends D M pos xs @ ends D M (after D M pos xs) ys"
  by (induction xs arbitrary: pos) (simp_all add: Let_def)

lemma length_ends [simp]: "length (ends D M pos xs) = length xs"
  by (induction xs arbitrary: pos) (simp_all add: Let_def)

lemma ends_eq_Nil [simp]: "ends D M pos xs = [] \<longleftrightarrow> xs = []"
  by (metis length_0_conv length_ends)

lemma last_ends: "xs \<noteq> [] \<Longrightarrow> last (ends D M pos xs) = after D M pos xs"
  by (induction xs arbitrary: pos) (simp_all add: Let_def)

lemma pass_mono_append:
  "pass_mono D M pass pos (xs @ ys) \<Longrightarrow>
   pass_mono D M pass pos xs \<and> pass_mono D M pass (after D M pos xs) ys"
  by (simp add: pass_mono_def sorted_wrt_append)

lemma pass_mono_prefix_passes:
  assumes "pass_mono D M pass pos xs" "xs \<noteq> []" "pass (after D M pos xs)"
  shows "\<forall>e \<in> set (ends D M pos xs). pass e"
proof -
  have e: "ends D M pos xs = butlast (ends D M pos xs) @ [after D M pos xs]"
    using assms(2) last_ends [OF assms(2), of D M pos] by (metis append_butlast_last_id ends_eq_Nil)
  show ?thesis
    using assms(1,3) unfolding pass_mono_def by (subst (asm) e, subst e) (auto simp: sorted_wrt_append)
qed

lemma advance_append: "fst (advance D M pass pos xs) @ snd (advance D M pass pos xs) = xs"
  by (induction xs arbitrary: pos) (simp_all add: Let_def split_def)

lemma advance_fst_passes: "\<forall>e \<in> set (ends D M pos (fst (advance D M pass pos xs))). pass e"
  by (induction xs arbitrary: pos) (auto simp: Let_def split_def)

lemma advance_snd_stops:
  "snd (advance D M pass pos xs) = v # vs \<Longrightarrow> \<not> pass (after D M pos (fst (advance D M pass pos xs) @ [v]))"
  by (induction xs arbitrary: pos) (auto simp: Let_def split_def split: if_splits)

lemma advance_passes:
  "\<forall>e \<in> set (ends D M pos xs). pass e \<Longrightarrow>
   advance D M pass pos (xs @ ys) =
     (xs @ fst (advance D M pass (after D M pos xs) ys), snd (advance D M pass (after D M pos xs) ys))"
  by (induction xs arbitrary: pos) (auto simp: Let_def split: prod.splits)

lemma advance_stops:
  "snd (advance D M pass pos xs) \<noteq> [] \<Longrightarrow>
   advance D M pass pos (xs @ ys) = (fst (advance D M pass pos xs), snd (advance D M pass pos xs) @ ys)"
  by (induction xs arbitrary: pos) (auto simp: Let_def split: prod.splits)

lemma advance_all_iff:
  "snd (advance D M pass pos xs) = [] \<longleftrightarrow> (\<forall>e \<in> set (ends D M pos xs). pass e)"
  by (induction xs arbitrary: pos) (simp_all add: Let_def split_def)

lemma advance_past:
  assumes "advance D M pass pos (us @ R) = (ys, zs)" "\<forall>e \<in> set (ends D M pos us). pass e"
  obtains ys2 where "ys = us @ ys2" "advance D M pass (after D M pos us) R = (ys2, zs)"
  using assms advance_passes [OF assms(2), of R] by (metis prod.collapse prod.inject)

lemma split_drop:
  assumes "us @ vs = drop i xs" "vs \<noteq> []"
  shows "i + length us < length xs" "drop (i + length us) xs = vs"
proof -
  have "length us + length vs = length xs - i" using arg_cong [OF assms(1), of length] by simp
  with assms(2) show "i + length us < length xs" by (cases vs) auto
  have "drop (length us) (us @ vs) = drop (i + length us) xs" by (simp add: assms(1) add.commute)
  then show "drop (i + length us) xs = vs" by simp
qed

lemma after_dims2: "after D (dims2 M N) (p, q) xs = (after D M p xs, after D N q xs)"
  by (induction xs arbitrary: p q) (simp_all add: dims2_def)

lemma ends_dims2: "map fst (ends D (dims2 M N) (p, q) xs) = ends D M p xs"
  by (induction xs arbitrary: p q) (simp_all add: dims2_def Let_def)

text \<open>A seek in two dimensions that compares the first only.\<close>

lemma advance_dims2: "advance D (dims2 M N) (\<lambda>pos. pass (fst pos)) (p, q) xs = advance D M pass p xs"
  by (induction xs arbitrary: p q) (simp_all add: dims2_def Let_def)

lemma pass_mono_dims2: "pass_mono D (dims2 M N) (\<lambda>pos. pass (fst pos)) (p, q) xs \<longleftrightarrow> pass_mono D M pass p xs"
  unfolding pass_mono_def ends_dims2 [of D M N p q xs, symmetric] sorted_wrt_map ..

lemma passes_fst: "passes (\<lambda>location. target (fst location)) b = (\<lambda>pos. passes target b (fst pos))"
  by (simp add: passes_def fun_eq_iff)

lemma d_zero_dims2 [simp]: "d_zero (dims2 M N) = (d_zero M, d_zero N)"
  by (simp add: dims2_def)

declare seek_loop.simps [simp del]

section \<open>The laws of a dimension\<close>

locale seek_laws = summary_laws D for D :: "('a, 's) item_ops" +
  fixes M :: "('d, 's) dim_ops"
  assumes d_add_hom: "is_summary D a \<Longrightarrow> is_summary D b \<Longrightarrow>
      d_add M p (add_summary D a b) = d_add M (d_add M p a) b"
begin

lemma d_add_sum:
  "xs \<noteq> [] \<Longrightarrow> \<forall>x \<in> set xs. is_summary D x \<Longrightarrow> d_add M p (sum_of D xs) = foldl (d_add M) p xs"
proof (induction xs arbitrary: p rule: rev_induct)
  case (snoc x xs)
  show ?case
  proof (cases "xs = []")
    case False
    with snoc show ?thesis by (simp add: sum_of_append d_add_hom is_summary_sum_of)
  qed (use snoc in \<open>simp add: sum_of_def add_zero_left\<close>)
qed simp

text \<open>The end of a subtree is the end of its last item.\<close>

lemma node_end: "wf_node D n \<Longrightarrow> d_add M pos (node_summary n) = after D M pos (to_list n)"
  by (simp add: node_summary_items d_add_sum wf_node_nonempty after_def foldl_map)

end

section \<open>What remains on a stack\<close>

text \<open>
  The items still ahead of an entry: of an internal node those of the children from the
  index on (from the next child on, when the search is above the child at the index), of a
  leaf the items from the index on.
\<close>

definition entry_rest :: "bool \<Rightarrow> ('a, 's, 'd) stack_entry \<Rightarrow> 'a list" where
  "entry_rest ascending e = (case se_tree e of
     Internal _ _ _ cts \<Rightarrow> concat (map to_list (drop (se_index e + (if ascending then 1 else 0)) cts))
   | Leaf _ its _ \<Rightarrow> drop (se_index e) its)"

definition entry_ok :: "('a, 's) item_ops \<Rightarrow> bool \<Rightarrow> ('a, 's, 'd) stack_entry \<Rightarrow> bool" where
  "entry_ok D ascending e \<longleftrightarrow> wf_tree D (se_tree e) \<and> (case se_tree e of
     Internal _ _ _ cts \<Rightarrow> se_index e + (if ascending then 1 else 0) \<le> length cts
   | Leaf _ its _ \<Rightarrow> \<not> ascending \<and> se_index e \<le> length its)"

definition stack_rest :: "bool \<Rightarrow> ('a, 's, 'd) stack_entry list \<Rightarrow> 'a list" where
  "stack_rest ascending st = (case st of [] \<Rightarrow> [] | e # st' \<Rightarrow>
     entry_rest ascending e @ concat (map (entry_rest True) st'))"

definition stack_ok :: "('a, 's) item_ops \<Rightarrow> bool \<Rightarrow> ('a, 's, 'd) stack_entry list \<Rightarrow> bool" where
  "stack_ok D ascending st = (case st of [] \<Rightarrow> True | e # st' \<Rightarrow>
     entry_ok D ascending e \<and> (\<forall>e' \<in> set st'. entry_ok D True e'))"

text \<open>The cursor rests on an item, or past the last one.\<close>

definition settled :: "('a, 's) item_ops \<Rightarrow> ('a, 's, 'd) stack_entry list \<Rightarrow> bool" where
  "settled D st \<longleftrightarrow> stack_ok D False st \<and> (case st of [] \<Rightarrow> True | e # _ \<Rightarrow>
     is_leaf (se_tree e) \<and> se_index e < length (to_list (se_tree e)))"

lemma stack_rest_simps [simp]:
  "stack_rest a [] = []"
  "stack_rest a (e # st) = entry_rest a e @ stack_rest True st"
  by (auto simp: stack_rest_def split: list.splits)

lemma stack_ok_simps [simp]:
  "stack_ok D a []"
  "stack_ok D a (e # st) \<longleftrightarrow> entry_ok D a e \<and> stack_ok D True st"
  by (auto simp: stack_ok_def split: list.splits)

section \<open>What a seek collects\<close>

text \<open>
  \<open>rep g xs buf\<close>: the aggregate \<open>g\<close> stands for the items \<open>xs\<close> followed by the items \<open>buf\<close> of the
  leaf being walked.
\<close>

locale seek_aggregate = summary_laws D for D :: "('a, 's) item_ops" +
  fixes A :: "('g, 'a, 's) agg_ops" and rep :: "'g \<Rightarrow> 'a list \<Rightarrow> 'a list \<Rightarrow> bool"
  assumes push_tree_rep: "rep g xs [] \<Longrightarrow> wf_node D t \<Longrightarrow>
      \<exists>g'. push_tree A g t (node_summary t) = Some g' \<and> rep g' (xs @ to_list t) []"
    and push_item_rep: "rep g xs buf \<Longrightarrow> length buf < 2 * TREE_BASE \<Longrightarrow>
      \<exists>g'. push_item A g x (summary_of D x) = Some g' \<and> rep g' xs (buf @ [x])"
    and end_leaf_rep: "rep g xs buf \<Longrightarrow> \<exists>g'. end_leaf A g = Some g' \<and> rep g' (xs @ buf) []"

locale seeking = seek_laws D M + seek_aggregate D A rep
  for D :: "('a, 's) item_ops" and M :: "('d, 's) dim_ops"
    and A :: "('g, 'a, 's) agg_ops" and rep :: "'g \<Rightarrow> 'a list \<Rightarrow> 'a list \<Rightarrow> bool"
begin

lemma seek_children_ok:
  assumes "rep g xs []" "\<forall>c \<in> set cs. wf_node D c"
    and "pass_mono D M pass pos (concat (map to_list cs) @ R)"
  shows "\<exists>k \<le> length cs. \<exists>g'. 
    seek_children M A pass pos g ix (zip cs (map node_summary cs)) =
      Some (after D M pos (concat (map to_list (take k cs))), g', ix + k, get_child k cs) \<and>
    rep g' (xs @ concat (map to_list (take k cs))) [] \<and>
    (\<forall>e \<in> set (ends D M pos (concat (map to_list (take k cs)))). pass e)"
  using assms
proof (induction cs arbitrary: g xs pos ix)
  case Nil
  then show ?case by (auto simp: get_child_def)
next
  case (Cons c cs)
  have c: "wf_node D c" "to_list c \<noteq> []" using Cons.prems by (auto dest: wf_node_nonempty)
  note e = node_end [OF c(1), of pos]
  show ?case
  proof (cases "pass (after D M pos (to_list c))")
    case False
    then show ?thesis using Cons.prems e by (intro exI [of _ 0]) (auto simp: get_child_def Let_def)
  next
    case True
    have mono: "pass_mono D M pass (after D M pos (to_list c)) (concat (map to_list cs) @ R)"
      "pass_mono D M pass pos (to_list c)"
      using Cons.prems(3) pass_mono_append [of D M pass pos "to_list c"] by auto
    obtain g1 where g1: "push_tree A g c (node_summary c) = Some g1" "rep g1 (xs @ to_list c) []"
      using push_tree_rep [OF Cons.prems(1) c(1)] by auto
    from Cons.IH [OF g1(2) _ mono(1), of "ix + 1"] Cons.prems(2) obtain k g' where
      k: "k \<le> length cs" "seek_children M A pass (after D M pos (to_list c)) g1 (ix + 1) (zip cs (map node_summary cs))
        = Some (after D M (after D M pos (to_list c)) (concat (map to_list (take k cs))), g', ix + 1 + k, get_child k cs)"
      "rep g' ((xs @ to_list c) @ concat (map to_list (take k cs))) []"
      "\<forall>e \<in> set (ends D M (after D M pos (to_list c)) (concat (map to_list (take k cs)))). pass e" by auto
    have "\<forall>e \<in> set (ends D M pos (to_list c)). pass e"
      using pass_mono_prefix_passes [OF mono(2) c(2) True] .
    with k True g1 e show ?thesis
      by (intro exI [of _ "Suc k"]) (auto simp: get_child_def Let_def)
  qed
qed

lemma seek_items_ok:
  assumes "rep g xs buf" "length buf + length its \<le> 2 * TREE_BASE"
  shows "\<exists>g'. seek_items M A pass pos g ix (zip its (map (summary_of D) its)) =
      Some (after D M pos (fst (advance D M pass pos its)), g',
            ix + length (fst (advance D M pass pos its)), snd (advance D M pass pos its) \<noteq> []) \<and>
    rep g' xs (buf @ fst (advance D M pass pos its))"
  using assms
proof (induction its arbitrary: g buf pos ix)
  case (Cons x its)
  show ?case
  proof (cases "pass (d_add M pos (summary_of D x))")
    case True
    obtain g1 where g1: "push_item A g x (summary_of D x) = Some g1" "rep g1 xs (buf @ [x])"
      using push_item_rep [OF Cons.prems(1)] Cons.prems(2) by auto
    from Cons.IH [OF g1(2), of "d_add M pos (summary_of D x)" "ix + 1"] Cons.prems(2) True g1(1)
    show ?thesis by (auto simp: Let_def split: prod.splits)
  qed (use Cons.prems in \<open>auto simp: Let_def\<close>)
qed simp

text \<open>One entry of the stack, then the induction over the stack.\<close>

lemma seek_leaf_ok:
  assumes e: "se_tree e = Leaf s its iss" "entry_ok D a e" and st: "stack_ok D True st"
    and g: "rep g xs []"
    and adv: "advance D M pass pos (drop (se_index e) its) = (ys, zs)"
  shows "\<exists>g'. rep g' (xs @ ys) [] \<and> seek_loop M A pass a pos g (e # st) =
    (if zs = [] then seek_loop M A pass True (after D M pos ys) g' st
     else Some (e\<lparr>se_index := se_index e + length ys\<rparr> # st, after D M pos ys, g'))"
proof -
  have wf: "iss = map (summary_of D) its" "length its \<le> 2 * TREE_BASE" "se_index e \<le> length its"
    using e by (auto simp: entry_ok_def wf_tree_def)
  obtain g1 where g1: "seek_items M A pass pos g (se_index e)
      (zip (drop (se_index e) its) (map (summary_of D) (drop (se_index e) its)))
      = Some (after D M pos ys, g1, se_index e + length ys, zs \<noteq> [])" "rep g1 xs ([] @ ys)"
    using seek_items_ok [OF g, of "drop (se_index e) its" pass pos "se_index e"] adv
      le_trans [OF diff_le_self wf(2), of "se_index e"] by auto
  obtain g2 where "end_leaf A g1 = Some g2" "rep g2 (xs @ ys) []"
    using end_leaf_rep [OF g1(2)] by auto
  with g1 wf e show ?thesis
    by (intro exI [of _ g2]) (simp add: seek_loop.simps slice_from_def drop_map)
qed

lemma seek_internal_node_ok:
  assumes e: "se_tree e = Internal h s css cts" "entry_ok D a e"
    and g: "rep g xs []" and mono: "pass_mono D M pass pos (entry_rest a e @ R)"
  shows "\<exists>ys zs g'. entry_rest a e = ys @ zs \<and> (\<forall>p \<in> set (ends D M pos ys). pass p) \<and> rep g' (xs @ ys) [] \<and>
    (zs = [] \<and> (\<forall>st. seek_loop M A pass a pos g (e # st) = seek_loop M A pass True (after D M pos ys) g' st) \<or>
     (\<exists>c e2. entry_ok D False c \<and> entry_ok D True e2 \<and> entry_rest False c @ entry_rest True e2 = zs \<and>
        (\<forall>st. stack_weight False (c # e2 # st) < stack_weight a (e # st) \<and>
          seek_loop M A pass a pos g (e # st) =
          seek_loop M A pass False (after D M pos ys) g' (c # e2 # st))))"
proof -
  define i where "i = se_index e + (if a then 1 else 0)"
  define cs where "cs = drop i cts"
  define e1 where "e1 = (if a then e\<lparr>se_index := se_index e + 1, se_position := pos\<rparr> else e)"
  have wf: "wf_node D (Internal h s css cts)" "i \<le> length cts"
    using e by (auto simp: entry_ok_def wf_tree_def i_def)
  then have css: "css = map node_summary cts" and cs: "\<forall>c \<in> set cs. wf_node D c"
    by (auto simp: cs_def dest: in_set_dropD)
  have rest: "entry_rest a e = concat (map to_list cs)" using e by (simp add: entry_rest_def cs_def i_def)
  obtain k g' where k: "k \<le> length cs" and sc: "seek_children M A pass pos g i (zip cs (map node_summary cs)) =
      Some (after D M pos (concat (map to_list (take k cs))), g', i + k, get_child k cs)"
    and g': "rep g' (xs @ concat (map to_list (take k cs))) []"
    and ps: "\<forall>e \<in> set (ends D M pos (concat (map to_list (take k cs)))). pass e"
    using seek_children_ok [OF g cs mono [unfolded rest], of i] by blast
  let ?ys = "concat (map to_list (take k cs))" and ?zs = "concat (map to_list (drop k cs))"
  let ?p = "after D M pos ?ys"
  have split: "entry_rest a e = ?ys @ ?zs"
    by (simp add: rest flip: concat_append map_append)
  have e1: "se_tree e1 = Internal h s css cts" "se_index e1 = i" by (simp_all add: e1_def i_def e)
  have sl: "slice_from i cts = Some cs" "slice_from i css = Some (map node_summary cs)"
    using wf by (simp_all add: slice_from_def cs_def css drop_map)
  show ?thesis
  proof (cases "k = length cs")
    case True
    then have "seek_loop M A pass a pos g (e # st) = seek_loop M A pass True ?p g' st" for st
      using sc sl e e1 by (simp add: seek_loop.simps get_child_def flip: e1_def)
    with True split ps g' show ?thesis by (intro exI [of _ ?ys] exI [of _ ?zs] exI [of _ g']) simp
  next
    case False
    with k have k: "k < length cs" "i + k < length cts" by (auto simp: cs_def)
    define e2 where "e2 = (if k = 0 then e1 else e1\<lparr>se_index := i + k, se_position := ?p\<rparr>)"
    define c where "c = \<lparr>se_tree = cs ! k, se_index = 0, se_position = ?p\<rparr>"
    have e2: "se_tree e2 = Internal h s css cts" "se_index e2 = i + k" by (simp_all add: e2_def e1)
    have loop: "seek_loop M A pass a pos g (e # st) = seek_loop M A pass False ?p g' (c # e2 # st)" for st
      using sc sl e e1 k by (simp add: seek_loop.simps get_child_def c_def e2_def flip: e1_def)
    have w: "stack_weight False (c # e2 # st) < stack_weight a (e # st)" for st
      using child_weight [OF e(1), of a "i + k" e2 ?p st] k e2 e by (simp add: i_def c_def cs_def)
    have "wf_node D (cs ! k)" using cs k by simp
    then have ok: "entry_ok D False c" "entry_ok D True e2"
      using wf k e2 by (auto simp: entry_ok_def c_def wf_node_tree split: node.splits)
    have "entry_rest False c = to_list (cs ! k)"
      by (cases "cs ! k") (simp_all add: entry_rest_def c_def)
    moreover have "entry_rest True e2 = concat (map to_list (drop (Suc k) cs))"
      by (simp add: entry_rest_def e2 cs_def add.commute add.left_commute)
    moreover have "drop k cs = cs ! k # drop (Suc k) cs" using k by (simp add: Cons_nth_drop_Suc)
    ultimately have "entry_rest False c @ entry_rest True e2 = ?zs" by simp
    with loop w ok split ps g' show ?thesis
      by (intro exI [of _ ?ys] exI [of _ ?zs] exI [of _ g']) blast
  qed
qed

declare seek_loop.simps [simp del]

lemma seek_loop_ok:
  assumes "stack_ok D a st" "rep g xs []" "pass_mono D M pass pos (stack_rest a st)"
    and "advance D M pass pos (stack_rest a st) = (ys, zs)"
  shows "\<exists>st' g'. seek_loop M A pass a pos g st = Some (st', after D M pos ys, g') \<and>
    rep g' (xs @ ys) [] \<and> settled D st' \<and> stack_rest False st' = zs"
  using assms
proof (induction "stack_weight a st" arbitrary: a st pos g xs ys zs rule: less_induct)
  case less
  show ?case
  proof (cases st)
    case Nil
    with less.prems show ?thesis by (simp add: settled_def seek_loop.simps)
  next
    case (Cons e st1)
    have e: "entry_ok D a e" "stack_ok D True st1" using less.prems Cons by auto
    have mono: "pass_mono D M pass pos (entry_rest a e @ stack_rest True st1)"
      and adv: "advance D M pass pos (entry_rest a e @ stack_rest True st1) = (ys, zs)"
      using less.prems Cons by auto
    show ?thesis
    proof (cases "se_tree e")
      case (Leaf s its iss)
      then have r: "entry_rest a e = drop (se_index e) its" by (simp add: entry_rest_def)
      obtain us vs where uv: "advance D M pass pos (drop (se_index e) its) = (us, vs)" by force
      then have d: "us @ vs = drop (se_index e) its" using advance_append [of D M pass pos] by (metis fst_conv snd_conv)
      obtain g1 where g1: "rep g1 (xs @ us) []" "seek_loop M A pass a pos g (e # st1) =
         (if vs = [] then seek_loop M A pass True (after D M pos us) g1 st1
          else Some (e\<lparr>se_index := se_index e + length us\<rparr> # st1, after D M pos us, g1))"
        using seek_leaf_ok [OF Leaf e less.prems(2) uv] by (elim exE conjE) (rule that; assumption)
      show ?thesis
      proof (cases "vs = []")
        case True
        obtain ys2 where ys: "ys = us @ ys2"
          "advance D M pass (after D M pos us) (stack_rest True st1) = (ys2, zs)"
        proof (rule advance_past)
          show "advance D M pass pos (us @ stack_rest True st1) = (ys, zs)" using adv r d True by simp
          show "\<forall>e \<in> set (ends D M pos us). pass e"
            using advance_all_iff [of D M pass pos us] uv d True by simp
        qed (rule that)
        have "pass_mono D M pass (after D M pos us) (stack_rest True st1)"
          using mono pass_mono_append r d True by (metis append_Nil2)
        moreover have "stack_weight True st1 < stack_weight a st" unfolding Cons by (rule pop_weight)
        ultimately show ?thesis
          using less.hyps [OF _ e(2) g1(1) _ ys(2)] g1(2) True Cons ys(1) by fastforce
      next
        case False
        with adv uv r advance_stops [of D M pass pos "drop (se_index e) its" "stack_rest True st1"]
        have yz: "ys = us" "zs = vs @ stack_rest True st1" by auto
        note len = split_drop [OF d False]
        with False g1 yz Leaf e Cons show ?thesis
          by (auto simp: settled_def entry_ok_def entry_rest_def)
      qed
    next
      case (Internal h s css cts)
      obtain us vs g1 where uv: "entry_rest a e = us @ vs" "\<forall>p \<in> set (ends D M pos us). pass p"
          "rep g1 (xs @ us) []" and alt:
        "vs = [] \<and> (\<forall>st. seek_loop M A pass a pos g (e # st) = seek_loop M A pass True (after D M pos us) g1 st) \<or>
         (\<exists>c e2. entry_ok D False c \<and> entry_ok D True e2 \<and> entry_rest False c @ entry_rest True e2 = vs \<and>
        (\<forall>st. stack_weight False (c # e2 # st) < stack_weight a (e # st) \<and>
          seek_loop M A pass a pos g (e # st) =
          seek_loop M A pass False (after D M pos us) g1 (c # e2 # st)))"
        using seek_internal_node_ok [OF Internal e(1) less.prems(2) mono] by (elim exE conjE) (rule that; assumption)
      obtain ys2 where ys: "ys = us @ ys2"
          "advance D M pass (after D M pos us) (vs @ stack_rest True st1) = (ys2, zs)"
        using advance_past [OF _ uv(2)] adv uv(1) by (metis append.assoc)
      have m: "pass_mono D M pass (after D M pos us) (vs @ stack_rest True st1)"
        using mono uv(1) pass_mono_append by (metis append.assoc)
      from alt show ?thesis
      proof (elim disjE conjE exE)
        assume v: "vs = []" and l: "\<forall>st. seek_loop M A pass a pos g (e # st) = seek_loop M A pass True (after D M pos us) g1 st"
        have "stack_weight True st1 < stack_weight a st" unfolding Cons by (rule pop_weight)
        from less.hyps [OF this e(2) uv(3) m [unfolded v append_Nil] ys(2) [unfolded v append_Nil]] l Cons ys(1)
        show ?thesis by auto
      next
        fix c e2 assume c: "entry_ok D False c" "entry_ok D True e2" "entry_rest False c @ entry_rest True e2 = vs"
          and l: "\<forall>st. stack_weight False (c # e2 # st) < stack_weight a (e # st) \<and>
          seek_loop M A pass a pos g (e # st) = seek_loop M A pass False (after D M pos us) g1 (c # e2 # st)"
        have "stack_rest False (c # e2 # st1) = vs @ stack_rest True st1" using c(3) by auto
        note r = this
        have "stack_weight False (c # e2 # st1) < stack_weight a st" unfolding Cons using spec [OF l, of st1] by (rule conjunct1)
        moreover have "stack_ok D False (c # e2 # st1)" using c e(2) by simp
        ultimately show ?thesis
          using less.hyps [OF _ _ uv(3) m [folded r] ys(2) [folded r]] l Cons ys(1) by auto
      qed
    qed
  qed
qed

end

end
