(* ===== verification/CursorOps.thy ===== *)
theory CursorOps
  imports CursorCorrect
begin

text \<open>
  The public operations of the cursor against its specification: a cursor stands between the
  items before it and the items ahead of it. Seeking moves the longest passed run across,
  \<open>slice\<close> and \<open>summary\<close> return that run or its sum, stepping drops items until the filter
  accepts one. \<open>FilterCursor\<close> and the iterator of \<open>crates/sum_tree/src/cursor.rs\<close> are here too.
\<close>

section \<open>The cursor's position in the sequence\<close>

definition cursor_at ::
  "('a, 's) item_ops \<Rightarrow> ('d, 's) dim_ops \<Rightarrow> ('a, 's, 'd) cursor \<Rightarrow> 'a list \<Rightarrow> 'a list \<Rightarrow> bool" where
  "cursor_at D M c xs ys \<longleftrightarrow>
     wf_tree D (c_tree c) \<and> to_list (c_tree c) = xs @ ys \<and>
     c_position c = after D M (d_zero M) xs \<and>
     (if c_did_seek c
      then settled D (c_stack c) \<and> stack_rest False (c_stack c) = ys \<and> (c_stack c = [] \<longrightarrow> c_at_end c)
        \<and> (c_stack c \<noteq> [] \<longrightarrow> \<not> c_at_end c)
      else c_stack c = [] \<and> xs = [] \<and> c_at_end c = is_empty (c_tree c))"

lemma list_first_simps [simp]: "list_first [] = None" "list_first (x # xs) = Some x"
  by (simp_all add: list_first_def)

lemma cursor_at_new: "wf_tree D t \<Longrightarrow> cursor_at D M (cursor_new M t) [] (to_list t)"
  by (simp add: cursor_at_def cursor_new_def)

lemma cursor_at_reset:
  "cursor_at D M c xs ys \<Longrightarrow> cursor_at D M (cursor_reset M c) [] (xs @ ys)"
  by (simp add: cursor_at_def cursor_reset_def)

lemma settled_rest:
  assumes "settled D (e # st)"
  obtains s its where "se_tree e = Leaf s its (map (summary_of D) its)" "se_index e < length its"
    "stack_rest False (e # st) = its ! se_index e # drop (Suc (se_index e)) its @ stack_rest True st"
proof -
  from assms obtain s its iss where e: "se_tree e = Leaf s its iss" "se_index e < length its"
    by (cases "se_tree e") (auto simp: settled_def)
  with assms have "iss = map (summary_of D) its" by (auto simp: settled_def entry_ok_def wf_tree_def)
  with e show thesis by (intro that [of s its]) (auto simp: entry_rest_def Cons_nth_drop_Suc [symmetric])
qed

lemma cursor_item_ok:
  assumes "cursor_at D M c xs ys" "c_did_seek c"
  shows "cursor_item c = Some (list_first ys)"
proof (cases "c_stack c")
  case Nil
  with assms show ?thesis by (auto simp: cursor_at_def cursor_item_def cursor_entry_get_def)
next
  case (Cons e st)
  with assms have "settled D (e # st)" "ys = stack_rest False (e # st)" by (auto simp: cursor_at_def)
  with Cons assms(2) show ?thesis
    by (elim settled_rest) (auto simp: cursor_item_def cursor_entry_get_def)
qed

lemma cursor_item_summary_ok:
  assumes "cursor_at D M c xs ys" "c_did_seek c"
  shows "cursor_item_summary c = Some (map_option (summary_of D) (list_first ys))"
proof (cases "c_stack c")
  case Nil
  with assms show ?thesis by (auto simp: cursor_at_def cursor_item_summary_def cursor_entry_get_def)
next
  case (Cons e st)
  with assms have "settled D (e # st)" "ys = stack_rest False (e # st)" by (auto simp: cursor_at_def)
  with Cons assms(2) show ?thesis
    by (elim settled_rest) (auto simp: cursor_item_summary_def cursor_entry_get_def leaf_summaries_def)
qed

lemma cursor_end_ok:
  assumes "cursor_at D M c xs ys" "c_did_seek c"
  shows "cursor_end M c = Some (after D M (d_zero M) (xs @ take 1 ys))"
  using cursor_item_summary_ok [OF assms] assms
  by (cases ys) (auto simp: cursor_end_def cursor_at_def)

section \<open>Seeking\<close>

text \<open>Where a seek ends up being compared with the target.\<close>

definition seek_end :: "('a, 's) item_ops \<Rightarrow> ('d, 's) dim_ops \<Rightarrow> bias \<Rightarrow> 'a list \<Rightarrow> 'a list \<Rightarrow> 'd" where
  "seek_end D M b xs ys = after D M (d_zero M) (xs @ (if b = Left then take 1 ys else []))"

context seeking
begin

lemma cursor_stack_ok:
  assumes "cursor_at D M c xs ys"
  defines "stack \<equiv> if c_did_seek c then c_stack c
    else \<lparr>se_tree = c_tree c, se_index = 0, se_position = d_zero M\<rparr> # c_stack c"
  shows "stack_ok D False stack" "stack_rest False stack = ys"
  using assms by (cases "c_tree c"; auto simp: cursor_at_def settled_def entry_ok_def entry_rest_def)+

lemma seek_internal_ok:
  assumes c: "cursor_at D M c xs ys" and t: "target (c_position c) \<noteq> Less"
    and g: "rep g gs []" and mono: "pass_mono D M (passes target b) (c_position c) ys"
    and adv: "advance D M (passes target b) (c_position c) ys = (us, vs)"
  shows "\<exists>c' g'. seek_internal M A target b c g =
      Some (target (seek_end D M b (xs @ us) vs) = Equal, c', g') \<and>
    rep g' (gs @ us) [] \<and> cursor_at D M c' (xs @ us) vs \<and> c_did_seek c' \<and> c_tree c' = c_tree c"
proof -
  define stack where "stack = (if c_did_seek c then c_stack c
    else \<lparr>se_tree = c_tree c, se_index = 0, se_position = d_zero M\<rparr> # c_stack c)"
  have ok: "stack_ok D False stack" "stack_rest False stack = ys"
    using cursor_stack_ok [OF c] by (simp_all add: stack_def)
  from seek_loop_ok [OF ok(1) g] mono adv ok(2) obtain st' g' where
    l: "seek_loop M A (passes target b) False (c_position c) g stack = Some (st', after D M (c_position c) us, g')"
    "rep g' (gs @ us) []" "settled D st'" "stack_rest False st' = vs" by metis
  define c' where "c' = c\<lparr>c_did_seek := True, c_stack := st', c_position := after D M (c_position c) us,
    c_at_end := (st' = [])\<rparr>"
  have "ys = us @ vs" using advance_append [of D M "passes target b" "c_position c" ys] adv by simp
  then have at: "cursor_at D M c' (xs @ us) vs" "c_did_seek c'"
    using c l by (auto simp: c'_def cursor_at_def)
  have p: "after D M (d_zero M) xs = c_position c" using c by (simp add: cursor_at_def)
  then have "seek_internal M A target b c g = Some (target (seek_end D M b (xs @ us) vs) = Equal, c', g')"
    using t l(1) cursor_item_summary_ok [OF at]
    by (cases vs) (auto simp: seek_internal_def seek_end_def p Let_def simp flip: c'_def stack_def)
  with at l show ?thesis by (auto simp: c'_def)
qed

end

section \<open>Stepping\<close>

lemma skip_items_ok:
  "skip_summaries M keep pos i (map (summary_of D) xs) =
     (let ys = takeWhile (\<lambda>x. \<not> keep (summary_of D x)) xs
      in (after D M pos ys, i + length ys, length ys < length xs))"
  by (induction xs arbitrary: pos i) (auto simp: Let_def)

text \<open>A filter on summaries that accepts every node holding an accepted item.\<close>

definition keep_upward :: "('a, 's) item_ops \<Rightarrow> ('s \<Rightarrow> bool) \<Rightarrow> bool" where
  "keep_upward D keep \<longleftrightarrow> (\<forall>n. wf_node D n \<longrightarrow> (\<exists>x \<in> set (to_list n). keep (summary_of D x)) \<longrightarrow> keep (node_summary n))"

context seek_laws
begin

lemma skip_nodes_ok:
  assumes "keep_upward D keep" "\<forall>c \<in> set cs. wf_node D c"
  shows "\<exists>k \<le> length cs. skip_summaries M keep pos i (map node_summary cs) =
      (after D M pos (concat (map to_list (take k cs))), i + k, k < length cs) \<and>
    (\<forall>x \<in> set (concat (map to_list (take k cs))). \<not> keep (summary_of D x))"
  using assms(2)
proof (induction cs arbitrary: pos i)
  case (Cons c cs)
  show ?case
  proof (cases "keep (node_summary c)")
    case False
    then have c: "\<forall>x \<in> set (to_list c). \<not> keep (summary_of D x)"
      using assms(1) Cons.prems by (auto simp: keep_upward_def)
    from Cons.IH [of "after D M pos (to_list c)" "i + 1"] Cons.prems obtain k where
      "k \<le> length cs" "skip_summaries M keep (after D M pos (to_list c)) (i + 1) (map node_summary cs) =
        (after D M (after D M pos (to_list c)) (concat (map to_list (take k cs))), i + 1 + k, k < length cs)"
      "\<forall>x \<in> set (concat (map to_list (take k cs))). \<not> keep (summary_of D x)" by auto
    with False c node_end [of c pos] Cons.prems show ?thesis by (intro exI [of _ "Suc k"]) auto
  qed (intro exI [of _ 0], simp)
qed simp

end

declare forward_loop.simps [simp del]

context seek_laws
begin

abbreviation rejected :: "('s \<Rightarrow> bool) \<Rightarrow> 'a \<Rightarrow> bool" where
  "rejected keep x \<equiv> \<not> keep (summary_of D x)"

lemma forward_leaf_ok:
  assumes e: "se_tree e = Leaf s its iss" "entry_ok D False e"
  defines "r \<equiv> drop (se_index e) its"
  shows "\<exists>e'. forward_loop M keep True pos (e # st) =
      (if dropWhile (rejected keep) r = []
       then forward_loop M keep False (after D M pos r) st
       else Some (e' # st, after D M pos (takeWhile (rejected keep) r), True)) \<and>
    se_tree e' = se_tree e \<and> se_index e' = se_index e + length (takeWhile (rejected keep) r)"
proof -
  have iss: "drop (se_index e) iss = map (summary_of D) r"
    using e by (auto simp: entry_ok_def wf_tree_def r_def drop_map)
  have "length (takeWhile (rejected keep) r) < length r \<longleftrightarrow> dropWhile (rejected keep) r \<noteq> []"
    using arg_cong [OF takeWhile_dropWhile_id [of "rejected keep" r], of length]
    by (cases "dropWhile (rejected keep) r") auto
  then show ?thesis
    using e by (intro exI [of _ "e\<lparr>se_index := se_index e + length (takeWhile (rejected keep) r),
      se_position := foldl (d_add M) (se_position e) (take (length (takeWhile (rejected keep) r)) (map (summary_of D) r))\<rparr>"])
      (simp add: forward_loop.simps skip_items_ok iss Let_def takeWhile_eq_all_conv [THEN iffD2])
qed

lemma forward_internal_ok:
  assumes e: "se_tree e = Internal h s css cts" "entry_ok D (\<not> d) e" and keep: "keep_upward D keep"
  shows "\<exists>ys zs. entry_rest (\<not> d) e = ys @ zs \<and> (\<forall>x \<in> set ys. rejected keep x) \<and>
    (zs = [] \<and> (\<forall>st. forward_loop M keep d pos (e # st) = forward_loop M keep False (after D M pos ys) st) \<or>
     (\<exists>c e2. entry_ok D False c \<and> entry_ok D True e2 \<and> entry_rest False c @ entry_rest True e2 = zs \<and>
        (\<forall>st. stack_weight False (c # e2 # st) < stack_weight (\<not> d) (e # st) \<and>
          forward_loop M keep d pos (e # st) =
          forward_loop M keep True (after D M pos ys) (c # e2 # st))))"
proof -
  define i where "i = se_index e + (if d then 0 else 1)"
  define cs where "cs = drop i cts"
  define e1 where "e1 = (if d then e else e\<lparr>se_index := se_index e + 1, se_position := pos\<rparr>)"
  have wf: "wf_node D (Internal h s css cts)" "i \<le> length cts"
    using e by (auto simp: entry_ok_def wf_tree_def i_def)
  then have css: "css = map node_summary cts" and cs: "\<forall>c \<in> set cs. wf_node D c"
    by (auto simp: cs_def dest: in_set_dropD)
  have rest: "entry_rest (\<not> d) e = concat (map to_list cs)" using e by (simp add: entry_rest_def cs_def i_def)
  obtain k where k: "k \<le> length cs" and sk: "skip_summaries M keep pos i (map node_summary cs) =
      (after D M pos (concat (map to_list (take k cs))), i + k, k < length cs)"
    and rej: "\<forall>x \<in> set (concat (map to_list (take k cs))). rejected keep x"
    using skip_nodes_ok [OF keep cs, of pos i] by blast
  let ?ys = "concat (map to_list (take k cs))" and ?zs = "concat (map to_list (drop k cs))"
  let ?p = "after D M pos ?ys"
  have split: "entry_rest (\<not> d) e = ?ys @ ?zs"
    by (simp add: rest flip: concat_append map_append)
  have e1: "se_tree e1 = Internal h s css cts" "se_index e1 = i" by (simp_all add: e1_def i_def e)
  have dr: "drop i css = map node_summary cs" by (simp add: cs_def css drop_map)
  have gc: "get_child (i + k) cts = (if k < length cs then Some (cs ! k) else None)"
    using wf k by (auto simp: get_child_def cs_def)
  show ?thesis
  proof (cases "k = length cs")
    case True
    then have "forward_loop M keep d pos (e # st) = forward_loop M keep False ?p st" for st
      using sk gc dr e e1 by (simp add: forward_loop.simps Let_def flip: e1_def)
    with True split rej show ?thesis by (intro exI [of _ ?ys] exI [of _ ?zs]) simp
  next
    case False
    with k have k: "k < length cs" "i + k < length cts" by (auto simp: cs_def)
    define e2 where "e2 = (if i + k = i then e1 else e1\<lparr>se_index := i + k,
      se_position := foldl (d_add M) (se_position e1) (take (i + k - i) (map node_summary cs))\<rparr>)"
    define c where "c = \<lparr>se_tree = cs ! k, se_index = 0, se_position = ?p\<rparr>"
    have e2: "se_tree e2 = Internal h s css cts" "se_index e2 = i + k" by (simp_all add: e2_def e1)
    have loop: "forward_loop M keep d pos (e # st) = forward_loop M keep True ?p (c # e2 # st)" for st
      unfolding c_def e2_def
      using sk gc dr e e1 k by (subst forward_loop.simps) (simp add: Let_def flip: e1_def)
    have w: "stack_weight False (c # e2 # st) < stack_weight (\<not> d) (e # st)" for st
      using child_weight [OF e(1), of "\<not> d" "i + k" e2 ?p st] k e2 e by (simp add: i_def c_def cs_def)
    have "wf_node D (cs ! k)" using cs k by simp
    then have ok: "entry_ok D False c" "entry_ok D True e2"
      using wf k e2 by (auto simp: entry_ok_def c_def wf_node_tree split: node.splits)
    have "entry_rest False c = to_list (cs ! k)"
      by (cases "cs ! k") (simp_all add: entry_rest_def c_def)
    moreover have "entry_rest True e2 = concat (map to_list (drop (Suc k) cs))"
      by (simp add: entry_rest_def e2 cs_def add.commute add.left_commute)
    moreover have "drop k cs = cs ! k # drop (Suc k) cs" using k by (simp add: Cons_nth_drop_Suc)
    ultimately have "entry_rest False c @ entry_rest True e2 = ?zs" by simp
    with loop w ok split rej show ?thesis
      by (intro exI [of _ ?ys] exI [of _ ?zs]) blast
  qed
qed

lemma drop_rejected:
  assumes "\<forall>x \<in> set ys. rejected keep x"
  shows "dropWhile (rejected keep) (ys @ zs) = dropWhile (rejected keep) zs"
    "takeWhile (rejected keep) (ys @ zs) = ys @ takeWhile (rejected keep) zs"
  using assms by (simp_all add: dropWhile_append2 takeWhile_append2)

text \<open>The loop without its first step from an item: it ends on the first accepted item ahead.\<close>

lemma forward_loop_ok:
  assumes "stack_ok D (\<not> d) st" and keep: "keep_upward D keep"
  shows "\<exists>st'. forward_loop M keep d pos st =
      Some (st', after D M pos (takeWhile (rejected keep) (stack_rest (\<not> d) st)), st' \<noteq> []) \<and>
    settled D st' \<and> stack_rest False st' = dropWhile (rejected keep) (stack_rest (\<not> d) st)"
  using assms(1)
proof (induction "stack_weight (\<not> d) st" arbitrary: d st pos rule: less_induct)
  case less
  show ?case
  proof (cases st)
    case Nil
    then show ?thesis by (simp add: forward_loop.simps settled_def)
  next
    case (Cons e st1)
    have e: "entry_ok D (\<not> d) e" "stack_ok D True st1" using less.prems Cons by auto
    have lt: "stack_weight (\<not> False) st1 < stack_weight (\<not> d) st"
      unfolding Cons using pop_weight [of st1 "\<not> d" e] by simp
    have up: "\<exists>st'. forward_loop M keep False p st1 =
        Some (st', after D M p (takeWhile (rejected keep) (stack_rest True st1)), st' \<noteq> []) \<and>
      settled D st' \<and> stack_rest False st' = dropWhile (rejected keep) (stack_rest True st1)" for p
      using less.hyps [OF lt] e(2) by simp
    show ?thesis
    proof (cases "se_tree e")
      case (Leaf s its iss)
      then have d: d and r: "entry_rest False e = drop (se_index e) its"
        using e by (auto simp: entry_ok_def entry_rest_def)
      have ok: "entry_ok D False e" using e d by simp
      obtain e' where
        l: "forward_loop M keep True pos (e # st1) =
          (if dropWhile (rejected keep) (entry_rest False e) = []
           then forward_loop M keep False (after D M pos (entry_rest False e)) st1
           else Some (e' # st1, after D M pos (takeWhile (rejected keep) (entry_rest False e)), True))"
        and e': "se_tree e' = se_tree e" "se_index e' = se_index e + length (takeWhile (rejected keep) (entry_rest False e))"
        using forward_leaf_ok [OF Leaf ok, of keep pos st1, folded r] by (elim exE conjE) (rule that; assumption)
      show ?thesis
      proof (cases "dropWhile (rejected keep) (entry_rest False e) = []")
        case True
        then have "\<forall>x \<in> set (entry_rest False e). rejected keep x" by simp
        with up [of "after D M pos (entry_rest False e)"] l True Cons d show ?thesis
          by (simp add: drop_rejected)
      next
        case False
        note sp = split_drop [OF takeWhile_dropWhile_id [of "rejected keep" "drop (se_index e) its"] False [unfolded r]]
        from False have "takeWhile (rejected keep) (entry_rest False e @ R) = takeWhile (rejected keep) (entry_rest False e)"
          "dropWhile (rejected keep) (entry_rest False e @ R) = dropWhile (rejected keep) (entry_rest False e) @ R" for R
          by (auto simp: takeWhile_append1 dropWhile_append1)
        then show ?thesis
          using False l Cons d e e' sp r Leaf by (auto simp: settled_def entry_ok_def entry_rest_def)
      qed
    next
      case (Internal h s css cts)
      obtain us vs where uv: "entry_rest (\<not> d) e = us @ vs" "\<forall>x \<in> set us. rejected keep x" and alt:
        "vs = [] \<and> (\<forall>st. forward_loop M keep d pos (e # st) = forward_loop M keep False (after D M pos us) st) \<or>
         (\<exists>c e2. entry_ok D False c \<and> entry_ok D True e2 \<and> entry_rest False c @ entry_rest True e2 = vs \<and>
        (\<forall>st. stack_weight False (c # e2 # st) < stack_weight (\<not> d) (e # st) \<and>
          forward_loop M keep d pos (e # st) =
          forward_loop M keep True (after D M pos us) (c # e2 # st)))"
        using forward_internal_ok [OF Internal e(1) keep, of pos] by (elim exE conjE) (rule that; assumption)
      from alt show ?thesis
      proof (elim disjE conjE exE)
        assume "vs = []" "\<forall>st. forward_loop M keep d pos (e # st) = forward_loop M keep False (after D M pos us) st"
        with up [of "after D M pos us"] uv Cons show ?thesis by (simp add: drop_rejected)
      next
        fix c e2 assume c: "entry_ok D False c" "entry_ok D True e2" "entry_rest False c @ entry_rest True e2 = vs"
          and l: "\<forall>st. stack_weight False (c # e2 # st) < stack_weight (\<not> d) (e # st) \<and>
          forward_loop M keep d pos (e # st) = forward_loop M keep True (after D M pos us) (c # e2 # st)"
        have "stack_rest False (c # e2 # st1) = vs @ stack_rest True st1" using c(3) by auto
        moreover have "stack_weight (\<not> True) (c # e2 # st1) < stack_weight (\<not> d) st"
          unfolding Cons using spec [OF l, of st1] by simp
        moreover have "stack_ok D (\<not> True) (c # e2 # st1)" using c e(2) by simp
        ultimately show ?thesis
          using less.hyps [of True "c # e2 # st1" "after D M pos us"] l Cons uv
          by (simp add: drop_rejected flip: c(3))
      qed
    qed
  qed
qed

text \<open>From an item, the item itself is always left behind.\<close>

lemma forward_from_item_ok:
  assumes "settled D (e # st)" and keep: "keep_upward D keep"
    and r: "stack_rest False (e # st) = x # xs"
  shows "\<exists>st'. forward_loop M keep False pos (e # st) =
      Some (st', after D M pos (x # takeWhile (rejected keep) xs), st' \<noteq> []) \<and>
    settled D st' \<and> stack_rest False st' = dropWhile (rejected keep) xs"
proof -
  obtain s its where e: "se_tree e = Leaf s its (map (summary_of D) its)" "se_index e < length its"
    "its ! se_index e # drop (Suc (se_index e)) its @ stack_rest True st = x # xs"
    using settled_rest [OF assms(1)] r by metis
  define e1 where "e1 = e\<lparr>se_index := se_index e + 1, se_position := d_add M (se_position e) (summary_of D x)\<rparr>"
  have e1: "se_tree e1 = Leaf s its (map (summary_of D) its)" "se_index e1 = Suc (se_index e)"
    using e by (simp_all add: e1_def)
  have ok: "stack_ok D (\<not> True) (e1 # st)"
    using assms(1) e e1 by (auto simp: settled_def entry_ok_def)
  have rest: "stack_rest (\<not> True) (e1 # st) = xs" using e e1 by (auto simp: entry_rest_def)
  have "forward_loop M keep False pos (e # st) = forward_loop M keep True (d_add M pos (summary_of D x)) (e1 # st)"
    by (subst (1 2) forward_loop.simps) (use e e1 in \<open>auto simp: e1_def\<close>)
  with forward_loop_ok [OF ok keep, of "d_add M pos (summary_of D x)"] rest show ?thesis by simp
qed

end

section \<open>The stepping operations\<close>

text \<open>
  \<open>FilterCursor::next\<close> is \<open>search_forward\<close> with the cursor's filter.
\<close>

context seek_laws
begin

lemma search_forward_ok:
  assumes c: "cursor_at D M c xs ys" and keep: "keep_upward D keep"
  defines "k \<equiv> (if c_did_seek c then 1 else 0)"
  shows "\<exists>c'. search_forward M keep c = Some c' \<and> c_tree c' = c_tree c \<and> c_did_seek c' \<and>
    cursor_at D M c' (xs @ take k ys @ takeWhile (rejected keep) (drop k ys))
      (dropWhile (rejected keep) (drop k ys))"
proof (cases "c_stack c")
  case Nil
  then have stk: "stack_rest False [] = ys" "xs = to_list (c_tree c)" if "c_at_end c"
    using c that wf_tree_empty_iff [of D "c_tree c"] by (auto simp: cursor_at_def split: if_splits)
  show ?thesis
  proof (cases "c_at_end c")
    case True
    then have "ys = []" using stk by simp
    with True Nil c stk show ?thesis
      by (intro exI [of _ "c\<lparr>c_did_seek := True\<rparr>"])
        (auto simp: search_forward_def forward_loop.simps cursor_at_def settled_def)
  next
    case False
    with Nil c have ns: "\<not> c_did_seek c" "xs = []" "c_position c = d_zero M" "wf_tree D (c_tree c)" "to_list (c_tree c) = ys"
      by (auto simp: cursor_at_def split: if_splits)
    let ?st = "[\<lparr>se_tree = c_tree c, se_index = 0, se_position = d_zero M\<rparr>]"
    have "stack_ok D (\<not> True) ?st" "stack_rest (\<not> True) ?st = ys"
      using ns by (cases "c_tree c"; auto simp: entry_ok_def entry_rest_def)+
    from forward_loop_ok [OF this(1) keep, of "d_zero M", unfolded this(2)] obtain st' where
      "forward_loop M keep True (d_zero M) ?st =
        Some (st', after D M (d_zero M) (takeWhile (rejected keep) ys), st' \<noteq> [])"
      "settled D st'" "stack_rest False st' = dropWhile (rejected keep) ys" by auto
    then show ?thesis using Nil False ns
      by (intro exI [of _ "c\<lparr>c_stack := st', c_position := after D M (d_zero M) (takeWhile (rejected keep) ys),
          c_did_seek := True, c_at_end := (st' = [])\<rparr>"])
        (auto simp: search_forward_def cursor_at_def k_def)
  qed
next
  case (Cons e st)
  then have s: "c_did_seek c" "settled D (e # st)" "stack_rest False (e # st) = ys" "\<not> c_at_end c"
    using c by (auto simp: cursor_at_def split: if_splits)
  obtain y zs where ys: "ys = y # zs" using settled_rest [OF s(2)] s(3) by metis
  from forward_from_item_ok [OF s(2) keep s(3) [unfolded ys], of "c_position c"] obtain st' where
    "forward_loop M keep False (c_position c) (e # st) =
      Some (st', after D M (c_position c) (y # takeWhile (rejected keep) zs), st' \<noteq> [])"
    "settled D st'" "stack_rest False st' = dropWhile (rejected keep) zs" by auto
  then show ?thesis using Cons s ys c
    by (intro exI [of _ "c\<lparr>c_stack := st', c_position := after D M (c_position c) (y # takeWhile (rejected keep) zs),
        c_at_end := (st' = [])\<rparr>"])
      (auto simp: search_forward_def cursor_at_def k_def)
qed

lemma cursor_next_ok:
  assumes "cursor_at D M c xs ys"
  defines "k \<equiv> (if c_did_seek c then 1 else 0)"
  shows "\<exists>c'. cursor_next M c = Some c' \<and> c_tree c' = c_tree c \<and> c_did_seek c' \<and>
    cursor_at D M c' (xs @ take k ys) (drop k ys)"
proof -
  have "takeWhile (\<lambda>_. False) zs = []" "dropWhile (\<lambda>_. False) zs = zs" for zs :: "'a list"
    by (cases zs; simp)+
  with search_forward_ok [OF assms(1), of "\<lambda>_. True"] show ?thesis
    by (simp add: cursor_next_def keep_upward_def k_def)
qed

end

section \<open>The three aggregates\<close>

definition slice_rep ::
  "('a, 's) item_ops \<Rightarrow> ('a, 's) slice_state \<Rightarrow> 'a list \<Rightarrow> 'a list \<Rightarrow> bool" where
  "slice_rep D g xs buf \<longleftrightarrow> wf_tree D (sl_tree g) \<and> to_list (sl_tree g) = xs \<and>
     sl_leaf_items g = buf \<and> sl_leaf_item_summaries g = map (summary_of D) buf \<and>
     sl_leaf_summary g = sum_of D (map (summary_of D) buf) \<and> length buf \<le> 2 * TREE_BASE"

lemma slice_rep_init: "slice_rep D (slice_init D) [] []"
  by (simp add: slice_rep_def slice_init_def sum_of_def)

sublocale seek_laws < plain: seeking D M unit_agg "\<lambda>_ _ _. True"
  by unfold_locales (simp_all add: unit_agg_def)

sublocale seek_laws < slicing: seeking D M "slice_agg D" "slice_rep D"
proof unfold_locales
  fix g and xs :: "'a list" and t assume "slice_rep D g xs []" "wf_node D t"
  then show "\<exists>g'. push_tree (slice_agg D) g t (node_summary t) = Some g' \<and> slice_rep D g' (xs @ to_list t) []"
    using tree_append_ok [of "sl_tree g" t]
    by (auto simp: slice_agg_def slice_push_tree_def slice_rep_def wf_node_tree)
next
  fix g and xs buf :: "'a list" and x assume "slice_rep D g xs buf" "length buf < 2 * TREE_BASE"
  then show "\<exists>g'. push_item (slice_agg D) g x (summary_of D x) = Some g' \<and> slice_rep D g' xs (buf @ [x])"
    by (auto simp: slice_agg_def slice_push_item_def slice_rep_def sum_of_def)
next
  fix g and xs buf :: "'a list" assume g: "slice_rep D g xs buf"
  let ?l = "Leaf (sl_leaf_summary g) (sl_leaf_items g) (sl_leaf_item_summaries g)"
  have "wf_tree D ?l" "to_list ?l = buf" using g by (auto simp: slice_rep_def wf_tree_def sum_of_def)
  with g show "\<exists>g'. end_leaf (slice_agg D) g = Some g' \<and> slice_rep D g' (xs @ buf) []"
    using tree_append_ok [of "sl_tree g" ?l]
    by (auto simp: slice_agg_def slice_end_leaf_def slice_rep_def sum_of_def)
qed

locale two_dimensions = seek_laws D M + other: seek_laws D N
  for D :: "('a, 's) item_ops" and M :: "('d, 's) dim_ops" and N :: "('o, 's) dim_ops"

sublocale two_dimensions < pair: seek_laws D "dims2 M N"
  by unfold_locales (simp add: dims2_def d_add_hom other.d_add_hom split: prod.split)

sublocale two_dimensions < summing: seeking D M "summary_agg N" "\<lambda>g xs buf. g = after D N (d_zero N) (xs @ buf)"
  by unfold_locales (simp_all add: summary_agg_def other.node_end)

section \<open>The seeking operations\<close>

context seek_laws
begin

lemma cursor_seek_forward_ok:
  assumes "cursor_at D M c xs ys" "target (c_position c) \<noteq> Less"
    "pass_mono D M (passes target b) (c_position c) ys"
    "advance D M (passes target b) (c_position c) ys = (us, vs)"
  shows "\<exists>c'. cursor_seek_forward M target b c = Some (target (seek_end D M b (xs @ us) vs) = Equal, c') \<and>
    cursor_at D M c' (xs @ us) vs \<and> c_did_seek c' \<and> c_tree c' = c_tree c"
  using plain.seek_internal_ok [OF assms(1,2) TrueI assms(3,4), where g = "()"]
  by (auto simp: cursor_seek_forward_def)

lemma cursor_seek_ok:
  assumes c: "cursor_at D M c xs ys" and t: "target (d_zero M) \<noteq> Less"
    and m: "pass_mono D M (passes target b) (d_zero M) (xs @ ys)"
    and a: "advance D M (passes target b) (d_zero M) (xs @ ys) = (us, vs)"
  shows "\<exists>c'. cursor_seek M target b c = Some (target (seek_end D M b us vs) = Equal, c') \<and>
    cursor_at D M c' us vs \<and> c_did_seek c' \<and> c_tree c' = c_tree c"
  using plain.seek_internal_ok [OF cursor_at_reset [OF c] _ TrueI, where g = "()" and target = target and b = b and us = us and vs = vs] t m a
  by (auto simp: cursor_seek_def cursor_reset_def)

lemma cursor_slice_ok:
  assumes "cursor_at D M c xs ys" "target (c_position c) \<noteq> Less"
    "pass_mono D M (passes target b) (c_position c) ys"
    "advance D M (passes target b) (c_position c) ys = (us, vs)"
  shows "\<exists>t c'. cursor_slice D M target b c = Some (t, c') \<and> wf_tree D t \<and> to_list t = us \<and>
    cursor_at D M c' (xs @ us) vs \<and> c_did_seek c' \<and> c_tree c' = c_tree c"
  using slicing.seek_internal_ok [OF assms(1,2) slice_rep_init assms(3,4)]
  by (auto simp: cursor_slice_def slice_rep_def)

lemma cursor_suffix_ok:
  assumes "cursor_at D M c xs ys"
  shows "\<exists>t c'. cursor_suffix D M c = Some (t, c') \<and> wf_tree D t \<and> to_list t = ys \<and>
    cursor_at D M c' (xs @ ys) [] \<and> c_did_seek c' \<and> c_tree c' = c_tree c"
proof -
  have all: "passes end_target Right p" for p :: 'd by (simp add: passes_def end_target_def)
  have a: "advance D M (passes end_target Right) p zs = (zs, [])" for p zs
    by (induction zs arbitrary: p) (simp_all add: all Let_def)
  have "pass_mono D M (passes end_target Right) (c_position c) ys"
    by (simp add: pass_mono_def all sorted_wrt_iff_nth_less)
  with cursor_slice_ok [OF assms _ _ a] show ?thesis
    by (auto simp: cursor_suffix_def end_target_def)
qed

end

context two_dimensions
begin

lemma cursor_summary_ok:
  assumes "cursor_at D M c xs ys" "target (c_position c) \<noteq> Less"
    "pass_mono D M (passes target b) (c_position c) ys"
    "advance D M (passes target b) (c_position c) ys = (us, vs)"
  shows "\<exists>c'. cursor_summary M N target b c = Some (after D N (d_zero N) us, c') \<and>
    cursor_at D M c' (xs @ us) vs \<and> c_did_seek c' \<and> c_tree c' = c_tree c"
  using summing.seek_internal_ok [OF assms(1,2) _ assms(3,4), of "d_zero N" "[]"]
  by (auto simp: cursor_summary_def)

end

section \<open>Searches without a cursor\<close>

context seek_laws
begin

text \<open>The loop over a sequence of entries, then the descent.\<close>

lemma scan_items:
  "scan M stop pos (zip xs (map (summary_of D) xs)) =
    (let (us, vs) = advance D M (\<lambda>e. \<not> stop e) pos xs; p = after D M pos us
     in (p, map_option (\<lambda>x. (x, d_add M p (summary_of D x))) (list_first vs)))"
  by (induction xs arbitrary: pos) (auto simp: Let_def split_def)

lemma scan_nodes:
  assumes "\<forall>c \<in> set cs. wf_node D c" "pass_mono D M (\<lambda>e. \<not> stop e) pos (concat (map to_list cs))"
  shows "\<exists>k \<le> length cs. \<exists>e. scan M stop pos (zip cs (map node_summary cs)) =
      (after D M pos (concat (map to_list (take k cs))), map_option (\<lambda>c. (c, e)) (get_child k cs)) \<and>
    (\<forall>e \<in> set (ends D M pos (concat (map to_list (take k cs)))). \<not> stop e) \<and>
    (k < length cs \<longrightarrow> stop (after D M pos (concat (map to_list (take (Suc k) cs)))))"
  using assms
proof (induction cs arbitrary: pos)
  case Nil
  then show ?case by (auto simp: get_child_def)
next
  case (Cons c cs)
  have c: "wf_node D c" "to_list c \<noteq> []" using Cons.prems by (auto dest: wf_node_nonempty)
  note e = node_end [OF c(1), of pos]
  show ?case
  proof (cases "stop (after D M pos (to_list c))")
    case True
    then show ?thesis using e by (intro exI [of _ 0]) (auto simp: get_child_def)
  next
    case False
    have mono: "pass_mono D M (\<lambda>e. \<not> stop e) (after D M pos (to_list c)) (concat (map to_list cs))"
      "pass_mono D M (\<lambda>e. \<not> stop e) pos (to_list c)"
      using Cons.prems(2) pass_mono_append [of D M _ pos "to_list c"] by auto
    from Cons.IH [OF _ mono(1)] Cons.prems(1) obtain k e' where k: "k \<le> length cs"
      "scan M stop (after D M pos (to_list c)) (zip cs (map node_summary cs)) =
        (after D M (after D M pos (to_list c)) (concat (map to_list (take k cs))), map_option (\<lambda>c. (c, e')) (get_child k cs))"
      "\<forall>e \<in> set (ends D M (after D M pos (to_list c)) (concat (map to_list (take k cs)))). \<not> stop e"
      "k < length cs \<longrightarrow> stop (after D M (after D M pos (to_list c)) (concat (map to_list (take (Suc k) cs))))" by auto
    have "\<forall>e \<in> set (ends D M pos (to_list c)). \<not> stop e"
      using pass_mono_prefix_passes [OF mono(2) c(2)] False by simp
    with k False e show ?thesis
      by (intro exI [of _ "Suc k"] conjI) (auto simp: get_child_def Let_def)
  qed
qed

text \<open>Both searches descend to the leaf that holds the first item not passed.\<close>

lemma find_iterate_leaf:
  assumes "wf_node D n" "pass_mono D M (passes target b) pos (to_list n)"
    and "\<not> passes target b (after D M pos (to_list n))"
  shows "\<exists>pre its post s. to_list n = pre @ its @ post \<and>
    find_iterate M exact target b pos n =
      find_iterate M exact target b (after D M pos pre) (Leaf s its (map (summary_of D) its)) \<and>
    (\<forall>e \<in> set (ends D M pos pre). passes target b e) \<and> its \<noteq> [] \<and>
    \<not> passes target b (after D M pos (pre @ its))"
  using assms
proof (induction n arbitrary: pos)
  case (Leaf s its iss)
  then show ?case by (intro exI [of _ "[]"] exI [of _ its] exI [of _ "[]"] exI [of _ s]) auto
next
  case (Internal h s css cts)
  have wf: "\<forall>c \<in> set cts. wf_node D c" "css = map node_summary cts" using Internal.prems by auto
  have p: "(\<lambda>e. \<not> target_in target b e) = passes target b" by (simp add: target_in_iff)
  obtain k e where k: "k \<le> length cts" "scan M (target_in target b) pos (zip cts css) =
      (after D M pos (concat (map to_list (take k cts))), map_option (\<lambda>c. (c, e)) (get_child k cts))"
    and ps: "\<forall>e \<in> set (ends D M pos (concat (map to_list (take k cts)))). passes target b e"
    and st: "k < length cts \<longrightarrow> \<not> passes target b (after D M pos (concat (map to_list (take (Suc k) cts))))"
    using scan_nodes [OF wf(1), of "target_in target b" pos] Internal.prems(2) wf(2)
    by (auto simp: target_in_iff)
  let ?pre = "concat (map to_list (take k cts))"
  have "k \<noteq> length cts"
  proof
    assume "k = length cts"
    with ps have "\<forall>e \<in> set (ends D M pos (to_list (Internal h s css cts))). passes target b e" by simp
    moreover have "to_list (Internal h s css cts) \<noteq> []" using Internal.prems wf_node_nonempty by blast
    ultimately show False using Internal.prems(3) last_ends [of _ D M pos] last_in_set [of "ends D M pos _"]
      by (metis ends_eq_Nil)
  qed
  with k have lt: "k < length cts" by simp
  then have tk: "take (Suc k) cts = take k cts @ [cts ! k]" by (simp add: take_Suc_conv_app_nth)
  have all: "to_list (Internal h s css cts) = ?pre @ to_list (cts ! k) @ concat (map to_list (drop (Suc k) cts))"
    using arg_cong [OF id_take_nth_drop [OF lt], of "\<lambda>cs. concat (map to_list cs)"] by simp
  have c: "cts ! k \<in> set cts" using lt by simp
  have "pass_mono D M (passes target b) (after D M pos ?pre) (to_list (cts ! k))"
    using Internal.prems(2) unfolding all
    by (rule pass_mono_append [THEN conjunct2, THEN pass_mono_append, THEN conjunct1])
  with Internal.IH [OF c, of "after D M pos ?pre"] st lt wf c obtain pre its post s' where
    i: "to_list (cts ! k) = pre @ its @ post"
    "find_iterate M exact target b (after D M pos ?pre) (cts ! k) =
      find_iterate M exact target b (after D M (after D M pos ?pre) pre) (Leaf s' its (map (summary_of D) its))"
    "\<forall>e \<in> set (ends D M (after D M pos ?pre) pre). passes target b e" "its \<noteq> []"
    "\<not> passes target b (after D M (after D M pos ?pre) (pre @ its))"
    unfolding tk by auto
  have "find_iterate M exact target b pos (Internal h s css cts) = find_iterate M exact target b (after D M pos ?pre) (cts ! k)"
    using k lt by (simp add: get_child_def)
  with i ps all show ?case
    by (intro exI [of _ "?pre @ pre"] exI [of _ its] exI [of _ "post @ concat (map to_list (drop (Suc k) cts))"]
        exI [of _ s']) auto
qed

text \<open>The first item not passed, in a leaf that holds one.\<close>

lemma leaf_advance:
  assumes "its \<noteq> []" "\<not> passes target b (after D M pos its)"
    "advance D M (passes target b) pos (its @ post) = (us, vs)"
  obtains v ws where "its = us @ v # ws" "vs = v # ws @ post" "advance D M (passes target b) pos its = (us, v # ws)"
proof -
  obtain us' vs' where a: "advance D M (passes target b) pos its = (us', vs')" by force
  have "vs' \<noteq> []"
    using a assms(1,2) advance_all_iff [of D M "passes target b" pos its] last_ends [OF assms(1), of D M pos]
      last_in_set [of "ends D M pos its"] by auto
  then obtain v ws where vs: "vs' = v # ws" by (cases vs') auto
  have "its = us' @ vs'" using advance_append [of D M "passes target b" pos its] a by simp
  moreover have "us = us'" "vs = vs' @ post"
    using advance_stops [of D M "passes target b" pos its post] a assms(3) vs by auto
  ultimately show thesis using a vs by (intro that [of v ws]) auto
qed

lemma scan_none:
  "\<forall>e \<in> set (ends D M pos xs). \<not> stop e \<Longrightarrow>
   scan M stop pos (zip xs (map (summary_of D) xs)) = (after D M pos xs, None)"
  by (induction xs arbitrary: pos) (auto simp: Let_def)

lemma scan_unique:
  assumes "\<forall>e \<in> set (ends D M pos xs). \<not> stop e"
    and "\<forall>e \<in> set (ends D M (d_add M (after D M pos xs) (summary_of D v)) ys). \<not> stop e"
  shows "snd (scan M stop pos (zip (xs @ v # ys) (map (summary_of D) (xs @ v # ys)))) =
    (let e = d_add M (after D M pos xs) (summary_of D v) in if stop e then Some (v, e) else None)"
  using assms by (induction xs arbitrary: pos) (auto simp: Let_def scan_none)

lemma tree_find_ok:
  assumes t: "wf_node D t" and mono: "pass_mono D M (passes target b) (d_zero M) (to_list t)"
    and adv: "advance D M (passes target b) (d_zero M) (to_list t) = (us, vs)"
  shows "tree_find D M target b t =
    (after D M (d_zero M) us, after D M (d_zero M) (us @ take 1 vs), list_first vs)"
proof (cases "passes target b (after D M (d_zero M) (to_list t))")
  case True
  from pass_mono_prefix_passes [OF mono wf_node_nonempty [OF t] True] have "us = to_list t" "vs = []"
    using adv advance_passes [of D M "d_zero M" "to_list t" "passes target b" "[]"] by auto
  with True node_end [OF t, of "d_zero M"] show ?thesis by (simp add: tree_find_def find_gen_def Let_def)
next
  case False
  let ?z = "d_zero M"
  from find_iterate_leaf [OF t mono False, of False] obtain pre its post s where
    l: "to_list t = pre @ its @ post"
    "find_iterate M False target b ?z t =
      find_iterate M False target b (after D M ?z pre) (Leaf s its (map (summary_of D) its))"
    "\<forall>e \<in> set (ends D M ?z pre). passes target b e" "its \<noteq> []" "\<not> passes target b (after D M ?z (pre @ its))" by auto
  from adv [unfolded l(1)] l(3) obtain us2 where us: "us = pre @ us2"
    "advance D M (passes target b) (after D M ?z pre) (its @ post) = (us2, vs)" by (rule advance_past)
  obtain v ws where v: "its = us2 @ v # ws" "vs = v # ws @ post"
    "advance D M (passes target b) (after D M ?z pre) its = (us2, v # ws)"
    using leaf_advance [OF l(4) _ us(2)] l(5) by auto
  have "(\<lambda>e. \<not> target_in target b e) = passes target b" by (simp add: target_in_iff)
  with False node_end [OF t, of ?z] l v us show ?thesis
    using scan_items [of "target_in target b" "after D M ?z pre" its]
    by (simp add: tree_find_def find_gen_def Let_def)
qed

text \<open>
  \<open>find_exact\<close> finds the item whose end equals the target, provided it is the first one not
  passed and the only one.
\<close>

lemma tree_find_exact_ok:
  assumes t: "wf_tree D t" and mono: "pass_mono D M (passes target Left) (d_zero M) (to_list t)"
    and adv: "advance D M (passes target Left) (d_zero M) (to_list t) = (us, vs)"
    and uniq: "\<forall>e \<in> set (tl (ends D M (after D M (d_zero M) us) vs)). target e \<noteq> Equal"
  shows "snd (snd (tree_find_exact D M target Left t)) =
    (if vs \<noteq> [] \<and> target (after D M (d_zero M) (us @ take 1 vs)) = Equal then list_first vs else None)"
proof (cases "wf_node D t \<and> \<not> passes target Left (after D M (d_zero M) (to_list t))")
  case False
  then consider "wf_node D t" "passes target Left (after D M (d_zero M) (to_list t))"
    | "t = Leaf (zero D) [] []" using t by (auto simp: wf_tree_def)
  then show ?thesis
  proof cases
    case 1
    from pass_mono_prefix_passes [OF mono wf_node_nonempty [OF 1(1)] 1(2)] have "vs = []"
      using adv advance_passes [of D M "d_zero M" "to_list t" "passes target Left" "[]"] by auto
    with 1 node_end [OF 1(1), of "d_zero M"] show ?thesis by (simp add: tree_find_exact_def find_gen_def Let_def)
  next
    case 2
    with adv show ?thesis by (auto simp: tree_find_exact_def find_gen_def Let_def)
  qed
next
  case True
  let ?z = "d_zero M"
  from find_iterate_leaf [OF _ mono, of True] True obtain pre its post s where
    l: "to_list t = pre @ its @ post"
    "find_iterate M True target Left ?z t =
      find_iterate M True target Left (after D M ?z pre) (Leaf s its (map (summary_of D) its))"
    "\<forall>e \<in> set (ends D M ?z pre). passes target Left e" "its \<noteq> []"
    "\<not> passes target Left (after D M ?z (pre @ its))" by auto
  from adv [unfolded l(1)] l(3) obtain us2 where us: "us = pre @ us2"
    "advance D M (passes target Left) (after D M ?z pre) (its @ post) = (us2, vs)" by (rule advance_past)
  obtain v ws where v: "its = us2 @ v # ws" "vs = v # ws @ post"
    "advance D M (passes target Left) (after D M ?z pre) its = (us2, v # ws)"
    using leaf_advance [OF l(4) _ us(2)] l(5) by auto
  have "\<forall>e \<in> set (ends D M (after D M ?z pre) us2). target e \<noteq> Equal"
    using us(2) advance_fst_passes [of D M "after D M ?z pre" "passes target Left" "its @ post"]
    by (auto simp: passes_def)
  moreover have "\<forall>e \<in> set (ends D M (d_add M (after D M (after D M ?z pre) us2) (summary_of D v)) ws). target e \<noteq> Equal"
    using uniq v(2) us(1) by (simp add: Let_def ball_Un)
  ultimately have "snd (scan M (\<lambda>e. target e = Equal) (after D M ?z pre) (zip its (map (summary_of D) its))) =
     (let e = after D M ?z (us @ [v]) in if target e = Equal then Some (v, e) else None)"
    unfolding v(1) us(1) using scan_unique [where xs = us2 and stop = "\<lambda>e. target e = Equal" and v = v and ys = ws] by simp
  then obtain p where sc: "scan M (\<lambda>e. target e = Equal) (after D M ?z pre) (zip its (map (summary_of D) its)) =
     (p, let e = after D M ?z (us @ [v]) in if target e = Equal then Some (v, e) else None)"
    by (metis prod.collapse)
  show ?thesis
    using True node_end [of t ?z] l v(2) sc
    by (cases "target (after D M ?z (us @ [v])) = Equal") (simp_all add: tree_find_exact_def find_gen_def Let_def)
qed

end

end
