(* ===== verification/KeyedTree.thy ===== *)
theory KeyedTree
  imports CursorOps
begin

text \<open>
  The operations of \<open>SumTree\<close> on keyed items (\<open>crates/sum_tree/src/sum_tree.rs\<close>): lookup, insertion,
  removal and the batch \<open>edit\<close>, each built from the cursor, and their specification on the
  item sequence sorted by key.
\<close>

section \<open>Operations\<close>

definition key_target :: "'k::linorder \<Rightarrow> 'k \<Rightarrow> ordering" where
  "key_target k = (\<lambda>location. ord_cmp k location)"

text \<open>
  The step shared by the operations: when the item under the cursor has the key, take it and
  move past it.
\<close>

definition take_match ::
  "('k::linorder, 's) dim_ops \<Rightarrow> ('a \<Rightarrow> 'k) \<Rightarrow> 'k \<Rightarrow> ('a, 's, 'k) cursor
   \<Rightarrow> ('a option \<times> ('a, 's, 'k) cursor) option" where
  "take_match K key k c = do {
     it \<leftarrow> cursor_item c;
     (case it of
       Some y \<Rightarrow> if key y = k then do { c' \<leftarrow> cursor_next K c; Some (Some y, c') } else Some (None, c)
     | None \<Rightarrow> Some (None, c))
   }"

definition tree_insert_or_replace ::
  "('a, 's) item_ops \<Rightarrow> ('k::linorder, 's) dim_ops \<Rightarrow> ('a \<Rightarrow> 'k) \<Rightarrow> 'a \<Rightarrow> ('a, 's) node
   \<Rightarrow> ('a option \<times> ('a, 's) node) option" where
  "tree_insert_or_replace D K key x t = do {
     (new_tree, c) \<leftarrow> cursor_slice D K (key_target (key x)) Left (cursor_new K t);
     (replaced, c) \<leftarrow> take_match K key (key x) c;
     new_tree \<leftarrow> tree_push D new_tree x;
     (rest, c) \<leftarrow> cursor_suffix D K c;
     new_tree \<leftarrow> tree_append D new_tree rest;
     Some (replaced, new_tree)
   }"

definition tree_remove ::
  "('a, 's) item_ops \<Rightarrow> ('k::linorder, 's) dim_ops \<Rightarrow> ('a \<Rightarrow> 'k) \<Rightarrow> 'k \<Rightarrow> ('a, 's) node
   \<Rightarrow> ('a option \<times> ('a, 's) node) option" where
  "tree_remove D K key k t = do {
     (new_tree, c) \<leftarrow> cursor_slice D K (key_target k) Left (cursor_new K t);
     (removed, c) \<leftarrow> take_match K key k c;
     (rest, c) \<leftarrow> cursor_suffix D K c;
     new_tree \<leftarrow> tree_append D new_tree rest;
     Some (removed, new_tree)
   }"

datatype ('a, 'k) edit = Insert 'a | Remove 'k

fun edit_key :: "('a \<Rightarrow> 'k) \<Rightarrow> ('a, 'k) edit \<Rightarrow> 'k" where
  "edit_key key (Insert x) = key x"
| "edit_key key (Remove k) = k"

text \<open>
  The loop of \<open>edit\<close>: cursor, tree built so far, buffered items, removed items. First the
  step taken when the item under the cursor lies before the key of the edit.
\<close>

definition edit_flush ::
  "('a, 's) item_ops \<Rightarrow> ('k::linorder, 's) dim_ops \<Rightarrow> ('a \<Rightarrow> 'k) \<Rightarrow> 'k
   \<Rightarrow> ('a, 's, 'k) cursor \<Rightarrow> ('a, 's) node \<Rightarrow> 'a list
   \<Rightarrow> (('a, 's, 'k) cursor \<times> ('a, 's) node \<times> 'a list) option" where
  "edit_flush D K key new_key c new_tree buffered = do {
     old_item \<leftarrow> cursor_item c;
     (if (case old_item of Some old \<Rightarrow> key old < new_key | None \<Rightarrow> False) then do {
        new_tree \<leftarrow> SumTree.extend D new_tree buffered;
        (slice, c) \<leftarrow> cursor_slice D K (key_target new_key) Left c;
        new_tree \<leftarrow> tree_append D new_tree slice;
        Some (c, new_tree, [])
      }
      else Some (c, new_tree, buffered))
   }"

fun edit_loop ::
  "('a, 's) item_ops \<Rightarrow> ('k::linorder, 's) dim_ops \<Rightarrow> ('a \<Rightarrow> 'k) \<Rightarrow> ('a, 'k) edit list
   \<Rightarrow> ('a, 's, 'k) cursor \<Rightarrow> ('a, 's) node \<Rightarrow> 'a list \<Rightarrow> 'a list
   \<Rightarrow> (('a, 's, 'k) cursor \<times> ('a, 's) node \<times> 'a list \<times> 'a list) option" where
  "edit_loop D K key [] c new_tree buffered removed = Some (c, new_tree, buffered, removed)"
| "edit_loop D K key (e # es) c new_tree buffered removed = do {
     let new_key = edit_key key e;
     (c, new_tree, buffered) \<leftarrow> edit_flush D K key new_key c new_tree buffered;
     (old, c) \<leftarrow> take_match K key new_key c;
     let removed = (case old of Some old \<Rightarrow> removed @ [old] | None \<Rightarrow> removed);
     let buffered = (case e of Insert x \<Rightarrow> buffered @ [x] | Remove _ \<Rightarrow> buffered);
     edit_loop D K key es c new_tree buffered removed
   }"

text \<open>
  \<open>sort_unstable_by_key\<close> leaves the order of edits with equal keys open; \<open>sort_key\<close> is one of the
  orders it may take, and the only one when the keys are distinct.
\<close>

definition tree_edit ::
  "('a, 's) item_ops \<Rightarrow> ('k::linorder, 's) dim_ops \<Rightarrow> ('a \<Rightarrow> 'k) \<Rightarrow> ('a, 'k) edit list \<Rightarrow> ('a, 's) node
   \<Rightarrow> ('a list \<times> ('a, 's) node) option" where
  "tree_edit D K key edits t =
     (if edits = [] then Some ([], t)
      else do {
        (_, c) \<leftarrow> cursor_seek K (key_target (d_zero K)) Left (cursor_new K t);
        (c, new_tree, buffered, removed) \<leftarrow>
          edit_loop D K key (sort_key (edit_key key) edits) c (tree_new D) [] [];
        new_tree \<leftarrow> SumTree.extend D new_tree buffered;
        (rest, c) \<leftarrow> cursor_suffix D K c;
        new_tree \<leftarrow> tree_append D new_tree rest;
        Some (removed, new_tree)
      })"

definition tree_get ::
  "('a, 's) item_ops \<Rightarrow> ('k::linorder, 's) dim_ops \<Rightarrow> 'k \<Rightarrow> ('a, 's) node \<Rightarrow> 'a option" where
  "tree_get D K k t = snd (snd (tree_find_exact D K (key_target k) Left t))"

section \<open>Specification on the sorted sequence\<close>

definition sorted_keys :: "('a \<Rightarrow> 'k::linorder) \<Rightarrow> 'a list \<Rightarrow> bool" where
  "sorted_keys key xs \<longleftrightarrow> sorted_wrt (\<lambda>x y. key x < key y) xs"

definition lookup_key :: "('a \<Rightarrow> 'k) \<Rightarrow> 'k \<Rightarrow> 'a list \<Rightarrow> 'a option" where
  "lookup_key key k xs = List.find (\<lambda>x. key x = k) xs"

text \<open>The sequence after a batch of edits, and the items it took out.\<close>

fun apply_edits :: "('a \<Rightarrow> 'k::linorder) \<Rightarrow> ('a, 'k) edit list \<Rightarrow> 'a list \<Rightarrow> 'a list" where
  "apply_edits key [] ys = ys"
| "apply_edits key (e # es) ys =
     filter (\<lambda>y. key y < edit_key key e) ys @
     (case e of Insert x \<Rightarrow> [x] | Remove _ \<Rightarrow> []) @
     apply_edits key es (filter (\<lambda>y. edit_key key e < key y) ys)"

fun removed_by :: "('a \<Rightarrow> 'k::linorder) \<Rightarrow> ('a, 'k) edit list \<Rightarrow> 'a list \<Rightarrow> 'a list" where
  "removed_by key [] ys = []"
| "removed_by key (e # es) ys =
     (case lookup_key key (edit_key key e) ys of Some x \<Rightarrow> [x] | None \<Rightarrow> []) @
     removed_by key es (filter (\<lambda>y. edit_key key e < key y) ys)"

lemma sorted_keys_simps [simp]:
  "sorted_keys key []"
  "sorted_keys key (x # xs) \<longleftrightarrow> (\<forall>y \<in> set xs. key x < key y) \<and> sorted_keys key xs"
  by (simp_all add: sorted_keys_def)

lemma sorted_keys_append [simp]:
  "sorted_keys key (xs @ ys) \<longleftrightarrow> sorted_keys key xs \<and> sorted_keys key ys \<and>
   (\<forall>x \<in> set xs. \<forall>y \<in> set ys. key x < key y)"
  by (auto simp: sorted_keys_def sorted_wrt_append)

lemma sorted_keys_filter: "sorted_keys key xs \<Longrightarrow> sorted_keys key (filter P xs)"
  by (simp add: sorted_keys_def sorted_wrt_filter)

lemma sorted_takeWhile:
  "sorted_keys key xs \<Longrightarrow> takeWhile (\<lambda>x. key x < k) xs = filter (\<lambda>x. key x < k) xs"
proof (induction xs)
  case (Cons x xs)
  have "filter (\<lambda>x. key x < k) xs = []" if "\<not> key x < k"
    using that Cons.prems by (auto simp: filter_empty_conv dest: order.strict_trans)
  with Cons show ?case by simp
qed simp

lemma sorted_dropWhile:
  "sorted_keys key xs \<Longrightarrow> dropWhile (\<lambda>x. key x < k) xs = filter (\<lambda>x. k \<le> key x) xs"
proof (induction xs)
  case (Cons x xs)
  have "filter (\<lambda>x. k \<le> key x) xs = xs" if "\<not> key x < k"
    using that Cons.prems by (intro filter_True) (auto simp: not_less intro: order.trans [OF _ less_imp_le])
  with Cons show ?case by (simp add: not_less flip: not_less)
qed simp

lemma lookup_key_simps [simp]:
  "lookup_key key k [] = None"
  "lookup_key key k (x # xs) = (if key x = k then Some x else lookup_key key k xs)"
  by (simp_all add: lookup_key_def)

lemma lookup_key_None: "lookup_key key k xs = None \<longleftrightarrow> (\<forall>x \<in> set xs. key x \<noteq> k)"
  by (induction xs) auto

lemma lookup_key_append:
  "lookup_key key k (xs @ ys) = (case lookup_key key k xs of Some x \<Rightarrow> Some x | None \<Rightarrow> lookup_key key k ys)"
  by (induction xs) auto

lemma lookup_key_filter:
  "(\<And>x. key x = k \<Longrightarrow> P x) \<Longrightarrow> lookup_key key k (filter P xs) = lookup_key key k xs"
  by (induction xs) auto

lemma sorted_without_key:
  "sorted_keys key xs \<Longrightarrow>
   filter (\<lambda>y. key y \<noteq> k) xs = filter (\<lambda>y. key y < k) xs @ filter (\<lambda>y. k < key y) xs"
proof (induction xs)
  case (Cons x xs)
  have "filter (\<lambda>y. key y < k) xs = []" if "k < key x"
    using that Cons.prems by (auto simp: filter_empty_conv dest: order.strict_trans)
  with Cons show ?case by auto
qed simp

lemma sorted_low_high:
  "sorted_keys key xs \<Longrightarrow> filter (\<lambda>y. key y < k) xs @ filter (\<lambda>y. k \<le> key y) xs = xs"
  by (metis sorted_takeWhile sorted_dropWhile takeWhile_dropWhile_id)

lemma sorted_outside:
  "sorted_keys key xs \<Longrightarrow> a \<le> b \<Longrightarrow>
   filter (\<lambda>x. key x < a) xs @ filter (\<lambda>x. b \<le> key x) xs = filter (\<lambda>x. \<not> (a \<le> key x \<and> key x < b)) xs"
proof (induction xs)
  case (Cons x xs)
  have "filter (\<lambda>x. key x < a) xs = []" if "a \<le> key x"
    using that Cons.prems(1) by (auto simp: filter_empty_conv dest: order.strict_trans1)
  moreover have "\<not> b \<le> key x" if "key x < a" using that Cons.prems(2) by auto
  ultimately show ?case using Cons by (auto simp: not_le not_less)
qed simp

text \<open>The head of what is at or above a key.\<close>

lemma sorted_from_key:
  assumes "sorted_keys key xs"
  shows "filter (\<lambda>x. k \<le> key x) xs =
    (case lookup_key key k xs of Some x \<Rightarrow> [x] | None \<Rightarrow> []) @ filter (\<lambda>x. k < key x) xs"
  using assms
proof (induction xs)
  case (Cons x xs)
  show ?case
  proof (cases "key x = k")
    case True
    then have "filter (\<lambda>y. k \<le> key y) xs = xs" "filter (\<lambda>y. k < key y) xs = xs"
      using Cons.prems by (auto simp: filter_id_conv)
    with True show ?thesis by simp
  next
    case False
    have "lookup_key key k xs = None" if "k < key x"
      using that Cons.prems by (force simp: lookup_key_None)
    with False Cons show ?thesis by auto
  qed
qed simp

text \<open>A batch with distinct keys acts on each key on its own.\<close>

lemma set_apply_edits:
  "x \<in> set (apply_edits key es ys) \<Longrightarrow> x \<in> set ys \<or> Insert x \<in> set es"
  by (induction key es ys rule: apply_edits.induct) (auto split: edit.splits)

lemma apply_edits_sorted:
  assumes "sorted_keys (edit_key key) es" "sorted_keys key ys"
  shows "sorted_keys key (apply_edits key es ys)"
  using assms
proof (induction key es ys rule: apply_edits.induct)
  case (2 key e es ys)
  define L where "L = filter (\<lambda>y. key y < edit_key key e) ys"
  define R where "R = apply_edits key es (filter (\<lambda>y. edit_key key e < key y) ys)"
  have "\<forall>a \<in> set L. key a < edit_key key e" by (simp add: L_def)
  moreover have "\<forall>x \<in> set R. edit_key key e < key x"
  proof
    fix x assume "x \<in> set R"
    from set_apply_edits [OF this [unfolded R_def]] 2(2) show "edit_key key e < key x" by force
  qed
  moreover from calculation have "\<forall>a \<in> set L. \<forall>x \<in> set R. key a < key x"
    by (blast intro: order.strict_trans)
  moreover have "sorted_keys key L" "sorted_keys key R"
    using 2 by (simp_all add: sorted_keys_filter L_def R_def)
  ultimately show ?case
    unfolding apply_edits.simps L_def [symmetric] R_def [symmetric] by (cases e) auto
qed simp

definition edited :: "('a \<Rightarrow> 'k) \<Rightarrow> 'k \<Rightarrow> ('a, 'k) edit list \<Rightarrow> 'a option \<Rightarrow> 'a option" where
  "edited key k es old = (case List.find (\<lambda>e. edit_key key e = k) es of
     Some (Insert x) \<Rightarrow> Some x | Some (Remove _) \<Rightarrow> None | None \<Rightarrow> old)"

lemma edited_Cons:
  "edited key k (e # es) old =
   (if edit_key key e = k then (case e of Insert x \<Rightarrow> Some x | Remove _ \<Rightarrow> None) else edited key k es old)"
  by (cases e) (simp_all add: edited_def)

lemma edited_id: "\<forall>e \<in> set es. edit_key key e \<noteq> k \<Longrightarrow> edited key k es old = old"
  by (induction es) (auto simp: edited_Cons, simp add: edited_def)

lemma lookup_apply_edits:
  assumes "sorted_keys (edit_key key) es" "sorted_keys key ys"
  shows "lookup_key key k (apply_edits key es ys) = edited key k es (lookup_key key k ys)"
  using assms
proof (induction key es ys rule: apply_edits.induct)
  case (1 key ys)
  then show ?case by (simp add: edited_def)
next
  case (2 key e es ys)
  let ?k = "edit_key key e"
  let ?rest = "apply_edits key es (filter (\<lambda>y. ?k < key y) ys)"
  have IH: "lookup_key key k ?rest = edited key k es (lookup_key key k (filter (\<lambda>y. ?k < key y) ys))"
    using 2 by (simp add: sorted_keys_filter)
  have es: "edited key k es old = old" if "k \<le> ?k" for old
    using 2(2) that by (intro edited_id) auto
  consider "k < ?k" | "k = ?k" | "?k < k" by (rule linorder_cases)
  then show ?case
  proof cases
    case 1
    then have "lookup_key key k (filter (\<lambda>y. key y < ?k) ys) = lookup_key key k ys"
      by (intro lookup_key_filter) simp
    moreover have "lookup_key key k (filter (\<lambda>y. ?k < key y) ys) = None"
      using 1 by (auto simp: lookup_key_None)
    ultimately show ?thesis
      using 1 es IH by (cases e) (auto simp: lookup_key_append edited_Cons split: option.splits)
  next
    case 2
    then have "lookup_key key k (filter (\<lambda>y. key y < ?k) ys) = None"
      "lookup_key key k (filter (\<lambda>y. ?k < key y) ys) = None" by (auto simp: lookup_key_None)
    with 2 es IH show ?thesis by (cases e) (simp_all add: lookup_key_append edited_Cons)
  next
    case 3
    then have "lookup_key key k (filter (\<lambda>y. key y < ?k) ys) = None"
      "lookup_key key k (filter (\<lambda>y. ?k < key y) ys) = lookup_key key k ys"
      by (auto simp: lookup_key_None intro: lookup_key_filter)
    with 3 IH show ?thesis by (cases e) (auto simp: lookup_key_append edited_Cons)
  qed
qed

text \<open>With distinct keys the order of the batch does not matter.\<close>

lemma find_by_key:
  assumes "distinct (map f xs)" "x \<in> set xs" "f x = k"
  shows "List.find (\<lambda>y. f y = k) xs = Some x"
  using assms by (induction xs) (auto simp: image_iff)

lemma edited_by_key:
  "distinct (map (edit_key key) es) \<Longrightarrow> e \<in> set es \<Longrightarrow> edit_key key e = k \<Longrightarrow>
   edited key k es old = (case e of Insert x \<Rightarrow> Some x | Remove _ \<Rightarrow> None)"
  by (simp add: edited_def find_by_key split: edit.splits)

lemma edited_same_set:
  assumes "distinct (map (edit_key key) es)" "distinct (map (edit_key key) fs)" "set es = set fs"
  shows "edited key k es old = edited key k fs old"
proof (cases "\<exists>e \<in> set es. edit_key key e = k")
  case True
  with assms show ?thesis by (auto simp: edited_by_key)
next
  case False
  with assms show ?thesis by (simp add: edited_id)
qed

lemma sorted_distinct_keys: "sorted (map f xs) \<Longrightarrow> distinct (map f xs) \<Longrightarrow> sorted_keys f xs"
  using strict_sorted_iff [of "map f xs"] unfolding sorted_wrt_map sorted_keys_def by blast

lemma sort_key_keys: "distinct (map f xs) \<Longrightarrow> distinct (map f (sort_key f xs))"
  by (simp add: distinct_map)

text \<open>A sorted sequence is determined by its lookups.\<close>

lemma lookup_key_mem: "sorted_keys key xs \<Longrightarrow> x \<in> set xs \<longleftrightarrow> lookup_key key (key x) xs = Some x"
  by (induction xs) auto

lemma lookup_key_Some: "lookup_key key k xs = Some x \<Longrightarrow> x \<in> set xs \<and> key x = k"
  by (auto simp: lookup_key_def find_Some_iff)

lemma sorted_keys_set_unique:
  assumes "sorted_keys key xs" "sorted_keys key ys" "set xs = set ys"
  shows "xs = ys"
proof (rule map_sorted_distinct_set_unique)
  have s: "sorted_wrt (<) (map key xs)" "sorted_wrt (<) (map key ys)"
    using assms(1,2) by (simp_all add: sorted_keys_def sorted_wrt_map)
  then show "sorted (map key xs)" "distinct (map key xs)" "sorted (map key ys)" "distinct (map key ys)"
    by (simp_all add: strict_sorted_iff)
  show "inj_on key (set xs \<union> set ys)" using s(1) assms(3) by (simp add: strict_sorted_iff distinct_map)
qed (rule assms(3))

lemma sorted_keys_unique:
  assumes "sorted_keys key xs" "sorted_keys key ys" "\<And>k. lookup_key key k xs = lookup_key key k ys"
  shows "xs = ys"
  using assms by (intro sorted_keys_set_unique) (auto simp: lookup_key_mem)

section \<open>Correctness\<close>

text \<open>
  The laws of a key dimension: the zero position is below every key, and adding an item at or
  above the position moves the position to the item's key.
\<close>

locale keyed = seek_laws D K for D :: "('a, 's) item_ops" and K :: "('k::linorder, 's) dim_ops" +
  fixes key :: "'a \<Rightarrow> 'k"
  assumes zero_least: "d_zero K \<le> k"
    and d_add_key: "p \<le> key x \<Longrightarrow> d_add K p (summary_of D x) = key x"
begin

lemma key_passes [simp]:
  "passes (key_target k) Left p \<longleftrightarrow> p < k"
  "passes (key_target k) Right p \<longleftrightarrow> p \<le> k"
  by (auto simp: passes_def key_target_def ord_cmp_def)

lemma key_target_Less [simp]: "key_target k p = Less \<longleftrightarrow> k < p"
  by (auto simp: key_target_def ord_cmp_def)

lemma key_target_Equal [simp]: "key_target k p = Equal \<longleftrightarrow> p = k"
  by (auto simp: key_target_def ord_cmp_def)

lemma ends_keys: "sorted_keys key xs \<Longrightarrow> \<forall>x \<in> set xs. p \<le> key x \<Longrightarrow> ends D K p xs = map key xs"
  by (induction xs arbitrary: p) (auto simp: Let_def d_add_key intro: less_imp_le)

lemma after_keys:
  "sorted_keys key xs \<Longrightarrow> \<forall>x \<in> set xs. p \<le> key x \<Longrightarrow>
   after D K p xs = (if xs = [] then p else key (last xs))"
  by (induction xs arbitrary: p) (auto simp: d_add_key less_imp_le)

lemma position_keys:
  assumes "sorted_keys key (xs @ ys)" "x \<in> set ys"
  shows "after D K (d_zero K) xs \<le> key x"
  using assms after_keys [of xs "d_zero K"] by (auto simp: zero_least intro: less_imp_le)

lemma pass_mono_keys:
  assumes "sorted_keys key xs" "\<forall>x \<in> set xs. p \<le> key x"
  shows "pass_mono D K (passes (key_target k) b) p xs"
  unfolding pass_mono_def ends_keys [OF assms] sorted_wrt_map
  using assms(1) unfolding sorted_keys_def
  by (rule sorted_wrt_mono_rel [rotated]) (cases b; auto)

lemma advance_keys:
  assumes "sorted_keys key xs" "\<forall>x \<in> set xs. p \<le> key x"
  shows "advance D K (passes (key_target k) Left) p xs =
    (filter (\<lambda>x. key x < k) xs, filter (\<lambda>x. k \<le> key x) xs)"
proof -
  have "advance D K (passes (key_target k) Left) p xs =
    (takeWhile (\<lambda>x. key x < k) xs, dropWhile (\<lambda>x. key x < k) xs)"
    using assms by (induction xs arbitrary: p) (auto simp: Let_def d_add_key less_imp_le)
  with assms show ?thesis by (simp add: sorted_takeWhile sorted_dropWhile)
qed

lemma advance_keys_right:
  assumes "sorted_keys key xs" "\<forall>x \<in> set xs. p \<le> key x"
  shows "advance D K (passes (key_target k) Right) p xs =
    (filter (\<lambda>x. key x \<le> k) xs, filter (\<lambda>x. k < key x) xs)"
  using assms
proof (induction xs arbitrary: p)
  case (Cons x xs)
  have "filter (\<lambda>x. key x \<le> k) xs = []" "filter (\<lambda>x. k < key x) xs = xs" if "\<not> key x \<le> k"
    using that Cons.prems by (auto simp: filter_empty_conv filter_id_conv dest: order.strict_trans)
  with Cons show ?case by (auto simp: Let_def d_add_key less_imp_le)
qed simp

lemma slice_key_ok:
  assumes c: "cursor_at D K c xs ys" and s: "sorted_keys key (xs @ ys)" and k: "\<forall>x \<in> set xs. key x \<le> k"
  shows "\<exists>t c'. cursor_slice D K (key_target k) Left c = Some (t, c') \<and> wf_tree D t \<and>
    to_list t = filter (\<lambda>y. key y < k) ys \<and> c_did_seek c' \<and>
    cursor_at D K c' (xs @ filter (\<lambda>y. key y < k) ys) (filter (\<lambda>y. k \<le> key y) ys)"
proof -
  have p: "c_position c = after D K (d_zero K) xs" using c by (simp add: cursor_at_def)
  have "c_position c \<le> k" using s k zero_least by (simp add: p after_keys)
  moreover have "\<forall>y \<in> set ys. c_position c \<le> key y" using position_keys [OF s] by (simp add: p)
  ultimately show ?thesis
    using cursor_slice_ok [OF c _ pass_mono_keys advance_keys, of k] s by fastforce
qed

lemma sorted_match_split:
  assumes "sorted_keys key ys" "\<forall>y \<in> set ys. k \<le> key y"
  shows "ys = (case lookup_key key k ys of Some x \<Rightarrow> [x] | None \<Rightarrow> []) @ filter (\<lambda>y. k < key y) ys"
proof -
  have "filter (\<lambda>y. k \<le> key y) ys = ys" using assms(2) by (simp add: filter_id_conv)
  with sorted_from_key [OF assms(1), of k] show ?thesis by simp
qed

lemma take_match_ok:
  assumes c: "cursor_at D K c xs ys" "c_did_seek c" and s: "sorted_keys key ys" "\<forall>y \<in> set ys. k \<le> key y"
  shows "\<exists>c' us. take_match K key k c = Some (lookup_key key k ys, c') \<and> c_did_seek c' \<and>
    ys = us @ filter (\<lambda>y. k < key y) ys \<and> (\<forall>u \<in> set us. key u = k) \<and>
    cursor_at D K c' (xs @ us) (filter (\<lambda>y. k < key y) ys)"
proof (cases "lookup_key key k ys")
  case None
  then have "ys = filter (\<lambda>y. k < key y) ys" using sorted_match_split [OF s] by simp
  moreover have "take_match K key k c = Some (None, c)"
    using cursor_item_ok [OF c] None by (cases ys) (auto simp: take_match_def)
  ultimately show ?thesis using c None by (intro exI [of _ c] exI [of _ "[]"]) simp
next
  case (Some x)
  then have ys: "ys = x # filter (\<lambda>y. k < key y) ys" using sorted_match_split [OF s] by simp
  have x: "key x = k" using Some by (auto simp: lookup_key_def find_Some_iff)
  obtain c' where "cursor_next K c = Some c'" "c_did_seek c'"
    "cursor_at D K c' (xs @ [x]) (filter (\<lambda>y. k < key y) ys)"
    using cursor_next_ok [OF c(1)] c(2) ys by (metis One_nat_def drop0 drop_Suc_Cons take_Suc_Cons take0)
  moreover have "cursor_item c = Some (Some x)" using cursor_item_ok [OF c] ys by (metis list_first_simps(2))
  ultimately show ?thesis using Some ys x
    by (intro exI [of _ c'] exI [of _ "[x]"]) (simp add: take_match_def)
qed

lemma filter_above: "filter (\<lambda>x. k < key x) (filter (\<lambda>x. k \<le> key x) xs) = filter (\<lambda>x. k < key x) xs"
  by (auto intro!: filter_cong)

text \<open>The common first half of insertion and removal.\<close>

lemma slice_match_ok:
  assumes t: "wf_tree D t" "sorted_keys key (to_list t)"
  obtains l c r c' c'' where "cursor_slice D K (key_target k) Left (cursor_new K t) = Some (l, c)"
    "wf_tree D l" "to_list l = filter (\<lambda>y. key y < k) (to_list t)"
    "take_match K key k c = Some (lookup_key key k (to_list t), c')"
    "cursor_suffix D K c' = Some (r, c'')" "wf_tree D r" "to_list r = filter (\<lambda>y. k < key y) (to_list t)"
proof -
  obtain l c where l: "cursor_slice D K (key_target k) Left (cursor_new K t) = Some (l, c)"
    "wf_tree D l" "to_list l = filter (\<lambda>y. key y < k) (to_list t)" "c_did_seek c"
    "cursor_at D K c (filter (\<lambda>y. key y < k) (to_list t)) (filter (\<lambda>y. k \<le> key y) (to_list t))"
    using slice_key_ok [OF cursor_at_new [OF t(1)], of k] t(2) by auto
  have lk: "lookup_key key k (filter (\<lambda>y. k \<le> key y) (to_list t)) = lookup_key key k (to_list t)"
    by (rule lookup_key_filter) simp
  obtain c' us where m: "take_match K key k c = Some (lookup_key key k (to_list t), c')"
    "cursor_at D K c' (filter (\<lambda>y. key y < k) (to_list t) @ us) (filter (\<lambda>y. k < key y) (to_list t))"
    using take_match_ok [OF l(5,4) sorted_keys_filter [OF t(2)], of k, unfolded lk filter_above] by auto
  obtain r c'' where r: "cursor_suffix D K c' = Some (r, c'')" "wf_tree D r"
    "to_list r = filter (\<lambda>y. k < key y) (to_list t)"
    using cursor_suffix_ok [OF m(2)] by blast
  show thesis by (rule that [OF l(1-3) m(1) r])
qed

lemma tree_insert_or_replace_ok:
  assumes t: "wf_tree D t" "sorted_keys key (to_list t)"
  shows "\<exists>t'. tree_insert_or_replace D K key x t = Some (lookup_key key (key x) (to_list t), t') \<and>
    wf_tree D t' \<and>
    to_list t' = filter (\<lambda>y. key y < key x) (to_list t) @ x # filter (\<lambda>y. key x < key y) (to_list t)"
proof -
  obtain l c r c' c'' where s: "cursor_slice D K (key_target (key x)) Left (cursor_new K t) = Some (l, c)"
    "wf_tree D l" "to_list l = filter (\<lambda>y. key y < key x) (to_list t)"
    "take_match K key (key x) c = Some (lookup_key key (key x) (to_list t), c')"
    "cursor_suffix D K c' = Some (r, c'')" "wf_tree D r" "to_list r = filter (\<lambda>y. key x < key y) (to_list t)"
    by (rule slice_match_ok [OF t, of "key x"])
  obtain l2 where l2: "tree_push D l x = Some l2" "wf_tree D l2" "to_list l2 = to_list l @ [x]"
    using tree_push_ok [OF s(2)] by blast
  obtain t' where "tree_append D l2 r = Some t'" "wf_tree D t'" "to_list t' = to_list l2 @ to_list r"
    using tree_append_ok [OF l2(2) s(6)] by blast
  with s l2 show ?thesis by (simp add: tree_insert_or_replace_def)
qed

lemma tree_remove_ok:
  assumes t: "wf_tree D t" "sorted_keys key (to_list t)"
  shows "\<exists>t'. tree_remove D K key k t = Some (lookup_key key k (to_list t), t') \<and> wf_tree D t' \<and>
    to_list t' = filter (\<lambda>y. key y \<noteq> k) (to_list t)"
proof -
  obtain l c r c' c'' where s: "cursor_slice D K (key_target k) Left (cursor_new K t) = Some (l, c)"
    "wf_tree D l" "to_list l = filter (\<lambda>y. key y < k) (to_list t)"
    "take_match K key k c = Some (lookup_key key k (to_list t), c')"
    "cursor_suffix D K c' = Some (r, c'')" "wf_tree D r" "to_list r = filter (\<lambda>y. k < key y) (to_list t)"
    by (rule slice_match_ok [OF t, of k])
  obtain t' where "tree_append D l r = Some t'" "wf_tree D t'" "to_list t' = to_list l @ to_list r"
    using tree_append_ok [OF s(2,6)] by blast
  with s sorted_without_key [OF t(2), of k] show ?thesis by (simp add: tree_remove_def)
qed

lemma tree_get_ok:
  assumes t: "wf_tree D t" "sorted_keys key (to_list t)"
  shows "tree_get D K k t = lookup_key key k (to_list t)"
proof -
  let ?xs = "to_list t" and ?z = "d_zero K"
  let ?lo = "filter (\<lambda>x. key x < k) ?xs" and ?hi = "filter (\<lambda>x. k \<le> key x) ?xs"
  have z: "\<forall>x \<in> set xs. ?z \<le> key x" for xs by (simp add: zero_least)
  have split: "?lo @ ?hi = ?xs" using advance_keys [OF t(2) z, of k] advance_append [of D K] by (metis fst_conv snd_conv)
  have s: "sorted_keys key (?lo @ ?hi)" using t(2) split by simp
  have p: "\<forall>x \<in> set ?hi. after D K ?z ?lo \<le> key x" using position_keys [OF s] by simp
  have ends: "ends D K (after D K ?z ?lo) ?hi = map key ?hi" using s by (intro ends_keys p) simp
  have ge: "\<forall>x \<in> set ?hi. k \<le> key x" by simp
  have above: "\<forall>x \<in> set hs. k < key x" if "?hi = h # hs" for h hs
    using s ge unfolding that by (auto intro: order.strict_trans1)
  have uniq: "\<forall>e \<in> set (tl (map key ?hi)). key_target k e \<noteq> Equal"
    using above by (cases ?hi) auto
  have "tree_get D K k t = (if ?hi \<noteq> [] \<and> after D K ?z (?lo @ take 1 ?hi) = k then list_first ?hi else None)"
    unfolding tree_get_def
    using tree_find_exact_ok [OF t(1) pass_mono_keys [OF t(2) z] advance_keys [OF t(2) z], of k] uniq ends by simp
  also have "\<dots> = lookup_key key k ?hi"
  proof (cases ?hi)
    case (Cons h hs)
    then have "after D K ?z (?lo @ take 1 ?hi) = key h" using p by (simp add: d_add_key)
    moreover have "lookup_key key k hs = None"
      using above [OF Cons] by (auto simp: lookup_key_None)
    ultimately show ?thesis using Cons by simp
  qed simp
  also have "\<dots> = lookup_key key k ?xs" by (rule lookup_key_filter) simp
  finally show ?thesis .
qed

lemma edit_flush_ok:
  assumes c: "cursor_at D K c xs ys" "c_did_seek c" and s: "sorted_keys key (xs @ ys)"
    and k: "\<forall>x \<in> set xs. key x \<le> k" and t: "wf_tree D t"
  obtains c' t' buf' where "edit_flush D K key k c t buf = Some (c', t', buf')" "wf_tree D t'" "c_did_seek c'"
    "cursor_at D K c' (xs @ filter (\<lambda>y. key y < k) ys) (filter (\<lambda>y. k \<le> key y) ys)"
    "to_list t' @ buf' = to_list t @ buf @ filter (\<lambda>y. key y < k) ys"
proof (cases "\<exists>y zs. ys = y # zs \<and> key y < k")
  case True
  obtain t1 where t1: "SumTree.extend D t buf = Some t1" "wf_tree D t1" "to_list t1 = to_list t @ buf"
    using extend_ok [OF t] by blast
  obtain l c' where l: "cursor_slice D K (key_target k) Left c = Some (l, c')" "wf_tree D l"
    "to_list l = filter (\<lambda>y. key y < k) ys" "c_did_seek c'"
    "cursor_at D K c' (xs @ filter (\<lambda>y. key y < k) ys) (filter (\<lambda>y. k \<le> key y) ys)"
    using slice_key_ok [OF c(1) s k] by blast
  obtain t' where t': "tree_append D t1 l = Some t'" "wf_tree D t'" "to_list t' = to_list t1 @ to_list l"
    using tree_append_ok [OF t1(2) l(2)] by blast
  have "edit_flush D K key k c t buf = Some (c', t', [])"
    using True cursor_item_ok [OF c] t1(1) l(1) t'(1) by (auto simp: edit_flush_def)
  from that [OF this t'(2) l(4,5)] t' t1 l show thesis by simp
next
  case False
  then have ge: "\<forall>y \<in> set ys. k \<le> key y"
    using s by (cases ys) (auto simp: not_less intro: order.trans less_imp_le)
  then have "filter (\<lambda>y. key y < k) ys = []" "filter (\<lambda>y. k \<le> key y) ys = ys"
    by (auto simp: filter_empty_conv filter_id_conv not_less)
  moreover have "edit_flush D K key k c t buf = Some (c, t, buf)"
    using False cursor_item_ok [OF c] by (cases ys) (auto simp: edit_flush_def)
  ultimately show thesis using that [of c t buf] c t by simp
qed

lemma edit_loop_ok:
  assumes "cursor_at D K c xs ys" "c_did_seek c" "sorted_keys key (xs @ ys)" "wf_tree D t"
    and "sorted (map (edit_key key) es)" "\<forall>x \<in> set xs. \<forall>e \<in> set es. key x \<le> edit_key key e"
  shows "\<exists>c' t' buf' zs ws. edit_loop D K key es c t buf rem = Some (c', t', buf', rem @ removed_by key es ys) \<and>
    wf_tree D t' \<and> cursor_at D K c' zs ws \<and> to_list t' @ buf' @ ws = to_list t @ buf @ apply_edits key es ys"
  using assms
proof (induction es arbitrary: c xs ys t buf rem)
  case Nil
  then show ?case by auto
next
  case (Cons e es)
  let ?k = "edit_key key e" and ?lo = "filter (\<lambda>y. key y < edit_key key e) ys"
  let ?hi = "filter (\<lambda>y. edit_key key e \<le> key y) ys"
  let ?gt = "filter (\<lambda>y. edit_key key e < key y) ys"
  have le: "\<forall>x \<in> set xs. key x \<le> ?k" using Cons.prems(6) by simp
  obtain c1 t1 buf1 where f: "edit_flush D K key ?k c t buf = Some (c1, t1, buf1)" "wf_tree D t1"
    "c_did_seek c1" "cursor_at D K c1 (xs @ ?lo) ?hi" "to_list t1 @ buf1 = to_list t @ buf @ ?lo"
    by (rule edit_flush_ok [OF Cons.prems(1-3) le Cons.prems(4)])
  have lk: "lookup_key key ?k ?hi = lookup_key key ?k ys" by (rule lookup_key_filter) simp
  have hi: "sorted_keys key ?hi" using Cons.prems(3) by (simp add: sorted_keys_filter)
  have ge: "\<forall>y \<in> set ?hi. ?k \<le> key y" by simp
  obtain c2 us where m: "take_match K key ?k c1 = Some (lookup_key key ?k ys, c2)" "c_did_seek c2"
    "\<forall>u \<in> set us. key u = ?k" "cursor_at D K c2 ((xs @ ?lo) @ us) ?gt" "?hi = us @ ?gt"
    using take_match_ok [OF f(4,3) hi ge, unfolded lk filter_above] by (elim exE conjE) (rule that)
  have "?lo @ ?hi = ys" using Cons.prems(3) by (simp add: sorted_low_high)
  then have srt: "sorted_keys key (((xs @ ?lo) @ us) @ ?gt)"
    using Cons.prems(3) by (simp only: append.assoc m(5) [symmetric])
  have bound: "\<forall>x \<in> set ((xs @ ?lo) @ us). \<forall>e' \<in> set es. key x \<le> edit_key key e'"
  proof (intro ballI)
    fix x e' assume x: "x \<in> set ((xs @ ?lo) @ us)" and e': "e' \<in> set es"
    have "key x \<le> ?k" using x le m(3) by auto
    also have "?k \<le> edit_key key e'" using Cons.prems(5) e' by auto
    finally show "key x \<le> edit_key key e'" .
  qed
  have sorted: "sorted (map (edit_key key) es)" using Cons.prems(5) by simp
  let ?buf = "case e of Insert x \<Rightarrow> buf1 @ [x] | Remove _ \<Rightarrow> buf1"
  let ?rem = "case lookup_key key ?k ys of Some old \<Rightarrow> rem @ [old] | None \<Rightarrow> rem"
  obtain c3 t3 buf3 zs ws where r: "edit_loop D K key es c2 t1 ?buf ?rem = Some (c3, t3, buf3, ?rem @ removed_by key es ?gt)"
    "wf_tree D t3" "cursor_at D K c3 zs ws" "to_list t3 @ buf3 @ ws = to_list t1 @ ?buf @ apply_edits key es ?gt"
    using Cons.IH [OF m(4,2) srt f(2) sorted bound, of ?buf ?rem] by (elim exE conjE) (rule that; assumption)
  have "edit_loop D K key (e # es) c t buf rem = Some (c3, t3, buf3, rem @ removed_by key (e # es) ys)"
    using f(1) m(1) r(1) by (simp add: Let_def split: option.splits)
  moreover have f5: "to_list t1 @ buf1 @ us = to_list t @ buf @ ?lo @ us" for us
    using f(5) by (metis append.assoc)
  have "to_list t3 @ buf3 @ ws = to_list t @ buf @ apply_edits key (e # es) ys"
    unfolding r(4) apply_edits.simps using f5 by (cases e) simp_all
  ultimately show ?case using r(2,3) by blast
qed

lemma tree_edit_ok:
  assumes t: "wf_tree D t" "sorted_keys key (to_list t)"
  shows "\<exists>t'. tree_edit D K key es t =
      Some (removed_by key (sort_key (edit_key key) es) (to_list t), t') \<and> wf_tree D t' \<and>
    to_list t' = apply_edits key (sort_key (edit_key key) es) (to_list t)"
proof (cases "es = []")
  case True
  with t show ?thesis by (simp add: tree_edit_def)
next
  case False
  have z: "\<forall>x \<in> set xs. d_zero K \<le> key x" for xs by (simp add: zero_least)
  obtain b c where c: "cursor_seek K (key_target (d_zero K)) Left (cursor_new K t) = Some (b, c)"
    "cursor_at D K c [] (to_list t)" "c_did_seek c"
    using cursor_seek_ok [OF cursor_at_new [OF t(1)], of "key_target (d_zero K)" Left "[]" "to_list t"]
      pass_mono_keys [OF t(2) z] advance_keys [OF t(2) z, of "d_zero K"] zero_least
    by (auto simp: filter_empty_conv filter_id_conv not_less)
  have "sorted_keys key ([] @ to_list t)" "\<forall>x \<in> set []. \<forall>e \<in> set (sort_key (edit_key key) es). key x \<le> edit_key key e"
    using t(2) by auto
  from edit_loop_ok [OF c(2,3) this(1) wf_tree_new(1) sorted_sort_key this(2), of "[]" "[]"]
  obtain c' t' buf zs ws where l:
    "edit_loop D K key (sort_key (edit_key key) es) c (tree_new D) [] [] =
      Some (c', t', buf, removed_by key (sort_key (edit_key key) es) (to_list t))" "wf_tree D t'"
    "cursor_at D K c' zs ws" "to_list t' @ buf @ ws = apply_edits key (sort_key (edit_key key) es) (to_list t)"
    by auto
  obtain t2 where t2: "SumTree.extend D t' buf = Some t2" "wf_tree D t2" "to_list t2 = to_list t' @ buf"
    using extend_ok [OF l(2)] by blast
  obtain r c'' where r: "cursor_suffix D K c' = Some (r, c'')" "wf_tree D r" "to_list r = ws"
    using cursor_suffix_ok [OF l(3)] by blast
  obtain t3 where "tree_append D t2 r = Some t3" "wf_tree D t3" "to_list t3 = to_list t2 @ to_list r"
    using tree_append_ok [OF t2(2) r(2)] by blast
  with False c(1) l t2 r show ?thesis by (simp add: tree_edit_def)
qed

text \<open>A batch with distinct keys: the result is sorted, and each key has what its edit says.\<close>

lemma tree_edit_distinct_ok:
  assumes t: "wf_tree D t" "sorted_keys key (to_list t)" and d: "distinct (map (edit_key key) es)"
  shows "\<exists>removed t'. tree_edit D K key es t = Some (removed, t') \<and> wf_tree D t' \<and> sorted_keys key (to_list t') \<and>
    (\<forall>k. lookup_key key k (to_list t') = edited key k es (lookup_key key k (to_list t)))"
proof -
  let ?es = "sort_key (edit_key key) es"
  have "sorted_keys (edit_key key) ?es" by (intro sorted_distinct_keys sort_key_keys d) simp
  moreover have "edited key k ?es old = edited key k es old" for k old
    by (intro edited_same_set sort_key_keys d) simp
  ultimately show ?thesis
    using tree_edit_ok [OF t, of es] t(2) by (auto simp: apply_edits_sorted lookup_apply_edits)
qed

end

end
