(* ===== verification/TreeIter.thy ===== *)
theory TreeIter
  imports CursorOps
begin

text \<open>
  Iteration over a tree (\<open>crates/sum_tree/src/cursor.rs\<close>): the plain iterator \<open>Iter\<close>, the cursor and
  the filtering cursor as iterators. Collecting an iterator may run forever, so it is a
  \<open>partial_function\<close> with the value \<open>None\<close> for that; the theorems show that it ends and
  yields the item sequence.
\<close>

section \<open>\<open>Iter\<close>\<close>

function iter_loop :: "bool \<Rightarrow> ('a, 's, unit) stack_entry list \<Rightarrow> 'a option \<times> ('a, 's, unit) stack_entry list" where
  "iter_loop descend [] = (None, [])"
| "iter_loop descend (e # st) =
     (let e' = (if descend then e else e\<lparr>se_index := se_index e + 1\<rparr>)
      in case se_tree e of
        Internal h s css cts \<Rightarrow>
          (case get_child (se_index e') cts of
            Some subtree \<Rightarrow>
              iter_loop True (\<lparr>se_tree = subtree, se_index = 0, se_position = ()\<rparr> # e' # st)
          | None \<Rightarrow> iter_loop False st)
      | Leaf s its iss \<Rightarrow>
          (case get_child (se_index e') its of
            Some x \<Rightarrow> (Some x, e' # st)
          | None \<Rightarrow> iter_loop False st))"
  by pat_completeness auto
termination
proof (relation "measure (\<lambda>(descend, st). stack_weight (\<not> descend) st)", goal_cases)
  case (3 descend e st e' h s css cts subtree)
  then have "subtree = cts ! se_index e'" "se_index e' < length cts"
    by (auto simp: get_child_def split: if_splits)
  with child_weight [of e h s css cts "\<not> descend" "se_index e'" e' "()" st] 3 show ?case
    by (auto split: if_splits)
qed (auto simp del: stack_weight.simps simp: pop_weight)

declare iter_loop.simps [simp del]

definition iter_next ::
  "('a, 's) node \<Rightarrow> ('a, 's, unit) stack_entry list \<Rightarrow> 'a option \<times> ('a, 's, unit) stack_entry list" where
  "iter_next t st =
     (if st = [] then iter_loop True [\<lparr>se_tree = t, se_index = 0, se_position = ()\<rparr>] else iter_loop False st)"

partial_function (option) iter_collect ::
  "('a, 's) node \<Rightarrow> ('a, 's, unit) stack_entry list \<Rightarrow> 'a list option" where
  "iter_collect t st = (case iter_next t st of
     (Some x, st') \<Rightarrow> do { xs \<leftarrow> iter_collect t st'; Some (x # xs) }
   | (None, _) \<Rightarrow> Some [])"

text \<open>\<open>tree.iter().collect()\<close>.\<close>

definition tree_iter :: "('a, 's) node \<Rightarrow> 'a list option" where
  "tree_iter t = iter_collect t []"

lemma internal_rest_step:
  assumes "se_tree e = Internal h s css cts" "entry_ok D a e"
  defines "i \<equiv> se_index e + (if a then 1 else 0)"
  shows "entry_rest a e = (case get_child i cts of Some c \<Rightarrow> to_list c | None \<Rightarrow> []) @ concat (map to_list (drop (Suc i) cts))"
    "i \<le> length cts" "wf_node D (Internal h s css cts)"
  using assms
  by (auto simp: entry_ok_def wf_tree_def entry_rest_def get_child_def Cons_nth_drop_Suc [symmetric])

lemma iter_loop_ok:
  assumes "stack_ok D (\<not> d) st"
  shows "\<exists>st'. iter_loop d st = (list_first (stack_rest (\<not> d) st), st') \<and>
    settled D st' \<and> stack_rest False st' = stack_rest (\<not> d) st"
  using assms
proof (induction "stack_weight (\<not> d) st" arbitrary: d st rule: less_induct)
  case less
  show ?case
  proof (cases st)
    case Nil
    then show ?thesis by (simp add: iter_loop.simps settled_def)
  next
    case (Cons e st1)
    define e' where "e' = (if d then e else e\<lparr>se_index := se_index e + 1\<rparr>)"
    have e: "entry_ok D (\<not> d) e" "stack_ok D True st1" using less.prems Cons by auto
    have "stack_weight (\<not> False) st1 < stack_weight (\<not> d) st"
      unfolding Cons using pop_weight [of st1 "\<not> d" e] by simp
    from less.hyps [OF this] e(2) have up: "\<exists>st'. iter_loop False st1 = (list_first (stack_rest True st1), st') \<and>
      settled D st' \<and> stack_rest False st' = stack_rest True st1" by simp
    show ?thesis
    proof (cases "se_tree e")
      case (Leaf s its iss)
      then have d: d using e by (auto simp: entry_ok_def)
      show ?thesis
      proof (cases "se_index e < length its")
        case True
        then have "stack_rest False (e # st1) = its ! se_index e # drop (Suc (se_index e)) its @ stack_rest True st1"
          using Leaf by (simp add: entry_rest_def Cons_nth_drop_Suc)
        with True Leaf d Cons less.prems show ?thesis
          by (auto simp: iter_loop.simps get_child_def settled_def)
      next
        case False
        with up Leaf d Cons show ?thesis
          by (auto simp: iter_loop.simps get_child_def entry_rest_def)
      qed
    next
      case (Internal h s css cts)
      note r = internal_rest_step [OF Internal e(1)]
      have ix: "se_index e' = se_index e + (if \<not> d then 1 else 0)" by (simp add: e'_def)
      show ?thesis
      proof (cases "get_child (se_index e') cts")
        case None
        then have "entry_rest (\<not> d) e = []" using r by (auto simp: get_child_def ix split: if_splits)
        with up None Internal Cons show ?thesis by (simp add: iter_loop.simps flip: e'_def)
      next
        case (Some c)
        let ?c = "\<lparr>se_tree = c, se_index = 0, se_position = ()\<rparr>"
        have ci: "c = cts ! se_index e'" "se_index e' < length cts"
          using Some by (auto simp: get_child_def split: if_splits)
        then have "wf_node D c" using r(3) by simp
        then have ok: "stack_ok D (\<not> True) (?c # e' # st1)"
          using e r ci Internal by (auto simp: entry_ok_def wf_node_tree e'_def split: node.splits)
        have rest: "stack_rest (\<not> True) (?c # e' # st1) = stack_rest (\<not> d) st"
          using r(1) Some Cons Internal by (cases c) (auto simp: entry_rest_def e'_def)
        have "stack_weight (\<not> True) (?c # e' # st1) < stack_weight (\<not> d) st"
          using child_weight [OF Internal, of "\<not> d" "se_index e'" e' "()" st1] ci Cons by (simp add: e'_def)
        from less.hyps [OF this ok] have "\<exists>st'. iter_loop True (?c # e' # st1) = (list_first (stack_rest (\<not> d) st), st') \<and>
          settled D st' \<and> stack_rest False st' = stack_rest (\<not> d) st" unfolding rest .
        moreover have "iter_loop d st = iter_loop True (?c # e' # st1)"
          unfolding Cons by (subst iter_loop.simps) (use Some Internal in \<open>simp flip: e'_def\<close>)
        ultimately show ?thesis by simp
      qed
    qed
  qed
qed

lemma iter_next_ok:
  assumes "wf_tree D t" "settled D st"
  defines "ys \<equiv> (if st = [] then to_list t else tl (stack_rest False st))"
  shows "\<exists>st'. iter_next t st = (list_first ys, st') \<and> settled D st' \<and> stack_rest False st' = ys"
proof (cases st)
  case Nil
  let ?st = "[\<lparr>se_tree = t, se_index = 0, se_position = ()\<rparr>]"
  have "stack_ok D (\<not> True) ?st" "stack_rest (\<not> True) ?st = to_list t"
    using assms(1) by (cases t; auto simp: entry_ok_def entry_rest_def)+
  with iter_loop_ok [of D True ?st] Nil show ?thesis by (simp add: iter_next_def ys_def)
next
  case (Cons e st1)
  obtain s its where e: "se_tree e = Leaf s its (map (summary_of D) its)" "se_index e < length its"
    "stack_rest False (e # st1) = its ! se_index e # drop (Suc (se_index e)) its @ stack_rest True st1"
    using settled_rest assms(2) Cons by metis
  define e1 where "e1 = e\<lparr>se_index := se_index e + 1\<rparr>"
  have e1: "se_tree e1 = Leaf s its (map (summary_of D) its)" "se_index e1 = Suc (se_index e)"
    using e by (simp_all add: e1_def)
  have ok: "stack_ok D (\<not> True) (e1 # st1)"
    using assms(2) Cons e e1 by (auto simp: settled_def entry_ok_def)
  have "stack_rest (\<not> True) (e1 # st1) = ys" using e e1 Cons by (auto simp: entry_rest_def ys_def)
  moreover have "iter_loop False (e # st1) = iter_loop True (e1 # st1)"
    by (subst (1 2) iter_loop.simps) (use e e1 in \<open>auto simp: e1_def\<close>)
  ultimately show ?thesis
    using iter_loop_ok [OF ok] Cons by (simp add: iter_next_def)
qed

lemma iter_collect_ok:
  assumes "wf_tree D t" "settled D st"
  shows "iter_collect t st = Some (if st = [] then to_list t else tl (stack_rest False st))"
proof -
  have "iter_collect t st = Some ys"
    if "settled D st" "ys = (if st = [] then to_list t else tl (stack_rest False st))" for ys st
    using that
  proof (induction ys arbitrary: st)
    case Nil
    with iter_next_ok [OF assms(1) Nil(1)] show ?case by (subst iter_collect.simps) auto
  next
    case (Cons y ys)
    obtain st' where s: "iter_next t st = (Some y, st')" "settled D st'" "stack_rest False st' = y # ys"
      using iter_next_ok [OF assms(1) Cons.prems(1)] unfolding Cons.prems(2) [symmetric] by auto
    then have "iter_collect t st' = Some ys" by (intro Cons.IH) auto
    with s show ?case by (subst iter_collect.simps) simp
  qed
  with assms(2) show ?thesis by simp
qed

lemma tree_iter_ok: "wf_tree D t \<Longrightarrow> tree_iter t = Some (to_list t)"
  using iter_collect_ok [of D t "[]"] by (simp add: tree_iter_def settled_def)

section \<open>Cursors as iterators\<close>

text \<open>\<open>Iterator::next\<close> of a cursor; with a filter it is that of \<open>FilterCursor\<close>.\<close>

definition filter_iter_next ::
  "('d, 's) dim_ops \<Rightarrow> ('s \<Rightarrow> bool) \<Rightarrow> ('a, 's, 'd) cursor \<Rightarrow> ('a option \<times> ('a, 's, 'd) cursor) option" where
  "filter_iter_next M keep c = do {
     c \<leftarrow> (if \<not> c_did_seek c then search_forward M keep c else Some c);
     it \<leftarrow> cursor_item c;
     (case it of
       Some x \<Rightarrow> do { c' \<leftarrow> search_forward M keep c; Some (Some x, c') }
     | None \<Rightarrow> Some (None, c))
   }"

definition cursor_iter_next ::
  "('d, 's) dim_ops \<Rightarrow> ('a, 's, 'd) cursor \<Rightarrow> ('a option \<times> ('a, 's, 'd) cursor) option" where
  "cursor_iter_next M c = do {
     c \<leftarrow> (if \<not> c_did_seek c then cursor_next M c else Some c);
     it \<leftarrow> cursor_item c;
     (case it of
       Some x \<Rightarrow> do { c' \<leftarrow> cursor_next M c; Some (Some x, c') }
     | None \<Rightarrow> Some (None, c))
   }"

text \<open>The items a cursor still yields: a panic or a run without end is \<open>None\<close>.\<close>

partial_function (option) filter_collect ::
  "('d, 's) dim_ops \<Rightarrow> ('s \<Rightarrow> bool) \<Rightarrow> ('a, 's, 'd) cursor \<Rightarrow> 'a list option" where
  "filter_collect M keep c = do {
     (x, c') \<leftarrow> filter_iter_next M keep c;
     (case x of Some x \<Rightarrow> do { xs \<leftarrow> filter_collect M keep c'; Some (x # xs) } | None \<Rightarrow> Some [])
   }"

definition cursor_collect :: "('d, 's) dim_ops \<Rightarrow> ('a, 's, 'd) cursor \<Rightarrow> 'a list option" where
  "cursor_collect M c = filter_collect M (\<lambda>_. True) c"

lemma cursor_iter_next_eq: "cursor_iter_next M c = filter_iter_next M (\<lambda>_. True) c"
  unfolding cursor_iter_next_def filter_iter_next_def cursor_next_def ..

context seek_laws
begin

lemma filter_collect_seeked:
  assumes "cursor_at D M c xs ys" "c_did_seek c" "keep_upward D keep"
    and "ys = [] \<or> keep (summary_of D (hd ys))"
  shows "filter_collect M keep c = Some (filter (\<lambda>x. keep (summary_of D x)) ys)"
  using assms
proof (induction "length ys" arbitrary: c xs ys rule: less_induct)
  case less
  show ?case
  proof (cases ys)
    case Nil
    with cursor_item_ok [OF less.prems(1,2)] less.prems show ?thesis
      by (subst filter_collect.simps) (simp add: filter_iter_next_def)
  next
    case (Cons y zs)
    from search_forward_ok [OF less.prems(1,3)] less.prems(2) Cons obtain c' where
      c': "search_forward M keep c = Some c'" "c_did_seek c'"
      "cursor_at D M c' (xs @ y # takeWhile (rejected keep) zs) (dropWhile (rejected keep) zs)" by auto
    have "dropWhile (rejected keep) zs = [] \<or> keep (summary_of D (hd (dropWhile (rejected keep) zs)))"
      using hd_dropWhile [of "rejected keep" zs] by blast
    from less.hyps [OF _ c'(3,2) less.prems(3) this] Cons
    have "filter_collect M keep c' = Some (filter (\<lambda>x. keep (summary_of D x)) (dropWhile (rejected keep) zs))"
      by (simp add: length_dropWhile_le le_imp_less_Suc)
    moreover have "filter (\<lambda>x. keep (summary_of D x)) (dropWhile (rejected keep) zs) = filter (\<lambda>x. keep (summary_of D x)) zs"
      by (induction zs) auto
    ultimately show ?thesis
      using cursor_item_ok [OF less.prems(1,2)] c' less.prems(2,4) Cons
      by (subst filter_collect.simps) (simp add: filter_iter_next_def)
  qed
qed

lemma cursor_collect_seeked:
  assumes "cursor_at D M c xs ys" "c_did_seek c"
  shows "cursor_collect M c = Some ys"
  using filter_collect_seeked [OF assms, of "\<lambda>_. True"] by (simp add: cursor_collect_def keep_upward_def)

text \<open>A fresh filtering cursor yields exactly the accepted items.\<close>

lemma filter_collect_new:
  assumes t: "wf_tree D t" and keep: "keep_upward D keep"
  shows "filter_collect M keep (cursor_new M t) = Some (filter (\<lambda>x. keep (summary_of D x)) (to_list t))"
proof -
  let ?ys = "dropWhile (rejected keep) (to_list t)"
  from search_forward_ok [OF cursor_at_new [OF t] keep] obtain c where
    c: "search_forward M keep (cursor_new M t) = Some c" "c_did_seek c"
    "cursor_at D M c (takeWhile (rejected keep) (to_list t)) ?ys" by (auto simp: cursor_new_def)
  have "filter_collect M keep (cursor_new M t) = filter_collect M keep c"
    using c by (subst (1 2) filter_collect.simps) (simp add: filter_iter_next_def cursor_new_def)
  moreover have "?ys = [] \<or> keep (summary_of D (hd ?ys))"
    using hd_dropWhile [of "rejected keep" "to_list t"] by blast
  moreover have "filter (\<lambda>x. keep (summary_of D x)) (dropWhile (rejected keep) zs) = filter (\<lambda>x. keep (summary_of D x)) zs" for zs
    by (induction zs) auto
  ultimately show ?thesis using filter_collect_seeked [OF c(3,2) keep] by simp
qed

end

end
