(* ===== verification/TreeMap.thy ===== *)
theory TreeMap
  imports KeyedTree TreeIter "HOL-Library.Option_ord"
begin

text \<open>
  The ordered map \<open>TreeMap\<close> and the ordered set \<open>TreeSet\<close> of \<open>crates/sum_tree/src/tree_map.rs\<close>, on
  the B+ tree with the last key as summary. A \<open>MapKey\<close> is an optional key, \<open>None\<close> below all.
\<close>

section \<open>Entries and keys\<close>

record ('k, 'v) map_entry =
  me_key :: "'k"
  me_value :: "'v"

type_synonym ('k, 'v) tree_map = "(('k, 'v) map_entry, 'k option) node"

text \<open>Summary of an entry: its key; a later summary replaces an earlier one.\<close>

definition map_key_summary :: "(('k, 'v) map_entry, 'k option) item_ops" where
  "map_key_summary = \<lparr>zero = None, add_summary = (\<lambda>_ s. s), summary_of = (\<lambda>e. Some (me_key e))\<rparr>"

definition map_key_ref :: "('k option, 'k option) dim_ops" where
  "map_key_ref = \<lparr>d_zero = None, d_add = (\<lambda>_ s. s)\<rparr>"

definition entry_key :: "('k, 'v) map_entry \<Rightarrow> 'k option" where
  "entry_key e = Some (me_key e)"

text \<open>\<open>MapSeekTargetAdaptor\<close>: a comparison of keys as a seek target.\<close>

definition map_seek_target :: "('k \<Rightarrow> ordering) \<Rightarrow> 'k option \<Rightarrow> ordering" where
  "map_seek_target cmp_cursor location = (case location of Some k \<Rightarrow> cmp_cursor k | None \<Rightarrow> Greater)"

section \<open>Operations of the map\<close>

definition tm_empty :: "('k, 'v) tree_map" where
  "tm_empty = tree_new map_key_summary"

definition tm_from_ordered_entries :: "('k \<times> 'v) list \<Rightarrow> ('k, 'v) tree_map option" where
  "tm_from_ordered_entries entries =
     from_iter map_key_summary (map (\<lambda>(k, v). \<lparr>me_key = k, me_value = v\<rparr>) entries)"

definition tm_is_empty :: "('k, 'v) tree_map \<Rightarrow> bool" where
  "tm_is_empty m = is_empty m"

definition tm_get :: "'k::linorder \<Rightarrow> ('k, 'v) tree_map \<Rightarrow> 'v option" where
  "tm_get key m =
     (case tree_find map_key_summary map_key_ref (key_target (Some key)) Left m of
       (_, _, Some item) \<Rightarrow> if Some key = entry_key item then Some (me_value item) else None
     | (_, _, None) \<Rightarrow> None)"

definition tm_contains_key :: "'k::linorder \<Rightarrow> ('k, 'v) tree_map \<Rightarrow> bool" where
  "tm_contains_key key m = (tm_get key m \<noteq> None)"

definition tm_insert_or_replace ::
  "'k::linorder \<Rightarrow> 'v \<Rightarrow> ('k, 'v) tree_map \<Rightarrow> ('v option \<times> ('k, 'v) tree_map) option" where
  "tm_insert_or_replace key v m = do {
     (replaced, m') \<leftarrow>
       tree_insert_or_replace map_key_summary map_key_ref entry_key \<lparr>me_key = key, me_value = v\<rparr> m;
     Some (map_option me_value replaced, m')
   }"

definition tm_insert :: "'k::linorder \<Rightarrow> 'v \<Rightarrow> ('k, 'v) tree_map \<Rightarrow> ('k, 'v) tree_map option" where
  "tm_insert key v m = do {
     (_, m') \<leftarrow> tree_insert_or_replace map_key_summary map_key_ref entry_key \<lparr>me_key = key, me_value = v\<rparr> m;
     Some m'
   }"

definition tm_extend :: "('k::linorder \<times> 'v) list \<Rightarrow> ('k, 'v) tree_map \<Rightarrow> ('k, 'v) tree_map option" where
  "tm_extend entries m = do {
     (_, m') \<leftarrow> tree_edit map_key_summary map_key_ref entry_key
       (map (\<lambda>(k, v). Insert \<lparr>me_key = k, me_value = v\<rparr>) entries) m;
     Some m'
   }"

text \<open>
  \<open>remove\<close> and \<open>update\<close> compare the key with the cursor's end instead of the item's key.
\<close>

definition at_key ::
  "'k::linorder option \<Rightarrow> (('k, 'v) map_entry, 'k option, 'k option) cursor \<Rightarrow> ('k, 'v) map_entry option option" where
  "at_key key c = do {
     e \<leftarrow> cursor_end map_key_ref c;
     (if ord_cmp key e = Equal then do { it \<leftarrow> cursor_item c; map_option Some it } else Some None)
   }"

definition tm_remove :: "'k::linorder \<Rightarrow> ('k, 'v) tree_map \<Rightarrow> ('v option \<times> ('k, 'v) tree_map) option" where
  "tm_remove key m = do {
     (new_tree, c) \<leftarrow> cursor_slice map_key_summary map_key_ref (key_target (Some key)) Left (cursor_new map_key_ref m);
     found \<leftarrow> at_key (Some key) c;
     c \<leftarrow> (if found = None then Some c else cursor_next map_key_ref c);
     (rest, c) \<leftarrow> cursor_suffix map_key_summary map_key_ref c;
     new_tree \<leftarrow> tree_append map_key_summary new_tree rest;
     Some (map_option me_value found, new_tree)
   }"

definition tm_remove_range ::
  "('k \<Rightarrow> ordering) \<Rightarrow> ('k \<Rightarrow> ordering) \<Rightarrow> ('k::linorder, 'v) tree_map \<Rightarrow> ('k, 'v) tree_map option" where
  "tm_remove_range start end_cmp m = do {
     (new_tree, c) \<leftarrow> cursor_slice map_key_summary map_key_ref (map_seek_target start) Left (cursor_new map_key_ref m);
     (_, c) \<leftarrow> cursor_seek map_key_ref (map_seek_target end_cmp) Left c;
     (rest, c) \<leftarrow> cursor_suffix map_key_summary map_key_ref c;
     tree_append map_key_summary new_tree rest
   }"

definition tm_iter_from :: "'k::linorder \<Rightarrow> ('k, 'v) tree_map \<Rightarrow> ('k \<times> 'v) list option" where
  "tm_iter_from key m = do {
     (_, c) \<leftarrow> cursor_seek map_key_ref (key_target (Some key)) Left (cursor_new map_key_ref m);
     es \<leftarrow> cursor_collect map_key_ref c;
     Some (map (\<lambda>e. (me_key e, me_value e)) es)
   }"

definition tm_update ::
  "'k::linorder \<Rightarrow> ('v \<Rightarrow> 't \<times> 'v) \<Rightarrow> ('k, 'v) tree_map \<Rightarrow> ('t option \<times> ('k, 'v) tree_map) option" where
  "tm_update key f m = do {
     (new_tree, c) \<leftarrow> cursor_slice map_key_summary map_key_ref (key_target (Some key)) Left (cursor_new map_key_ref m);
     found \<leftarrow> at_key (Some key) c;
     (result, new_tree, c) \<leftarrow> (case found of
       Some item \<Rightarrow> (let (r, v) = f (me_value item) in do {
         new_tree \<leftarrow> tree_push map_key_summary new_tree (item\<lparr>me_value := v\<rparr>);
         c \<leftarrow> cursor_next map_key_ref c;
         Some (Some r, new_tree, c)
       })
     | None \<Rightarrow> Some (None, new_tree, c));
     (rest, c) \<leftarrow> cursor_suffix map_key_summary map_key_ref c;
     new_tree \<leftarrow> tree_append map_key_summary new_tree rest;
     Some (result, new_tree)
   }"

partial_function (option) retain_loop ::
  "('k \<Rightarrow> 'v \<Rightarrow> bool) \<Rightarrow> (('k, 'v) map_entry, 'k option, 'k option) cursor \<Rightarrow> ('k, 'v) tree_map
   \<Rightarrow> ('k, 'v) tree_map option" where
  "retain_loop predicate c new_map = do {
     it \<leftarrow> cursor_item c;
     (case it of
       None \<Rightarrow> Some new_map
     | Some item \<Rightarrow> do {
         new_map \<leftarrow> (if predicate (me_key item) (me_value item)
                     then tree_push map_key_summary new_map item else Some new_map);
         c \<leftarrow> cursor_next map_key_ref c;
         retain_loop predicate c new_map
       })
   }"

definition tm_retain :: "('k \<Rightarrow> 'v \<Rightarrow> bool) \<Rightarrow> ('k, 'v) tree_map \<Rightarrow> ('k, 'v) tree_map option" where
  "tm_retain predicate m = do {
     c \<leftarrow> cursor_next map_key_ref (cursor_new map_key_ref m);
     retain_loop predicate c (tree_new map_key_summary)
   }"

definition tm_iter :: "('k, 'v) tree_map \<Rightarrow> ('k \<times> 'v) list option" where
  "tm_iter m = map_option (map (\<lambda>e. (me_key e, me_value e))) (tree_iter m)"

definition tm_values :: "('k, 'v) tree_map \<Rightarrow> 'v list option" where
  "tm_values m = map_option (map me_value) (tree_iter m)"

definition tm_first :: "('k, 'v) tree_map \<Rightarrow> ('k \<times> 'v) option option" where
  "tm_first m = map_option (map_option (\<lambda>e. (me_key e, me_value e))) (tree_first m)"

definition tm_last :: "('k, 'v) tree_map \<Rightarrow> ('k \<times> 'v) option option" where
  "tm_last m = map_option (map_option (\<lambda>e. (me_key e, me_value e))) (tree_last m)"

definition tm_insert_tree :: "('k::linorder, 'v) tree_map \<Rightarrow> ('k, 'v) tree_map \<Rightarrow> ('k, 'v) tree_map option" where
  "tm_insert_tree other m = do {
     entries \<leftarrow> tm_iter other;
     (_, m') \<leftarrow> tree_edit map_key_summary map_key_ref entry_key
       (map (\<lambda>(k, v). Insert \<lparr>me_key = k, me_value = v\<rparr>) entries) m;
     Some m'
   }"

section \<open>Correctness\<close>

interpretation map_key: keyed "map_key_summary :: (('k::linorder, 'v) map_entry, 'k option) item_ops" map_key_ref entry_key
  by unfold_locales (simp_all add: map_key_summary_def map_key_ref_def entry_key_def)

text \<open>A map is a well-formed tree whose entries ascend by key; its abstraction is the partial map.\<close>

definition tm_entries :: "('k, 'v) tree_map \<Rightarrow> ('k \<times> 'v) list" where
  "tm_entries m = map (\<lambda>e. (me_key e, me_value e)) (to_list m)"

definition tm_wf :: "('k::linorder, 'v) tree_map \<Rightarrow> bool" where
  "tm_wf m \<longleftrightarrow> wf_tree map_key_summary m \<and> sorted_wrt (<) (map fst (tm_entries m))"

definition tm_map :: "('k, 'v) tree_map \<Rightarrow> 'k \<Rightarrow> 'v option" where
  "tm_map m = map_of (tm_entries m)"

lemma tm_wf_sorted: "tm_wf m \<longleftrightarrow> wf_tree map_key_summary m \<and> sorted_keys entry_key (to_list m)"
  by (simp add: tm_wf_def tm_entries_def sorted_keys_def entry_key_def sorted_wrt_map)

lemma lookup_entry: "map_option me_value (lookup_key entry_key (Some k) es) = map_of (map (\<lambda>e. (me_key e, me_value e)) es) k"
  by (induction es) (auto simp: entry_key_def)

lemma tm_map_lookup: "tm_map m k = map_option me_value (lookup_key entry_key (Some k) (to_list m))"
  by (simp add: tm_map_def tm_entries_def lookup_entry)

abbreviation pairs :: "('k, 'v) map_entry list \<Rightarrow> ('k \<times> 'v) list" where
  "pairs es \<equiv> map (\<lambda>e. (me_key e, me_value e)) es"

lemma map_of_filter_keys: "map_of (pairs (filter (\<lambda>e. P (me_key e)) es)) k = (if P k then map_of (pairs es) k else None)"
  by (induction es) auto

lemma filter_keys:
  "filter (\<lambda>e. entry_key e < Some k) es = filter (\<lambda>e. me_key e < k) es"
  "filter (\<lambda>e. Some k < entry_key e) es = filter (\<lambda>e. k < me_key e) es"
  "filter (\<lambda>e. entry_key e \<noteq> Some k) es = filter (\<lambda>e. me_key e \<noteq> k) es"
  "filter (\<lambda>e. Some k \<le> entry_key e) es = filter (\<lambda>e. k \<le> me_key e) es"
  by (simp_all add: entry_key_def)

lemma map_of_spliced:
  fixes k :: "'k::linorder"
  assumes "me_key x = k"
  shows "map_of (pairs (filter (\<lambda>e. me_key e < k) es @ x # filter (\<lambda>e. k < me_key e) es)) = (map_of (pairs es))(k \<mapsto> me_value x)"
proof
  fix j show "map_of (pairs (filter (\<lambda>e. me_key e < k) es @ x # filter (\<lambda>e. k < me_key e) es)) j
      = ((map_of (pairs es))(k \<mapsto> me_value x)) j"
    using assms map_of_filter_keys [of "\<lambda>i. i < k" es j] map_of_filter_keys [of "\<lambda>i. k < i" es j]
    by (cases j k rule: linorder_cases) (auto simp: map_add_def dest: less_asym split: option.splits)
qed

lemma sorted_spliced:
  "sorted_keys entry_key es \<Longrightarrow> me_key x = k \<Longrightarrow>
   sorted_keys entry_key (filter (\<lambda>e. me_key e < k) es @ x # filter (\<lambda>e. k < me_key e) es)"
  by (auto simp: sorted_keys_filter entry_key_def)

lemma list_first_mem: "list_first xs = Some x \<Longrightarrow> x \<in> set xs"
  by (cases xs) simp_all

lemma tm_get_ok:
  assumes "tm_wf m" shows "tm_get k m = tm_map m k"
proof -
  let ?K = map_key_ref and ?xs = "to_list m"
  let ?lo = "filter (\<lambda>e. entry_key e < Some k) ?xs" and ?hi = "filter (\<lambda>e. Some k \<le> entry_key e) ?xs"
  have t: "wf_tree map_key_summary m" "sorted_keys entry_key ?xs" using assms by (simp_all add: tm_wf_sorted)
  have z: "\<forall>x \<in> set ?xs. d_zero ?K \<le> entry_key x" by (simp add: map_key_ref_def)
  have f: "snd (snd (tree_find map_key_summary ?K (key_target (Some k)) Left m)) = list_first ?hi"
  proof (cases "wf_node map_key_summary m")
    case True
    from map_key.tree_find_ok [OF True map_key.pass_mono_keys [OF t(2) z] map_key.advance_keys [OF t(2) z]]
    show ?thesis by simp
  next
    case False
    with t have "m = tree_new map_key_summary" by (auto simp: wf_tree_def tree_new_def)
    then show ?thesis by (auto simp: tree_new_def tree_find_def find_gen_def Let_def)
  qed
  obtain p q where r: "tree_find map_key_summary ?K (key_target (Some k)) Left m = (p, q, list_first ?hi)"
    using f by (metis prod.collapse)
  have hi: "?hi = (case lookup_key entry_key (Some k) ?xs of Some x \<Rightarrow> [x] | None \<Rightarrow> []) @ filter (\<lambda>e. Some k < entry_key e) ?xs"
    by (rule sorted_from_key [OF t(2)])
  show ?thesis
  proof (cases "lookup_key entry_key (Some k) ?xs")
    case (Some x)
    then have "entry_key x = Some k" by (auto simp: lookup_key_def find_Some_iff)
    moreover have "list_first ?hi = Some x" unfolding hi Some by simp
    ultimately show ?thesis unfolding tm_get_def r tm_map_lookup Some by simp
  next
    case None
    then have h: "?hi = filter (\<lambda>e. Some k < entry_key e) ?xs" using hi by simp
    have "entry_key e \<noteq> Some k" if "list_first ?hi = Some e" for e
    proof -
      from list_first_mem [OF that] have "e \<in> set (filter (\<lambda>e. Some k < entry_key e) ?xs)"
        unfolding h .
      then show ?thesis by auto
    qed
    then show ?thesis unfolding tm_get_def r tm_map_lookup None
      by (cases "list_first ?hi") (auto simp: eq_commute [of "Some k"])
  qed
qed

lemma tm_insert_or_replace_ok:
  assumes "tm_wf m"
  shows "\<exists>m'. tm_insert_or_replace k v m = Some (tm_map m k, m') \<and> tm_insert k v m = Some m' \<and>
    tm_wf m' \<and> tm_map m' = (tm_map m)(k \<mapsto> v)"
proof -
  let ?x = "\<lparr>me_key = k, me_value = v\<rparr>"
  have t: "wf_tree map_key_summary m" "sorted_keys entry_key (to_list m)" using assms by (simp_all add: tm_wf_sorted)
  have x: "entry_key ?x = Some k" by (simp add: entry_key_def)
  from map_key.tree_insert_or_replace_ok [OF t, of ?x, unfolded x filter_keys] obtain m' where
    m': "tree_insert_or_replace map_key_summary map_key_ref entry_key ?x m = Some (lookup_key entry_key (Some k) (to_list m), m')"
    "wf_tree map_key_summary m'"
    "to_list m' = filter (\<lambda>e. me_key e < k) (to_list m) @ ?x # filter (\<lambda>e. k < me_key e) (to_list m)" by blast
  then have "tm_wf m'" using sorted_spliced [OF t(2), of ?x k] by (simp add: tm_wf_sorted)
  moreover have "tm_map m' = (tm_map m)(k \<mapsto> v)"
    unfolding tm_map_def tm_entries_def m'(3) using map_of_spliced [of ?x k] by simp
  ultimately show ?thesis using m'(1) tm_map_lookup [of m k]
    by (simp add: tm_insert_or_replace_def tm_insert_def)
qed

text \<open>The step shared by removal and update.\<close>

lemma at_key_ok:
  fixes k :: "'k::linorder"
  assumes c: "cursor_at map_key_summary map_key_ref c xs ys" "c_did_seek c"
    and s: "sorted_keys entry_key (xs @ ys)" "\<forall>x \<in> set xs. entry_key x < Some k" "\<forall>y \<in> set ys. Some k \<le> entry_key y"
  shows "at_key (Some k) c = Some (lookup_key entry_key (Some k) ys)"
proof -
  have "after map_key_summary map_key_ref None xs < Some k"
    using s(1,2) map_key.after_keys [of xs None] by (auto simp: less_eq_option_None less_option_None_Some)
  moreover have "after map_key_summary map_key_ref p (xs @ [y]) = entry_key y" for p y
    by (simp add: map_key_ref_def map_key_summary_def entry_key_def)
  moreover have "lookup_key entry_key (Some k) (y # zs) = (if entry_key y = Some k then Some y else None)" if "ys = y # zs" for y zs
    using s(1,3) that by (auto simp: lookup_key_None)
  moreover have "d_zero (map_key_ref :: ('k option, 'k option) dim_ops) = None" by (simp add: map_key_ref_def)
  ultimately show ?thesis
    using cursor_end_ok [OF c] cursor_item_ok [OF c]
    by (cases ys) (auto simp: at_key_def ord_cmp_def)
qed

lemma at_key_slice_ok:
  assumes "tm_wf m"
  obtains l c where "cursor_slice map_key_summary map_key_ref (key_target (Some k)) Left (cursor_new map_key_ref m) = Some (l, c)"
    "wf_tree map_key_summary l" "to_list l = filter (\<lambda>e. me_key e < k) (to_list m)" "c_did_seek c"
    "at_key (Some k) c = Some (lookup_key entry_key (Some k) (to_list m))"
    "cursor_at map_key_summary map_key_ref c (filter (\<lambda>e. me_key e < k) (to_list m)) (filter (\<lambda>e. k \<le> me_key e) (to_list m))"
proof -
  let ?lo = "filter (\<lambda>e. me_key e < k) (to_list m)" and ?hi = "filter (\<lambda>e. k \<le> me_key e) (to_list m)"
  have t: "wf_tree map_key_summary m" "sorted_keys entry_key (to_list m)" using assms by (simp_all add: tm_wf_sorted)
  obtain l c where l: "cursor_slice map_key_summary map_key_ref (key_target (Some k)) Left (cursor_new map_key_ref m) = Some (l, c)"
    "wf_tree map_key_summary l" "to_list l = ?lo" "c_did_seek c" "cursor_at map_key_summary map_key_ref c ?lo ?hi"
    using map_key.slice_key_ok [OF cursor_at_new [OF t(1)], of "Some k", unfolded filter_keys] t(2) by auto
  have "?lo @ ?hi = to_list m" using sorted_low_high [OF t(2), of "Some k"] by (simp add: filter_keys)
  then have "sorted_keys entry_key (?lo @ ?hi)" using t(2) by simp
  from at_key_ok [OF l(5,4) this, of k] have "at_key (Some k) c = Some (lookup_key entry_key (Some k) ?hi)"
    by (simp add: entry_key_def)
  also have "lookup_key entry_key (Some k) ?hi = lookup_key entry_key (Some k) (to_list m)"
    by (rule lookup_key_filter) (simp add: entry_key_def)
  finally show thesis by (rule that [OF l(1-4) _ l(5)])
qed

text \<open>Past the entry with the key, when there is one, the greater keys remain.\<close>

lemma skip_found_ok:
  assumes m: "tm_wf m" and c: "c_did_seek c"
    "cursor_at map_key_summary map_key_ref c (filter (\<lambda>e. me_key e < k) (to_list m)) (filter (\<lambda>e. k \<le> me_key e) (to_list m))"
  defines "found \<equiv> lookup_key entry_key (Some k) (to_list m)"
  shows "\<exists>c' r c''. (if found = None then Some c else cursor_next map_key_ref c) = Some c' \<and>
    cursor_suffix map_key_summary map_key_ref c' = Some (r, c'') \<and> wf_tree map_key_summary r \<and>
    to_list r = filter (\<lambda>e. k < me_key e) (to_list m)"
proof -
  have s: "sorted_keys entry_key (to_list m)" using m by (simp add: tm_wf_sorted)
  let ?hi = "filter (\<lambda>e. k \<le> me_key e) (to_list m)" and ?gt = "filter (\<lambda>e. k < me_key e) (to_list m)"
  have hi: "?hi = (case found of Some x \<Rightarrow> [x] | None \<Rightarrow> []) @ ?gt"
    using sorted_from_key [OF s, of "Some k"] by (simp add: filter_keys found_def)
  obtain c' xs where "(if found = None then Some c else cursor_next map_key_ref c) = Some c'"
    "cursor_at map_key_summary map_key_ref c' xs ?gt"
  proof (cases found)
    case None
    with that [of c] c(2) hi show thesis by simp
  next
    case (Some x)
    with map_key.cursor_next_ok [OF c(2)] c(1) hi that show thesis by (auto simp: numeral_eq_Suc)
  qed
  with map_key.cursor_suffix_ok [OF this(2)] show ?thesis by blast
qed

lemma tm_remove_ok:
  assumes "tm_wf m"
  shows "\<exists>m'. tm_remove k m = Some (tm_map m k, m') \<and> tm_wf m' \<and> tm_map m' = (tm_map m)(k := None)"
proof -
  let ?xs = "to_list m"
  have s: "sorted_keys entry_key ?xs" using assms by (simp add: tm_wf_sorted)
  obtain l c where l: "cursor_slice map_key_summary map_key_ref (key_target (Some k)) Left (cursor_new map_key_ref m) = Some (l, c)"
    "wf_tree map_key_summary l" "to_list l = filter (\<lambda>e. me_key e < k) ?xs" "c_did_seek c"
    "at_key (Some k) c = Some (lookup_key entry_key (Some k) ?xs)"
    "cursor_at map_key_summary map_key_ref c (filter (\<lambda>e. me_key e < k) ?xs) (filter (\<lambda>e. k \<le> me_key e) ?xs)"
    by (rule at_key_slice_ok [OF assms])
  obtain c' r c'' where r: "(if lookup_key entry_key (Some k) ?xs = None then Some c else cursor_next map_key_ref c) = Some c'"
    "cursor_suffix map_key_summary map_key_ref c' = Some (r, c'')" "wf_tree map_key_summary r"
    "to_list r = filter (\<lambda>e. k < me_key e) ?xs"
    using skip_found_ok [OF assms l(4,6)] by blast
  obtain m' where m': "tree_append map_key_summary l r = Some m'" "wf_tree map_key_summary m'" "to_list m' = to_list l @ to_list r"
    using map_key.tree_append_ok [OF l(2) r(3)] by blast
  have xs: "to_list m' = filter (\<lambda>e. me_key e \<noteq> k) ?xs"
    using sorted_without_key [OF s, of "Some k"] m'(3) l(3) r(4) by (simp add: filter_keys)
  have "tm_wf m'" using m'(2) sorted_keys_filter [OF s] by (simp add: tm_wf_sorted xs)
  moreover have "tm_map m' = (tm_map m)(k := None)"
    using map_of_filter_keys [of "\<lambda>j. j \<noteq> k" ?xs] by (auto simp: tm_map_def tm_entries_def xs fun_eq_iff)
  moreover have "tm_remove k m = Some (tm_map m k, m')"
    using l(1,5) r(1,2) m'(1) tm_map_lookup [of m k] by (simp add: tm_remove_def)
  ultimately show ?thesis by blast
qed

lemma tm_update_ok:
  assumes "tm_wf m"
  shows "\<exists>m'. tm_update k f m = Some (map_option (\<lambda>v. fst (f v)) (tm_map m k), m') \<and> tm_wf m' \<and>
    tm_map m' = (case tm_map m k of Some v \<Rightarrow> (tm_map m)(k \<mapsto> snd (f v)) | None \<Rightarrow> tm_map m)"
proof -
  let ?xs = "to_list m" and ?lo = "filter (\<lambda>e. me_key e < k) (to_list m)" and ?gt = "filter (\<lambda>e. k < me_key e) (to_list m)"
  have s: "sorted_keys entry_key ?xs" using assms by (simp add: tm_wf_sorted)
  obtain l c where l: "cursor_slice map_key_summary map_key_ref (key_target (Some k)) Left (cursor_new map_key_ref m) = Some (l, c)"
    "wf_tree map_key_summary l" "to_list l = ?lo" "c_did_seek c"
    "at_key (Some k) c = Some (lookup_key entry_key (Some k) ?xs)"
    "cursor_at map_key_summary map_key_ref c ?lo (filter (\<lambda>e. k \<le> me_key e) ?xs)"
    by (rule at_key_slice_ok [OF assms])
  obtain c' r c'' where r: "(if lookup_key entry_key (Some k) ?xs = None then Some c else cursor_next map_key_ref c) = Some c'"
    "cursor_suffix map_key_summary map_key_ref c' = Some (r, c'')" "wf_tree map_key_summary r" "to_list r = ?gt"
    using skip_found_ok [OF assms l(4,6)] by blast
  show ?thesis
  proof (cases "lookup_key entry_key (Some k) ?xs")
    case None
    obtain m' where m': "tree_append map_key_summary l r = Some m'" "wf_tree map_key_summary m'" "to_list m' = to_list l @ to_list r"
      using map_key.tree_append_ok [OF l(2) r(3)] by blast
    have "to_list m' = ?xs"
      using sorted_low_high [OF s, of "Some k"] sorted_from_key [OF s, of "Some k"] None m'(3) l(3) r(4)
      by (simp add: filter_keys)
    then have "tm_wf m'" "tm_map m' = tm_map m" using assms m'(2) by (simp_all add: tm_wf_sorted tm_map_def tm_entries_def)
    moreover have "tm_update k f m = Some (None, m')" using l(1,5) r(1,2) m'(1) None by (simp add: tm_update_def)
    ultimately show ?thesis using None tm_map_lookup [of m k] by auto
  next
    case (Some x)
    then have x: "me_key x = k" by (auto simp: lookup_key_def find_Some_iff entry_key_def)
    let ?x = "x\<lparr>me_value := snd (f (me_value x))\<rparr>"
    obtain l2 where l2: "tree_push map_key_summary l ?x = Some l2" "wf_tree map_key_summary l2" "to_list l2 = ?lo @ [?x]"
      using map_key.tree_push_ok [OF l(2)] l(3) by metis
    obtain m' where m': "tree_append map_key_summary l2 r = Some m'" "wf_tree map_key_summary m'" "to_list m' = ?lo @ ?x # ?gt"
      using map_key.tree_append_ok [OF l2(2) r(3)] l2(3) r(4) by auto
    have "tm_wf m'" using m'(2,3) sorted_spliced [OF s, of ?x k] x by (simp add: tm_wf_sorted)
    moreover have "tm_map m' = (tm_map m)(k \<mapsto> snd (f (me_value x)))"
      using map_of_spliced [of ?x k ?xs] x by (simp add: tm_map_def tm_entries_def m'(3))
    moreover have "tm_update k f m = Some (Some (fst (f (me_value x))), m')"
      using l(1,5) r(1,2) m'(1) Some l2(1) by (simp add: tm_update_def split_def Let_def)
    ultimately show ?thesis using Some tm_map_lookup [of m k] by auto
  qed
qed

lemma retain_loop_ok:
  fixes c :: "(('k::linorder, 'v) map_entry, 'k option, 'k option) cursor"
  assumes "cursor_at map_key_summary map_key_ref c xs ys" "c_did_seek c" "wf_tree map_key_summary t"
  shows "\<exists>t'. retain_loop P c t = Some t' \<and> wf_tree map_key_summary t' \<and>
    to_list t' = to_list t @ filter (\<lambda>e. P (me_key e) (me_value e)) ys"
  using assms
proof (induction ys arbitrary: c xs t)
  case Nil
  then show ?case using cursor_item_ok [OF Nil(1,2)] by (subst retain_loop.simps) simp
next
  case (Cons y ys)
  obtain t1 where t1: "(if P (me_key y) (me_value y) then tree_push map_key_summary t y else Some t) = Some t1"
    "wf_tree map_key_summary t1" "to_list t1 = to_list t @ (if P (me_key y) (me_value y) then [y] else [])"
    using map_key.tree_push_ok [OF Cons.prems(3), of y] Cons.prems(3) by (cases "P (me_key y) (me_value y)") auto
  obtain c1 where c1: "cursor_next map_key_ref c = Some c1" "c_did_seek c1" "cursor_at map_key_summary map_key_ref c1 (xs @ [y]) ys"
    using map_key.cursor_next_ok [OF Cons.prems(1)] Cons.prems(2) by auto
  show ?case
    using Cons.IH [OF c1(3,2) t1(2)] cursor_item_ok [OF Cons.prems(1,2)] t1 c1(1)
    by (subst retain_loop.simps) auto
qed

lemma tm_retain_ok:
  assumes "tm_wf m"
  shows "\<exists>m'. tm_retain P m = Some m' \<and> tm_wf m' \<and>
    tm_entries m' = filter (\<lambda>(k, v). P k v) (tm_entries m)"
proof -
  have t: "wf_tree map_key_summary m" "sorted_keys entry_key (to_list m)" using assms by (simp_all add: tm_wf_sorted)
  obtain c where c: "cursor_next map_key_ref (cursor_new map_key_ref m) = Some c" "c_did_seek c"
    "cursor_at map_key_summary map_key_ref c [] (to_list m)"
    using map_key.cursor_next_ok [OF cursor_at_new [OF t(1)]] by (auto simp: cursor_new_def)
  from retain_loop_ok [OF c(3,2) wf_tree_new(1), of P] c(1) sorted_keys_filter [OF t(2)] show ?thesis
    by (auto simp: tm_retain_def tm_wf_sorted tm_entries_def filter_map o_def)
qed

lemma tm_iter_ok: "tm_wf m \<Longrightarrow> tm_iter m = Some (tm_entries m)"
  by (simp add: tm_iter_def tm_wf_def tm_entries_def tree_iter_ok [of map_key_summary])

lemma tm_values_ok: "tm_wf m \<Longrightarrow> tm_values m = Some (map snd (tm_entries m))"
  by (simp add: tm_values_def tm_wf_def tm_entries_def tree_iter_ok [of map_key_summary])

lemma tm_iter_from_ok:
  assumes "tm_wf m"
  shows "tm_iter_from k m = Some (filter (\<lambda>(j, _). k \<le> j) (tm_entries m))"
proof -
  have t: "wf_tree map_key_summary m" "sorted_keys entry_key (to_list m)" using assms by (simp_all add: tm_wf_sorted)
  have z: "\<forall>x \<in> set (to_list m). d_zero map_key_ref \<le> entry_key x" by (simp add: map_key_ref_def)
  from map_key.cursor_seek_ok [OF cursor_at_new [OF t(1)], of "key_target (Some k)" Left]
    map_key.pass_mono_keys [OF t(2) z] map_key.advance_keys [OF t(2) z, of "Some k"]
  obtain b c where "cursor_seek map_key_ref (key_target (Some k)) Left (cursor_new map_key_ref m) = Some (b, c)"
    "c_did_seek c" "cursor_at map_key_summary map_key_ref c (filter (\<lambda>e. me_key e < k) (to_list m)) (filter (\<lambda>e. k \<le> me_key e) (to_list m))"
    by (auto simp: filter_keys map_key_ref_def)
  with map_key.cursor_collect_seeked [OF this(3,2)] show ?thesis
    by (simp add: tm_iter_from_def tm_entries_def filter_map o_def)
qed

lemma tm_first_last_ok:
  assumes "tm_wf m"
  shows "tm_first m = Some (list_first (tm_entries m))" "tm_last m = Some (list_last (tm_entries m))"
  using map_key.tree_first_ok [of m] map_key.tree_last_ok [of m] assms
  by (auto simp: tm_first_def tm_last_def tm_wf_def tm_entries_def list_first_def list_last_def last_map split: list.splits)

lemma tm_from_ordered_entries_ok:
  assumes "sorted_wrt (<) (map fst es)"
  shows "\<exists>m. tm_from_ordered_entries es = Some m \<and> tm_wf m \<and> tm_entries m = es"
proof -
  obtain m where m: "tm_from_ordered_entries es = Some m" "wf_tree map_key_summary m"
    "to_list m = map (\<lambda>(k, v). \<lparr>me_key = k, me_value = v\<rparr>) es"
    using map_key.from_iter_ok [of "map (\<lambda>(k, v). \<lparr>me_key = k, me_value = v\<rparr>) es"]
    by (auto simp: tm_from_ordered_entries_def)
  then have "tm_entries m = es" by (simp add: tm_entries_def map_idI split: prod.splits)
  with m assms show ?thesis by (simp add: tm_wf_def)
qed

text \<open>\<open>extend\<close> acts as a map update when the new keys are distinct.\<close>

definition insert_edit :: "'k \<times> 'v \<Rightarrow> (('k, 'v) map_entry, 'k option) edit" where
  "insert_edit p = (case p of (k, v) \<Rightarrow> Insert \<lparr>me_key = k, me_value = v\<rparr>)"

lemma insert_edit_key: "edit_key entry_key (insert_edit p) = Some (fst p)"
  by (cases p) (simp add: insert_edit_def entry_key_def)

lemma edited_inserts:
  assumes "distinct (map fst es)"
  shows "map_option me_value (edited entry_key (Some k) (map insert_edit es) old) =
    (case map_of es k of Some v \<Rightarrow> Some v | None \<Rightarrow> map_option me_value old)"
  using assms
  by (induction es) (auto simp: edited_Cons insert_edit_key, auto simp: edited_def insert_edit_def)

lemma tm_extend_ok:
  assumes "tm_wf m" "distinct (map fst es)"
  shows "\<exists>m'. tm_extend es m = Some m' \<and> tm_wf m' \<and> tm_map m' = tm_map m ++ map_of es"
proof -
  have t: "wf_tree map_key_summary m" "sorted_keys entry_key (to_list m)" using assms by (simp_all add: tm_wf_sorted)
  have "map (edit_key entry_key) (map insert_edit es) = map Some (map fst es)"
    by (simp add: insert_edit_key)
  then have "distinct (map (edit_key entry_key) (map insert_edit es))"
    using assms(2) by (simp add: distinct_map inj_on_def)
  from map_key.tree_edit_distinct_ok [OF t this] obtain rem m' where
    m': "tree_edit map_key_summary map_key_ref entry_key (map insert_edit es) m = Some (rem, m')" "tm_wf m'"
    "\<forall>k. lookup_key entry_key k (to_list m') = edited entry_key k (map insert_edit es) (lookup_key entry_key k (to_list m))"
    by (auto simp: tm_wf_sorted)
  have "tm_map m' k = (tm_map m ++ map_of es) k" for k
    using m'(3) edited_inserts [OF assms(2), of k] by (simp add: tm_map_lookup map_add_def split: option.split)
  moreover have "tm_extend es m = Some m'"
    using m'(1) by (simp add: tm_extend_def insert_edit_def [abs_def])
  ultimately show ?thesis using m'(2) by (auto simp: fun_eq_iff)
qed

lemma tm_insert_tree_ok:
  assumes "tm_wf m" "tm_wf other"
  shows "\<exists>m'. tm_insert_tree other m = Some m' \<and> tm_wf m' \<and> tm_map m' = tm_map m ++ tm_map other"
proof -
  have "distinct (map fst (tm_entries other))"
    using assms(2) by (simp add: tm_wf_def strict_sorted_iff)
  from tm_extend_ok [OF assms(1) this] tm_iter_ok [OF assms(2)] show ?thesis
    by (simp add: tm_insert_tree_def tm_extend_def tm_map_def)
qed

text \<open>
  \<open>remove_range\<close> keeps what lies below the start and what lies at or above the end; for a start
  above the end these overlap.
\<close>

lemma map_seek_target_key: "map_seek_target (ord_cmp k) = key_target (Some k)"
  by (auto simp: map_seek_target_def key_target_def ord_cmp_def fun_eq_iff split: option.splits)

lemma tm_remove_range_entries:
  assumes "tm_wf m"
  shows "\<exists>m'. tm_remove_range (ord_cmp a) (ord_cmp b) m = Some m' \<and> wf_tree map_key_summary m' \<and>
    tm_entries m' = filter (\<lambda>(k, _). k < a) (tm_entries m) @ filter (\<lambda>(k, _). b \<le> k) (tm_entries m)"
proof -
  let ?xs = "to_list m"
  have t: "wf_tree map_key_summary m" "sorted_keys entry_key ?xs" using assms by (simp_all add: tm_wf_sorted)
  have z: "\<forall>x \<in> set ?xs. d_zero map_key_ref \<le> entry_key x" by (simp add: map_key_ref_def)
  obtain l c where l: "cursor_slice map_key_summary map_key_ref (key_target (Some a)) Left (cursor_new map_key_ref m) = Some (l, c)"
    "wf_tree map_key_summary l" "to_list l = filter (\<lambda>e. me_key e < a) ?xs"
    "cursor_at map_key_summary map_key_ref c (filter (\<lambda>e. me_key e < a) ?xs) (filter (\<lambda>e. a \<le> me_key e) ?xs)"
    by (rule at_key_slice_ok [OF assms])
  have "filter (\<lambda>e. me_key e < a) ?xs @ filter (\<lambda>e. a \<le> me_key e) ?xs = ?xs"
    using sorted_low_high [OF t(2), of "Some a"] by (simp add: filter_keys)
  with map_key.cursor_seek_ok [OF l(4), of "key_target (Some b)" Left]
    map_key.pass_mono_keys [OF t(2) z] map_key.advance_keys [OF t(2) z, of "Some b"]
  obtain f c' where c': "cursor_seek map_key_ref (key_target (Some b)) Left c = Some (f, c')"
    "cursor_at map_key_summary map_key_ref c' (filter (\<lambda>e. me_key e < b) ?xs) (filter (\<lambda>e. b \<le> me_key e) ?xs)"
    by (auto simp: filter_keys map_key_ref_def)
  obtain r c'' where r: "cursor_suffix map_key_summary map_key_ref c' = Some (r, c'')" "wf_tree map_key_summary r"
    "to_list r = filter (\<lambda>e. b \<le> me_key e) ?xs"
    using map_key.cursor_suffix_ok [OF c'(2)] by blast
  obtain m' where "tree_append map_key_summary l r = Some m'" "wf_tree map_key_summary m'" "to_list m' = to_list l @ to_list r"
    using map_key.tree_append_ok [OF l(2) r(2)] by blast
  with l(1,3) c'(1) r(1,3) show ?thesis
    by (auto simp: tm_remove_range_def map_seek_target_key tm_entries_def filter_map o_def)
qed

section \<open>The contract of a map and the set built on it\<close>

locale map_contract =
  fixes inv :: "'m \<Rightarrow> bool" and get :: "'k \<Rightarrow> 'm \<Rightarrow> 'v option"
    and ins :: "'k \<Rightarrow> 'v \<Rightarrow> 'm \<Rightarrow> 'm option" and rem :: "'k \<Rightarrow> 'm \<Rightarrow> ('v option \<times> 'm) option"
  assumes ins_ok: "inv m \<Longrightarrow> \<exists>m'. ins k v m = Some m' \<and> inv m' \<and> (\<forall>j. get j m' = (if j = k then Some v else get j m))"
    and rem_ok: "inv m \<Longrightarrow> \<exists>m'. rem k m = Some (get k m, m') \<and> inv m' \<and> (\<forall>j. get j m' = (if j = k then None else get j m))"
begin

text \<open>The keys of a map, and what insertion and removal do to them.\<close>

definition keys :: "'m \<Rightarrow> 'k set" where
  "keys m = {k. get k m \<noteq> None}"

lemma keys_ins: "inv m \<Longrightarrow> \<exists>m'. ins k v m = Some m' \<and> inv m' \<and> keys m' = Set.insert k (keys m)"
  using ins_ok [of m k v] by (auto simp: keys_def)

lemma keys_rem:
  "inv m \<Longrightarrow> \<exists>old m'. rem k m = Some (old, m') \<and> (old \<noteq> None \<longleftrightarrow> k \<in> keys m) \<and> inv m' \<and> keys m' = keys m - {k}"
  using rem_ok [of m k] by (auto simp: keys_def)

text \<open>Inserting a new key and removing it again restores every lookup.\<close>

lemma ins_rem_restores:
  assumes "inv m" "get k m = None"
  shows "\<exists>m' m''. ins k v m = Some m' \<and> rem k m' = Some (Some v, m'') \<and> inv m'' \<and> (\<forall>j. get j m'' = get j m)"
proof -
  obtain m' where m': "ins k v m = Some m'" "inv m'" "\<forall>j. get j m' = (if j = k then Some v else get j m)"
    using ins_ok [OF assms(1)] by blast
  with rem_ok [OF m'(2), of k] assms(2) show ?thesis by auto
qed

end

interpretation tree_map: map_contract tm_wf tm_get tm_insert tm_remove
proof
  fix m :: "('k::linorder, 'v) tree_map" and k v assume m: "tm_wf m"
  from tm_insert_or_replace_ok [OF m] tm_get_ok
  show "\<exists>m'. tm_insert k v m = Some m' \<and> tm_wf m' \<and> (\<forall>j. tm_get j m' = (if j = k then Some v else tm_get j m))"
    using m by fastforce
  from tm_remove_ok [OF m] tm_get_ok
  show "\<exists>m'. tm_remove k m = Some (tm_get k m, m') \<and> tm_wf m' \<and> (\<forall>j. tm_get j m' = (if j = k then None else tm_get j m))"
    using m by fastforce
qed

type_synonym 'k tree_set = "('k, unit) tree_map"

definition ts_from_ordered_entries :: "'k list \<Rightarrow> 'k tree_set option" where
  "ts_from_ordered_entries entries = tm_from_ordered_entries (map (\<lambda>k. (k, ())) entries)"

definition ts_is_empty :: "'k tree_set \<Rightarrow> bool" where
  "ts_is_empty s = tm_is_empty s"

definition ts_insert :: "'k::linorder \<Rightarrow> 'k tree_set \<Rightarrow> 'k tree_set option" where
  "ts_insert k s = tm_insert k () s"

definition ts_remove :: "'k::linorder \<Rightarrow> 'k tree_set \<Rightarrow> (bool \<times> 'k tree_set) option" where
  "ts_remove k s = map_option (\<lambda>(old, s'). (old \<noteq> None, s')) (tm_remove k s)"

definition ts_extend :: "'k::linorder list \<Rightarrow> 'k tree_set \<Rightarrow> 'k tree_set option" where
  "ts_extend ks s = tm_extend (map (\<lambda>k. (k, ())) ks) s"

definition ts_contains :: "'k::linorder \<Rightarrow> 'k tree_set \<Rightarrow> bool" where
  "ts_contains k s = (tm_get k s \<noteq> None)"

definition ts_iter :: "'k tree_set \<Rightarrow> 'k list option" where
  "ts_iter s = map_option (map fst) (tm_iter s)"

definition ts_iter_from :: "'k::linorder \<Rightarrow> 'k tree_set \<Rightarrow> 'k list option" where
  "ts_iter_from k s = map_option (map fst) (tm_iter_from k s)"

lemma ts_contains_keys: "ts_contains k s \<longleftrightarrow> k \<in> tree_map.keys s"
  by (simp add: ts_contains_def tree_map.keys_def)

section \<open>Properties\<close>

text \<open>
  C20: on well-formed maps the operations refine those of partial maps: \<open>get\<close> looks up,
  insertion overrides and reports the old value, removal deletes and reports it, \<open>update\<close>
  rewrites a present value in place, and each keeps the map well-formed. None of them panics.
\<close>

theorem tree_map_refines_map:
  assumes "tm_wf m"
  shows "tm_get k m = tm_map m k \<and>
    (\<exists>m'. tm_insert_or_replace k v m = Some (tm_map m k, m') \<and> tm_insert k v m = Some m' \<and>
      tm_wf m' \<and> tm_map m' = (tm_map m)(k \<mapsto> v)) \<and>
    (\<exists>m'. tm_remove k m = Some (tm_map m k, m') \<and> tm_wf m' \<and> tm_map m' = (tm_map m)(k := None)) \<and>
    (\<exists>m'. tm_update k f m = Some (map_option (\<lambda>v. fst (f v)) (tm_map m k), m') \<and> tm_wf m' \<and>
      tm_map m' = (case tm_map m k of Some v \<Rightarrow> (tm_map m)(k \<mapsto> snd (f v)) | None \<Rightarrow> tm_map m))"
  using tm_get_ok [OF assms] tm_insert_or_replace_ok [OF assms, of k v] tm_remove_ok [OF assms, of k]
    tm_update_ok [OF assms, of k f] by simp

lemma tm_wf_empty: "tm_wf tm_empty" "tm_map tm_empty = (\<lambda>_. None)"
  by (simp_all add: tm_wf_def tm_empty_def tm_map_def tm_entries_def)

theorem tree_map_refines_map_witness:
  "\<exists>m. tm_insert (2::nat) (7::nat) tm_empty = Some m \<and> tm_map m 2 = Some 7"
  using tree_map_refines_map [OF tm_wf_empty(1), of 2 7 "\<lambda>v. (v, v)"] by auto

text \<open>
  Iteration yields the entries in ascending key order, from a key on those at or above it;
  \<open>first\<close> and \<open>last\<close> are its ends; \<open>retain\<close> keeps exactly the entries the predicate accepts, and a map
  built from ordered entries holds just these.
\<close>

theorem tree_map_bulk:
  assumes "tm_wf m"
  shows "tm_iter m = Some (tm_entries m) \<and> sorted_wrt (<) (map fst (tm_entries m)) \<and>
    tm_values m = Some (map snd (tm_entries m)) \<and>
    tm_iter_from k m = Some (filter (\<lambda>(j, _). k \<le> j) (tm_entries m)) \<and>
    tm_first m = Some (list_first (tm_entries m)) \<and> tm_last m = Some (list_last (tm_entries m)) \<and>
    (\<exists>m'. tm_retain P m = Some m' \<and> tm_wf m' \<and> tm_entries m' = filter (\<lambda>(k, v). P k v) (tm_entries m)) \<and>
    (\<exists>m'. tm_from_ordered_entries (tm_entries m) = Some m' \<and> tm_wf m' \<and> tm_entries m' = tm_entries m)"
  using tm_iter_ok [OF assms] tm_values_ok [OF assms] tm_iter_from_ok [OF assms, of k] tm_first_last_ok [OF assms]
    tm_retain_ok [OF assms, of P] tm_from_ordered_entries_ok [of "tm_entries m"] assms
  by (simp add: tm_wf_def)

theorem tree_map_bulk_witness:
  "\<exists>m. tm_from_ordered_entries [(1::nat, True), (4, False)] = Some m \<and> tm_iter m = Some [(1, True), (4, False)] \<and>
    tm_iter_from 2 m = Some [(4, False)]"
proof -
  obtain m where m: "tm_from_ordered_entries [(1::nat, True), (4, False)] = Some m" "tm_wf m"
    "tm_entries m = [(1, True), (4, False)]"
    using tm_from_ordered_entries_ok [of "[(1::nat, True), (4, False)]"] by auto
  with tree_map_bulk [OF m(2), of 2] show ?thesis by auto
qed

text \<open>
  Extending a map by entries with distinct keys, or by another map, overrides it pointwise.
\<close>

theorem tree_map_merge:
  assumes "tm_wf m" "distinct (map fst es)" "tm_wf other"
  shows "(\<exists>m'. tm_extend es m = Some m' \<and> tm_wf m' \<and> tm_map m' = tm_map m ++ map_of es) \<and>
    (\<exists>m'. tm_insert_tree other m = Some m' \<and> tm_wf m' \<and> tm_map m' = tm_map m ++ tm_map other)"
  using tm_extend_ok [OF assms(1,2)] tm_insert_tree_ok [OF assms(1,3)] by blast

theorem tree_map_merge_witness:
  "\<exists>m'. tm_extend [(3::nat, ''c''), (1, ''a'')] tm_empty = Some m' \<and> tm_map m' 1 = Some ''a''"
  using tree_map_merge [OF tm_wf_empty(1) _ tm_wf_empty(1), of "[(3::nat, ''c''), (1, ''a'')]"]
  by (auto simp: tm_wf_empty)


text \<open>
  With a start at or below the end, \<open>remove_range\<close> removes exactly the keys from the start on
  that lie below the end.
\<close>

theorem tree_map_remove_range:
  assumes "tm_wf m" "a \<le> b"
  shows "\<exists>m'. tm_remove_range (ord_cmp a) (ord_cmp b) m = Some m' \<and> tm_wf m' \<and>
    tm_entries m' = filter (\<lambda>(k, _). \<not> (a \<le> k \<and> k < b)) (tm_entries m)"
proof -
  obtain m' where m': "tm_remove_range (ord_cmp a) (ord_cmp b) m = Some m'" "wf_tree map_key_summary m'"
    "tm_entries m' = filter (\<lambda>(k, _). k < a) (tm_entries m) @ filter (\<lambda>(k, _). b \<le> k) (tm_entries m)"
    using tm_remove_range_entries [OF assms(1), of a b] by blast
  have s: "sorted_keys fst (tm_entries m)" using assms(1) by (simp add: tm_wf_def sorted_keys_def sorted_wrt_map)
  have e: "tm_entries m' = filter (\<lambda>(k, _). \<not> (a \<le> k \<and> k < b)) (tm_entries m)"
    using sorted_outside [OF s assms(2)] m'(3) by (simp add: split_def)
  then have "sorted_keys fst (tm_entries m')" using sorted_keys_filter [OF s] by simp
  then have "tm_wf m'" using m'(2) by (simp add: tm_wf_def sorted_keys_def sorted_wrt_map)
  with m'(1) e show ?thesis by blast
qed

theorem tree_map_remove_range_witness:
  "\<exists>m. tm_from_ordered_entries [(1::nat, True), (4, False), (6, True)] = Some m \<and>
    (\<exists>m'. tm_remove_range (ord_cmp 2) (ord_cmp 6) m = Some m' \<and> tm_entries m' = [(1, True), (6, True)])"
proof -
  obtain m where m: "tm_from_ordered_entries [(1::nat, True), (4, False), (6, True)] = Some m" "tm_wf m"
    "tm_entries m = [(1, True), (4, False), (6, True)]"
    using tm_from_ordered_entries_ok [of "[(1::nat, True), (4, False), (6, True)]"] by auto
  with tree_map_remove_range [OF m(2), of 2 6] show ?thesis by auto
qed

text \<open>
  The set operations refine those of sets of keys: insertion adds the key, removal takes it out
  and reports whether it was there; both rest on the contract of the map.
\<close>

theorem tree_set_refines_set:
  assumes "tm_wf s"
  shows "(\<exists>s'. ts_insert k s = Some s' \<and> tm_wf s' \<and> (\<forall>j. ts_contains j s' \<longleftrightarrow> j = k \<or> ts_contains j s)) \<and>
    (\<exists>s'. ts_remove k s = Some (ts_contains k s, s') \<and> tm_wf s' \<and>
      (\<forall>j. ts_contains j s' \<longleftrightarrow> j \<noteq> k \<and> ts_contains j s)) \<and>
    (\<exists>ks. ts_iter s = Some ks \<and> sorted_wrt (<) ks \<and> set ks = {k. ts_contains k s})"
proof (intro conjI)
  show "\<exists>s'. ts_insert k s = Some s' \<and> tm_wf s' \<and> (\<forall>j. ts_contains j s' \<longleftrightarrow> j = k \<or> ts_contains j s)"
    using tree_map.keys_ins [OF assms, of k "()"] by (auto simp: ts_insert_def ts_contains_keys)
  show "\<exists>s'. ts_remove k s = Some (ts_contains k s, s') \<and> tm_wf s' \<and>
      (\<forall>j. ts_contains j s' \<longleftrightarrow> j \<noteq> k \<and> ts_contains j s)"
    using tree_map.keys_rem [OF assms, of k] by (auto simp: ts_remove_def ts_contains_keys)
  have "set (map fst (tm_entries s)) = {k. ts_contains k s}"
    by (auto simp: ts_contains_def tm_get_ok [OF assms] tm_map_def map_of_eq_None_iff image_iff)
  then show "\<exists>ks. ts_iter s = Some ks \<and> sorted_wrt (<) ks \<and> set ks = {k. ts_contains k s}"
    using tm_iter_ok [OF assms] assms by (simp add: ts_iter_def tm_wf_def)
qed

theorem tree_set_refines_set_witness:
  "\<exists>s'. ts_insert (5::nat) tm_empty = Some s' \<and> ts_contains 5 s'"
  using tree_set_refines_set [OF tm_wf_empty(1), of 5] by blast

end
