(* ===== verification/TreeSpec.thy ===== *)
theory TreeSpec
  imports TreeMap
begin

text \<open>
  The properties of the B+ tree and of its cursor, stated for every summary and dimension that
  satisfies the laws, with witnesses on the summary of \<open>TreeMap\<close>.
\<close>

section \<open>Building and updating trees\<close>

text \<open>
  C17: appending two well-formed trees never panics, whatever their heights; the result is
  well-formed and holds the items of the first followed by those of the second.
\<close>

theorem append_concatenates:
  assumes "summary_laws D" "wf_tree D a" "wf_tree D b"
  shows "\<exists>t. tree_append D a b = Some t \<and> wf_tree D t \<and> to_list t = to_list a @ to_list b"
  using summary_laws.tree_append_ok [OF assms] .

text \<open>Small trees of the map's summary, for the witnesses.\<close>

definition entry_of :: "nat \<Rightarrow> (nat, nat) map_entry" where
  "entry_of k = \<lparr>me_key = k, me_value = k * k\<rparr>"

definition small_tree :: "nat list \<Rightarrow> (nat, nat) tree_map" where
  "small_tree ks = Leaf (if ks = [] then None else Some (last ks)) (map entry_of ks) (map Some ks)"

lemma small_tree_wf:
  assumes "length ks \<le> 12" shows "wf_tree map_key_summary (small_tree ks)"
proof -
  have sum: "sum_of (map_key_summary :: ((nat, nat) map_entry, nat option) item_ops) (map Some ks) =
      (if ks = [] then None else Some (last ks))"
    by (induction ks rule: rev_induct) (simp_all add: sum_of_def map_key_summary_def)
  have zero: "zero (map_key_summary :: ((nat, nat) map_entry, nat option) item_ops) = None"
    by (simp add: map_key_summary_def)
  have "summary_of map_key_summary (entry_of k) = Some k" for k
    by (simp add: map_key_summary_def entry_of_def)
  with assms show ?thesis
    by (auto simp: small_tree_def wf_tree_def TREE_BASE_def sum zero o_def)
qed

lemma small_tree_list [simp]: "to_list (small_tree ks) = map entry_of ks"
  by (simp add: small_tree_def)

theorem append_concatenates_witness:
  "\<exists>t. tree_append map_key_summary (small_tree [1, 2, 3]) (small_tree [4]) = Some t \<and>
    wf_tree map_key_summary t \<and> to_list t = map entry_of [1, 2, 3, 4]"
  using append_concatenates [OF map_key.summary_laws_axioms small_tree_wf [of "[1, 2, 3]"] small_tree_wf [of "[4]"]]
  by simp

text \<open>
  Building a tree from a sequence succeeds, gives a well-formed tree with exactly these
  items whose cached summary is their sum, and the parallel builder gives the same tree.
\<close>

theorem bulk_builders_agree:
  assumes "summary_laws D"
  shows "\<exists>t. from_iter D its = Some t \<and> from_par_iter D its = Some t \<and> wf_tree D t \<and> to_list t = its \<and>
    (its \<noteq> [] \<longrightarrow> node_summary t = sum_of D (map (summary_of D) its))"
  using summary_laws.from_iter_ok [OF assms, of its] summary_laws.from_par_iter_eq [OF assms, of its]
    summary_laws.node_summary_items [OF assms] wf_tree_node by metis

theorem bulk_builders_agree_witness:
  "\<exists>t. from_iter map_key_summary (map entry_of [1, 2, 3]) = Some t \<and>
    from_par_iter map_key_summary (map entry_of [1, 2, 3]) = Some t \<and> node_summary t = Some 3"
  using bulk_builders_agree [OF map_key.summary_laws_axioms, of "map entry_of [1, 2, 3]"]
  by (auto simp: sum_of_def map_key_summary_def entry_of_def)

text \<open>
  \<open>push\<close> adds one item at the end and \<open>extend\<close> a sequence of items, sequentially or in
  parallel with the same result.
\<close>

theorem push_and_extend:
  assumes "summary_laws D" "wf_tree D t"
  shows "(\<exists>t'. tree_push D t x = Some t' \<and> wf_tree D t' \<and> to_list t' = to_list t @ [x]) \<and>
    (\<exists>t'. SumTree.extend D t its = Some t' \<and> par_extend D t its = Some t' \<and> wf_tree D t' \<and> to_list t' = to_list t @ its)"
  using summary_laws.tree_push_ok [OF assms, of x] summary_laws.extend_ok [OF assms, of its]
    summary_laws.from_par_iter_eq [OF assms(1), of its]
  by (auto simp: SumTree.extend_def par_extend_def)

theorem push_and_extend_witness:
  "\<exists>t'. tree_push map_key_summary (small_tree [1, 2]) (entry_of 5) = Some t' \<and> to_list t' = map entry_of [1, 2, 5]"
  using push_and_extend [OF map_key.summary_laws_axioms small_tree_wf [of "[1, 2]"], of "entry_of 5" "[]"] by auto

text \<open>
  \<open>update_last\<close> and \<open>update_first\<close> apply the function to the last (first) item of a nonempty
  tree, leave the others, and repair the summaries along the path.
\<close>

theorem update_ends:
  assumes "summary_laws D" "wf_tree D t" "to_list t \<noteq> []"
  shows "(\<exists>t'. update_last D f t = Some t' \<and> wf_tree D t' \<and> to_list t' = butlast (to_list t) @ [f (last (to_list t))]) \<and>
    (\<exists>t'. update_first D f t = Some t' \<and> wf_tree D t' \<and> to_list t' = f (hd (to_list t)) # tl (to_list t))"
  using summary_laws.update_last_recursive_ok [OF assms(1) wf_tree_node [OF assms(2,3)], of f]
    summary_laws.update_first_recursive_ok [OF assms(1) wf_tree_node [OF assms(2,3)], of f]
  by (auto simp: update_last_def update_first_def intro: wf_node_tree)

theorem update_ends_witness:
  "\<exists>t'. update_last map_key_summary (\<lambda>e. e\<lparr>me_key := 9\<rparr>) (small_tree [1, 2]) = Some t' \<and>
    to_list t' = [entry_of 1, \<lparr>me_key = 9, me_value = 4\<rparr>]"
  using update_ends [OF map_key.summary_laws_axioms small_tree_wf [of "[1, 2]"], of "\<lambda>e. e\<lparr>me_key := 9\<rparr>"]
  by (auto simp: entry_of_def)

section \<open>Seeking\<close>

text \<open>
  C18: a slice followed by a suffix splits what lies ahead of the cursor: the slice holds the
  longest run of items whose ends the target passes, the suffix the rest, both are
  well-formed trees, and the cursor ends behind the last item.
\<close>

theorem slice_partitions:
  assumes "seek_laws D M" "cursor_at D M c before ahead" "target (c_position c) \<noteq> Less"
    and "pass_mono D M (passes target b) (c_position c) ahead"
  shows "\<exists>l c' r c''. cursor_slice D M target b c = Some (l, c') \<and> cursor_suffix D M c' = Some (r, c'') \<and>
    wf_tree D l \<and> wf_tree D r \<and> to_list l @ to_list r = ahead \<and>
    (\<forall>e \<in> set (ends D M (c_position c) (to_list l)). passes target b e) \<and>
    (to_list r \<noteq> [] \<longrightarrow> \<not> passes target b (after D M (c_position c) (to_list l @ [hd (to_list r)]))) \<and>
    cursor_at D M c'' (before @ ahead) []"
proof -
  obtain us vs where a: "advance D M (passes target b) (c_position c) ahead = (us, vs)" by force
  obtain l c' where l: "cursor_slice D M target b c = Some (l, c')" "wf_tree D l" "to_list l = us"
    "cursor_at D M c' (before @ us) vs"
    using seek_laws.cursor_slice_ok [OF assms a] by blast
  obtain r c'' where r: "cursor_suffix D M c' = Some (r, c'')" "wf_tree D r" "to_list r = vs"
    "cursor_at D M c'' ((before @ us) @ vs) []"
    using seek_laws.cursor_suffix_ok [OF assms(1) l(4)] by blast
  have "us @ vs = ahead" using advance_append [of D M "passes target b" "c_position c" ahead] a by simp
  moreover have "vs \<noteq> [] \<longrightarrow> \<not> passes target b (after D M (c_position c) (us @ [hd vs]))"
    using advance_snd_stops [of D M "passes target b" "c_position c" ahead] a by (cases vs) auto
  moreover have "\<forall>e \<in> set (ends D M (c_position c) us). passes target b e"
    using advance_fst_passes [of D M "c_position c" "passes target b" ahead] a by simp
  ultimately show ?thesis using l r by auto
qed

theorem slice_partitions_witness:
  "\<exists>l c' r c''. cursor_slice map_key_summary map_key_ref (key_target (Some 2)) Left (cursor_new map_key_ref (small_tree [1, 2, 3])) = Some (l, c') \<and>
    cursor_suffix map_key_summary map_key_ref c' = Some (r, c'') \<and> to_list l @ to_list r = map entry_of [1, 2, 3]"
proof -
  have "sorted_keys entry_key (map entry_of [1, 2, 3])" by (simp add: entry_key_def entry_of_def)
  from slice_partitions [OF map_key.seek_laws_axioms cursor_at_new [OF small_tree_wf [of "[1, 2, 3]"]],
      of "key_target (Some 2)" Left] map_key.pass_mono_keys [OF this]
  show ?thesis by (force simp: cursor_new_def map_key_ref_def key_target_def ord_cmp_def)
qed

text \<open>
  A fresh cursor run as an iterator, the plain iterator, and stepping a sought cursor all
  end and yield exactly the items ahead, in order.
\<close>

theorem walk_yields_all:
  assumes "seek_laws D M" "wf_tree D t" "cursor_at D M c before ahead" "c_did_seek c"
  shows "cursor_collect M (cursor_new M t) = Some (to_list t) \<and> tree_iter t = Some (to_list t) \<and>
    cursor_collect M c = Some ahead"
  using seek_laws.filter_collect_new [OF assms(1,2), of "\<lambda>_. True"] tree_iter_ok [OF assms(2)]
    seek_laws.cursor_collect_seeked [OF assms(1,3,4)]
  by (simp add: cursor_collect_def keep_upward_def)

theorem walk_yields_all_witness:
  "cursor_collect map_key_ref (cursor_new map_key_ref (small_tree [1, 2])) = Some (map entry_of [1, 2])"
proof -
  have t: "wf_tree map_key_summary (small_tree [1, 2])" by (rule small_tree_wf) simp
  obtain c where "cursor_next map_key_ref (cursor_new map_key_ref (small_tree [1, 2])) = Some c" "c_did_seek c"
    "cursor_at map_key_summary map_key_ref c [] (map entry_of [1, 2])"
    using map_key.cursor_next_ok [OF cursor_at_new [OF t]] by (auto simp: cursor_new_def)
  from walk_yields_all [OF map_key.seek_laws_axioms t this(3,2)] show ?thesis by simp
qed

text \<open>
  A filtering cursor, whose filter accepts every node that holds an accepted item, yields
  exactly the accepted items.
\<close>

theorem filter_yields_accepted:
  assumes "seek_laws D M" "wf_tree D t" "keep_upward D keep"
  shows "filter_collect M keep (cursor_new M t) = Some (filter (\<lambda>x. keep (summary_of D x)) (to_list t))"
  by (rule seek_laws.filter_collect_new [OF assms])

theorem filter_yields_accepted_witness:
  "filter_collect map_key_ref (\<lambda>_. True) (cursor_new map_key_ref (small_tree [1, 2])) = Some (map entry_of [1, 2])"
  using filter_yields_accepted [OF map_key.seek_laws_axioms small_tree_wf [of "[1, 2]"], of "\<lambda>_. True"]
  by (simp add: keep_upward_def)

text \<open>
  \<open>find\<close> returns the first item whose end the target does not pass, with the positions
  before and after it, or the end of the tree when the target passes everything.
\<close>

theorem find_is_first_not_passed:
  assumes "seek_laws D M" "wf_node D t" "pass_mono D M (passes target b) (d_zero M) (to_list t)"
    and "to_list t = us @ vs" "\<forall>e \<in> set (ends D M (d_zero M) us). passes target b e"
    and "vs \<noteq> [] \<longrightarrow> \<not> passes target b (after D M (d_zero M) (us @ [hd vs]))"
  shows "tree_find D M target b t = (after D M (d_zero M) us, after D M (d_zero M) (us @ take 1 vs), list_first vs)"
proof -
  have "advance D M (passes target b) (after D M (d_zero M) us) vs = ([], vs)"
    using assms(6) by (cases vs) auto
  with advance_passes [OF assms(5), of vs] have "advance D M (passes target b) (d_zero M) (to_list t) = (us, vs)"
    by (simp add: assms(4))
  from seek_laws.tree_find_ok [OF assms(1-3) this] show ?thesis .
qed

theorem find_is_first_not_passed_witness:
  "tree_find map_key_summary map_key_ref (key_target (Some 2)) Left (small_tree [1, 2, 3]) =
    (Some 1, Some 2, Some (entry_of 2))"
proof -
  have s: "sorted_keys entry_key (map entry_of [1, 2, 3])" by (simp add: entry_key_def entry_of_def)
  have "wf_node map_key_summary (small_tree [1, 2, 3])"
    using small_tree_wf [of "[1, 2, 3]"] by (rule wf_tree_node) (simp_all add: small_tree_def)
  from find_is_first_not_passed [OF map_key.seek_laws_axioms this, of "key_target (Some 2)" Left
      "[entry_of 1]" "[entry_of 2, entry_of 3]"] map_key.pass_mono_keys [OF s]
  show ?thesis by (simp add: map_key_ref_def map_key_summary_def entry_of_def passes_def key_target_def ord_cmp_def)
qed

section \<open>Keyed items\<close>

text \<open>
  C19: a batch of edits with distinct keys, in any order, on a tree sorted by key: afterwards each
  key holds what its edit says (the inserted item, or nothing after a removal), all others
  are unchanged, and the tree is well-formed and sorted again.
\<close>

theorem edit_applies_batch:
  assumes "keyed D K key" "wf_tree D t" "sorted_keys key (to_list t)" "distinct (map (edit_key key) es)"
  shows "\<exists>removed t'. tree_edit D K key es t = Some (removed, t') \<and> wf_tree D t' \<and> sorted_keys key (to_list t') \<and>
    (\<forall>k. tree_get D K k t' = edited key k es (tree_get D K k t))"
  using keyed.tree_edit_distinct_ok [OF assms] keyed.tree_get_ok [OF assms(1)] assms(2,3) by metis

theorem edit_applies_batch_witness:
  "\<exists>removed t'. tree_edit map_key_summary map_key_ref entry_key [Remove (Some 2), Insert (entry_of 7), Insert (entry_of 1)]
      (small_tree [2, 3]) = Some (removed, t') \<and>
    tree_get map_key_summary map_key_ref (Some 2) t' = None \<and>
    tree_get map_key_summary map_key_ref (Some 7) t' = Some (entry_of 7)"
proof -
  have "sorted_keys entry_key (to_list (small_tree [2, 3]))" by (simp add: entry_key_def entry_of_def)
  from edit_applies_batch [OF map_key.keyed_axioms small_tree_wf this,
      of "[Remove (Some 2), Insert (entry_of 7), Insert (entry_of 1)]"]
  show ?thesis by (fastforce simp: edited_def entry_key_def entry_of_def)
qed

text \<open>
  C30: single insertions and removals on a sorted tree return the item that was under the key and
  leave it replaced or gone; \<open>get\<close> finds exactly the item with the key.
\<close>

theorem keyed_insert_remove_get:
  assumes "keyed D K key" "wf_tree D t" "sorted_keys key (to_list t)"
  shows "tree_get D K k t = lookup_key key k (to_list t) \<and>
    (\<exists>t'. tree_insert_or_replace D K key x t = Some (tree_get D K (key x) t, t') \<and> wf_tree D t' \<and>
      to_list t' = filter (\<lambda>y. key y < key x) (to_list t) @ x # filter (\<lambda>y. key x < key y) (to_list t)) \<and>
    (\<exists>t'. tree_remove D K key k t = Some (tree_get D K k t, t') \<and> wf_tree D t' \<and>
      to_list t' = filter (\<lambda>y. key y \<noteq> k) (to_list t))"
  using keyed.tree_insert_or_replace_ok [OF assms, of x] keyed.tree_remove_ok [OF assms, of k]
    keyed.tree_get_ok [OF assms] by simp

theorem keyed_insert_remove_get_witness:
  "\<exists>t'. tree_remove map_key_summary map_key_ref entry_key (Some 2) (small_tree [1, 2, 3]) = Some (Some (entry_of 2), t') \<and>
    to_list t' = map entry_of [1, 3]"
proof -
  have "sorted_keys entry_key (to_list (small_tree [1, 2, 3]))" by (simp add: entry_key_def entry_of_def)
  from keyed_insert_remove_get [OF map_key.keyed_axioms small_tree_wf this, of "Some 2" "entry_of 1"]
  show ?thesis by (auto simp: entry_key_def entry_of_def)
qed

end
