(* ===== verification/UndoMap.thy ===== *)
theory UndoMap
  imports Clock KeyedTree TreeIter
begin

text \<open>
  \<open>crates/text/src/undo_map.rs\<close>: for every edit the number of times it was undone or redone,
  per undo operation. An edit is undone when the greatest count any undo operation gave it is
  odd. The \<open>HashMap\<close> of an undo operation is a list of pairs with distinct edits, in the
  (unspecified) order of its iteration.
\<close>

section \<open>Definitions\<close>

datatype undo_key = UndoMapKey (edit_id: lamport) (undo_id: lamport)

text \<open>The derived order: lexicographic in the fields.\<close>

instantiation undo_key :: linorder
begin

definition less_eq_undo_key :: "undo_key \<Rightarrow> undo_key \<Rightarrow> bool" where
  "less_eq_undo_key a b \<longleftrightarrow> edit_id a < edit_id b \<or> edit_id a = edit_id b \<and> undo_id a \<le> undo_id b"

definition less_undo_key :: "undo_key \<Rightarrow> undo_key \<Rightarrow> bool" where
  "less_undo_key a b \<longleftrightarrow> edit_id a < edit_id b \<or> edit_id a = edit_id b \<and> undo_id a < undo_id b"

instance
  by standard (auto simp: less_eq_undo_key_def less_undo_key_def undo_key.expand)

end

record undo_map_entry =
  ue_key :: undo_key
  ue_count :: "32 word"

record undo_operation =
  uo_timestamp :: lamport
  uo_version :: global
  uo_counts :: "(lamport \<times> 32 word) list"

type_synonym undo_map = "(undo_map_entry, undo_key) node"

definition undo_zero :: undo_key where
  "undo_zero = UndoMapKey lamport_MIN lamport_MIN"

definition undo_summary :: "(undo_map_entry, undo_key) item_ops" where
  "undo_summary = \<lparr>zero = undo_zero, add_summary = max, summary_of = ue_key\<rparr>"

definition undo_dim :: "(undo_key, undo_key) dim_ops" where
  "undo_dim = \<lparr>d_zero = undo_zero, d_add = max\<rparr>"

definition um_new :: undo_map where
  "um_new = tree_new undo_summary"

definition undo_edits :: "undo_operation \<Rightarrow> (undo_map_entry, undo_key) edit list" where
  "undo_edits undo =
     map (\<lambda>(edit, count). Insert \<lparr>ue_key = UndoMapKey edit (uo_timestamp undo), ue_count = count\<rparr>) (uo_counts undo)"

definition um_insert :: "undo_operation \<Rightarrow> undo_map \<Rightarrow> undo_map option" where
  "um_insert undo m = do {
     (_, m') \<leftarrow> tree_edit undo_summary undo_dim ue_key (undo_edits undo) m;
     Some m'
   }"

text \<open>The loop over the entries from the cursor on; \<open>counts\<close> says which undo operations count.\<close>

partial_function (option) undo_count_loop ::
  "(lamport \<Rightarrow> bool) \<Rightarrow> lamport \<Rightarrow> (undo_map_entry, undo_key, undo_key) cursor \<Rightarrow> 32 word \<Rightarrow> 32 word option" where
  "undo_count_loop counts edit c undo_count = do {
     (entry, c) \<leftarrow> cursor_iter_next undo_dim c;
     (case entry of
       None \<Rightarrow> Some undo_count
     | Some entry \<Rightarrow>
         if edit_id (ue_key entry) \<noteq> edit then Some undo_count
         else undo_count_loop counts edit c
           (if counts (undo_id (ue_key entry)) then max undo_count (ue_count entry) else undo_count))
   }"

definition um_undo_count :: "lamport \<Rightarrow> undo_map \<Rightarrow> 32 word option" where
  "um_undo_count edit m = do {
     (_, c) \<leftarrow> cursor_seek undo_dim (key_target (UndoMapKey edit lamport_MIN)) Left (cursor_new undo_dim m);
     undo_count_loop (\<lambda>_. True) edit c 0
   }"

definition um_is_undone :: "lamport \<Rightarrow> undo_map \<Rightarrow> bool option" where
  "um_is_undone edit m = map_option (\<lambda>n. n mod 2 = 1) (um_undo_count edit m)"

definition um_was_undone :: "lamport \<Rightarrow> global \<Rightarrow> undo_map \<Rightarrow> bool option" where
  "um_was_undone edit version m = do {
     (_, c) \<leftarrow> cursor_seek undo_dim (key_target (UndoMapKey edit lamport_MIN)) Left (cursor_new undo_dim m);
     undo_count \<leftarrow> undo_count_loop (observed version) edit c 0;
     Some (undo_count mod 2 = 1)
   }"

section \<open>Correctness\<close>

lemma undo_key_min: "UndoMapKey e lamport_MIN \<le> k \<longleftrightarrow> e \<le> edit_id k"
  by (auto simp: less_eq_undo_key_def)

lemma undo_zero_least [simp]: "undo_zero \<le> k"
  using lamport_MIN_least [of "edit_id k"] by (simp add: undo_zero_def undo_key_min)

interpretation undo: keyed undo_summary undo_dim ue_key
  by unfold_locales (simp_all add: undo_summary_def undo_dim_def max.assoc max_absorb2)

definition um_wf :: "undo_map \<Rightarrow> bool" where
  "um_wf m \<longleftrightarrow> wf_tree undo_summary m \<and> sorted_keys ue_key (to_list m)"

text \<open>The greatest count among the entries of an edit that count.\<close>

definition top_count :: "(lamport \<Rightarrow> bool) \<Rightarrow> lamport \<Rightarrow> undo_map_entry set \<Rightarrow> 32 word" where
  "top_count counts edit es =
     Max (Set.insert 0 (ue_count ` {x \<in> es. edit_id (ue_key x) = edit \<and> counts (undo_id (ue_key x))}))"

lemma undo_count_loop_ok:
  assumes "cursor_at undo_summary undo_dim c xs ys" "c_did_seek c"
  shows "undo_count_loop P e c n = Some (fold max
    (map ue_count (filter (\<lambda>x. P (undo_id (ue_key x))) (takeWhile (\<lambda>x. edit_id (ue_key x) = e) ys))) n)"
  using assms
proof (induction ys arbitrary: c xs n)
  case Nil
  have "cursor_iter_next undo_dim c = Some (None, c)"
    using cursor_item_ok [OF Nil] Nil(2) by (simp add: cursor_iter_next_def)
  then show ?case by (subst undo_count_loop.simps) simp
next
  case (Cons y ys)
  obtain c' where c': "cursor_next undo_dim c = Some c'" "c_did_seek c'" "cursor_at undo_summary undo_dim c' (xs @ [y]) ys"
    using undo.cursor_next_ok [OF Cons.prems(1)] Cons.prems(2) by auto
  then have "cursor_iter_next undo_dim c = Some (Some y, c')"
    using cursor_item_ok [OF Cons.prems] Cons.prems(2) by (simp add: cursor_iter_next_def)
  then show ?case
    using Cons.IH [OF c'(3,2)] by (subst undo_count_loop.simps) (simp add: max.commute)
qed

lemma takeWhile_edit:
  assumes "sorted_keys ue_key xs"
  shows "takeWhile (\<lambda>x. edit_id (ue_key x) = e) (filter (\<lambda>x. UndoMapKey e lamport_MIN \<le> ue_key x) xs) =
    filter (\<lambda>x. edit_id (ue_key x) = e) xs"
  using assms
proof (induction xs)
  case (Cons x xs)
  have "filter (\<lambda>x. edit_id (ue_key x) = e) xs = []" if "e < edit_id (ue_key x)"
    using that Cons.prems by (fastforce simp: filter_empty_conv less_undo_key_def)
  with Cons show ?case
    by (cases e "edit_id (ue_key x)" rule: linorder_cases) (auto simp: undo_key_min)
qed simp

lemma seek_undo_ok:
  assumes "um_wf m"
  obtains b c where "cursor_seek undo_dim (key_target (UndoMapKey e lamport_MIN)) Left (cursor_new undo_dim m) = Some (b, c)"
    "undo_count_loop P e c 0 = Some (top_count P e (set (to_list m)))"
proof -
  let ?k = "UndoMapKey e lamport_MIN"
  have t: "wf_tree undo_summary m" "sorted_keys ue_key (to_list m)" using assms by (simp_all add: um_wf_def)
  have z: "\<forall>x \<in> set (to_list m). d_zero undo_dim \<le> ue_key x" by (simp add: undo_dim_def)
  from undo.cursor_seek_ok [OF cursor_at_new [OF t(1)], of "key_target ?k" Left]
    undo.pass_mono_keys [OF t(2) z] undo.advance_keys [OF t(2) z, of ?k]
  obtain b c where c: "cursor_seek undo_dim (key_target ?k) Left (cursor_new undo_dim m) = Some (b, c)"
    "c_did_seek c" "cursor_at undo_summary undo_dim c (filter (\<lambda>x. ue_key x < ?k) (to_list m)) (filter (\<lambda>x. ?k \<le> ue_key x) (to_list m))"
    by (auto simp: undo_dim_def not_less)
  have "fold max (map ue_count (filter (\<lambda>x. P (undo_id (ue_key x))) (filter (\<lambda>x. edit_id (ue_key x) = e) (to_list m)))) 0
      = top_count P e (set (to_list m))"
    unfolding Max.set_eq_fold [symmetric] top_count_def by (rule arg_cong [of _ _ Max]) auto
  with undo_count_loop_ok [OF c(3,2), of P e 0] have "undo_count_loop P e c 0 = Some (top_count P e (set (to_list m)))"
    by (simp add: takeWhile_edit [OF t(2)])
  with c(1) show thesis by (rule that)
qed

lemma um_undo_count_ok: "um_wf m \<Longrightarrow> um_undo_count e m = Some (top_count (\<lambda>_. True) e (set (to_list m)))"
  by (rule seek_undo_ok [of m e "\<lambda>_. True"]) (simp_all add: um_undo_count_def)

lemma um_was_undone_ok:
  "um_wf m \<Longrightarrow> um_was_undone e v m = Some (top_count (observed v) e (set (to_list m)) mod 2 = 1)"
  by (rule seek_undo_ok [of m e "observed v"]) (simp_all add: um_was_undone_def)

text \<open>Inserting an operation adds its entries, whatever order its counts come in.\<close>

definition op_entries :: "undo_operation \<Rightarrow> undo_map_entry set" where
  "op_entries u = (\<lambda>(e, n). \<lparr>ue_key = UndoMapKey e (uo_timestamp u), ue_count = n\<rparr>) ` set (uo_counts u)"

definition op_wf :: "undo_operation \<Rightarrow> bool" where
  "op_wf u \<longleftrightarrow> distinct (map fst (uo_counts u))"

lemma undo_edits_distinct: "op_wf u \<Longrightarrow> distinct (map (edit_key ue_key) (undo_edits u))"
proof -
  have "map (edit_key ue_key) (undo_edits u) = map (\<lambda>e. UndoMapKey e (uo_timestamp u)) (map fst (uo_counts u))"
    by (simp add: undo_edits_def split_def)
  then show "op_wf u \<Longrightarrow> ?thesis" by (simp only: op_wf_def distinct_map) (simp add: inj_on_def)
qed

lemma finite_op_entries [simp]: "finite (op_entries u)"
  by (simp add: op_entries_def)

lemma op_entries_iff:
  "x \<in> op_entries u \<longleftrightarrow> undo_id (ue_key x) = uo_timestamp u \<and> (edit_id (ue_key x), ue_count x) \<in> set (uo_counts u)"
  by (cases x, cases "ue_key x") (force simp: op_entries_def)

lemma set_undo_edits: "set (undo_edits u) = Insert ` op_entries u"
  by (simp add: undo_edits_def op_entries_def image_image split_def)

lemma edited_op:
  assumes u: "op_wf u"
  shows "edited ue_key k (undo_edits u) old = Some x \<longleftrightarrow>
    x \<in> op_entries u \<and> ue_key x = k \<or> (\<forall>y \<in> op_entries u. ue_key y \<noteq> k) \<and> old = Some x"
proof (cases "\<exists>y \<in> op_entries u. ue_key y = k")
  case True
  have e: "edited ue_key k (undo_edits u) old = Some y" if "y \<in> op_entries u" "ue_key y = k" for y
    using edited_by_key [OF undo_edits_distinct [OF u], of "Insert y" k old] that by (simp add: set_undo_edits)
  from True obtain y where "y \<in> op_entries u" "ue_key y = k" by blast
  with e [OF this] e [of x] show ?thesis by (metis option.inject)
next
  case False
  then have "edited ue_key k (undo_edits u) old = old"
    by (intro edited_id) (auto simp: set_undo_edits)
  with False show ?thesis by auto
qed

lemma um_insert_ok:
  assumes "um_wf m" "op_wf u"
  shows "\<exists>m'. um_insert u m = Some m' \<and> um_wf m' \<and>
    set (to_list m') = op_entries u \<union> {x \<in> set (to_list m). \<forall>y \<in> op_entries u. ue_key y \<noteq> ue_key x}"
proof -
  have t: "wf_tree undo_summary m" "sorted_keys ue_key (to_list m)" using assms by (simp_all add: um_wf_def)
  from undo.tree_edit_distinct_ok [OF t undo_edits_distinct [OF assms(2)]] obtain rem m' where
    m': "tree_edit undo_summary undo_dim ue_key (undo_edits u) m = Some (rem, m')" "wf_tree undo_summary m'"
    "sorted_keys ue_key (to_list m')"
    "\<forall>k. lookup_key ue_key k (to_list m') = edited ue_key k (undo_edits u) (lookup_key ue_key k (to_list m))"
    by blast
  have "x \<in> set (to_list m') \<longleftrightarrow>
      x \<in> op_entries u \<or> (\<forall>y \<in> op_entries u. ue_key y \<noteq> ue_key x) \<and> x \<in> set (to_list m)" for x
    unfolding lookup_key_mem [OF m'(3)] lookup_key_mem [OF t(2)] m'(4) [rule_format] edited_op [OF assms(2)] by simp
  with m' show ?thesis by (auto simp: um_insert_def um_wf_def)
qed

text \<open>The effect on the counts, for an operation whose timestamp is new to the map.\<close>

definition op_count :: "undo_operation \<Rightarrow> lamport \<Rightarrow> 32 word" where
  "op_count u e = (case map_of (uo_counts u) e of Some n \<Rightarrow> n | None \<Rightarrow> 0)"

definition fresh_op :: "undo_operation \<Rightarrow> undo_map \<Rightarrow> bool" where
  "fresh_op u m \<longleftrightarrow> (\<forall>x \<in> set (to_list m). undo_id (ue_key x) \<noteq> uo_timestamp u)"

lemma top_count_Un:
  "finite A \<Longrightarrow> finite B \<Longrightarrow> top_count P e (A \<union> B) = max (top_count P e A) (top_count P e B)"
proof -
  assume "finite A" "finite B"
  let ?S = "\<lambda>A. Set.insert 0 (ue_count ` {x \<in> A. edit_id (ue_key x) = e \<and> P (undo_id (ue_key x))})"
  have "?S (A \<union> B) = ?S A \<union> ?S B" by auto
  moreover have "finite (?S A)" "finite (?S B)" using \<open>finite A\<close> \<open>finite B\<close> by auto
  ultimately show ?thesis
    using Max_Un [of "?S A" "?S B"] unfolding top_count_def by simp
qed

lemma top_count_op:
  assumes "op_wf u"
  shows "top_count P e (op_entries u) = (if P (uo_timestamp u) then op_count u e else 0)"
proof -
  let ?x = "\<lambda>n. \<lparr>ue_key = UndoMapKey e (uo_timestamp u), ue_count = n\<rparr>"
  have "ue_count ` {x \<in> op_entries u. edit_id (ue_key x) = e \<and> P (undo_id (ue_key x))} =
      (if P (uo_timestamp u) then {n. (e, n) \<in> set (uo_counts u)} else {})"
    by (auto simp: op_entries_iff image_iff intro!: exI [of _ "?x _"])
  moreover have "(e, n) \<in> set (uo_counts u) \<longleftrightarrow> map_of (uo_counts u) e = Some n" for n
    using assms by (simp add: op_wf_def)
  ultimately show ?thesis by (auto simp: top_count_def op_count_def split: option.splits)
qed

lemma um_insert_counts:
  assumes "um_wf m" "op_wf u" "fresh_op u m"
  shows "\<exists>m'. um_insert u m = Some m' \<and> um_wf m' \<and>
    (\<forall>P e. top_count P e (set (to_list m')) =
      max (top_count P e (set (to_list m))) (if P (uo_timestamp u) then op_count u e else 0))"
proof -
  obtain m' where m': "um_insert u m = Some m'" "um_wf m'"
    "set (to_list m') = op_entries u \<union> {x \<in> set (to_list m). \<forall>y \<in> op_entries u. ue_key y \<noteq> ue_key x}"
    using um_insert_ok [OF assms(1,2)] by blast
  have "\<forall>x \<in> set (to_list m). \<forall>y \<in> op_entries u. ue_key y \<noteq> ue_key x"
    using assms(3) by (metis fresh_op_def op_entries_iff)
  then have "set (to_list m') = set (to_list m) \<union> op_entries u" using m'(3) by auto
  then have "top_count P e (set (to_list m')) =
      max (top_count P e (set (to_list m))) (if P (uo_timestamp u) then op_count u e else 0)" for P e
    by (simp add: top_count_Un top_count_op [OF assms(2)])
  with m' show ?thesis by blast
qed

text \<open>Replicas that receive two operations in different orders hold the same entries.\<close>

lemma um_insert_commute:
  assumes m: "um_wf m" and u: "op_wf u" and v: "op_wf v" and ts: "uo_timestamp u \<noteq> uo_timestamp v"
  shows "\<exists>mu mv muv mvu. um_insert u m = Some mu \<and> um_insert v mu = Some muv \<and>
    um_insert v m = Some mv \<and> um_insert u mv = Some mvu \<and> to_list muv = to_list mvu"
proof -
  obtain mu where mu: "um_insert u m = Some mu" "um_wf mu"
    "set (to_list mu) = op_entries u \<union> {x \<in> set (to_list m). \<forall>y \<in> op_entries u. ue_key y \<noteq> ue_key x}"
    using um_insert_ok [OF m u] by blast
  obtain mv where mv: "um_insert v m = Some mv" "um_wf mv"
    "set (to_list mv) = op_entries v \<union> {x \<in> set (to_list m). \<forall>y \<in> op_entries v. ue_key y \<noteq> ue_key x}"
    using um_insert_ok [OF m v] by blast
  obtain muv where muv: "um_insert v mu = Some muv" "um_wf muv"
    "set (to_list muv) = op_entries v \<union> {x \<in> set (to_list mu). \<forall>y \<in> op_entries v. ue_key y \<noteq> ue_key x}"
    using um_insert_ok [OF mu(2) v] by blast
  obtain mvu where mvu: "um_insert u mv = Some mvu" "um_wf mvu"
    "set (to_list mvu) = op_entries u \<union> {x \<in> set (to_list mv). \<forall>y \<in> op_entries u. ue_key y \<noteq> ue_key x}"
    using um_insert_ok [OF mv(2) u] by blast
  have "ue_key y \<noteq> ue_key x" if "x \<in> op_entries u" "y \<in> op_entries v" for x y
    using that ts by (metis op_entries_iff)
  then have "set (to_list muv) = set (to_list mvu)"
    unfolding muv(3) mvu(3) mu(3) mv(3) by (auto dest: sym)
  with muv(2) mvu(2) have "to_list muv = to_list mvu"
    by (auto simp: um_wf_def intro: sorted_keys_set_unique)
  with mu mv muv mvu show ?thesis by blast
qed

section \<open>Properties\<close>

lemma um_new_wf: "um_wf um_new" "to_list um_new = []"
  by (simp_all add: um_wf_def um_new_def)



text \<open>
  C26: two undo operations with different timestamps can be inserted in either order: both
  insertions succeed and the resulting maps hold the same entries in the same order.
\<close>

theorem undo_operations_commute:
  assumes "um_wf m" "op_wf u" "op_wf v" "uo_timestamp u \<noteq> uo_timestamp v"
  shows "\<exists>mu mv muv mvu. um_insert u m = Some mu \<and> um_insert v mu = Some muv \<and>
    um_insert v m = Some mv \<and> um_insert u mv = Some mvu \<and> to_list muv = to_list mvu"
  by (rule um_insert_commute [OF assms])

theorem undo_operations_commute_witness:
  "\<exists>mu mv muv mvu.
    um_insert \<lparr>uo_timestamp = Lamport 5 1, uo_version = global_new, uo_counts = [(Lamport 2 1, 1)]\<rparr> um_new = Some mu \<and>
    um_insert \<lparr>uo_timestamp = Lamport 5 2, uo_version = global_new, uo_counts = [(Lamport 2 1, 2)]\<rparr> mu = Some muv \<and>
    um_insert \<lparr>uo_timestamp = Lamport 5 2, uo_version = global_new, uo_counts = [(Lamport 2 1, 2)]\<rparr> um_new = Some mv \<and>
    um_insert \<lparr>uo_timestamp = Lamport 5 1, uo_version = global_new, uo_counts = [(Lamport 2 1, 1)]\<rparr> mv = Some mvu \<and>
    to_list muv = to_list mvu"
  by (rule undo_operations_commute) (simp_all add: um_new_wf op_wf_def)

end
