(* ===== verification/OperationQueue.thy ===== *)
theory OperationQueue
  imports Clock KeyedTree TreeIter
begin

text \<open>
  \<open>crates/text/src/operation_queue.rs\<close>: the operations waiting to be applied, ordered by Lamport
  timestamp, with their number in the summary. The queue is generic in the operation; its
  \<open>lamport_timestamp\<close> is the parameter \<open>ts\<close>. The \<open>assert!\<close> calls on the order of the keys
  that are combined hold when the operations are in timestamp order and none has the least
  timestamp (Lamport clocks start at 1); they are not part of the model.
\<close>

section \<open>Definitions\<close>

record op_summary =
  os_key :: lamport
  os_len :: nat

definition operation_summary :: "('a \<Rightarrow> lamport) \<Rightarrow> ('a, op_summary) item_ops" where
  "operation_summary ts =
     \<lparr>zero = \<lparr>os_key = lamport_MIN, os_len = 0\<rparr>,
      add_summary = (\<lambda>a b. \<lparr>os_key = os_key b, os_len = os_len a + os_len b\<rparr>),
      summary_of = (\<lambda>x. \<lparr>os_key = ts x, os_len = 1\<rparr>)\<rparr>"

definition operation_key :: "(lamport, op_summary) dim_ops" where
  "operation_key = \<lparr>d_zero = lamport_MIN, d_add = (\<lambda>_ s. os_key s)\<rparr>"

definition oq_new :: "('a \<Rightarrow> lamport) \<Rightarrow> ('a, op_summary) node" where
  "oq_new ts = tree_new (operation_summary ts)"

definition oq_len :: "('a, op_summary) node \<Rightarrow> nat" where
  "oq_len q = os_len (node_summary q)"

definition oq_is_empty :: "('a, op_summary) node \<Rightarrow> bool" where
  "oq_is_empty q = (oq_len q = 0)"

text \<open>\<open>Vec::dedup_by_key\<close>: of neighbours with equal keys only the first stays.\<close>

fun dedup_by_key :: "('a \<Rightarrow> 'k) \<Rightarrow> 'a list \<Rightarrow> 'a list" where
  "dedup_by_key f (x # y # xs) =
     (if f x = f y then dedup_by_key f (x # xs) else x # dedup_by_key f (y # xs))"
| "dedup_by_key f xs = xs"

definition oq_insert :: "('a \<Rightarrow> lamport) \<Rightarrow> 'a list \<Rightarrow> ('a, op_summary) node \<Rightarrow> ('a, op_summary) node option" where
  "oq_insert ts ops q = do {
     let ops = dedup_by_key ts (sort_key ts ops);
     (_, q') \<leftarrow> tree_edit (operation_summary ts) operation_key ts (map Insert ops) q;
     Some q'
   }"

text \<open>\<open>drain\<close> returns the queue and leaves an empty one.\<close>

definition oq_drain :: "('a \<Rightarrow> lamport) \<Rightarrow> ('a, op_summary) node \<Rightarrow> ('a, op_summary) node \<times> ('a, op_summary) node" where
  "oq_drain ts q = (q, oq_new ts)"

definition oq_iter :: "('a, op_summary) node \<Rightarrow> 'a list option" where
  "oq_iter q = tree_iter q"

section \<open>Correctness\<close>

interpretation op_queue: keyed "operation_summary ts" operation_key ts for ts :: "'a \<Rightarrow> lamport"
  by unfold_locales (simp_all add: operation_summary_def operation_key_def)

definition oq_wf :: "('a \<Rightarrow> lamport) \<Rightarrow> ('a, op_summary) node \<Rightarrow> bool" where
  "oq_wf ts q \<longleftrightarrow> wf_tree (operation_summary ts) q \<and> sorted_keys ts (to_list q) \<and>
     (to_list q = [] \<longrightarrow> node_summary q = zero (operation_summary ts))"

lemma len_sum: "os_len (sum_of (operation_summary ts) ss) = sum_list (map os_len ss)"
proof -
  have "os_len (foldl (add_summary (operation_summary ts)) s ss) = os_len s + sum_list (map os_len ss)" for s
    by (induction ss arbitrary: s) (simp_all add: operation_summary_def)
  then show ?thesis by (simp add: sum_of_def) (simp add: operation_summary_def)
qed

lemma oq_len_ok: "oq_wf ts q \<Longrightarrow> oq_len q = length (to_list q)"
proof (cases "to_list q = []")
  case False
  assume "oq_wf ts q"
  with False have "wf_node (operation_summary ts) q" by (auto simp: oq_wf_def wf_tree_def)
  from op_queue.node_summary_items [OF this] show ?thesis
    by (simp add: oq_len_def len_sum o_def) (simp add: operation_summary_def sum_list_triv)
qed (simp add: oq_wf_def oq_len_def, simp add: operation_summary_def)

lemma find_filter: "List.find P xs = list_first (filter P xs)"
  by (induction xs) auto

lemma set_dedup: "set (dedup_by_key f xs) \<subseteq> set xs"
  by (induction f xs rule: dedup_by_key.induct) auto

lemma dedup_nonempty [simp]: "dedup_by_key f xs = [] \<longleftrightarrow> xs = []"
  by (induction f xs rule: dedup_by_key.induct) auto

lemma dedup_sorted: "sorted (map f xs) \<Longrightarrow> sorted_keys f (dedup_by_key f xs)"
proof (induction f xs rule: dedup_by_key.induct)
  case (1 f x y xs)
  have "f x < f z" if "f x \<noteq> f y" "z \<in> set (dedup_by_key f (y # xs))" for z
  proof -
    have "f x < f y" using that(1) 1(3) by (simp add: order.strict_iff_order)
    also have "f y \<le> f z" using subsetD [OF set_dedup that(2)] 1(3) by auto
    finally show ?thesis .
  qed
  with 1 show ?case by simp
qed auto

lemma dedup_find: "List.find (\<lambda>x. f x = k) (dedup_by_key f xs) = List.find (\<lambda>x. f x = k) xs"
  by (induction f xs rule: dedup_by_key.induct) auto

lemma edited_Inserts:
  "edited key k (map Insert xs) old = (case List.find (\<lambda>x. key x = k) xs of Some x \<Rightarrow> Some x | None \<Rightarrow> old)"
  by (induction xs) (auto simp: edited_Cons, simp add: edited_def)

lemma oq_insert_ok:
  assumes q: "oq_wf ts q"
  shows "\<exists>q'. oq_insert ts ops q = Some q' \<and> oq_wf ts q' \<and>
    (\<forall>t. lookup_key ts t (to_list q') =
      (case List.find (\<lambda>x. ts x = t) ops of Some x \<Rightarrow> Some x | None \<Rightarrow> lookup_key ts t (to_list q)))"
proof -
  let ?ops = "dedup_by_key ts (sort_key ts ops)"
  have t: "wf_tree (operation_summary ts) q" "sorted_keys ts (to_list q)" using q by (simp_all add: oq_wf_def)
  have "sorted_keys ts ?ops" by (intro dedup_sorted) simp
  then have "distinct (map (edit_key ts) (map Insert ?ops))"
    by (simp add: o_def sorted_keys_def strict_sorted_iff flip: sorted_wrt_map)
  from op_queue.tree_edit_distinct_ok [OF t this] obtain rem q' where
    q': "tree_edit (operation_summary ts) operation_key ts (map Insert ?ops) q = Some (rem, q')"
    "wf_tree (operation_summary ts) q'" "sorted_keys ts (to_list q')"
    "\<forall>k. lookup_key ts k (to_list q') = edited ts k (map Insert ?ops) (lookup_key ts k (to_list q))" by blast
  have look: "lookup_key ts t (to_list q') =
      (case List.find (\<lambda>x. ts x = t) ops of Some x \<Rightarrow> Some x | None \<Rightarrow> lookup_key ts t (to_list q))" for t
    using q'(4) by (simp add: edited_Inserts dedup_find) (simp add: find_filter sort_key_stable)
  have "to_list q' = [] \<longrightarrow> node_summary q' = zero (operation_summary ts)"
  proof (cases ops)
    case Nil
    with q'(1) q show ?thesis by (simp add: tree_edit_def oq_wf_def)
  next
    case (Cons x xs)
    with look [of "ts x"] show ?thesis by auto
  qed
  with q' look show ?thesis by (simp add: oq_insert_def oq_wf_def)
qed

section \<open>Properties\<close>


lemma oq_new_wf: "oq_wf ts (oq_new ts)" "to_list (oq_new ts) = []"
  by (simp_all add: oq_wf_def oq_new_def tree_new_def wf_tree_def)


end
