(* ===== verification/Patch.thy ===== *)
theory Patch
  imports Prelude
begin

text \<open>
  \<open>crates/text/src/patch.rs\<close>: sequences of edits between two versions of a text, their
  composition and the translation of positions through them. The source is generic in the
  position type (ordered, with addition and subtraction); the model takes the integers, and
  the theorems are about patches that relate two texts, on which every position is
  between zero and the length of its text.
\<close>

section \<open>Edits and patches\<close>

record range =
  rg_start :: int
  rg_end :: int

text \<open>\<open>Edit\<close> of \<open>crates/text/src/text.rs\<close>.\<close>

record text_edit =
  ed_old :: range
  ed_new :: range

definition span :: "int \<Rightarrow> int \<Rightarrow> range" where
  "span a b = \<lparr>rg_start = a, rg_end = b\<rparr>"

definition edit_is_empty :: "text_edit \<Rightarrow> bool" where
  "edit_is_empty e \<longleftrightarrow> rg_start (ed_old e) = rg_end (ed_old e) \<and> rg_start (ed_new e) = rg_end (ed_new e)"

definition old_len :: "text_edit \<Rightarrow> int" where
  "old_len e = rg_end (ed_old e) - rg_start (ed_old e)"

definition new_len :: "text_edit \<Rightarrow> int" where
  "new_len e = rg_end (ed_new e) - rg_start (ed_new e)"

type_synonym patch = "text_edit list"

text \<open>\<open>Patch::new\<close> with its debug assertions; \<open>None\<close> is the failed assertion.\<close>

fun separated :: "text_edit list \<Rightarrow> bool" where
  "separated (prev # edit # es) \<longleftrightarrow>
     rg_start (ed_old edit) > rg_end (ed_old prev) \<and> rg_start (ed_new edit) > rg_end (ed_new prev) \<and>
     separated (edit # es)"
| "separated es \<longleftrightarrow> True"

definition patch_new :: "text_edit list \<Rightarrow> patch option" where
  "patch_new edits = (if separated edits then Some edits else None)"

definition invert :: "patch \<Rightarrow> patch" where
  "invert p = map (\<lambda>e. e\<lparr>ed_old := ed_new e, ed_new := ed_old e\<rparr>) p"

definition patch_is_empty :: "patch \<Rightarrow> bool" where
  "patch_is_empty p = (p = [])"

definition push :: "patch \<Rightarrow> text_edit \<Rightarrow> patch" where
  "push p edit =
     (if edit_is_empty edit then p
      else if p \<noteq> [] \<and> rg_end (ed_old (last p)) \<ge> rg_start (ed_old edit) then
        butlast p @ [\<lparr>ed_old = (ed_old (last p))\<lparr>rg_end := rg_end (ed_old edit)\<rparr>,
                      ed_new = (ed_new (last p))\<lparr>rg_end := rg_end (ed_new edit)\<rparr>\<rparr>]
      else p @ [edit])"

section \<open>Composition\<close>

text \<open>An edit whose (new) end lies before the start of the other side's next edit goes first.\<close>

definition old_first :: "patch \<Rightarrow> patch \<Rightarrow> bool" where
  "old_first olds news \<longleftrightarrow> olds \<noteq> [] \<and>
     (news = [] \<or> rg_end (ed_new (hd olds)) < rg_start (ed_old (hd news)))"

definition new_first :: "patch \<Rightarrow> patch \<Rightarrow> bool" where
  "new_first olds news \<longleftrightarrow> news \<noteq> [] \<and>
     (olds = [] \<or> rg_end (ed_old (hd news)) < rg_start (ed_new (hd olds)))"

text \<open>
  The first half of the step for two intersecting edits: the part of one before the other
  starts is pushed, and the edit is cut there.
\<close>

definition compose_overshoot ::
  "text_edit \<Rightarrow> text_edit \<Rightarrow> patch \<Rightarrow> int \<Rightarrow> int \<Rightarrow> text_edit \<times> text_edit \<times> patch \<times> int \<times> int" where
  "compose_overshoot old_edit new_edit composed old_start new_start =
     (if rg_start (ed_new old_edit) < rg_start (ed_old new_edit) then
        let catchup = rg_start (ed_old old_edit) - old_start;
            old_start = old_start + catchup;
            new_start = new_start + catchup;
            overshoot = rg_start (ed_old new_edit) - rg_start (ed_new old_edit);
            old_end = min (old_start + overshoot) (rg_end (ed_old old_edit));
            new_end = new_start + overshoot;
            composed = push composed \<lparr>ed_old = span old_start old_end, ed_new = span new_start new_end\<rparr>;
            old_edit = old_edit\<lparr>ed_old := (ed_old old_edit)\<lparr>rg_start := old_end\<rparr>,
                                ed_new := (ed_new old_edit)\<lparr>rg_start := rg_start (ed_new old_edit) + overshoot\<rparr>\<rparr>
        in (old_edit, new_edit, composed, old_end, new_end)
      else
        let catchup = rg_start (ed_new new_edit) - new_start;
            old_start = old_start + catchup;
            new_start = new_start + catchup;
            overshoot = rg_start (ed_new old_edit) - rg_start (ed_old new_edit);
            old_end = old_start + overshoot;
            new_end = min (new_start + overshoot) (rg_end (ed_new new_edit));
            composed = push composed \<lparr>ed_old = span old_start old_end, ed_new = span new_start new_end\<rparr>;
            new_edit = new_edit\<lparr>ed_old := (ed_old new_edit)\<lparr>rg_start := rg_start (ed_old new_edit) + overshoot\<rparr>,
                                ed_new := (ed_new new_edit)\<lparr>rg_start := new_end\<rparr>\<rparr>
        in (old_edit, new_edit, composed, old_end, new_end))"

function compose_loop :: "patch \<Rightarrow> patch \<Rightarrow> patch \<Rightarrow> int \<Rightarrow> int \<Rightarrow> patch" where
  "compose_loop olds news composed old_start new_start =
     (if old_first olds news then
        let old_edit = hd olds;
            catchup = rg_start (ed_old old_edit) - old_start;
            old_start = old_start + catchup;
            new_start = new_start + catchup;
            old_end = old_start + old_len old_edit;
            new_end = new_start + new_len old_edit
        in compose_loop (tl olds) news
             (push composed \<lparr>ed_old = span old_start old_end, ed_new = span new_start new_end\<rparr>) old_end new_end
      else if new_first olds news then
        let new_edit = hd news;
            catchup = rg_start (ed_new new_edit) - new_start;
            old_start = old_start + catchup;
            new_start = new_start + catchup;
            old_end = old_start + old_len new_edit;
            new_end = new_start + new_len new_edit
        in compose_loop olds (tl news)
             (push composed \<lparr>ed_old = span old_start old_end, ed_new = span new_start new_end\<rparr>) old_end new_end
      else (case (olds, news) of
        (old_edit # olds', new_edit # news') \<Rightarrow>
          (let (old_edit, new_edit, composed, old_start, new_start) =
                 compose_overshoot old_edit new_edit composed old_start new_start
           in if rg_end (ed_new old_edit) > rg_end (ed_old new_edit) then
                let old_end = old_start + min (old_len old_edit) (old_len new_edit);
                    new_end = new_start + new_len new_edit
                in compose_loop
                     (\<lparr>ed_old = (ed_old old_edit)\<lparr>rg_start := old_end\<rparr>,
                       ed_new = (ed_new old_edit)\<lparr>rg_start := rg_end (ed_old new_edit)\<rparr>\<rparr> # olds')
                     news'
                     (push composed \<lparr>ed_old = span old_start old_end, ed_new = span new_start new_end\<rparr>) old_end new_end
              else
                let old_end = old_start + old_len old_edit;
                    new_end = new_start + min (new_len old_edit) (new_len new_edit)
                in compose_loop olds'
                     (\<lparr>ed_old = (ed_old new_edit)\<lparr>rg_start := rg_end (ed_new old_edit)\<rparr>,
                       ed_new = (ed_new new_edit)\<lparr>rg_start := new_end\<rparr>\<rparr> # news')
                     (push composed \<lparr>ed_old = span old_start old_end, ed_new = span new_start new_end\<rparr>) old_end new_end)
      | _ \<Rightarrow> composed))"
  by pat_completeness auto
termination
  by (relation "measure (\<lambda>(olds, news, composed, old_start, new_start). length olds + length news)")
    (auto simp: old_first_def new_first_def neq_Nil_conv)

declare compose_loop.simps [simp del]

definition compose :: "patch \<Rightarrow> patch \<Rightarrow> patch" where
  "compose p new_edits = compose_loop p new_edits [] 0 0"

section \<open>Translating positions\<close>

text \<open>
  \<open>binary_search_by\<close> on the starts: \<open>Inl ix\<close> when a start equals the position, else \<open>Inr\<close> of where
  it would be inserted. The starts ascend strictly.
\<close>

definition search_start :: "patch \<Rightarrow> int \<Rightarrow> nat + nat" where
  "search_start p pos =
     (let ix = length (takeWhile (\<lambda>e. rg_start (ed_old e) < pos) p)
      in if ix < length p \<and> rg_start (ed_old (p ! ix)) = pos then Inl ix else Inr ix)"

definition get_edit :: "patch \<Rightarrow> nat \<Rightarrow> text_edit option" where
  "get_edit p ix = (if ix < length p then Some (p ! ix) else None)"

definition old_to_new :: "patch \<Rightarrow> int \<Rightarrow> int" where
  "old_to_new p pos =
     (let translate = (\<lambda>ix. case get_edit p ix of
            Some edit \<Rightarrow>
              if pos \<ge> rg_end (ed_old edit) then rg_end (ed_new edit) + (pos - rg_end (ed_old edit))
              else rg_start (ed_new edit)
          | None \<Rightarrow> pos)
      in case search_start p pos of
        Inl ix \<Rightarrow> translate ix
      | Inr ix \<Rightarrow> if ix = 0 then pos else translate (ix - 1))"

definition edit_for_old_position :: "patch \<Rightarrow> int \<Rightarrow> text_edit" where
  "edit_for_old_position p pos =
     (let empty_edit = \<lparr>ed_old = span pos pos, ed_new = span pos pos\<rparr>;
          at = (\<lambda>ix. case get_edit p ix of
            Some edit \<Rightarrow>
              if pos > rg_end (ed_old edit) then
                let translated = rg_end (ed_new edit) + (pos - rg_end (ed_old edit))
                in \<lparr>ed_old = span pos pos, ed_new = span translated translated\<rparr>
              else edit
          | None \<Rightarrow> empty_edit)
      in case search_start p pos of
        Inl ix \<Rightarrow> at ix
      | Inr ix \<Rightarrow> if ix = 0 then empty_edit else at (ix - 1))"

section \<open>What a patch says of two texts\<close>

text \<open>
  \<open>gap s u o n o' n'\<close>: from \<open>o\<close> to \<open>o'\<close> the text \<open>s\<close> is the text \<open>u\<close> from \<open>n\<close> to \<open>n'\<close>.
\<close>

definition gap :: "'c list \<Rightarrow> 'c list \<Rightarrow> int \<Rightarrow> int \<Rightarrow> int \<Rightarrow> int \<Rightarrow> bool" where
  "gap s u o1 n1 o2 n2 \<longleftrightarrow> 0 \<le> o1 \<and> 0 \<le> n1 \<and> o1 \<le> o2 \<and> o2 - o1 = n2 - n1 \<and>
     o2 \<le> int (length s) \<and> n2 \<le> int (length u) \<and>
     (\<forall>i \<in> {0..<o2 - o1}. s ! nat (o1 + i) = u ! nat (n1 + i))"

fun path :: "'c list \<Rightarrow> 'c list \<Rightarrow> int \<Rightarrow> int \<Rightarrow> patch \<Rightarrow> int \<Rightarrow> int \<Rightarrow> bool" where
  "path s u o1 n1 [] o2 n2 \<longleftrightarrow> gap s u o1 n1 o2 n2"
| "path s u o1 n1 (e # es) o2 n2 \<longleftrightarrow>
     gap s u o1 n1 (rg_start (ed_old e)) (rg_start (ed_new e)) \<and>
     rg_start (ed_old e) \<le> rg_end (ed_old e) \<and> rg_start (ed_new e) \<le> rg_end (ed_new e) \<and>
     path s u (rg_end (ed_old e)) (rg_end (ed_new e)) es o2 n2"

text \<open>The patch turns \<open>s\<close> into \<open>u\<close>: outside its edits the texts agree.\<close>

definition relates :: "patch \<Rightarrow> 'c list \<Rightarrow> 'c list \<Rightarrow> bool" where
  "relates p s u = path s u 0 0 p (int (length s)) (int (length u))"

text \<open>The shape every operation keeps: edits nonempty and apart in the old text.\<close>

fun patch_ok :: "patch \<Rightarrow> bool" where
  "patch_ok (e # e' # es) \<longleftrightarrow> \<not> edit_is_empty e \<and> rg_end (ed_old e) < rg_start (ed_old e') \<and> patch_ok (e' # es)"
| "patch_ok [e] \<longleftrightarrow> \<not> edit_is_empty e"
| "patch_ok [] \<longleftrightarrow> True"

lemma gap_refl: "0 \<le> o1 \<Longrightarrow> 0 \<le> n1 \<Longrightarrow> o1 \<le> int (length s) \<Longrightarrow> n1 \<le> int (length u) \<Longrightarrow> gap s u o1 n1 o1 n1"
  by (simp add: gap_def)

lemma gap_trans:
  assumes "gap s u o1 n1 o2 n2" "gap s u o2 n2 o3 n3" shows "gap s u o1 n1 o3 n3"
proof -
  have "s ! nat (o1 + i) = u ! nat (n1 + i)" if "0 \<le> i" "i < o3 - o1" for i
  proof (cases "i < o2 - o1")
    case False
    with that assms have "s ! nat (o2 + (i - (o2 - o1))) = u ! nat (n2 + (i - (o2 - o1)))"
      by (auto simp: gap_def)
    moreover have "o2 + (i - (o2 - o1)) = o1 + i" "n2 + (i - (o2 - o1)) = n1 + i"
      using assms by (auto simp: gap_def)
    ultimately show ?thesis by simp
  qed (use that assms in \<open>auto simp: gap_def\<close>)
  with assms show ?thesis by (auto simp: gap_def)
qed

text \<open>Part of a gap, and gaps one after the other through a third text.\<close>

lemma gap_split:
  assumes "gap s u o1 n1 o3 n3" "o1 \<le> o2" "o2 \<le> o3" "n2 = n1 + (o2 - o1)"
  shows "gap s u o1 n1 o2 n2" "gap s u o2 n2 o3 n3"
proof -
  show "gap s u o1 n1 o2 n2" using assms by (auto simp: gap_def)
  have "s ! nat (o2 + i) = u ! nat (n2 + i)" if "0 \<le> i" "i < o3 - o2" for i
  proof -
    have "\<forall>i \<in> {0..<o3 - o1}. s ! nat (o1 + i) = u ! nat (n1 + i)"
      using assms(1) by (simp add: gap_def)
    from bspec [OF this, of "o2 - o1 + i"] that assms(2)
    have "s ! nat (o1 + (o2 - o1 + i)) = u ! nat (n1 + (o2 - o1 + i))" by simp
    moreover have "o1 + (o2 - o1 + i) = o2 + i" "n1 + (o2 - o1 + i) = n2 + i" using assms(4) by simp_all
    ultimately show ?thesis by simp
  qed
  with assms show "gap s u o2 n2 o3 n3" by (auto simp: gap_def)
qed

lemma gap_compose:
  assumes "gap s t o1 m1 o2 m2" "gap t u m1 n1 m2 n2" shows "gap s u o1 n1 o2 n2"
  using assms by (auto simp: gap_def)

lemma path_bounds:
  "path s u o1 n1 p o2 n2 \<Longrightarrow> 0 \<le> o1 \<and> 0 \<le> n1 \<and> o1 \<le> o2 \<and> n1 \<le> n2 \<and> o2 \<le> int (length s) \<and> n2 \<le> int (length u)"
  by (induction p arbitrary: o1 n1) (force simp: gap_def)+

lemma path_snoc:
  "path s u o1 n1 (p @ [e]) o2 n2 \<longleftrightarrow>
     path s u o1 n1 p (rg_start (ed_old e)) (rg_start (ed_new e)) \<and>
     rg_start (ed_old e) \<le> rg_end (ed_old e) \<and> rg_start (ed_new e) \<le> rg_end (ed_new e) \<and>
     gap s u (rg_end (ed_old e)) (rg_end (ed_new e)) o2 n2"
  by (induction p arbitrary: o1 n1) auto

lemma path_gap: "path s u o1 n1 p o2 n2 \<Longrightarrow> gap s u o2 n2 o3 n3 \<Longrightarrow> path s u o1 n1 p o3 n3"
  by (induction p arbitrary: o1 n1) (auto intro: gap_trans)

lemma patch_ok_snoc:
  "patch_ok (p @ [e]) \<longleftrightarrow> patch_ok p \<and> \<not> edit_is_empty e \<and> (p \<noteq> [] \<longrightarrow> rg_end (ed_old (last p)) < rg_start (ed_old e))"
  by (induction p rule: patch_ok.induct) auto

text \<open>A patch under construction: it relates the prefixes up to the two positions.\<close>

definition upto :: "'c list \<Rightarrow> 'c list \<Rightarrow> patch \<Rightarrow> int \<Rightarrow> int \<Rightarrow> bool" where
  "upto s u p o1 n1 \<longleftrightarrow> path s u 0 0 p o1 n1 \<and> patch_ok p"

lemma push_upto:
  assumes C: "upto s u C o1 n1" and g: "gap s u o1 n1 o2 n2"
    and le: "o2 \<le> o3" "n2 \<le> n3" "o3 \<le> int (length s)" "n3 \<le> int (length u)"
  shows "upto s u (push C \<lparr>ed_old = span o2 o3, ed_new = span n2 n3\<rparr>) o3 n3"
proof -
  let ?e = "\<lparr>ed_old = span o2 o3, ed_new = span n2 n3\<rparr>"
  have pos: "0 \<le> o1" "0 \<le> n1" "o1 \<le> o2" "n1 \<le> n2" using g by (auto simp: gap_def)
  have C2: "path s u 0 0 C o2 n2" "patch_ok C" using C path_gap [OF _ g] by (auto simp: upto_def)
  have r: "gap s u o3 n3 o3 n3" using pos le by (intro gap_refl) auto
  consider "edit_is_empty ?e"
    | B l where "\<not> edit_is_empty ?e" "C = B @ [l]" "rg_end (ed_old l) \<ge> o2"
    | "\<not> edit_is_empty ?e" "C \<noteq> [] \<longrightarrow> rg_end (ed_old (last C)) < o2"
    by (cases C rule: rev_cases) force+
  then show ?thesis
  proof cases
    case 1
    then have "o3 = o2" "n3 = n2" by (auto simp: edit_is_empty_def span_def)
    with 1 C2 show ?thesis by (simp add: push_def upto_def)
  next
    case 2
    let ?l = "\<lparr>ed_old = (ed_old l)\<lparr>rg_end := o3\<rparr>, ed_new = (ed_new l)\<lparr>rg_end := n3\<rparr>\<rparr>"
    have l: "path s u 0 0 B (rg_start (ed_old l)) (rg_start (ed_new l))"
      "rg_start (ed_old l) \<le> rg_end (ed_old l)" "rg_start (ed_new l) \<le> rg_end (ed_new l)"
      "gap s u (rg_end (ed_old l)) (rg_end (ed_new l)) o2 n2"
      using C2(1) 2(2) by (auto simp: path_snoc)
    then have e: "rg_end (ed_old l) = o2" "rg_end (ed_new l) = n2" using 2(3) by (auto simp: gap_def)
    have "path s u 0 0 (B @ [?l]) o3 n3" using l e le r by (simp add: path_snoc)
    moreover have "patch_ok (B @ [?l])"
      using C2(2) 2(2) l e le by (auto simp: patch_ok_snoc edit_is_empty_def)
    moreover have "push C ?e = B @ [?l]" using 2 by (simp add: push_def span_def)
    ultimately show ?thesis by (simp add: upto_def)
  next
    case 3
    then have "push C ?e = C @ [?e]" by (auto simp: push_def span_def)
    with C2 3 le r show ?thesis by (simp add: upto_def path_snoc patch_ok_snoc) (simp add: span_def)
  qed
qed

text \<open>The first half of a step for two edits that touch brings both to the same place.\<close>

lemma compose_overshoot_ok:
  assumes p: "path s t o1 m (x # olds) (int (length s)) (int (length t))"
    and q: "path t u m n1 (y # news) (int (length t)) (int (length u))"
    and C: "upto s u C o1 n1"
    and touch: "rg_start (ed_old y) \<le> rg_end (ed_new x)" "rg_start (ed_new x) \<le> rg_end (ed_old y)"
    and r: "compose_overshoot x y C o1 n1 = (x', y', C', o2, n2)"
  shows "upto s u C' o2 n2 \<and> rg_start (ed_old x') = o2 \<and> rg_start (ed_new y') = n2 \<and>
    rg_start (ed_new x') = rg_start (ed_old y') \<and>
    rg_start (ed_old x') \<le> rg_end (ed_old x') \<and> rg_start (ed_new x') \<le> rg_end (ed_new x') \<and>
    rg_start (ed_old y') \<le> rg_end (ed_old y') \<and> rg_start (ed_new y') \<le> rg_end (ed_new y') \<and>
    rg_end (ed_old x') = rg_end (ed_old x) \<and> rg_end (ed_new x') = rg_end (ed_new x) \<and>
    rg_end (ed_old y') = rg_end (ed_old y) \<and> rg_end (ed_new y') = rg_end (ed_new y) \<and> 0 \<le> rg_start (ed_old y')"
    (is ?thesis)
proof -
  obtain xo xo' xn xn' yo yo' yn yn' where x: "x = \<lparr>ed_old = span xo xo', ed_new = span xn xn'\<rparr>"
    and y: "y = \<lparr>ed_old = span yo yo', ed_new = span yn yn'\<rparr>"
    by (metis span_def range.surjective text_edit.surjective old.unit.exhaust)
  have gx: "gap s t o1 m xo xn" "xo \<le> xo'" "xn \<le> xn'"
    and gy: "gap t u m n1 yo yn" "yo \<le> yo'" "yn \<le> yn'"
    and tc: "yo \<le> xn'" "xn \<le> yo'"
    using p q touch by (auto simp: x y span_def)
  have len: "xo' \<le> int (length s)" "yn' \<le> int (length u)"
    using p q path_bounds by (fastforce simp: x y span_def)+
  have dx: "xo - o1 = xn - m" and dy: "yo - m = yn - n1" and pos: "0 \<le> xn" "0 \<le> yo"
    using gx gy by (auto simp: gap_def)
  have ?thesis if lt: "xn < yo"
  proof -
    let ?na = "n1 + (xo - o1)" and ?oe = "min (xo + (yo - xn)) xo'"
    have "gap t u m n1 xn ?na" using gap_split(1) [OF gy(1), of xn ?na] lt dx gx(1) by (auto simp: gap_def)
    with gx(1) have g: "gap s u o1 n1 xo ?na" by (rule gap_compose)
    have new: "?na + (yo - xn) = yn" using dx dy by simp
    have "upto s u (push C \<lparr>ed_old = span xo ?oe, ed_new = span ?na yn\<rparr>) ?oe yn"
      using C g by (rule push_upto) (use gx(2) gy(3) lt len new in auto)
    with r lt new gx gy tc pos show ?thesis
      by (auto simp: compose_overshoot_def x y span_def Let_def)
  qed
  moreover have ?thesis if ge: "\<not> xn < yo"
  proof -
    let ?oa = "o1 + (yn - n1)" and ?ne = "min (yn + (xn - yo)) yn'"
    have "gap s t o1 m ?oa yo" using gap_split(1) [OF gx(1), of ?oa yo] ge dx dy gy(1) by (auto simp: gap_def)
    from gap_compose [OF this gy(1)] have g: "gap s u o1 n1 ?oa yn" .
    have old: "?oa + (xn - yo) = xo" using dx dy by simp
    have "upto s u (push C \<lparr>ed_old = span ?oa xo, ed_new = span yn ?ne\<rparr>) xo ?ne"
      using C g by (rule push_upto) (use gx(2) gy(3) ge len old in auto)
    with r ge old gx gy tc pos show ?thesis
      by (auto simp: compose_overshoot_def x y span_def Let_def)
  qed
  ultimately show ?thesis by blast
qed

text \<open>The two texts run together for a while before the next edit.\<close>

lemma path_advance:
  assumes "path s t o1 m1 p o3 m3" "0 \<le> d"
    and "p = [] \<Longrightarrow> o1 + d \<le> o3" "p \<noteq> [] \<Longrightarrow> o1 + d \<le> rg_start (ed_old (hd p))"
  shows "gap s t o1 m1 (o1 + d) (m1 + d)" "path s t (o1 + d) (m1 + d) p o3 m3"
  using assms by (cases p; auto dest: gap_split [of s t o1 m1 _ _ "o1 + d" "m1 + d"])+

text \<open>The three moves of the loop: the old edit alone, the new edit alone, both.\<close>

lemma compose_old_ok:
  assumes p: "path s t o1 m (x # olds) (int (length s)) (int (length t))"
    and q: "path t u m n1 news (int (length t)) (int (length u))"
    and C: "upto s u C o1 n1" and f: "old_first (x # olds) news"
  defines "c \<equiv> rg_start (ed_old x) - o1"
  defines "o2 \<equiv> o1 + c + old_len x" and "n2 \<equiv> n1 + c + new_len x"
  shows "upto s u (push C \<lparr>ed_old = span (o1 + c) o2, ed_new = span (n1 + c) n2\<rparr>) o2 n2"
    "path s t o2 (rg_end (ed_new x)) olds (int (length s)) (int (length t))"
    "path t u (rg_end (ed_new x)) n2 news (int (length t)) (int (length u))"
proof -
  have g: "gap s t o1 m (o1 + c) (m + c)" "m + c = rg_start (ed_new x)"
    and x: "old_len x \<ge> 0" "new_len x \<ge> 0" "o2 = rg_end (ed_old x)"
    and p2: "path s t (rg_end (ed_old x)) (rg_end (ed_new x)) olds (int (length s)) (int (length t))"
    using p by (auto simp: c_def o2_def gap_def old_len_def new_len_def)
  have e: "rg_end (ed_new x) = m + (c + new_len x)" using g(2) by (simp add: new_len_def)
  have c: "0 \<le> c" using g(1) by (auto simp: gap_def)
  have adv: "gap t u m n1 (m + d) (n1 + d)" "path t u (m + d) (n1 + d) news (int (length t)) (int (length u))"
    if "0 \<le> d" "d \<le> c + new_len x" for d
    using path_advance [OF q that(1)] that(2) f path_bounds [OF p2] e by (auto simp: old_first_def)
  from gap_compose [OF g(1) adv(1)] have "gap s u o1 n1 (o1 + c) (n1 + c)" using c x(2) by simp
  from push_upto [OF C this, of o2 n2] x path_bounds [OF p2] path_bounds [OF adv(2) [of "c + new_len x"]] c
  show "upto s u (push C \<lparr>ed_old = span (o1 + c) o2, ed_new = span (n1 + c) n2\<rparr>) o2 n2"
    by (simp add: o2_def n2_def add.assoc)
  show "path s t o2 (rg_end (ed_new x)) olds (int (length s)) (int (length t))" using p2 x(3) by simp
  show "path t u (rg_end (ed_new x)) n2 news (int (length t)) (int (length u))"
    using adv(2) [of "c + new_len x"] c x(2) by (simp add: e n2_def add.assoc)
qed

lemma compose_new_ok:
  assumes p: "path s t o1 m olds (int (length s)) (int (length t))"
    and q: "path t u m n1 (y # news) (int (length t)) (int (length u))"
    and C: "upto s u C o1 n1" and f: "new_first olds (y # news)"
  defines "c \<equiv> rg_start (ed_new y) - n1"
  defines "o2 \<equiv> o1 + c + old_len y" and "n2 \<equiv> n1 + c + new_len y"
  shows "upto s u (push C \<lparr>ed_old = span (o1 + c) o2, ed_new = span (n1 + c) n2\<rparr>) o2 n2"
    "path s t o2 (rg_end (ed_old y)) olds (int (length s)) (int (length t))"
    "path t u (rg_end (ed_old y)) n2 news (int (length t)) (int (length u))"
proof -
  have g: "gap t u m n1 (m + c) (n1 + c)" "m + c = rg_start (ed_old y)"
    and y: "old_len y \<ge> 0" "new_len y \<ge> 0" "n2 = rg_end (ed_new y)"
    and q2: "path t u (rg_end (ed_old y)) (rg_end (ed_new y)) news (int (length t)) (int (length u))"
    using q by (auto simp: c_def n2_def gap_def old_len_def new_len_def)
  have e: "rg_end (ed_old y) = m + (c + old_len y)" using g(2) by (simp add: old_len_def)
  have c: "0 \<le> c" using g(1) by (auto simp: gap_def)
  have room: "olds = [] \<Longrightarrow> o1 + d \<le> int (length s)" "olds \<noteq> [] \<Longrightarrow> o1 + d \<le> rg_start (ed_old (hd olds))"
    if "d \<le> c + old_len y" for d
    using that p f path_bounds [OF q2] e by (cases olds; auto simp: new_first_def gap_def)+
  have adv: "gap s t o1 m (o1 + d) (m + d)" "path s t (o1 + d) (m + d) olds (int (length s)) (int (length t))"
    if "0 \<le> d" "d \<le> c + old_len y" for d
    using path_advance [OF p that(1) room [OF that(2)]] by auto
  from gap_compose [OF adv(1) g(1)] have "gap s u o1 n1 (o1 + c) (n1 + c)" using c y(1) by simp
  from push_upto [OF C this, of o2 n2] y path_bounds [OF q2] path_bounds [OF adv(2) [of "c + old_len y"]] c
  show "upto s u (push C \<lparr>ed_old = span (o1 + c) o2, ed_new = span (n1 + c) n2\<rparr>) o2 n2"
    by (simp add: o2_def n2_def add.assoc)
  show "path t u (rg_end (ed_old y)) n2 news (int (length t)) (int (length u))" using q2 y(3) by simp
  show "path s t o2 (rg_end (ed_old y)) olds (int (length s)) (int (length t))"
    using adv(2) [of "c + old_len y"] c y(1) by (simp add: e o2_def add.assoc)
qed

lemma compose_touch_ok:
  assumes p: "path s t o1 m (x # olds) (int (length s)) (int (length t))"
    and q: "path t u m n1 (y # news) (int (length t)) (int (length u))"
    and C: "upto s u C o1 n1"
    and f: "\<not> old_first (x # olds) (y # news)" "\<not> new_first (x # olds) (y # news)"
  obtains olds' news' C' o3 m3 n3 where
    "compose_loop (x # olds) (y # news) C o1 n1 = compose_loop olds' news' C' o3 n3"
    "length olds' + length news' < length (x # olds) + length (y # news)"
    "path s t o3 m3 olds' (int (length s)) (int (length t))"
    "path t u m3 n3 news' (int (length t)) (int (length u))" "upto s u C' o3 n3"
proof -
  obtain x' y' C2 o2 n2 where r: "compose_overshoot x y C o1 n1 = (x', y', C2, o2, n2)"
    by (metis surj_pair)
  have touch: "rg_start (ed_old y) \<le> rg_end (ed_new x)" "rg_start (ed_new x) \<le> rg_end (ed_old y)"
    using f by (auto simp: old_first_def new_first_def)
  have k: "upto s u C2 o2 n2" "rg_start (ed_old x') = o2" "rg_start (ed_new y') = n2"
    "rg_start (ed_new x') = rg_start (ed_old y')"
    "rg_start (ed_old x') \<le> rg_end (ed_old x')" "rg_start (ed_new x') \<le> rg_end (ed_new x')"
    "rg_start (ed_old y') \<le> rg_end (ed_old y')" "rg_start (ed_new y') \<le> rg_end (ed_new y')"
    "rg_end (ed_old x') = rg_end (ed_old x)" "rg_end (ed_new x') = rg_end (ed_new x)"
    "rg_end (ed_old y') = rg_end (ed_old y)" "rg_end (ed_new y') = rg_end (ed_new y)" "0 \<le> rg_start (ed_old y')"
    using compose_overshoot_ok [OF p q C touch r] by auto
  have p2: "path s t (rg_end (ed_old x')) (rg_end (ed_new x')) olds (int (length s)) (int (length t))"
    and q2: "path t u (rg_end (ed_old y')) (rg_end (ed_new y')) news (int (length t)) (int (length u))"
    using p q k by auto
  note b = path_bounds [OF p2] path_bounds [OF q2]
  have pos: "0 \<le> o2" "0 \<le> n2" "o2 \<le> int (length s)" "n2 \<le> int (length u)" "0 \<le> rg_start (ed_old y')"
    using k(1,13) path_bounds [of s u 0 0 C2 o2 n2] by (auto simp: upto_def)
  show thesis
  proof (cases "rg_end (ed_new x') > rg_end (ed_old y')")
    case True
    let ?oe = "o2 + min (old_len x') (old_len y')" and ?ne = "n2 + new_len y'"
    let ?C = "push C2 \<lparr>ed_old = span o2 ?oe, ed_new = span n2 ?ne\<rparr>"
    let ?x = "\<lparr>ed_old = (ed_old x')\<lparr>rg_start := ?oe\<rparr>, ed_new = (ed_new x')\<lparr>rg_start := rg_end (ed_old y')\<rparr>\<rparr>"
    have ne: "?ne = rg_end (ed_new y')" and oe: "o2 \<le> ?oe" "?oe \<le> rg_end (ed_old x')"
      using k by (auto simp: new_len_def old_len_def)
    have up: "upto s u ?C ?oe ?ne"
      using k(1) by (rule push_upto) (use pos oe ne b k in \<open>auto intro!: gap_refl\<close>)
    have old: "path s t ?oe (rg_end (ed_old y')) (?x # olds) (int (length s)) (int (length t))"
      using p2 True oe pos b k by (auto intro!: gap_refl)
    have new: "path t u (rg_end (ed_old y')) ?ne news (int (length t)) (int (length u))" unfolding ne by (rule q2)
    have "compose_loop (x # olds) (y # news) C o1 n1 = compose_loop (?x # olds) news ?C ?oe ?ne"
      using f r True by (subst compose_loop.simps) (simp add: Let_def)
    then show thesis by (rule that [OF _ _ old new up]) simp
  next
    case False
    let ?oe = "o2 + old_len x'" and ?ne = "n2 + min (new_len x') (new_len y')"
    let ?C = "push C2 \<lparr>ed_old = span o2 ?oe, ed_new = span n2 ?ne\<rparr>"
    let ?y = "\<lparr>ed_old = (ed_old y')\<lparr>rg_start := rg_end (ed_new x')\<rparr>, ed_new = (ed_new y')\<lparr>rg_start := ?ne\<rparr>\<rparr>"
    have oe: "?oe = rg_end (ed_old x')" and ne: "n2 \<le> ?ne" "?ne \<le> rg_end (ed_new y')"
      using k by (auto simp: new_len_def old_len_def)
    have up: "upto s u ?C ?oe ?ne"
      using k(1) by (rule push_upto) (use pos oe ne b k in \<open>auto intro!: gap_refl\<close>)
    have new: "path t u (rg_end (ed_new x')) ?ne (?y # news) (int (length t)) (int (length u))"
      using q2 False ne pos b k by (auto intro!: gap_refl)
    have old: "path s t ?oe (rg_end (ed_new x')) olds (int (length s)) (int (length t))" unfolding oe by (rule p2)
    have "compose_loop (x # olds) (y # news) C o1 n1 = compose_loop olds (?y # news) ?C ?oe ?ne"
      using f r False by (subst compose_loop.simps) (simp add: Let_def)
    then show thesis by (rule that [OF _ _ old new up]) simp
  qed
qed

lemma compose_loop_ok:
  assumes "path s t o1 m olds (int (length s)) (int (length t))"
    and "path t u m n1 news (int (length t)) (int (length u))" and "upto s u C o1 n1"
  shows "upto s u (compose_loop olds news C o1 n1) (int (length s)) (int (length u))"
  using assms
proof (induction "length olds + length news" arbitrary: olds news C o1 m n1 rule: less_induct)
  case less
  consider "old_first olds news" | "\<not> old_first olds news" "new_first olds news"
    | x xs y ys where "\<not> old_first olds news" "\<not> new_first olds news" "olds = x # xs" "news = y # ys"
    | "olds = []" "news = []"
    by (cases olds; cases news) (auto simp: old_first_def new_first_def)
  then show ?case
  proof cases
    case 1
    then obtain x xs where x: "olds = x # xs" by (cases olds) (auto simp: old_first_def)
    note step = compose_old_ok [OF less.prems(1) [unfolded x] less.prems(2,3) 1 [unfolded x]]
    from less.hyps [OF _ step(2,3,1)] 1 x show ?thesis
      by (subst compose_loop.simps) (simp add: Let_def)
  next
    case 2
    then obtain y ys where y: "news = y # ys" by (cases news) (auto simp: new_first_def)
    note step = compose_new_ok [OF less.prems(1) less.prems(2) [unfolded y] less.prems(3) 2(2) [unfolded y]]
    from less.hyps [OF _ step(2,3,1)] 2 y show ?thesis
      by (subst compose_loop.simps) (simp add: Let_def)
  next
    case 3
    obtain olds' news' C' o3 m3 n3 where
      e: "compose_loop olds news C o1 n1 = compose_loop olds' news' C' o3 n3"
      "length olds' + length news' < length olds + length news"
      "path s t o3 m3 olds' (int (length s)) (int (length t))"
      "path t u m3 n3 news' (int (length t)) (int (length u))" "upto s u C' o3 n3"
      by (rule compose_touch_ok [OF less.prems [unfolded 3(3,4)] 3(1,2) [unfolded 3(3,4)], folded 3(3,4)])
    from less.hyps [OF e(2-5)] e(1) show ?thesis by simp
  next
    case 4
    with less.prems have "gap s u o1 n1 (int (length s)) (int (length u))"
      by (auto intro: gap_compose)
    then have "upto s u C (int (length s)) (int (length u))"
      using less.prems(3) path_gap unfolding upto_def by blast
    moreover have "compose_loop olds news C o1 n1 = C"
      using 4 by (subst compose_loop.simps) (simp add: old_first_def new_first_def)
    ultimately show ?thesis by simp
  qed
qed

lemma compose_ok:
  assumes "relates p s t" "relates q t u"
  shows "relates (compose p q) s u \<and> patch_ok (compose p q)"
proof -
  have "upto s u [] 0 0" by (simp add: upto_def gap_refl)
  from compose_loop_ok [OF assms(1,2) [unfolded relates_def] this] show ?thesis
    by (simp add: relates_def compose_def upto_def)
qed

section \<open>Shape and inversion\<close>

text \<open>What \<open>Patch::new\<close> asserts.\<close>

lemma path_separated: "path s u o1 n1 p o2 n2 \<Longrightarrow> patch_ok p \<Longrightarrow> separated p"
proof (induction p arbitrary: o1 n1 rule: separated.induct)
  case (1 e e' es)
  then have "path s u (rg_end (ed_old e)) (rg_end (ed_new e)) (e' # es) o2 n2" "patch_ok (e' # es)" by auto
  from 1(1) [OF this] 1(2,3) show ?case by (auto simp: gap_def)
qed auto

lemma gap_flip: "gap s u o1 n1 o2 n2 \<Longrightarrow> gap u s n1 o1 n2 o2"
  by (auto simp: gap_def)

lemma path_invert: "path s u o1 n1 p o2 n2 \<Longrightarrow> path u s n1 o1 (invert p) n2 o2"
  by (induction p arbitrary: o1 n1) (auto simp: invert_def intro: gap_flip)

lemma patch_ok_starts:
  assumes "path s u o1 n1 (e # es) o2 n2" "patch_ok (e # es)" "e' \<in> set es"
  shows "rg_end (ed_old e) < rg_start (ed_old e')"
  using assms
proof (induction es arbitrary: e o1 n1)
  case (Cons e2 es)
  show ?case
  proof (cases "e' = e2")
    case False
    with Cons.IH [of "rg_end (ed_old e)" "rg_end (ed_new e)" e2] Cons.prems
    have "rg_end (ed_old e2) < rg_start (ed_old e')" by (auto simp: neq_Nil_conv)
    with Cons.prems show ?thesis by auto
  qed (use Cons.prems in auto)
qed simp

section \<open>Positions\<close>

text \<open>Both lookups use the last edit that starts at or before the position.\<close>

fun edit_at :: "patch \<Rightarrow> int \<Rightarrow> text_edit option" where
  "edit_at [] pos = None"
| "edit_at (e # es) pos =
     (if pos < rg_start (ed_old e) then None
      else case edit_at es pos of Some e' \<Rightarrow> Some e' | None \<Rightarrow> Some e)"

lemma edit_at_nth:
  "edit_at p pos = (let k = length (takeWhile (\<lambda>e. rg_start (ed_old e) \<le> pos) p)
    in if k = 0 then None else get_edit p (k - 1))"
proof (induction p)
  case (Cons e es)
  show ?case
  proof (cases "pos < rg_start (ed_old e)")
    case False
    have "length (takeWhile (\<lambda>e. rg_start (ed_old e) \<le> pos) es) = 0 \<or>
        length (takeWhile (\<lambda>e. rg_start (ed_old e) \<le> pos) es) - 1 < length es"
      using length_takeWhile_le [of "\<lambda>e. rg_start (ed_old e) \<le> pos" es] by linarith
    with Cons False show ?thesis by (auto simp: Let_def get_edit_def nth_Cons')
  qed (simp add: Let_def)
qed simp

lemma takeWhile_start:
  fixes pos :: int
  assumes "path s u o1 n1 p o2 n2" "patch_ok p"
  defines "ix \<equiv> length (takeWhile (\<lambda>e. rg_start (ed_old e) < pos) p)"
  shows "length (takeWhile (\<lambda>e. rg_start (ed_old e) \<le> pos) p) =
    (if ix < length p \<and> rg_start (ed_old (p ! ix)) = pos then ix + 1 else ix)"
  using assms(1,2) unfolding ix_def
proof (induction p arbitrary: o1 n1)
  case (Cons e es)
  have "path s u (rg_end (ed_old e)) (rg_end (ed_new e)) es o2 n2" "patch_ok es"
    using Cons.prems by (auto elim: patch_ok.elims)
  note IH = Cons.IH [OF this]
  show ?case
  proof (cases "rg_start (ed_old e) = pos")
    case True
    with patch_ok_starts [OF Cons.prems] Cons.prems(1) have "takeWhile (\<lambda>e. rg_start (ed_old e) \<le> pos) es = []"
      by (cases es) force+
    with True show ?thesis by simp
  next
    case False
    with IH show ?thesis by (cases "rg_start (ed_old e) < pos") auto
  qed
qed simp

lemma search_edit_at:
  assumes "relates p s u" "patch_ok p"
  shows "(case search_start p pos of
        Inl ix \<Rightarrow> (case get_edit p ix of None \<Rightarrow> d | Some e \<Rightarrow> f e)
      | Inr ix \<Rightarrow> if ix = 0 then d else (case get_edit p (ix - 1) of None \<Rightarrow> d | Some e \<Rightarrow> f e))
    = (case edit_at p pos of None \<Rightarrow> d | Some e \<Rightarrow> f e)"
  using takeWhile_start [OF assms(1) [unfolded relates_def] assms(2), of pos]
  unfolding edit_at_nth search_start_def by (auto simp: Let_def)

lemma old_to_new_edit_at:
  assumes "relates p s u" "patch_ok p"
  shows "old_to_new p pos = (case edit_at p pos of
      None \<Rightarrow> pos
    | Some e \<Rightarrow> if pos \<ge> rg_end (ed_old e) then rg_end (ed_new e) + (pos - rg_end (ed_old e)) else rg_start (ed_new e))"
  unfolding old_to_new_def Let_def by (rule search_edit_at [OF assms])

lemma edit_for_old_position_edit_at:
  assumes "relates p s u" "patch_ok p"
  shows "edit_for_old_position p pos = (case edit_at p pos of
      None \<Rightarrow> \<lparr>ed_old = span pos pos, ed_new = span pos pos\<rparr>
    | Some e \<Rightarrow> if pos > rg_end (ed_old e)
        then \<lparr>ed_old = span pos pos, ed_new = span (rg_end (ed_new e) + (pos - rg_end (ed_old e))) (rg_end (ed_new e) + (pos - rg_end (ed_old e)))\<rparr>
        else e)"
  unfolding edit_for_old_position_def Let_def by (rule search_edit_at [OF assms])

text \<open>The translation as a walk along the patch.\<close>

fun walk :: "int \<Rightarrow> int \<Rightarrow> patch \<Rightarrow> int \<Rightarrow> int" where
  "walk o1 n1 [] pos = n1 + (pos - o1)"
| "walk o1 n1 (e # es) pos =
     (if pos < rg_start (ed_old e) then n1 + (pos - o1)
      else if pos < rg_end (ed_old e) then rg_start (ed_new e)
      else walk (rg_end (ed_old e)) (rg_end (ed_new e)) es pos)"

lemma edit_at_mem: "edit_at p pos = Some e \<Longrightarrow> e \<in> set p \<and> rg_start (ed_old e) \<le> pos"
  by (induction p) (auto split: if_splits option.splits)

lemma walk_edit_at:
  assumes "path s u o1 n1 p o2 n2" "patch_ok p"
  shows "walk o1 n1 p pos = (case edit_at p pos of
      Some e \<Rightarrow> if pos \<ge> rg_end (ed_old e) then rg_end (ed_new e) + (pos - rg_end (ed_old e)) else rg_start (ed_new e)
    | None \<Rightarrow> n1 + (pos - o1))"
  using assms
proof (induction p arbitrary: o1 n1)
  case (Cons e es)
  have es: "path s u (rg_end (ed_old e)) (rg_end (ed_new e)) es o2 n2" "patch_ok es"
    using Cons.prems by (auto elim: patch_ok.elims)
  have "edit_at es pos = None" if "pos < rg_end (ed_old e)"
  proof (cases "edit_at es pos")
    case (Some e')
    with edit_at_mem [OF Some] patch_ok_starts [OF Cons.prems, of e'] that show ?thesis by simp
  qed
  with Cons.IH [OF es] show ?case by (auto split: option.splits)
qed simp

lemma old_to_new_walk: "relates p s u \<Longrightarrow> patch_ok p \<Longrightarrow> old_to_new p pos = walk 0 0 p pos"
  by (simp add: old_to_new_edit_at walk_edit_at relates_def cong: option.case_cong)

definition inside :: "patch \<Rightarrow> int \<Rightarrow> bool" where
  "inside p pos \<longleftrightarrow> (\<exists>e \<in> set p. rg_start (ed_old e) \<le> pos \<and> pos < rg_end (ed_old e))"

lemma gap_nth: "gap s u o1 n1 o2 n2 \<Longrightarrow> o1 \<le> pos \<Longrightarrow> pos < o2 \<Longrightarrow>
   s ! nat pos = u ! nat (n1 + (pos - o1)) \<and> n1 \<le> n1 + (pos - o1) \<and> n1 + (pos - o1) < n2"
  by (auto simp: gap_def dest!: bspec [of _ _ "pos - o1"])

lemma walk_same_char:
  assumes "path s u o1 n1 p o2 n2" "o1 \<le> pos" "pos < o2" "\<not> inside p pos"
  shows "s ! nat pos = u ! nat (walk o1 n1 p pos) \<and> n1 \<le> walk o1 n1 p pos \<and> walk o1 n1 p pos < n2"
  using assms
proof (induction p arbitrary: o1 n1)
  case Nil
  then show ?case using gap_nth [of s u o1 n1 o2 n2 pos] by simp
next
  case (Cons e es)
  have g: "gap s u o1 n1 (rg_start (ed_old e)) (rg_start (ed_new e))"
    and es: "path s u (rg_end (ed_old e)) (rg_end (ed_new e)) es o2 n2"
    and ne: "rg_start (ed_new e) \<le> rg_end (ed_new e)" using Cons.prems(1) by auto
  show ?case
  proof (cases "pos < rg_start (ed_old e)")
    case True
    with gap_nth [OF g, of pos] Cons.prems path_bounds [OF es] ne show ?thesis by auto
  next
    case False
    then have "rg_end (ed_old e) \<le> pos" using Cons.prems(4) by (auto simp: inside_def)
    moreover have "\<not> inside es pos" using Cons.prems(4) by (auto simp: inside_def)
    moreover have "n1 \<le> rg_start (ed_new e)" using g by (auto simp: gap_def)
    ultimately show ?thesis using Cons.IH [OF es _ Cons.prems(3)] False ne by auto
  qed
qed

lemma walk_mono:
  assumes "path s u o1 n1 p o2 n2" "o1 \<le> i" "i \<le> j" "patch_ok p"
  shows "n1 \<le> walk o1 n1 p i \<and> walk o1 n1 p i \<le> walk o1 n1 p j"
  using assms
proof (induction p arbitrary: o1 n1 i j)
  case (Cons e es)
  have g: "gap s u o1 n1 (rg_start (ed_old e)) (rg_start (ed_new e))"
    and es: "path s u (rg_end (ed_old e)) (rg_end (ed_new e)) es o2 n2"
    and le: "rg_start (ed_old e) \<le> rg_end (ed_old e)" "rg_start (ed_new e) \<le> rg_end (ed_new e)"
    and ok: "patch_ok es" using Cons.prems(1,4) by (auto elim: patch_ok.elims)
  have d: "rg_start (ed_old e) - o1 = rg_start (ed_new e) - n1" "n1 \<le> rg_start (ed_new e)" using g by (auto simp: gap_def)
  have w: "rg_end (ed_new e) \<le> walk (rg_end (ed_old e)) (rg_end (ed_new e)) es k" if "rg_end (ed_old e) \<le> k" for k
    using Cons.IH [OF es that order.refl ok] by simp
  show ?case
    using Cons.IH [OF es _ Cons.prems(3) ok] w [of j] w [of i] d le Cons.prems(2,3) by auto
qed simp

lemma edit_at_touching:
  assumes "path s u o1 n1 p o2 n2" "patch_ok p" "e \<in> set p" "rg_start (ed_old e) \<le> pos" "pos \<le> rg_end (ed_old e)"
  shows "edit_at p pos = Some e"
  using assms
proof (induction p arbitrary: o1 n1)
  case (Cons e' es)
  have es: "path s u (rg_end (ed_old e')) (rg_end (ed_new e')) es o2 n2" "patch_ok es"
    using Cons.prems by (auto elim: patch_ok.elims)
  note after = patch_ok_starts [OF Cons.prems(1,2)]
  show ?case
  proof (cases "e = e'")
    case True
    have "edit_at es pos = None"
      using edit_at_mem [of es pos] after Cons.prems(5) True by (cases "edit_at es pos") force+
    with True Cons.prems(4) show ?thesis by simp
  next
    case False
    with Cons.prems(3) have "e \<in> set es" by simp
    with Cons.IH [OF es this Cons.prems(4,5)] after [OF this] Cons.prems(1,4) show ?thesis by auto
  qed
qed simp

lemma edit_for_old_position_ok:
  assumes "relates p s u" "patch_ok p"
  shows "(\<exists>e \<in> set p. rg_start (ed_old e) \<le> pos \<and> pos \<le> rg_end (ed_old e) \<and> edit_for_old_position p pos = e) \<or>
    ((\<forall>e \<in> set p. pos < rg_start (ed_old e) \<or> rg_end (ed_old e) < pos) \<and>
     edit_for_old_position p pos =
       \<lparr>ed_old = span pos pos, ed_new = span (old_to_new p pos) (old_to_new p pos)\<rparr>)"
proof (cases "\<exists>e \<in> set p. rg_start (ed_old e) \<le> pos \<and> pos \<le> rg_end (ed_old e)")
  case True
  then obtain e where e: "e \<in> set p" "rg_start (ed_old e) \<le> pos" "pos \<le> rg_end (ed_old e)" by blast
  from edit_at_touching [OF assms(1) [unfolded relates_def] assms(2) e] e show ?thesis
    by (auto simp: edit_for_old_position_edit_at [OF assms])
next
  case False
  then have out: "\<forall>e \<in> set p. pos < rg_start (ed_old e) \<or> rg_end (ed_old e) < pos" by (auto simp: not_le)
  show ?thesis
  proof (cases "edit_at p pos")
    case None
    with out show ?thesis by (simp add: edit_for_old_position_edit_at [OF assms] old_to_new_edit_at [OF assms])
  next
    case (Some e)
    with edit_at_mem [OF Some] out have "rg_end (ed_old e) < pos" by auto
    with Some out show ?thesis
      by (simp add: edit_for_old_position_edit_at [OF assms] old_to_new_edit_at [OF assms])
  qed
qed

section \<open>Properties\<close>

text \<open>
  C16: if one patch turns a text into a second and another the second into a third, their
  composition turns the first into the third: outside its edits the two texts agree. Its
  edits are nonempty and apart, as \<open>Patch::new\<close> asserts.
\<close>

theorem compose_relates:
  assumes "relates p s t" "relates q t u"
  shows "relates (compose p q) s u \<and> patch_ok (compose p q) \<and> patch_new (compose p q) = Some (compose p q)"
  using compose_ok [OF assms] path_separated [of s u] by (auto simp: relates_def patch_new_def)

definition sample_edit :: "int \<Rightarrow> int \<Rightarrow> int \<Rightarrow> int \<Rightarrow> text_edit" where
  "sample_edit a b c d = \<lparr>ed_old = span a b, ed_new = span c d\<rparr>"

lemma sample_relates:
  "relates [sample_edit 1 2 1 3] ''abc'' ''axyc''" "relates [sample_edit 2 4 2 2] ''axyc'' ''ax''"
proof -
  have "i = 0" if "0 \<le> i" "i < 1" for i :: int using that by simp
  moreover have "i = 0 \<or> i = 1" if "0 \<le> i" "i < 2" for i :: int using that by auto
  ultimately show "relates [sample_edit 1 2 1 3] ''abc'' ''axyc''" "relates [sample_edit 2 4 2 2] ''axyc'' ''ax''"
    by (fastforce simp: relates_def sample_edit_def span_def gap_def)+
qed

lemma sample_inside: "\<not> inside [sample_edit 1 2 1 3] 2" "patch_ok [sample_edit 1 2 1 3]"
  by (simp_all add: inside_def sample_edit_def span_def edit_is_empty_def)

theorem compose_relates_witness:
  "relates (compose [sample_edit 1 2 1 3] [sample_edit 2 4 2 2]) ''abc'' ''ax''"
  using compose_relates [OF sample_relates] by blast

text \<open>
  C32: inverting a patch exchanges its two texts, and inverting twice gives the patch back.
\<close>

theorem invert_swaps_texts:
  assumes "relates p s u"
  shows "relates (invert p) u s \<and> invert (invert p) = p"
  using path_invert assms by (auto simp: relates_def invert_def o_def)

theorem invert_swaps_texts_witness:
  "relates (invert [sample_edit 1 2 1 3]) ''axyc'' ''abc''"
  using invert_swaps_texts [OF sample_relates(1)] by blast

text \<open>
  C33: translating positions through a patch never reverses their order, and a position outside the
  edits lands on the same character of the new text.
\<close>

theorem old_to_new_tracks_text:
  assumes "relates p s u" "patch_ok p" "0 \<le> i" "i \<le> j"
  shows "0 \<le> old_to_new p i \<and> old_to_new p i \<le> old_to_new p j \<and>
    (i < int (length s) \<and> \<not> inside p i \<longrightarrow>
      old_to_new p i < int (length u) \<and> s ! nat i = u ! nat (old_to_new p i))"
  using walk_mono [of s u 0 0 p "int (length s)" "int (length u)" i j]
    walk_same_char [of s u 0 0 p "int (length s)" "int (length u)" i] assms
  unfolding old_to_new_walk [OF assms(1,2)] by (simp add: relates_def)

theorem old_to_new_tracks_text_witness:
  "old_to_new [sample_edit 1 2 1 3] 2 < int (length ''axyc'') \<and> ''abc'' ! 2 = ''axyc'' ! nat (old_to_new [sample_edit 1 2 1 3] 2)"
  using old_to_new_tracks_text [OF sample_relates(1) sample_inside(2), of 2 2] sample_inside(1) by simp

text \<open>
  The edit reported for an old position is the one that touches it (its end included), or, when
  none does, an empty edit from the position to its translation.
\<close>

theorem edit_for_position:
  assumes "relates p s u" "patch_ok p"
  shows "(\<exists>e \<in> set p. rg_start (ed_old e) \<le> pos \<and> pos \<le> rg_end (ed_old e) \<and> edit_for_old_position p pos = e) \<or>
    ((\<forall>e \<in> set p. pos < rg_start (ed_old e) \<or> rg_end (ed_old e) < pos) \<and>
     edit_for_old_position p pos =
       \<lparr>ed_old = span pos pos, ed_new = span (old_to_new p pos) (old_to_new p pos)\<rparr>)"
  by (rule edit_for_old_position_ok [OF assms])

theorem edit_for_position_witness:
  "edit_for_old_position [sample_edit 1 2 1 3] 2 = sample_edit 1 2 1 3"
  using edit_for_position [OF sample_relates(1) sample_inside(2), of 2] by (auto simp: sample_edit_def span_def)

end
