(* ===== verification/Subscription.thy ===== *)
theory Subscription
  imports Patch
begin

text \<open>
  Subscriptions to the edits of a buffer (\<open>crates/text/src/subscription.rs\<close>). A topic holds weak references to the patches of its
  subscriptions; the store maps the address of a subscription's patch to it while the
  subscription is alive, and to \<open>None\<close> once it was dropped.
\<close>

record topic =
  tp_subscriptions :: "nat list"
  tp_store :: "nat \<Rightarrow> patch option"
  tp_next :: nat

definition topic_new :: topic where
  "topic_new = \<lparr>tp_subscriptions = [], tp_store = (\<lambda>_. None), tp_next = 0\<rparr>"

text \<open>\<open>subscribe\<close> returns the address of the new, empty patch.\<close>

definition subscribe :: "topic \<Rightarrow> nat \<times> topic" where
  "subscribe t =
     (tp_next t,
      t\<lparr>tp_subscriptions := tp_subscriptions t @ [tp_next t],
        tp_store := (tp_store t)(tp_next t \<mapsto> []), tp_next := tp_next t + 1\<rparr>)"

text \<open>\<open>retain\<close>: compose the edits onto every live patch, forget the dead references.\<close>

fun publish_loop :: "patch \<Rightarrow> nat list \<Rightarrow> (nat \<Rightarrow> patch option) \<Rightarrow> nat list \<times> (nat \<Rightarrow> patch option)" where
  "publish_loop edits [] store = ([], store)"
| "publish_loop edits (i # ids) store =
     (case store i of
       Some p \<Rightarrow> (let (kept, store') = publish_loop edits ids (store(i \<mapsto> compose p edits)) in (i # kept, store'))
     | None \<Rightarrow> publish_loop edits ids store)"

definition publish :: "patch \<Rightarrow> topic \<Rightarrow> topic" where
  "publish edits t =
     (let (kept, store) = publish_loop edits (tp_subscriptions t) (tp_store t)
      in t\<lparr>tp_subscriptions := kept, tp_store := store\<rparr>)"

text \<open>\<open>consume\<close> takes the patch and leaves the empty one; dropping ends the life of a subscription.\<close>

definition consume :: "nat \<Rightarrow> topic \<Rightarrow> patch option \<times> topic" where
  "consume i t =
     (case tp_store t i of
       Some p \<Rightarrow> (Some p, t\<lparr>tp_store := (tp_store t)(i \<mapsto> [])\<rparr>)
     | None \<Rightarrow> (None, t))"

definition drop_subscription :: "nat \<Rightarrow> topic \<Rightarrow> topic" where
  "drop_subscription i t = t\<lparr>tp_store := (tp_store t)(i := None)\<rparr>"

text \<open>
  A buffer that publishes its edits, with the text each subscription last saw: the steps of
  the world and the states they reach from the empty topic.
\<close>

record 'c world =
  w_text :: "'c list"
  w_topic :: topic
  w_seen :: "nat \<Rightarrow> 'c list"

inductive topic_step :: "'c world \<Rightarrow> 'c world \<Rightarrow> bool" where
  step_subscribe: "subscribe (w_topic w) = (i, t) \<Longrightarrow>
    topic_step w (w\<lparr>w_topic := t, w_seen := (w_seen w)(i := w_text w)\<rparr>)"
| step_edit: "relates edits (w_text w) new_text \<Longrightarrow>
    topic_step w (w\<lparr>w_text := new_text, w_topic := publish edits (w_topic w)\<rparr>)"
| step_consume: "consume i (w_topic w) = (Some p, t) \<Longrightarrow>
    topic_step w (w\<lparr>w_topic := t, w_seen := (w_seen w)(i := w_text w)\<rparr>)"
| step_dropped: "topic_step w (w\<lparr>w_topic := drop_subscription i (w_topic w)\<rparr>)"

inductive topic_reachable :: "'c list \<Rightarrow> 'c world \<Rightarrow> bool" for init where
  start: "topic_reachable init \<lparr>w_text = init, w_topic = topic_new, w_seen = (\<lambda>_. [])\<rparr>"
| step: "topic_reachable init w \<Longrightarrow> topic_step w w' \<Longrightarrow> topic_reachable init w'"

definition topic_inv :: "'c world \<Rightarrow> bool" where
  "topic_inv w \<longleftrightarrow>
     (\<forall>i p. tp_store (w_topic w) i = Some p \<longrightarrow>
        i \<in> set (tp_subscriptions (w_topic w)) \<and> i < tp_next (w_topic w) \<and>
        relates p (w_seen w i) (w_text w) \<and> patch_ok p) \<and>
     distinct (tp_subscriptions (w_topic w)) \<and>
     (\<forall>i \<in> set (tp_subscriptions (w_topic w)). i < tp_next (w_topic w))"

lemma relates_refl: "relates [] s s"
  by (simp add: relates_def gap_def)

lemma publish_loop_ok:
  "publish_loop edits ids store = (kept, store') \<Longrightarrow> distinct ids \<Longrightarrow>
   kept = filter (\<lambda>i. store i \<noteq> None) ids \<and>
   store' = (\<lambda>i. if i \<in> set ids then map_option (\<lambda>p. compose p edits) (store i) else store i)"
proof (induction edits ids store arbitrary: kept store' rule: publish_loop.induct)
  case (2 edits i ids store)
  show ?case
  proof (cases "store i")
    case None
    with 2(3) have r: "publish_loop edits ids store = (kept, store')" by simp
    from 2(1) [OF None r] 2(4) have "kept = filter (\<lambda>i. store i \<noteq> None) ids"
      "store' = (\<lambda>j. if j \<in> set ids then map_option (\<lambda>p. compose p edits) (store j) else store j)" by auto
    with None show ?thesis by (auto intro!: ext)
  next
    case (Some p)
    obtain k s where r: "publish_loop edits ids (store(i \<mapsto> compose p edits)) = (k, s)" by force
    from 2(2) [OF Some r] 2(3,4) r Some
    have "kept = i # filter (\<lambda>j. (store(i \<mapsto> compose p edits)) j \<noteq> None) ids"
      and s: "store' = (\<lambda>j. if j \<in> set ids then map_option (\<lambda>p. compose p edits) ((store(i \<mapsto> compose p edits)) j)
        else (store(i \<mapsto> compose p edits)) j)" by auto
    moreover have "filter (\<lambda>j. (store(i \<mapsto> compose p edits)) j \<noteq> None) ids = filter (\<lambda>j. store j \<noteq> None) ids"
      using 2(4) by (intro filter_cong) auto
    ultimately show ?thesis using Some 2(4) by (auto simp: fun_eq_iff)
  qed
qed auto

lemma topic_step_inv:
  assumes "topic_inv w" "topic_step w w'" shows "topic_inv w'"
  using assms(2)
proof (cases rule: topic_step.cases)
  case (step_subscribe i t)
  then show ?thesis using assms(1)
    by (auto simp: topic_inv_def subscribe_def relates_refl split: if_splits simp: less_Suc_eq)
next
  case (step_edit edits new_text)
  let ?T = "w_topic w"
  have inv: "i \<in> set (tp_subscriptions ?T) \<and> i < tp_next ?T \<and> relates p (w_seen w i) (w_text w) \<and> patch_ok p"
    if "tp_store ?T i = Some p" for i p using that assms(1) by (simp add: topic_inv_def)
  have ids: "distinct (tp_subscriptions ?T)" "\<forall>i \<in> set (tp_subscriptions ?T). i < tp_next ?T"
    using assms(1) by (simp_all add: topic_inv_def)
  obtain kept store where r: "publish_loop edits (tp_subscriptions ?T) (tp_store ?T) = (kept, store)" by force
  then have T: "publish edits ?T = ?T\<lparr>tp_subscriptions := kept, tp_store := store\<rparr>" by (simp add: publish_def)
  have kept: "kept = filter (\<lambda>i. tp_store ?T i \<noteq> None) (tp_subscriptions ?T)"
    and store: "store = (\<lambda>i. if i \<in> set (tp_subscriptions ?T) then map_option (\<lambda>p. compose p edits) (tp_store ?T i) else tp_store ?T i)"
    using publish_loop_ok [OF r ids(1)] by auto
  have "i \<in> set kept \<and> i < tp_next ?T \<and> relates p (w_seen w i) new_text \<and> patch_ok p" if p: "store i = Some p" for i p
  proof -
    from p inv obtain q where q: "tp_store ?T i = Some q" "p = compose q edits"
      unfolding store by (auto split: if_splits)
    with inv [OF q(1)] compose_ok [OF _ step_edit(2)] show ?thesis by (auto simp: kept)
  qed
  with step_edit(1) T kept ids show ?thesis by (simp add: topic_inv_def)
next
  case (step_consume i p t)
  then show ?thesis using assms(1)
    by (auto simp: topic_inv_def consume_def relates_refl split: option.splits if_splits)
next
  case (step_dropped i)
  then show ?thesis using assms(1)
    by (auto simp: topic_inv_def drop_subscription_def split: if_splits)
qed

lemma topic_reachable_inv: "topic_reachable init w \<Longrightarrow> topic_inv w"
proof (induction rule: topic_reachable.induct)
  case start
  then show ?case by (simp add: topic_inv_def topic_new_def)
next
  case (step w w')
  then show ?case using topic_step_inv by blast
qed

section \<open>Properties\<close>

text \<open>
  C27: in every state a topic and its buffer can reach, consuming a live subscription yields a patch
  that turns the text the subscription last saw into the current one, whatever was
  published, consumed or dropped in between.
\<close>

theorem consume_catches_up:
  assumes "topic_reachable init w" "tp_store (w_topic w) i \<noteq> None"
  shows "\<exists>p t. consume i (w_topic w) = (Some p, t) \<and> relates p (w_seen w i) (w_text w) \<and> patch_ok p \<and>
    tp_store t i = Some []"
  using topic_reachable_inv [OF assms(1)] assms(2) by (auto simp: topic_inv_def consume_def)

theorem consume_catches_up_witness:
  "\<exists>p t. consume 0 (publish [\<lparr>ed_old = span 0 0, ed_new = span 0 1\<rparr>] (snd (subscribe topic_new))) = (Some p, t) \<and>
    relates p ''b'' ''ab''"
proof -
  let ?e = "[\<lparr>ed_old = span 0 0, ed_new = span 0 1\<rparr>]"
  let ?w0 = "\<lparr>w_text = ''b'', w_topic = topic_new, w_seen = (\<lambda>_. [])\<rparr>"
  let ?w1 = "?w0\<lparr>w_topic := snd (subscribe topic_new), w_seen := (w_seen ?w0)(0 := w_text ?w0)\<rparr>"
  let ?w2 = "?w1\<lparr>w_text := ''ab'', w_topic := publish ?e (w_topic ?w1)\<rparr>"
  have "topic_reachable ''b'' ?w0" by (rule topic_reachable.start)
  moreover have "topic_step ?w0 ?w1"
    using step_subscribe [of ?w0 0 "snd (subscribe topic_new)"] by (simp add: subscribe_def topic_new_def)
  moreover have "i = 0" if "0 \<le> i" "i < 1" for i :: int using that by simp
  then have "relates ?e (w_text ?w1) ''ab''" by (fastforce simp: relates_def span_def gap_def)
  then have "topic_step ?w1 ?w2" by (rule step_edit)
  ultimately have "topic_reachable ''b'' ?w2" by (meson topic_reachable.step)
  moreover have "tp_store (w_topic ?w2) 0 \<noteq> None"
    by (simp add: publish_def subscribe_def topic_new_def)
  ultimately show ?thesis using consume_catches_up [of "''b''" ?w2 0] by auto
qed

end
