(* ===== verification/History.thy ===== *)
theory History
  imports TreeMap UndoMap
begin

text \<open>
  The undo history of a buffer (\<open>History\<close> in \<open>crates/text/src/text.rs\<close>): transactions, their
  nesting and grouping, and the undo and redo stacks. The last element of a stack is its top.
  An instant is a number of nanoseconds; \<open>Instant - Instant\<close> saturates at zero, which is the
  subtraction of natural numbers. A failed \<open>assert!\<close> or \<open>unwrap\<close> is \<open>None\<close>. The text is a list
  of units of a type the model leaves open.
\<close>

section \<open>Definitions\<close>

record 'c edit_operation =
  eo_timestamp :: lamport
  eo_version :: global
  eo_ranges :: "(nat \<times> nat) list"
  eo_new_text :: "'c list list"

datatype 'c operation = Edit "'c edit_operation" | Undo undo_operation

fun op_timestamp :: "'c operation \<Rightarrow> lamport" where
  "op_timestamp (Edit edit) = eo_timestamp edit"
| "op_timestamp (Undo undo) = uo_timestamp undo"

definition op_replica_id :: "'c operation \<Rightarrow> replica_id" where
  "op_replica_id op = lamport_replica (op_timestamp op)"

fun as_edit :: "'c operation \<Rightarrow> 'c edit_operation option" where
  "as_edit (Edit edit) = Some edit"
| "as_edit _ = None"

fun is_edit :: "'c operation \<Rightarrow> bool" where
  "is_edit (Edit _) = True"
| "is_edit _ = False"

type_synonym transaction_id = lamport

record transaction =
  tr_id :: transaction_id
  tr_edit_ids :: "lamport list"
  tr_start :: global

definition merge_in :: "transaction \<Rightarrow> transaction \<Rightarrow> transaction" where
  "merge_in self other = self\<lparr>tr_edit_ids := tr_edit_ids self @ tr_edit_ids other\<rparr>"

record history_entry =
  he_transaction :: transaction
  he_first_edit_at :: nat
  he_last_edit_at :: nat
  he_suppress_grouping :: bool

definition transaction_id :: "history_entry \<Rightarrow> transaction_id" where
  "transaction_id e = tr_id (he_transaction e)"

definition entry_edit_ids :: "history_entry \<Rightarrow> lamport list" where
  "entry_edit_ids e = tr_edit_ids (he_transaction e)"

record 'c history =
  hi_base_text :: "'c list"
  hi_operations :: "(lamport, 'c operation) tree_map"
  hi_undo_stack :: "history_entry list"
  hi_redo_stack :: "history_entry list"
  hi_transaction_depth :: nat
  hi_group_interval :: nat

definition history_new :: "'c list \<Rightarrow> 'c history" where
  "history_new base_text =
     \<lparr>hi_base_text = base_text, hi_operations = tm_empty, hi_undo_stack = [], hi_redo_stack = [],
      hi_transaction_depth = 0, hi_group_interval = 300 * 10 ^ 6\<rparr>"

definition history_push :: "'c operation \<Rightarrow> 'c history \<Rightarrow> 'c history option" where
  "history_push op h = do {
     ops \<leftarrow> tm_insert (op_timestamp op) op (hi_operations h);
     Some (h\<lparr>hi_operations := ops\<rparr>)
   }"

text \<open>A fresh entry on the undo stack, as three of the operations push it.\<close>

definition push_entry :: "transaction \<Rightarrow> nat \<Rightarrow> 'c history \<Rightarrow> 'c history" where
  "push_entry t now h =
     h\<lparr>hi_undo_stack := hi_undo_stack h @
        [\<lparr>he_transaction = t, he_first_edit_at = now, he_last_edit_at = now, he_suppress_grouping = False\<rparr>]\<rparr>"

text \<open>The result is the identifier, the clock and the history.\<close>

definition start_transaction ::
  "global \<Rightarrow> nat \<Rightarrow> lamport \<Rightarrow> 'c history \<Rightarrow> transaction_id option \<times> lamport \<times> 'c history" where
  "start_transaction start now clock h =
     (let h = h\<lparr>hi_transaction_depth := hi_transaction_depth h + 1\<rparr>
      in if hi_transaction_depth h = 1 then
           let (tid, clock) = tick clock
           in (Some tid, clock, push_entry \<lparr>tr_id = tid, tr_edit_ids = [], tr_start = start\<rparr> now h)
         else (None, clock, h))"

definition end_transaction :: "nat \<Rightarrow> 'c history \<Rightarrow> (history_entry option \<times> 'c history) option" where
  "end_transaction now h =
     (if hi_transaction_depth h = 0 then None
      else let h = h\<lparr>hi_transaction_depth := hi_transaction_depth h - 1\<rparr>
        in if hi_transaction_depth h = 0 then do {
             (rest, entry) \<leftarrow> split_last (hi_undo_stack h);
             (if entry_edit_ids entry = [] then Some (None, h\<lparr>hi_undo_stack := rest\<rparr>)
              else let entry = entry\<lparr>he_last_edit_at := now\<rparr>
                in Some (Some entry, h\<lparr>hi_redo_stack := [], hi_undo_stack := rest @ [entry]\<rparr>))
           }
           else Some (None, h))"

text \<open>
  The loop of \<open>group\<close> walks the stack from the top: \<open>entry\<close> is the current entry, the list
  holds those below it.
\<close>

fun group_count :: "nat \<Rightarrow> history_entry \<Rightarrow> history_entry list \<Rightarrow> nat" where
  "group_count interval entry [] = 0"
| "group_count interval entry (prev_entry # below) =
     (if \<not> he_suppress_grouping prev_entry \<and> he_first_edit_at entry - he_last_edit_at prev_entry < interval
      then 1 + group_count interval prev_entry below else 0)"

definition group_trailing :: "nat \<Rightarrow> 'c history \<Rightarrow> (transaction_id option \<times> 'c history) option" where
  "group_trailing n h =
     (if length (hi_undo_stack h) < n then None
      else let new_len = length (hi_undo_stack h) - n;
               to_keep = take new_len (hi_undo_stack h);
               to_merge = drop new_len (hi_undo_stack h);
               kept = (case split_last to_keep of
                   None \<Rightarrow> to_keep
                 | Some (init, last_entry) \<Rightarrow> init @
                     [last_entry\<lparr>he_transaction := (he_transaction last_entry)\<lparr>tr_edit_ids :=
                          entry_edit_ids last_entry @ concat (map entry_edit_ids to_merge)\<rparr>,
                        he_last_edit_at := (case split_last to_merge of
                            None \<Rightarrow> he_last_edit_at last_entry | Some (_, e) \<Rightarrow> he_last_edit_at e)\<rparr>])
        in Some (map_option transaction_id (list_last kept), h\<lparr>hi_undo_stack := kept\<rparr>))"

definition group :: "'c history \<Rightarrow> (transaction_id option \<times> 'c history) option" where
  "group h = group_trailing
     (case rev (hi_undo_stack h) of [] \<Rightarrow> 0 | entry # below \<Rightarrow> group_count (hi_group_interval h) entry below) h"

fun group_until_count :: "transaction_id \<Rightarrow> nat \<Rightarrow> history_entry list \<Rightarrow> nat option" where
  "group_until_count tid count [] = None"
| "group_until_count tid count (entry # below) =
     (if transaction_id entry = tid then Some count
      else if he_suppress_grouping entry then None
      else group_until_count tid (count + 1) below)"

definition group_until :: "transaction_id \<Rightarrow> 'c history \<Rightarrow> 'c history option" where
  "group_until tid h =
     (case group_until_count tid 0 (rev (hi_undo_stack h)) of
       None \<Rightarrow> Some h
     | Some count \<Rightarrow> map_option snd (group_trailing count h))"

definition finalize_last_transaction :: "'c history \<Rightarrow> transaction option \<times> 'c history" where
  "finalize_last_transaction h =
     (case split_last (hi_undo_stack h) of
       None \<Rightarrow> (None, h)
     | Some (rest, entry) \<Rightarrow>
         (Some (he_transaction entry), h\<lparr>hi_undo_stack := rest @ [entry\<lparr>he_suppress_grouping := True\<rparr>]\<rparr>))"

definition push_transaction :: "transaction \<Rightarrow> nat \<Rightarrow> 'c history \<Rightarrow> 'c history option" where
  "push_transaction t now h = (if hi_transaction_depth h \<noteq> 0 then None else Some (push_entry t now h))"

definition push_empty_transaction ::
  "global \<Rightarrow> nat \<Rightarrow> lamport \<Rightarrow> 'c history \<Rightarrow> (transaction_id \<times> lamport \<times> 'c history) option" where
  "push_empty_transaction start now clock h =
     (if hi_transaction_depth h \<noteq> 0 then None
      else let (tid, clock) = tick clock
        in Some (tid, clock, push_entry \<lparr>tr_id = tid, tr_edit_ids = [], tr_start = start\<rparr> now h))"

definition push_undo :: "lamport \<Rightarrow> 'c history \<Rightarrow> 'c history option" where
  "push_undo op_id h =
     (if hi_transaction_depth h = 0 then None
      else case tm_get op_id (hi_operations h) of
        Some (Edit _) \<Rightarrow> do {
          (rest, entry) \<leftarrow> split_last (hi_undo_stack h);
          let t = he_transaction entry;
          Some (h\<lparr>hi_undo_stack := rest @ [entry\<lparr>he_transaction := t\<lparr>tr_edit_ids := tr_edit_ids t @ [op_id]\<rparr>\<rparr>]\<rparr>)
        }
      | _ \<Rightarrow> Some h)"

definition pop_undo :: "'c history \<Rightarrow> (history_entry option \<times> 'c history) option" where
  "pop_undo h =
     (if hi_transaction_depth h \<noteq> 0 then None
      else case split_last (hi_undo_stack h) of
        None \<Rightarrow> Some (None, h)
      | Some (rest, entry) \<Rightarrow>
          Some (Some entry, h\<lparr>hi_undo_stack := rest, hi_redo_stack := hi_redo_stack h @ [entry]\<rparr>))"

definition pop_redo :: "'c history \<Rightarrow> (history_entry option \<times> 'c history) option" where
  "pop_redo h =
     (if hi_transaction_depth h \<noteq> 0 then None
      else case split_last (hi_redo_stack h) of
        None \<Rightarrow> Some (None, h)
      | Some (rest, entry) \<Rightarrow>
          Some (Some entry, h\<lparr>hi_redo_stack := rest, hi_undo_stack := hi_undo_stack h @ [entry]\<rparr>))"

text \<open>\<open>rposition\<close>: the index of the last element that satisfies the predicate; \<open>Vec::remove\<close>.\<close>

fun rposition :: "('x \<Rightarrow> bool) \<Rightarrow> 'x list \<Rightarrow> nat option" where
  "rposition P [] = None"
| "rposition P (x # xs) = (case rposition P xs of
     Some i \<Rightarrow> Some (i + 1)
   | None \<Rightarrow> if P x then Some 0 else None)"

definition remove_at :: "nat \<Rightarrow> 'x list \<Rightarrow> ('x \<times> 'x list) option" where
  "remove_at i xs = (if i < length xs then Some (xs ! i, take i xs @ drop (i + 1) xs) else None)"

definition has_id :: "transaction_id \<Rightarrow> history_entry \<Rightarrow> bool" where
  "has_id tid e \<longleftrightarrow> transaction_id e = tid"

definition remove_from_undo :: "transaction_id \<Rightarrow> 'c history \<Rightarrow> (history_entry option \<times> 'c history) option" where
  "remove_from_undo tid h =
     (if hi_transaction_depth h \<noteq> 0 then None
      else case rposition (has_id tid) (hi_undo_stack h) of
        None \<Rightarrow> Some (None, h)
      | Some ix \<Rightarrow> do {
          (entry, rest) \<leftarrow> remove_at ix (hi_undo_stack h);
          Some (Some entry, h\<lparr>hi_undo_stack := rest, hi_redo_stack := hi_redo_stack h @ [entry]\<rparr>)
        })"

text \<open>The slice returned is what was moved to the other stack.\<close>

definition remove_from_undo_until :: "transaction_id \<Rightarrow> 'c history \<Rightarrow> (history_entry list \<times> 'c history) option" where
  "remove_from_undo_until tid h =
     (if hi_transaction_depth h \<noteq> 0 then None
      else let start_len = length (hi_redo_stack h);
               h = (case rposition (has_id tid) (hi_undo_stack h) of
                   None \<Rightarrow> h
                 | Some ix \<Rightarrow> h\<lparr>hi_redo_stack := hi_redo_stack h @ rev (drop ix (hi_undo_stack h)),
                               hi_undo_stack := take ix (hi_undo_stack h)\<rparr>)
        in Some (drop start_len (hi_redo_stack h), h))"

definition remove_from_redo :: "transaction_id \<Rightarrow> 'c history \<Rightarrow> (history_entry list \<times> 'c history) option" where
  "remove_from_redo tid h =
     (if hi_transaction_depth h \<noteq> 0 then None
      else let start_len = length (hi_undo_stack h);
               h = (case rposition (has_id tid) (hi_redo_stack h) of
                   None \<Rightarrow> h
                 | Some ix \<Rightarrow> h\<lparr>hi_undo_stack := hi_undo_stack h @ rev (drop ix (hi_redo_stack h)),
                               hi_redo_stack := take ix (hi_redo_stack h)\<rparr>)
        in Some (drop start_len (hi_undo_stack h), h))"

definition forget :: "transaction_id \<Rightarrow> 'c history \<Rightarrow> (transaction option \<times> 'c history) option" where
  "forget tid h =
     (if hi_transaction_depth h \<noteq> 0 then None
      else case rposition (has_id tid) (hi_undo_stack h) of
        Some ix \<Rightarrow> do {
          (entry, rest) \<leftarrow> remove_at ix (hi_undo_stack h);
          Some (Some (he_transaction entry), h\<lparr>hi_undo_stack := rest\<rparr>)
        }
      | None \<Rightarrow> (case rposition (has_id tid) (hi_redo_stack h) of
          Some ix \<Rightarrow> do {
            (entry, rest) \<leftarrow> remove_at ix (hi_redo_stack h);
            Some (Some (he_transaction entry), h\<lparr>hi_redo_stack := rest\<rparr>)
          }
        | None \<Rightarrow> Some (None, h)))"

definition rfind :: "('x \<Rightarrow> bool) \<Rightarrow> 'x list \<Rightarrow> 'x option" where
  "rfind P xs = List.find P (rev xs)"

definition history_transaction :: "transaction_id \<Rightarrow> 'c history \<Rightarrow> transaction option" where
  "history_transaction tid h = map_option he_transaction
     (case rfind (has_id tid) (hi_undo_stack h) of
       Some e \<Rightarrow> Some e
     | None \<Rightarrow> rfind (has_id tid) (hi_redo_stack h))"

text \<open>\<open>transaction_mut\<close>, with what the caller does to the transaction it yields.\<close>

definition update_entry :: "(transaction \<Rightarrow> transaction) \<Rightarrow> history_entry \<Rightarrow> history_entry" where
  "update_entry f e = e\<lparr>he_transaction := f (he_transaction e)\<rparr>"

definition transaction_mut ::
  "transaction_id \<Rightarrow> (transaction \<Rightarrow> transaction) \<Rightarrow> 'c history \<Rightarrow> 'c history option" where
  "transaction_mut tid f h =
     (case rposition (has_id tid) (hi_undo_stack h) of
       Some ix \<Rightarrow> Some (h\<lparr>hi_undo_stack := (hi_undo_stack h)[ix := update_entry f (hi_undo_stack h ! ix)]\<rparr>)
     | None \<Rightarrow> (case rposition (has_id tid) (hi_redo_stack h) of
         Some ix \<Rightarrow> Some (h\<lparr>hi_redo_stack := (hi_redo_stack h)[ix := update_entry f (hi_redo_stack h ! ix)]\<rparr>)
       | None \<Rightarrow> None))"

definition merge_transactions :: "transaction_id \<Rightarrow> transaction_id \<Rightarrow> 'c history \<Rightarrow> 'c history option" where
  "merge_transactions tid destination h = do {
     (forgotten, h) \<leftarrow> forget tid h;
     (case forgotten of
       None \<Rightarrow> Some h
     | Some t \<Rightarrow>
         (case transaction_mut destination (\<lambda>d. d\<lparr>tr_edit_ids := tr_edit_ids d @ tr_edit_ids t\<rparr>) h of
           None \<Rightarrow> Some h
         | Some h' \<Rightarrow> Some h'))
   }"

section \<open>The stacks\<close>

lemma split_last_simps [simp]:
  "split_last [] = None" "split_last (xs @ [x]) = Some (xs, x)" "split_last xs = None \<longleftrightarrow> xs = []"
  by (simp_all add: split_last_def)

lemma list_last_snoc [simp]: "list_last (xs @ [x]) = Some x"
  by (simp add: list_last_def)

lemma rposition_None [simp]: "rposition P xs = None \<longleftrightarrow> (\<forall>x \<in> set xs. \<not> P x)"
  by (induction xs) (auto split: option.splits)

lemma rposition_split [simp]:
  "P x \<Longrightarrow> \<forall>b \<in> set bs. \<not> P b \<Longrightarrow> rposition P (as @ x # bs) = Some (length as)"
proof (induction as)
  case Nil
  then have "rposition P bs = None" by simp
  then show ?case unfolding rposition.simps append_Nil \<open>rposition P bs = None\<close> using Nil by simp
qed simp

lemma rposition_Some:
  assumes "rposition P xs = Some i"
  obtains as x bs where "xs = as @ x # bs" "i = length as" "P x" "\<forall>b \<in> set bs. \<not> P b"
proof -
  have "\<exists>x \<in> set xs. P x" using assms rposition_None [of P xs] by auto
  from split_list_last_prop [OF this] obtain as x bs
    where x: "xs = as @ x # bs" "P x" "\<forall>b \<in> set bs. \<not> P b" by blast
  moreover have "i = length as" using rposition_split [OF x(2,3), of as] assms x(1) by simp
  ultimately show ?thesis using that by blast
qed

lemma remove_at_split [simp]: "remove_at (length as) (as @ x # bs) = Some (x, as @ bs)"
  by (simp add: remove_at_def)

lemma group_count_le: "group_count i e es \<le> length es"
  by (induction es arbitrary: e) auto

lemma group_until_count_less: "group_until_count tid c es = Some n \<Longrightarrow> n < c + length es"
  by (induction es arbitrary: c) (auto split: if_splits, fastforce)

lemma group_trailing_split:
  "group_trailing (length ms) (h\<lparr>hi_undo_stack := ks @ e # ms\<rparr>) =
     (let e' = e\<lparr>he_transaction := (he_transaction e)\<lparr>tr_edit_ids := concat (map entry_edit_ids (e # ms))\<rparr>,
                he_last_edit_at := he_last_edit_at (last (e # ms))\<rparr>
      in Some (Some (transaction_id e), h\<lparr>hi_undo_stack := ks @ [e']\<rparr>))"
  by (cases ms rule: rev_cases)
    (simp_all add: group_trailing_def Let_def transaction_id_def entry_edit_ids_def split_last_def list_last_def)

lemma group_trailing_nonempty:
  assumes "n < length (hi_undo_stack h)"
  obtains ks e ms e' where "hi_undo_stack h = ks @ e # ms" "length ms = n"
    "group_trailing n h = Some (Some (transaction_id e), h\<lparr>hi_undo_stack := ks @ [e']\<rparr>)"
proof -
  let ?ks = "take (length (hi_undo_stack h) - Suc n) (hi_undo_stack h)"
  obtain e ms where em: "drop (length (hi_undo_stack h) - Suc n) (hi_undo_stack h) = e # ms"
    using assms by (cases "drop (length (hi_undo_stack h) - Suc n) (hi_undo_stack h)") auto
  from arg_cong [OF this, of length] assms have n: "length ms = n" by simp
  have s: "hi_undo_stack h = ?ks @ e # ms" using em append_take_drop_id by metis
  from group_trailing_split [where ms = ms and h = h and ks = ?ks and e = e] n s show ?thesis
    by (intro that [OF s n]) (auto simp: Let_def)
qed

section \<open>Reachable histories\<close>

inductive history_step :: "'c history \<Rightarrow> 'c history \<Rightarrow> bool" where
  push: "history_push op h = Some h' \<Longrightarrow> history_step h h'"
| start: "start_transaction v now clock h = (r, clock', h') \<Longrightarrow> history_step h h'"
| finish: "end_transaction now h = Some (r, h') \<Longrightarrow> history_step h h'"
| group: "group h = Some (r, h') \<Longrightarrow> history_step h h'"
| group_until: "group_until tid h = Some h' \<Longrightarrow> history_step h h'"
| finalize: "finalize_last_transaction h = (r, h') \<Longrightarrow> history_step h h'"
| push_transaction: "push_transaction t now h = Some h' \<Longrightarrow> history_step h h'"
| push_empty: "push_empty_transaction v now clock h = Some (i, clock', h') \<Longrightarrow> history_step h h'"
| push_undo: "push_undo op h = Some h' \<Longrightarrow> history_step h h'"
| pop_undo: "pop_undo h = Some (r, h') \<Longrightarrow> history_step h h'"
| pop_redo: "pop_redo h = Some (r, h') \<Longrightarrow> history_step h h'"
| remove_undo: "remove_from_undo tid h = Some (r, h') \<Longrightarrow> history_step h h'"
| remove_undo_until: "remove_from_undo_until tid h = Some (es, h') \<Longrightarrow> history_step h h'"
| remove_redo: "remove_from_redo tid h = Some (es, h') \<Longrightarrow> history_step h h'"
| forget: "forget tid h = Some (t, h') \<Longrightarrow> history_step h h'"
| merge: "merge_transactions tid d h = Some h' \<Longrightarrow> history_step h h'"

inductive history_reachable :: "'c list \<Rightarrow> 'c history \<Rightarrow> bool" for base where
  new: "history_reachable base (history_new base)"
| step: "history_reachable base h \<Longrightarrow> history_step h h' \<Longrightarrow> history_reachable base h'"

text \<open>Inside a transaction the stack it is recorded on is not empty.\<close>

definition history_inv :: "'c history \<Rightarrow> bool" where
  "history_inv h \<longleftrightarrow> tm_wf (hi_operations h) \<and> (0 < hi_transaction_depth h \<longrightarrow> hi_undo_stack h \<noteq> [])"

lemma group_trailing_ok:
  assumes "n < length (hi_undo_stack h)"
  shows "\<exists>r us. group_trailing n h = Some (r, h\<lparr>hi_undo_stack := us\<rparr>) \<and> us \<noteq> []"
proof -
  obtain ks e ms e' where "group_trailing n h = Some (Some (transaction_id e), h\<lparr>hi_undo_stack := ks @ [e']\<rparr>)"
    by (rule group_trailing_nonempty [OF assms])
  then show ?thesis by blast
qed

lemma group_ok: "\<exists>r us. group h = Some (r, h\<lparr>hi_undo_stack := us\<rparr>) \<and> (us = [] \<longleftrightarrow> hi_undo_stack h = [])"
proof (cases "rev (hi_undo_stack h)")
  case Nil
  then show ?thesis by (simp add: group_def group_trailing_def list_last_def)
next
  case (Cons e es)
  have "group_count (hi_group_interval h) e es < length (hi_undo_stack h)"
    using group_count_le [of "hi_group_interval h" e es] arg_cong [OF Cons, of length] by simp
  moreover have "hi_undo_stack h \<noteq> []" using Cons by auto
  ultimately show ?thesis using group_trailing_ok unfolding group_def Cons list.case by blast
qed

lemma group_until_ok:
  "\<exists>us. group_until tid h = Some (h\<lparr>hi_undo_stack := us\<rparr>) \<and> (us = [] \<longleftrightarrow> hi_undo_stack h = [])"
proof (cases "group_until_count tid 0 (rev (hi_undo_stack h))")
  case None
  then show ?thesis by (intro exI [of _ "hi_undo_stack h"]) (simp add: group_until_def)
next
  case (Some n)
  from group_until_count_less [OF this] have n: "n < length (hi_undo_stack h)" by simp
  then obtain r us where "group_trailing n h = Some (r, h\<lparr>hi_undo_stack := us\<rparr>)" "us \<noteq> []"
    using group_trailing_ok by blast
  moreover from n have "hi_undo_stack h \<noteq> []" by auto
  ultimately show ?thesis by (simp add: group_until_def Some) blast
qed

lemma push_entry_simps [simp]:
  "hi_operations (push_entry t now h) = hi_operations h"
  "hi_undo_stack (push_entry t now h) \<noteq> []"
  "hi_redo_stack (push_entry t now h) = hi_redo_stack h"
  "hi_transaction_depth (push_entry t now h) = hi_transaction_depth h"
  by (simp_all add: push_entry_def)

lemma forget_fields:
  "forget tid h = Some (t, h') \<Longrightarrow> hi_operations h' = hi_operations h \<and> hi_transaction_depth h' = 0"
  by (auto simp: forget_def split: if_splits option.splits bind_splits)

lemma transaction_mut_fields:
  "transaction_mut tid f h = Some h' \<Longrightarrow>
     hi_operations h' = hi_operations h \<and> hi_transaction_depth h' = hi_transaction_depth h"
  by (auto simp: transaction_mut_def split: option.splits)

lemma history_push_ok:
  assumes "tm_wf (hi_operations h)"
  shows "\<exists>ops. history_push op h = Some (h\<lparr>hi_operations := ops\<rparr>) \<and> tm_wf ops \<and>
    (\<forall>t. tm_get t ops = (if t = op_timestamp op then Some op else tm_get t (hi_operations h)))"
  using tree_map.ins_ok [OF assms, of "op_timestamp op" op] by (auto simp: history_push_def)

lemma history_step_inv: "history_step h h' \<Longrightarrow> history_inv h \<Longrightarrow> history_inv h'"
proof (induction rule: history_step.induct)
  case (push op h h')
  with history_push_ok [of h op] show ?case by (auto simp: history_inv_def)
next
  case (group h r h')
  with group_ok [of h] show ?case by (auto simp: history_inv_def)
next
  case (group_until tid h h')
  with group_until_ok [of tid h] show ?case by (auto simp: history_inv_def)
next
  case (merge tid d h h')
  then show ?case
    by (auto simp: merge_transactions_def history_inv_def split: bind_splits option.splits
        dest!: forget_fields transaction_mut_fields)
next
  case (forget tid h t h')
  then show ?case by (auto simp: history_inv_def dest!: forget_fields)
qed (auto simp: history_inv_def start_transaction_def end_transaction_def push_transaction_def
    push_empty_transaction_def push_undo_def pop_undo_def pop_redo_def remove_from_undo_def
    remove_from_undo_until_def remove_from_redo_def finalize_last_transaction_def Let_def
    split: if_splits option.splits bind_splits operation.splits prod.splits)

lemma history_reachable_inv: "history_reachable base h \<Longrightarrow> history_inv h"
proof (induction rule: history_reachable.induct)
  case new
  show ?case by (simp add: history_inv_def history_new_def tm_empty_def tm_wf_def tm_entries_def tree_new_def wf_tree_def)
next
  case (step h h')
  then show ?case by (simp add: history_step_inv)
qed

section \<open>Properties\<close>



text \<open>Two neighbours on the undo stack that \<open>group\<close> joins.\<close>

definition joins :: "nat \<Rightarrow> history_entry \<Rightarrow> history_entry \<Rightarrow> bool" where
  "joins interval a b \<longleftrightarrow> \<not> he_suppress_grouping a \<and> he_first_edit_at b - he_last_edit_at a < interval"

lemma group_count_chain:
  fixes i e es
  defines "n \<equiv> group_count i e es"
  shows "successively (joins i) (rev (take (Suc n) (e # es)))"
    "n < length es \<Longrightarrow> \<not> joins i (es ! n) ((e # es) ! n)"
proof -
  have "successively (\<lambda>b a. joins i a b) (take (Suc n) (e # es)) \<and> (n < length es \<longrightarrow> \<not> joins i (es ! n) ((e # es) ! n))"
    unfolding n_def by (induction es arbitrary: e) (auto simp: joins_def)
  then show "successively (joins i) (rev (take (Suc n) (e # es)))"
    "n < length es \<Longrightarrow> \<not> joins i (es ! n) ((e # es) ! n)" by (simp_all only: successively_rev) auto
qed

text \<open>
  C34: grouping merges into one entry the longest run of topmost transactions in which each starts
  within the group interval after the one below, which is not suppressed. The entry keeps the
  identity and start of the lowest, the end of the topmost and all edits in order.
\<close>

theorem group_merges_chain:
  assumes "hi_undo_stack h \<noteq> []"
  shows "\<exists>ks e ms e'. hi_undo_stack h = ks @ e # ms \<and>
    group h = Some (Some (transaction_id e), h\<lparr>hi_undo_stack := ks @ [e']\<rparr>) \<and>
    transaction_id e' = transaction_id e \<and> he_first_edit_at e' = he_first_edit_at e \<and>
    he_last_edit_at e' = he_last_edit_at (last (e # ms)) \<and>
    entry_edit_ids e' = concat (map entry_edit_ids (e # ms)) \<and>
    successively (joins (hi_group_interval h)) (e # ms) \<and>
    (ks = [] \<or> \<not> joins (hi_group_interval h) (last ks) e)"
proof -
  let ?i = "hi_group_interval h" and ?us = "hi_undo_stack h"
  obtain top below where tb: "rev ?us = top # below" using assms by (cases "rev ?us") auto
  define n where "n = group_count ?i top below"
  have n: "n \<le> length below" unfolding n_def by (rule group_count_le)
  define ks where "ks = rev (drop (Suc n) (top # below))"
  obtain e ms where em: "rev (take (Suc n) (top # below)) = e # ms"
    by (cases "rev (take (Suc n) (top # below))") auto
  have us: "?us = ks @ e # ms"
    unfolding ks_def em [symmetric] rev_append [symmetric] append_take_drop_id using tb by (metis rev_rev_ident)
  have len: "length ms = n" using arg_cong [OF em, of length] n by simp
  have "e = (top # below) ! n"
    using arg_cong [OF em, of hd] n by (simp add: hd_rev last_conv_nth min_def del: take_Suc_Cons rev.simps split: if_splits)
  then have "ks = [] \<or> \<not> joins ?i (last ks) e"
    using group_count_chain(2) [of ?i top below] n
    by (cases "n < length below") (simp_all add: ks_def n_def last_rev hd_drop_conv_nth)
  moreover have "successively (joins ?i) (e # ms)"
    using group_count_chain(1) [of ?i top below] by (simp only: n_def [symmetric] em)
  moreover have "group h = group_trailing (length ms) (h\<lparr>hi_undo_stack := ks @ e # ms\<rparr>)"
  proof -
    have "h\<lparr>hi_undo_stack := ks @ e # ms\<rparr> = h" by (simp flip: us)
    then show ?thesis using tb len by (simp add: group_def n_def)
  qed
  moreover define e' where "e' = e\<lparr>he_transaction := (he_transaction e)\<lparr>tr_edit_ids := concat (map entry_edit_ids (e # ms))\<rparr>,
    he_last_edit_at := he_last_edit_at (last (e # ms))\<rparr>"
  ultimately have "group h = Some (Some (transaction_id e), h\<lparr>hi_undo_stack := ks @ [e']\<rparr>)"
    by (simp only: group_trailing_split Let_def)
  moreover have "transaction_id e' = transaction_id e" "he_first_edit_at e' = he_first_edit_at e"
    "he_last_edit_at e' = he_last_edit_at (last (e # ms))" "entry_edit_ids e' = concat (map entry_edit_ids (e # ms))"
    by (simp_all add: e'_def transaction_id_def entry_edit_ids_def)
  ultimately show ?thesis using us \<open>ks = [] \<or> _\<close> \<open>successively _ _\<close> by blast
qed

definition sample_entry :: "seq \<Rightarrow> nat \<Rightarrow> nat \<Rightarrow> history_entry" where
  "sample_entry v t1 t2 =
     \<lparr>he_transaction = \<lparr>tr_id = Lamport v 0, tr_edit_ids = [Lamport (v + 1) 0], tr_start = global_new\<rparr>,
      he_first_edit_at = t1, he_last_edit_at = t2, he_suppress_grouping = False\<rparr>"

theorem group_merges_chain_witness:
  "\<exists>h'. group ((history_new ''text'')\<lparr>hi_undo_stack := [sample_entry 1 0 5, sample_entry 3 10 20]\<rparr>) =
     Some (Some (Lamport 1 0), h')"
  using group_merges_chain [of "(history_new ''text'')\<lparr>hi_undo_stack := [sample_entry 1 0 5, sample_entry 3 10 20]\<rparr>"]
  by (auto simp: sample_entry_def history_new_def joins_def Cons_eq_append_conv transaction_id_def)

text \<open>
  C22: with distinct transactions on the two stacks, undoing down to a transaction moves it and all
  above it, newest first, to the redo stack, and redoing down to the newest of them restores
  the history; undoing and redoing a single transaction does too.
\<close>

theorem undo_redo_roundtrip:
  assumes "hi_transaction_depth h = 0" "distinct (map transaction_id (hi_undo_stack h @ hi_redo_stack h))"
    and "hi_undo_stack h = us @ e # vs"
  shows "\<exists>h'. remove_from_undo_until (transaction_id e) h = Some (rev (e # vs), h') \<and>
    hi_undo_stack h' = us \<and> hi_redo_stack h' = hi_redo_stack h @ rev (e # vs) \<and>
    remove_from_redo (transaction_id (last (e # vs))) h' = Some (e # vs, h) \<and>
    (\<exists>h1. pop_undo h = Some (Some (last (e # vs)), h1) \<and> pop_redo h1 = Some (Some (last (e # vs)), h))"
proof -
  obtain ws t where t: "e # vs = ws @ [t]" by (cases "e # vs" rule: rev_cases) auto
  have "\<forall>v \<in> set vs. \<not> has_id (transaction_id e) v" using assms by (auto simp: has_id_def image_iff)
  then have "rposition (has_id (transaction_id e)) (us @ e # vs) = Some (length us)" by (simp add: has_id_def)
  moreover have "\<forall>w \<in> set (rev ws). \<not> has_id (transaction_id t) w"
    using assms unfolding t by (force simp: has_id_def image_iff)
  then have "rposition (has_id (transaction_id t)) (hi_redo_stack h @ t # rev ws) = Some (length (hi_redo_stack h))"
    by (simp add: has_id_def)
  moreover have "last (e # vs) = t" "rev (e # vs) = t # rev ws" using t by (simp_all del: last.simps)
  ultimately show ?thesis using assms(1,3) unfolding t
    by (simp add: remove_from_undo_until_def remove_from_redo_def pop_undo_def pop_redo_def split_last_def
        butlast_append)
qed

theorem undo_redo_roundtrip_witness:
  "\<exists>h'. remove_from_undo_until (Lamport 1 0) ((history_new ''text'')\<lparr>hi_undo_stack := [sample_entry 1 0 5, sample_entry 3 10 20]\<rparr>) =
     Some ([sample_entry 3 10 20, sample_entry 1 0 5], h')"
  using undo_redo_roundtrip [of "(history_new ''text'')\<lparr>hi_undo_stack := [sample_entry 1 0 5, sample_entry 3 10 20]\<rparr>"
      "[]" "sample_entry 1 0 5" "[sample_entry 3 10 20]"]
  by (auto simp: history_new_def sample_entry_def transaction_id_def)

text \<open>Recording several operations in the current transaction.\<close>

fun push_undos :: "lamport list \<Rightarrow> 'c history \<Rightarrow> 'c history option" where
  "push_undos [] h = Some h"
| "push_undos (op # ops) h = do { h \<leftarrow> push_undo op h; push_undos ops h }"

definition recorded :: "'c history \<Rightarrow> lamport \<Rightarrow> bool" where
  "recorded h op = (case tm_get op (hi_operations h) of Some (Edit _) \<Rightarrow> True | _ \<Rightarrow> False)"

lemma push_undos_top:
  assumes "0 < hi_transaction_depth h" "hi_undo_stack h = us @ [e]"
  shows "push_undos ops h = Some (h\<lparr>hi_undo_stack := us @ [update_entry
    (\<lambda>t. t\<lparr>tr_edit_ids := tr_edit_ids t @ filter (recorded h) ops\<rparr>) e]\<rparr>)"
  using assms
proof (induction ops arbitrary: h e)
  case (Cons op ops)
  show ?case
  proof (cases "recorded h op")
    case True
    let ?e = "update_entry (\<lambda>t. t\<lparr>tr_edit_ids := tr_edit_ids t @ [op]\<rparr>) e" and ?h = "h\<lparr>hi_undo_stack := us @ [update_entry (\<lambda>t. t\<lparr>tr_edit_ids := tr_edit_ids t @ [op]\<rparr>) e]\<rparr>"
    have "push_undo op h = Some ?h"
      using True Cons.prems by (auto simp: push_undo_def recorded_def update_entry_def Let_def split: option.splits operation.splits)
    moreover have "recorded ?h = recorded h" by (simp add: fun_eq_iff recorded_def)
    ultimately show ?thesis
      using Cons.IH [of ?h ?e] Cons.prems(1) True by (simp add: update_entry_def)
  next
    case False
    then have "push_undo op h = Some h"
      using Cons.prems by (auto simp: push_undo_def recorded_def split: option.splits operation.splits)
    with Cons False show ?thesis by simp
  qed
qed (simp add: update_entry_def)

text \<open>
  A transaction opened outside any other takes the clock's next timestamp as its identity;
  ended after recording operations, it is one new entry with the edits among them, and the
  redo stack is cleared, but when there are none the history is as before it was opened.
\<close>

theorem transaction_records_edits:
  assumes "hi_transaction_depth h = 0"
  shows "\<exists>h1 h2. start_transaction v t1 clock h = (Some clock, snd (tick clock), h1) \<and> push_undos ops h1 = Some h2 \<and>
    end_transaction t2 h2 =
      (let edits = filter (recorded h) ops;
           e = \<lparr>he_transaction = \<lparr>tr_id = clock, tr_edit_ids = edits, tr_start = v\<rparr>,
                he_first_edit_at = t1, he_last_edit_at = t2, he_suppress_grouping = False\<rparr>
       in Some (if edits = [] then (None, h)
          else (Some e, h\<lparr>hi_undo_stack := hi_undo_stack h @ [e], hi_redo_stack := []\<rparr>)))"
proof -
  define e where "e = \<lparr>he_transaction = \<lparr>tr_id = clock, tr_edit_ids = [], tr_start = v\<rparr>,
    he_first_edit_at = t1, he_last_edit_at = t1, he_suppress_grouping = False\<rparr>"
  define h1 where "h1 = h\<lparr>hi_transaction_depth := 1, hi_undo_stack := hi_undo_stack h @ [e]\<rparr>"
  have "start_transaction v t1 clock h = (Some clock, snd (tick clock), h1)"
    using assms by (simp add: start_transaction_def push_entry_def h1_def e_def tick_def)
  moreover have "recorded h1 = recorded h" by (simp add: fun_eq_iff recorded_def h1_def)
  moreover note push_undos_top [of h1 "hi_undo_stack h" e ops]
  ultimately show ?thesis using assms
    by (simp add: h1_def end_transaction_def entry_edit_ids_def update_entry_def Let_def) (simp add: e_def)
qed

theorem transaction_records_edits_witness:
  "\<exists>h1. start_transaction global_new 7 (Lamport 4 0) (history_new ''text'') = (Some (Lamport 4 0), snd (tick (Lamport 4 0)), h1)"
  using transaction_records_edits [of "history_new ''text''" global_new 7 "Lamport 4 0" "[]" 9]
  by (auto simp: history_new_def)

end
