(* ===== verification/Utf8.thy ===== *)
theory Utf8
  imports Prelude
begin

text \<open>
  Text as the code has it: a \<open>str\<close> is the list of its bytes in UTF-8. The functions of \<open>str\<close> that
  the text buffer and the rope use, with \<open>None\<close> for a panic, and the structure of UTF-8 they
  rely on: a text is a sequence of characters, each a first byte followed by the continuation
  bytes that the first byte announces.
\<close>

type_synonym bytes = "8 word list"

section \<open>Characters\<close>

text \<open>\<open>util::is_utf8_char_boundary\<close>: a comparison of the byte read as a signed number.\<close>

definition is_utf8_char_boundary :: "8 word \<Rightarrow> bool" where
  "is_utf8_char_boundary b \<longleftrightarrow> - 0x40 \<le>s b"

definition is_char_start :: "8 word \<Rightarrow> bool" where
  "is_char_start b \<longleftrightarrow> b < 0x80 \<or> 0xC0 \<le> b"

lemma pos_mod_plus_256: "128 \<le> x \<Longrightarrow> x < 256 \<Longrightarrow> (x + 128) mod 256 = x - (128 :: int)"
  using mod_add_self2 [of "x - 128" 256] mod_pos_pos_trivial [of "x - 128" 256] by (simp add: algebra_simps)

lemma is_utf8_char_boundary_iff: "is_utf8_char_boundary b \<longleftrightarrow> is_char_start b"
proof -
  have bounds: "0 \<le> uint b" "uint b < 256"
    using uint_range_size [of b] by (simp_all add: word_size)
  then have "(uint b + 128) mod 256 = (if uint b < 128 then uint b + 128 else uint b - 128)"
    by (cases "uint b < 128") (simp_all add: mod_pos_pos_trivial pos_mod_plus_256)
  then have "sint b = (if uint b < 128 then uint b else uint b - 256)"
    by (simp add: sint_uint signed_take_bit_eq_take_bit_shift take_bit_eq_mod)
  with bounds have "- 64 \<le> sint b \<longleftrightarrow> uint b < 128 \<or> 192 \<le> uint b" by arith
  then show ?thesis
    by (simp add: is_utf8_char_boundary_def is_char_start_def word_sle_eq word_less_def word_le_def)
qed

text \<open>The number of bytes of a character, which its first byte tells, and \<open>char::len_utf16\<close>.\<close>

definition utf8_len :: "8 word \<Rightarrow> nat" where
  "utf8_len b = (if b < 0x80 then 1 else if b < 0xE0 then 2 else if b < 0xF0 then 3 else 4)"

definition utf16_len :: "bytes \<Rightarrow> nat" where
  "utf16_len c = (if hd c \<ge> 0xF0 then 2 else 1)"

definition utf8_char :: "bytes \<Rightarrow> bool" where
  "utf8_char c \<longleftrightarrow> c \<noteq> [] \<and> is_char_start (hd c) \<and> length c = utf8_len (hd c) \<and> (\<forall>b \<in> set (tl c). \<not> is_char_start b)"

text \<open>\<open>str::chars\<close>.\<close>

function str_chars :: "bytes \<Rightarrow> bytes list" where
  "str_chars s = (if s = [] then [] else take (utf8_len (hd s)) s # str_chars (drop (utf8_len (hd s)) s))"
  by pat_completeness auto
termination
  by (relation "measure length") (auto simp: utf8_len_def)

declare str_chars.simps [simp del]

definition utf8 :: "bytes \<Rightarrow> bool" where
  "utf8 s \<longleftrightarrow> (\<forall>c \<in> set (str_chars s). utf8_char c)"

lemma utf8_len_pos [simp]: "0 < utf8_len b"
  by (simp add: utf8_len_def)

lemma utf8_len_le: "utf8_len b \<le> 4"
  by (simp add: utf8_len_def)

lemma str_chars_Nil [simp]: "str_chars [] = []"
  by (subst str_chars.simps) simp

lemma concat_str_chars [simp]: "concat (str_chars s) = s"
proof (induction s rule: str_chars.induct)
  case (1 s)
  then show ?case by (subst str_chars.simps) simp
qed

lemma str_chars_append_char: "utf8_char c \<Longrightarrow> str_chars (c @ s) = c # str_chars s"
  by (subst str_chars.simps) (auto simp: utf8_char_def hd_append)

lemma str_chars_concat: "\<forall>c \<in> set cs. utf8_char c \<Longrightarrow> str_chars (concat cs @ s) = cs @ str_chars s"
  by (induction cs) (simp_all add: str_chars_append_char)

lemma utf8_Nil [simp]: "utf8 []"
  by (simp add: utf8_def)

lemma utf8_chars: "utf8 s \<Longrightarrow> \<exists>cs. s = concat cs \<and> (\<forall>c \<in> set cs. utf8_char c) \<and> str_chars s = cs"
  unfolding utf8_def using concat_str_chars [of s] by metis

lemma utf8_induct [consumes 1, case_names Nil Char]:
  assumes "utf8 s" "P []" and step: "\<And>c s. utf8_char c \<Longrightarrow> utf8 s \<Longrightarrow> P s \<Longrightarrow> P (c @ s)"
  shows "P s"
proof -
  have "P (concat cs)" if "\<forall>c \<in> set cs. utf8_char c" for cs
    using that
  proof (induction cs)
    case (Cons c cs)
    have "utf8 (concat cs)" using Cons.prems str_chars_concat [of cs "[]"] by (simp add: utf8_def)
    with Cons step show ?case by simp
  qed (simp add: assms(2))
  with utf8_chars [OF assms(1)] show ?thesis by blast
qed

lemma str_chars_append [simp]: "utf8 a \<Longrightarrow> str_chars (a @ b) = str_chars a @ str_chars b"
  using str_chars_concat [of "str_chars a" b] by (simp add: utf8_def)

lemma utf8_append [simp]: "utf8 a \<Longrightarrow> utf8 (a @ b) \<longleftrightarrow> utf8 b"
  by (simp add: utf8_def [of "a @ b"] ball_Un) (simp add: utf8_def)

lemma utf8_char_utf8 [simp]: "utf8_char c \<Longrightarrow> utf8 c" "utf8_char c \<Longrightarrow> str_chars c = [c]"
  using str_chars_append_char [of c "[]"] by (simp_all add: utf8_def)

lemma utf8_ascii: "\<forall>b \<in> set s. b < 0x80 \<Longrightarrow> utf8 s"
proof (induction s)
  case (Cons b s)
  then have "utf8_char [b]" by (simp add: utf8_char_def is_char_start_def utf8_len_def)
  from utf8_append [OF utf8_char_utf8(1) [OF this], of s] show ?case using Cons by simp
qed simp

lemma utf8_hd: "utf8 s \<Longrightarrow> s \<noteq> [] \<Longrightarrow> is_char_start (hd s)"
  by (induction s rule: utf8_induct) (auto simp: utf8_char_def hd_append)

section \<open>Boundaries\<close>

text \<open>\<open>str::is_char_boundary\<close> and \<open>str::split_at\<close>, which panics off a boundary.\<close>

definition str_is_char_boundary :: "bytes \<Rightarrow> nat \<Rightarrow> bool" where
  "str_is_char_boundary s i \<longleftrightarrow> i = 0 \<or> (if i \<ge> length s then i = length s else is_char_start (s ! i))"

definition str_split_at :: "bytes \<Rightarrow> nat \<Rightarrow> (bytes \<times> bytes) option" where
  "str_split_at s i = (if str_is_char_boundary s i then Some (take i s, drop i s) else None)"

text \<open>\<open>str::floor_char_boundary\<close> and \<open>str::ceil_char_boundary\<close>.\<close>

fun floor_from :: "bytes \<Rightarrow> nat \<Rightarrow> nat" where
  "floor_from s 0 = 0"
| "floor_from s (Suc i) = (if is_char_start (s ! Suc i) then Suc i else floor_from s i)"

definition floor_char_boundary :: "bytes \<Rightarrow> nat \<Rightarrow> nat" where
  "floor_char_boundary s i = (if i \<ge> length s then length s else floor_from s i)"

definition ceil_char_boundary :: "bytes \<Rightarrow> nat \<Rightarrow> nat" where
  "ceil_char_boundary s i =
     (if i \<ge> length s then length s else i + length (takeWhile (\<lambda>b. \<not> is_char_start b) (drop i s)))"

lemma floor_from_le: "floor_from s i \<le> i"
  by (induction i) auto

lemma boundary_0 [simp]: "str_is_char_boundary s 0"
  by (simp add: str_is_char_boundary_def)

lemma boundary_length [simp]: "str_is_char_boundary s (length s)"
  by (simp add: str_is_char_boundary_def)

lemma boundary_le: "str_is_char_boundary s i \<Longrightarrow> i \<le> length s"
  by (auto simp: str_is_char_boundary_def split: if_splits)

lemma boundary_iff: "i < length s \<Longrightarrow> utf8 s \<Longrightarrow> str_is_char_boundary s i \<longleftrightarrow> is_char_start (s ! i)"
  using utf8_hd [of s] by (auto simp: str_is_char_boundary_def hd_conv_nth)

lemma boundary_append:
  "utf8 b \<Longrightarrow> str_is_char_boundary (a @ b) i \<longleftrightarrow>
   (if i \<le> length a then str_is_char_boundary a i else str_is_char_boundary b (i - length a))"
  using utf8_hd [of b]
  by (auto simp: str_is_char_boundary_def nth_append hd_conv_nth)

text \<open>Cutting a text at a boundary gives two texts.\<close>

lemma utf8_char_inside: "utf8_char c \<Longrightarrow> 0 < i \<Longrightarrow> i < length c \<Longrightarrow> \<not> is_char_start (c ! i)"
  by (cases c) (auto simp: utf8_char_def nth_Cons')

lemma utf8_cut:
  assumes "utf8 s" "str_is_char_boundary s i"
  shows "utf8 (take i s) \<and> utf8 (drop i s)"
  using assms
proof (induction s arbitrary: i rule: utf8_induct)
  case (Char c s)
  consider "i = 0" | "i \<ge> length c" | "0 < i" "i < length c" by linarith
  then show ?case
  proof cases
    case 2
    then have "str_is_char_boundary s (i - length c)"
      using Char.prems Char.hyps by (cases "i = length c") (auto simp: boundary_append)
    with Char.IH [of "i - length c"] Char.hyps 2 show ?thesis by simp
  next
    case 3
    with Char.prems Char.hyps utf8_char_inside [of c i] show ?thesis
      by (auto simp: boundary_append str_is_char_boundary_def nth_append)
  qed (use Char.hyps in auto)
qed simp

lemma utf8_take [intro]: "utf8 s \<Longrightarrow> str_is_char_boundary s i \<Longrightarrow> utf8 (take i s)"
  and utf8_drop [intro]: "utf8 s \<Longrightarrow> str_is_char_boundary s i \<Longrightarrow> utf8 (drop i s)"
  using utf8_cut by auto

lemma boundary_prefix: "utf8 a \<Longrightarrow> utf8 b \<Longrightarrow> str_is_char_boundary (a @ b) (length a)"
  by (simp add: boundary_append)

lemma boundary_take:
  assumes "utf8 s" "str_is_char_boundary s i" "str_is_char_boundary s j" "i \<le> j"
  shows "str_is_char_boundary (take j s) i"
  using boundary_append [of "drop j s" "take j s" i] utf8_drop [OF assms(1,3)] assms(2,4) boundary_le [OF assms(3)]
  by (simp only: append_take_drop_id length_take min_absorb2 if_True)

lemma boundary_drop:
  assumes "utf8 s" "str_is_char_boundary s i" "str_is_char_boundary s j" "i \<le> j"
  shows "str_is_char_boundary (drop i s) (j - i)"
  using boundary_append [of "drop i s" "take i s" j] utf8_drop [OF assms(1,2)] assms(3,4) boundary_le [OF assms(2)]
  by (cases "j = i") simp_all

end
