(* ===== verification/Fragment.thy ===== *)
theory Fragment
  imports Utf8 Locator UndoMap History
begin

text \<open>
  The pieces a text buffer is made of (\<open>crates/text/src/text.rs\<close>): fragments of insertions with
  their summary, the positions a cursor over fragments is sought by, the index from an
  insertion to its fragments, the index from an edit to what it inserted and deleted, the
  rope builder and the normalization of line endings. Text is a list of UTF-8 bytes. Lengths and
  offsets, which the code keeps in \<open>u32\<close> and \<open>usize\<close>, are natural numbers: the casts of the code
  are exact as long as an insertion stays below \<open>2 ^ 32\<close> bytes.
\<close>

section \<open>Fragments\<close>

record fragment =
  fr_id :: locator
  fr_timestamp :: lamport
  fr_insertion_offset :: nat
  fr_len :: nat
  fr_visible :: bool
  fr_deletions :: "lamport list"
  fr_max_undos :: global

record fragment_text_summary =
  ft_visible :: nat
  ft_deleted :: nat

record fragment_summary =
  fs_text :: fragment_text_summary
  fs_max_id :: locator
  fs_max_version :: global
  fs_min_insertion_version :: global
  fs_max_insertion_version :: global

definition fragment_zero :: fragment_summary where
  "fragment_zero =
     \<lparr>fs_text = \<lparr>ft_visible = 0, ft_deleted = 0\<rparr>, fs_max_id = locator_min, fs_max_version = global_new,
      fs_min_insertion_version = global_new, fs_max_insertion_version = global_new\<rparr>"

definition fragment_add :: "fragment_summary \<Rightarrow> fragment_summary \<Rightarrow> fragment_summary" where
  "fragment_add self other =
     \<lparr>fs_text = \<lparr>ft_visible = ft_visible (fs_text self) + ft_visible (fs_text other),
                 ft_deleted = ft_deleted (fs_text self) + ft_deleted (fs_text other)\<rparr>,
      fs_max_id = assign (fs_max_id self) (fs_max_id other),
      fs_max_version = join (fs_max_version self) (fs_max_version other),
      fs_min_insertion_version = meet (fs_min_insertion_version self) (fs_min_insertion_version other),
      fs_max_insertion_version = join (fs_max_insertion_version self) (fs_max_insertion_version other)\<rparr>"

definition fragment_summary_of :: "fragment \<Rightarrow> fragment_summary" where
  "fragment_summary_of f =
     (let max_version = foldl observe (observe global_new (fr_timestamp f)) (fr_deletions f);
          insertion_version = observe global_new (fr_timestamp f)
      in \<lparr>fs_text = (if fr_visible f then \<lparr>ft_visible = fr_len f, ft_deleted = 0\<rparr>
                     else \<lparr>ft_visible = 0, ft_deleted = fr_len f\<rparr>),
          fs_max_id = fr_id f,
          fs_max_version = join max_version (fr_max_undos f),
          fs_min_insertion_version = insertion_version,
          fs_max_insertion_version = insertion_version\<rparr>)"

definition fragment_ops :: "(fragment, fragment_summary) item_ops" where
  "fragment_ops = \<lparr>zero = fragment_zero, add_summary = fragment_add, summary_of = fragment_summary_of\<rparr>"

text \<open>The iterator's \<open>all\<close> stops at the first \<open>False\<close>.\<close>

fun all_m :: "('x \<Rightarrow> bool option) \<Rightarrow> 'x list \<Rightarrow> bool option" where
  "all_m P [] = Some True"
| "all_m P (x # xs) = do { b \<leftarrow> P x; if b then all_m P xs else Some False }"

definition is_visible :: "undo_map \<Rightarrow> fragment \<Rightarrow> bool option" where
  "is_visible undos f = do {
     undone \<leftarrow> um_is_undone (fr_timestamp f) undos;
     if undone then Some False else all_m (\<lambda>d. um_is_undone d undos) (fr_deletions f)
   }"

definition was_visible :: "global \<Rightarrow> undo_map \<Rightarrow> fragment \<Rightarrow> bool option" where
  "was_visible version undos f =
     (if \<not> observed version (fr_timestamp f) then Some False
      else do {
        undone \<leftarrow> um_was_undone (fr_timestamp f) version undos;
        if undone then Some False
        else all_m (\<lambda>d. if \<not> observed version d then Some True else um_was_undone d version undos)
               (fr_deletions f)
      })"

section \<open>Positions\<close>

definition text_dim :: "(fragment_text_summary, fragment_summary) dim_ops" where
  "text_dim =
     \<lparr>d_zero = \<lparr>ft_visible = 0, ft_deleted = 0\<rparr>,
      d_add = (\<lambda>p s. \<lparr>ft_visible = ft_visible p + ft_visible (fs_text s),
                      ft_deleted = ft_deleted p + ft_deleted (fs_text s)\<rparr>)\<rparr>"

definition visible_dim :: "(nat, fragment_summary) dim_ops" where
  "visible_dim = \<lparr>d_zero = 0, d_add = (\<lambda>p s. p + ft_visible (fs_text s))\<rparr>"

definition id_dim :: "(locator option, fragment_summary) dim_ops" where
  "id_dim = \<lparr>d_zero = None, d_add = (\<lambda>_ s. Some (fs_max_id s))\<rparr>"

text \<open>The offset among the fragments a version has observed.\<close>

datatype versioned_full_offset = Offset nat | Invalid

fun full_offset :: "versioned_full_offset \<Rightarrow> nat option" where
  "full_offset (Offset position) = Some position"
| "full_offset Invalid = None"

fun versioned_add :: "global \<Rightarrow> versioned_full_offset \<Rightarrow> fragment_summary \<Rightarrow> versioned_full_offset" where
  "versioned_add version (Offset offset) s =
     (if observed_all version (fs_max_insertion_version s)
      then Offset (offset + (ft_visible (fs_text s) + ft_deleted (fs_text s)))
      else if observed_any version (fs_min_insertion_version s) then Invalid
      else Offset offset)"
| "versioned_add version Invalid s = Invalid"

definition versioned_dim :: "global \<Rightarrow> (versioned_full_offset, fragment_summary) dim_ops" where
  "versioned_dim version = \<lparr>d_zero = Offset 0, d_add = versioned_add version\<rparr>"

definition visible_target :: "nat \<Rightarrow> fragment_text_summary \<Rightarrow> ordering" where
  "visible_target n location = ord_cmp n (ft_visible location)"

text \<open>Seeking for an invalid position is \<open>unreachable!\<close>; the targets are offsets.\<close>

fun offset_target :: "nat \<Rightarrow> versioned_full_offset \<Rightarrow> ordering" where
  "offset_target a (Offset b) = ord_cmp a b"
| "offset_target a Invalid = Less"

section \<open>Indexes\<close>

record insertion_fragment =
  if_timestamp :: lamport
  if_split_offset :: nat
  if_fragment_id :: locator

datatype insertion_fragment_key = InsertionFragmentKey (ik_timestamp: lamport) (ik_split_offset: nat)

instantiation insertion_fragment_key :: linorder
begin

definition less_eq_insertion_fragment_key :: "insertion_fragment_key \<Rightarrow> insertion_fragment_key \<Rightarrow> bool" where
  "k \<le> k' \<longleftrightarrow> ik_timestamp k < ik_timestamp k' \<or> ik_timestamp k = ik_timestamp k' \<and> ik_split_offset k \<le> ik_split_offset k'"

definition less_insertion_fragment_key :: "insertion_fragment_key \<Rightarrow> insertion_fragment_key \<Rightarrow> bool" where
  "k < k' \<longleftrightarrow> ik_timestamp k < ik_timestamp k' \<or> ik_timestamp k = ik_timestamp k' \<and> ik_split_offset k < ik_split_offset k'"

instance
  by standard (auto simp: less_eq_insertion_fragment_key_def less_insertion_fragment_key_def insertion_fragment_key.expand)

end

definition insertion_key :: "insertion_fragment \<Rightarrow> insertion_fragment_key" where
  "insertion_key i = InsertionFragmentKey (if_timestamp i) (if_split_offset i)"

definition insertion_summary :: "(insertion_fragment, insertion_fragment_key) item_ops" where
  "insertion_summary =
     \<lparr>zero = InsertionFragmentKey lamport_MIN 0, add_summary = (\<lambda>_ b. b), summary_of = insertion_key\<rparr>"

definition insertion_dim :: "(insertion_fragment_key, insertion_fragment_key) dim_ops" where
  "insertion_dim = \<lparr>d_zero = InsertionFragmentKey lamport_MIN 0, d_add = (\<lambda>_ s. s)\<rparr>"

definition insertion_of :: "fragment \<Rightarrow> insertion_fragment" where
  "insertion_of f =
     \<lparr>if_timestamp = fr_timestamp f, if_split_offset = fr_insertion_offset f, if_fragment_id = fr_id f\<rparr>"

definition insert_new :: "fragment \<Rightarrow> (insertion_fragment, insertion_fragment_key) edit" where
  "insert_new f = Insert (insertion_of f)"

text \<open>What an edit inserted or deleted, by the insertion it lies in.\<close>

datatype insertion_slice = InsertionSlice
  (sl_edit_id_value: seq) (sl_edit_id_replica_id: replica_id)
  (sl_insertion_id_value: seq) (sl_insertion_id_replica_id: replica_id)
  (sl_start: nat) (sl_end: nat)

definition sl_edit_id :: "insertion_slice \<Rightarrow> lamport" where
  "sl_edit_id s = Lamport (sl_edit_id_value s) (sl_edit_id_replica_id s)"

definition sl_insertion_id :: "insertion_slice \<Rightarrow> lamport" where
  "sl_insertion_id s = Lamport (sl_insertion_id_value s) (sl_insertion_id_replica_id s)"

definition slice_cmp :: "insertion_slice \<Rightarrow> insertion_slice \<Rightarrow> ordering" where
  "slice_cmp a b =
     then_with (then_with (then_with (lamport_cmp (sl_edit_id a) (sl_edit_id b))
       (lamport_cmp (sl_insertion_id a) (sl_insertion_id b)))
       (ord_cmp (sl_start a) (sl_start b)))
       (ord_cmp (sl_end a) (sl_end b))"

instantiation insertion_slice :: linorder
begin

definition less_eq_insertion_slice :: "insertion_slice \<Rightarrow> insertion_slice \<Rightarrow> bool" where
  "a \<le> b \<longleftrightarrow> sl_edit_id a < sl_edit_id b \<or> sl_edit_id a = sl_edit_id b \<and>
     (sl_insertion_id a < sl_insertion_id b \<or> sl_insertion_id a = sl_insertion_id b \<and>
       (sl_start a < sl_start b \<or> sl_start a = sl_start b \<and> sl_end a \<le> sl_end b))"

definition less_insertion_slice :: "insertion_slice \<Rightarrow> insertion_slice \<Rightarrow> bool" where
  "a < b \<longleftrightarrow> a \<le> b \<and> \<not> b \<le> (a :: insertion_slice)"

instance
  by standard
    (auto simp: less_eq_insertion_slice_def less_insertion_slice_def sl_edit_id_def sl_insertion_id_def
      intro!: insertion_slice.expand)

end

lemma slice_cmp_order: "slice_cmp a b = ord_cmp a b"
proof -
  have eq: "a = b \<longleftrightarrow> sl_edit_id a = sl_edit_id b \<and> sl_insertion_id a = sl_insertion_id b \<and> sl_start a = sl_start b \<and> sl_end a = sl_end b"
    by (auto simp: sl_edit_id_def sl_insertion_id_def insertion_slice.expand)
  have less: "a < b \<longleftrightarrow> sl_edit_id a < sl_edit_id b \<or> sl_edit_id a = sl_edit_id b \<and>
      (sl_insertion_id a < sl_insertion_id b \<or> sl_insertion_id a = sl_insertion_id b \<and>
        (sl_start a < sl_start b \<or> sl_start a = sl_start b \<and> sl_end a < sl_end b))"
    by (simp add: less_insertion_slice_def less_eq_insertion_slice_def) (metis less_asym less_irrefl not_less)
  show ?thesis unfolding slice_cmp_def lamport_cmp_order ord_cmp_def eq less
    by (cases "sl_edit_id a" "sl_edit_id b" rule: linorder_cases; cases "sl_insertion_id a" "sl_insertion_id b" rule: linorder_cases;
        cases "sl_start a" "sl_start b" rule: linorder_cases) auto
qed

definition slice_from_fragment :: "lamport \<Rightarrow> fragment \<Rightarrow> insertion_slice" where
  "slice_from_fragment edit f =
     InsertionSlice (lamport_value edit) (lamport_replica edit)
       (lamport_value (fr_timestamp f)) (lamport_replica (fr_timestamp f))
       (fr_insertion_offset f) (fr_insertion_offset f + fr_len f)"

section \<open>The rope builder\<close>

text \<open>
  The old ropes are what their cursors have not consumed yet. Slicing past the end of a rope
  fails its assertion.
\<close>

record rope_builder =
  rb_old_visible :: bytes
  rb_old_deleted :: bytes
  rb_new_visible :: bytes
  rb_new_deleted :: bytes

definition rb_new :: "bytes \<Rightarrow> bytes \<Rightarrow> rope_builder" where
  "rb_new visible deleted =
     \<lparr>rb_old_visible = visible, rb_old_deleted = deleted, rb_new_visible = [], rb_new_deleted = []\<rparr>"

definition cursor_slice_text :: "nat \<Rightarrow> bytes \<Rightarrow> (bytes \<times> bytes) option" where
  "cursor_slice_text n old = (if n \<le> length old then Some (take n old, drop n old) else None)"

definition rb_push :: "nat \<Rightarrow> bool \<Rightarrow> bool \<Rightarrow> rope_builder \<Rightarrow> rope_builder option" where
  "rb_push n was is_now b = do {
     (content, b) \<leftarrow>
       (if was then do {
          (content, rest) \<leftarrow> cursor_slice_text n (rb_old_visible b);
          Some (content, b\<lparr>rb_old_visible := rest\<rparr>)
        } else do {
          (content, rest) \<leftarrow> cursor_slice_text n (rb_old_deleted b);
          Some (content, b\<lparr>rb_old_deleted := rest\<rparr>)
        });
     Some (if is_now then b\<lparr>rb_new_visible := rb_new_visible b @ content\<rparr>
           else b\<lparr>rb_new_deleted := rb_new_deleted b @ content\<rparr>)
   }"

definition rb_append :: "fragment_text_summary \<Rightarrow> rope_builder \<Rightarrow> rope_builder option" where
  "rb_append n b = do {
     b \<leftarrow> rb_push (ft_visible n) True True b;
     rb_push (ft_deleted n) False False b
   }"

definition rb_push_fragment :: "fragment \<Rightarrow> bool \<Rightarrow> rope_builder \<Rightarrow> rope_builder option" where
  "rb_push_fragment f was b = (if fr_len f > 0 then rb_push (fr_len f) was (fr_visible f) b else None)"

definition rb_push_str :: "bytes \<Rightarrow> rope_builder \<Rightarrow> rope_builder" where
  "rb_push_str s b = b\<lparr>rb_new_visible := rb_new_visible b @ s\<rparr>"

definition rb_finish :: "rope_builder \<Rightarrow> bytes \<times> bytes" where
  "rb_finish b = (rb_new_visible b @ rb_old_visible b, rb_new_deleted b @ rb_old_deleted b)"

section \<open>Line endings\<close>

datatype line_ending = Unix | Windows

text \<open>\<open>LINE_SEPARATORS_REGEX.replace_all(text, "\n")\<close>, the regular expression being \<open>\r\n|\r\<close>.\<close>

fun normalize_line_endings :: "bytes \<Rightarrow> bytes" where
  "normalize_line_endings (b # b' # bs) =
     (if b = 13 \<and> b' = 10 then 10 # normalize_line_endings bs
      else (if b = 13 then 10 else b) # normalize_line_endings (b' # bs))"
| "normalize_line_endings [b] = [if b = 13 then 10 else b]"
| "normalize_line_endings [] = []"

end
