(* ===== verification/Buffer.thy ===== *)
theory Buffer
  imports Fragment OperationQueue Subscription
begin

text \<open>
  The replicated text buffer (\<open>Buffer\<close> in \<open>crates/text/src/text.rs\<close>): local edits, remote edits,
  undo, and the queue of operations that wait for others. The tree of fragments is represented
  by the sequence of its items and a cursor over it by what is ahead and the position, which
  are what the theorems of \<open>TreeSpec\<close> show the tree operations to compute; the insertion index,
  the slice index, the undo map and the queue are the trees of their theories. A panic is
  \<open>None\<close>.
\<close>

section \<open>Cursors over fragments\<close>

record 'd frag_cursor =
  fc_rest :: "fragment list"
  fc_start :: 'd

definition fc_new :: "('d, fragment_summary) dim_ops \<Rightarrow> fragment list \<Rightarrow> 'd frag_cursor" where
  "fc_new M fs = \<lparr>fc_rest = fs, fc_start = d_zero M\<rparr>"

definition fc_item :: "'d frag_cursor \<Rightarrow> fragment option" where
  "fc_item c = list_first (fc_rest c)"

definition fc_end :: "('d, fragment_summary) dim_ops \<Rightarrow> 'd frag_cursor \<Rightarrow> 'd" where
  "fc_end M c = (case fc_item c of Some f \<Rightarrow> d_add M (fc_start c) (fragment_summary_of f) | None \<Rightarrow> fc_start c)"

definition fc_next :: "('d, fragment_summary) dim_ops \<Rightarrow> 'd frag_cursor \<Rightarrow> 'd frag_cursor" where
  "fc_next M c = \<lparr>fc_rest = tl (fc_rest c), fc_start = fc_end M c\<rparr>"

definition fc_slice ::
  "('d, fragment_summary) dim_ops \<Rightarrow> ('d \<Rightarrow> ordering) \<Rightarrow> bias \<Rightarrow> 'd frag_cursor \<Rightarrow> (fragment list \<times> 'd frag_cursor) option" where
  "fc_slice M target b c =
     (if target (fc_start c) = Less then None
      else let (us, vs) = advance fragment_ops M (passes target b) (fc_start c) (fc_rest c)
        in Some (us, \<lparr>fc_rest = vs, fc_start = after fragment_ops M (fc_start c) us\<rparr>))"

definition frags_summary :: "fragment list \<Rightarrow> fragment_summary" where
  "frags_summary fs = sum_of fragment_ops (map fragment_summary_of fs)"

section \<open>Building the new fragments\<close>

text \<open>
  The variables of an edit: the cursor over the old fragments, the new fragments, index entries
  and ropes, the patch, the offset of the next insertion, and \<open>fragment_start\<close>.
\<close>

record 'd edit_state =
  es_cursor :: "'d frag_cursor"
  es_fragments :: "fragment list"
  es_insertions :: "(insertion_fragment, insertion_fragment_key) edit list"
  es_slices :: "insertion_slice list"
  es_ropes :: rope_builder
  es_patch :: patch
  es_insertion_offset :: nat
  es_fragment_start :: nat

definition new_max_id :: "'d edit_state \<Rightarrow> locator" where
  "new_max_id st = fs_max_id (frags_summary (es_fragments st))"

definition new_visible_len :: "'d edit_state \<Rightarrow> nat" where
  "new_visible_len st = ft_visible (fs_text (frags_summary (es_fragments st)))"

definition patch_push :: "nat \<Rightarrow> nat \<Rightarrow> nat \<Rightarrow> nat \<Rightarrow> 'd edit_state \<Rightarrow> 'd edit_state" where
  "patch_push old_start old_end new_start new_end st =
     st\<lparr>es_patch := push (es_patch st)
       \<lparr>ed_old = span (int old_start) (int old_end), ed_new = span (int new_start) (int new_end)\<rparr>\<rparr>"

text \<open>The three pushes by which a piece of an old fragment is carried over.\<close>

definition push_piece :: "fragment \<Rightarrow> bool \<Rightarrow> 'd edit_state \<Rightarrow> 'd edit_state option" where
  "push_piece f was st = do {
     ropes \<leftarrow> rb_push_fragment f was (es_ropes st);
     Some (st\<lparr>es_insertions := es_insertions st @ [insert_new f], es_ropes := ropes,
              es_fragments := es_fragments st @ [f]\<rparr>)
   }"

definition push_slice :: "fragment list \<Rightarrow> 'd edit_state \<Rightarrow> 'd edit_state option" where
  "push_slice fs st = do {
     ropes \<leftarrow> rb_append (fs_text (frags_summary fs)) (es_ropes st);
     Some (st\<lparr>es_ropes := ropes, es_fragments := es_fragments st @ fs\<rparr>)
   }"

text \<open>
  A partially consumed fragment: the rest of it is carried over and the cursor moves on. \<open>off\<close>
  reads the offset the edit works with from the position.
\<close>

definition consume_rest ::
  "('d, fragment_summary) dim_ops \<Rightarrow> ('d \<Rightarrow> nat option) \<Rightarrow> 'd edit_state \<Rightarrow> 'd edit_state option" where
  "consume_rest M off st = do {
     let c = es_cursor st;
     start \<leftarrow> off (fc_start c);
     (if es_fragment_start st > start then do {
        fragment_end \<leftarrow> off (fc_end M c);
        st \<leftarrow> (if fragment_end > es_fragment_start st then do {
            suffix \<leftarrow> fc_item c;
            push_piece (suffix\<lparr>fr_len := fragment_end - es_fragment_start st,
                fr_insertion_offset := fr_insertion_offset suffix + (es_fragment_start st - start)\<rparr>)
              (fr_visible suffix) st
          } else Some st);
        Some (st\<lparr>es_cursor := fc_next M c\<rparr>)
      }
      else Some st)
   }"

text \<open>Jump ahead to the fragment that extends past the start of the range.\<close>

definition skip_to ::
  "('d, fragment_summary) dim_ops \<Rightarrow> ('d \<Rightarrow> nat option) \<Rightarrow> ('d \<Rightarrow> ordering) \<Rightarrow> bias \<Rightarrow> nat
   \<Rightarrow> 'd edit_state \<Rightarrow> 'd edit_state option" where
  "skip_to M off target b range_start st = do {
     fragment_end \<leftarrow> off (fc_end M (es_cursor st));
     (if fragment_end < range_start then do {
        st \<leftarrow> consume_rest M off st;
        (slice, c) \<leftarrow> fc_slice M target b (es_cursor st);
        st \<leftarrow> push_slice slice st;
        start \<leftarrow> off (fc_start c);
        Some (st\<lparr>es_cursor := c, es_fragment_start := start\<rparr>)
      }
      else Some st)
   }"

text \<open>Preserve the part of the current fragment that precedes the range.\<close>

definition preserve_prefix ::
  "('d \<Rightarrow> nat option) \<Rightarrow> nat \<Rightarrow> 'd edit_state \<Rightarrow> 'd edit_state option" where
  "preserve_prefix off range_start st =
     (if es_fragment_start st < range_start then do {
        prefix \<leftarrow> fc_item (es_cursor st);
        start \<leftarrow> off (fc_start (es_cursor st));
        let prefix = prefix\<lparr>fr_len := range_start - es_fragment_start st,
            fr_insertion_offset := fr_insertion_offset prefix + (es_fragment_start st - start),
            fr_id := between (new_max_id st) (fr_id prefix)\<rparr>;
        st \<leftarrow> push_piece prefix (fr_visible prefix) st;
        Some (st\<lparr>es_fragment_start := range_start\<rparr>)
      }
      else Some st)"

definition MAX_INSERTION_LEN :: nat where
  "MAX_INSERTION_LEN = 2 ^ 32 - 1"

text \<open>Where the chunk of an insertion that starts at an offset ends.\<close>

definition chunk_end :: "nat \<Rightarrow> bytes \<Rightarrow> nat \<Rightarrow> nat" where
  "chunk_end max_len s offset =
     (let target_end = min (length s) (offset + max_len)
      in if target_end = length s then target_end else floor_char_boundary s target_end)"

lemma chunk_end_le: "offset \<le> length s \<Longrightarrow> chunk_end max_len s offset \<le> length s"
  using floor_from_le [of s "min (length s) (offset + max_len)"]
  by (auto simp: chunk_end_def Let_def floor_char_boundary_def)

text \<open>The fragments of an insertion, cut at character boundaries.\<close>

function push_chunks ::
  "nat \<Rightarrow> bytes \<Rightarrow> lamport \<Rightarrow> locator \<Rightarrow> nat \<Rightarrow> 'd edit_state \<Rightarrow> 'd edit_state" where
  "push_chunks max_len s timestamp next_fragment_id offset st =
     (if offset < length s then
        let e = chunk_end max_len s offset
        in if e \<le> offset then st
           else let f = \<lparr>fr_id = between (new_max_id st) next_fragment_id, fr_timestamp = timestamp,
                      fr_insertion_offset = es_insertion_offset st, fr_len = e - offset,
                      fr_visible = True, fr_deletions = [], fr_max_undos = global_new\<rparr>
             in push_chunks max_len s timestamp next_fragment_id e
                  (st\<lparr>es_slices := es_slices st @ [slice_from_fragment timestamp f],
                      es_insertions := es_insertions st @ [insert_new f],
                      es_fragments := es_fragments st @ [f],
                      es_insertion_offset := es_insertion_offset st + (e - offset)\<rparr>)
      else st)"
  by pat_completeness auto
termination
  by (relation "measure (\<lambda>(max_len, s, timestamp, next_fragment_id, offset, st). length s - offset)") auto

declare push_chunks.simps [simp del]

definition push_fragments_for_insertion :: "bytes \<Rightarrow> lamport \<Rightarrow> locator \<Rightarrow> 'd edit_state \<Rightarrow> 'd edit_state" where
  "push_fragments_for_insertion new_text timestamp next_fragment_id st =
     (let st = push_chunks MAX_INSERTION_LEN new_text timestamp next_fragment_id 0 st
      in st\<lparr>es_ropes := rb_push_str new_text (es_ropes st)\<rparr>)"

text \<open>Insert the new text before the fragments within the range.\<close>

definition insert_text :: "bytes \<Rightarrow> lamport \<Rightarrow> nat \<Rightarrow> 'd edit_state \<Rightarrow> 'd edit_state" where
  "insert_text new_text timestamp old_start st =
     (if new_text \<noteq> [] then
        let new_start = new_visible_len st;
            next_fragment_id = (case fc_item (es_cursor st) of None \<Rightarrow> locator_max | Some f \<Rightarrow> fr_id f)
        in patch_push old_start old_start new_start (new_start + length new_text)
             (push_fragments_for_insertion new_text timestamp next_fragment_id st)
      else st)"

section \<open>Local edits\<close>

definition visible_off :: "fragment_text_summary \<Rightarrow> nat option" where
  "visible_off p = Some (ft_visible p)"

text \<open>One round of the loop that deletes a range: the piece of the fragment in the range.\<close>

definition delete_local_piece ::
  "lamport \<Rightarrow> nat \<Rightarrow> fragment_text_summary edit_state \<Rightarrow> fragment_text_summary edit_state option" where
  "delete_local_piece timestamp range_end st = do {
     let c = es_cursor st;
     f \<leftarrow> fc_item c;
     let fragment_end = ft_visible (fc_end text_dim c);
     let intersection_end = min range_end fragment_end;
     let intersection =
       (if fr_visible f then
          f\<lparr>fr_len := intersection_end - es_fragment_start st,
            fr_insertion_offset := fr_insertion_offset f + (es_fragment_start st - ft_visible (fc_start c)),
            fr_id := between (new_max_id st) (fr_id f),
            fr_deletions := fr_deletions f @ [timestamp],
            fr_visible := False\<rparr>
        else f);
     st \<leftarrow> (if fr_len intersection > 0 then do {
         let st =
           (if fr_visible f \<and> \<not> fr_visible intersection then
              let new_start = new_visible_len st
              in (patch_push (es_fragment_start st) intersection_end new_start new_start st)
                 \<lparr>es_slices := es_slices st @ [slice_from_fragment timestamp intersection]\<rparr>
            else st);
         st \<leftarrow> push_piece intersection (fr_visible f) st;
         Some (st\<lparr>es_fragment_start := intersection_end\<rparr>)
       } else Some st);
     Some (if fragment_end \<le> range_end then st\<lparr>es_cursor := fc_next text_dim c\<rparr> else st)
   }"

partial_function (option) delete_local ::
  "lamport \<Rightarrow> nat \<Rightarrow> fragment_text_summary edit_state \<Rightarrow> fragment_text_summary edit_state option" where
  "delete_local timestamp range_end st =
     (if es_fragment_start st < range_end then do {
        st \<leftarrow> delete_local_piece timestamp range_end st;
        delete_local timestamp range_end st
      }
      else Some st)"

text \<open>One edit: the state, and the ranges of the operation in full offsets.\<close>

definition local_edit_step ::
  "lamport \<Rightarrow> nat \<Rightarrow> nat \<Rightarrow> bytes \<Rightarrow> fragment_text_summary edit_state
   \<Rightarrow> ((nat \<times> nat) \<times> fragment_text_summary edit_state) option" where
  "local_edit_step timestamp range_start range_end new_text st = do {
     st \<leftarrow> skip_to text_dim visible_off (visible_target range_start) Right range_start st;
     let full_range_start = range_start + ft_deleted (fc_start (es_cursor st));
     st \<leftarrow> preserve_prefix visible_off range_start st;
     let st = insert_text new_text timestamp (es_fragment_start st) st;
     st \<leftarrow> delete_local timestamp range_end st;
     let full_range_end = range_end + ft_deleted (fc_start (es_cursor st));
     Some ((full_range_start, full_range_end), st)
   }"

type_synonym local_edit = "(nat \<times> nat) \<times> bytes"

fun local_edits ::
  "lamport \<Rightarrow> local_edit list \<Rightarrow> (nat \<times> nat) list \<Rightarrow> bytes list \<Rightarrow> fragment_text_summary edit_state
   \<Rightarrow> ((nat \<times> nat) list \<times> bytes list \<times> fragment_text_summary edit_state) option" where
  "local_edits timestamp [] ranges new_texts st = Some (ranges, new_texts, st)"
| "local_edits timestamp (((range_start, range_end), new_text) # edits) ranges new_texts st = do {
     let new_text = normalize_line_endings new_text;
     (full_range, st) \<leftarrow> local_edit_step timestamp range_start range_end new_text st;
     local_edits timestamp edits (ranges @ [full_range]) (new_texts @ [new_text]) st
   }"

type_synonym buffer_id = "64 word"

record snapshot =
  sn_visible_text :: bytes
  sn_deleted_text :: bytes
  sn_fragments :: "fragment list"
  sn_insertions :: "(insertion_fragment, insertion_fragment_key) node"
  sn_insertion_slices :: "insertion_slice tree_set"
  sn_undo_map :: undo_map
  sn_version :: global
  sn_remote_id :: buffer_id
  sn_replica_id :: replica_id
  sn_line_ending :: line_ending

definition edit_state_init ::
  "snapshot \<Rightarrow> 'd frag_cursor \<Rightarrow> nat \<Rightarrow> 'd edit_state" where
  "edit_state_init sn c fragment_start =
     \<lparr>es_cursor = c, es_fragments = [], es_insertions = [], es_slices = [],
      es_ropes = rb_new (sn_visible_text sn) (sn_deleted_text sn), es_patch = [],
      es_insertion_offset = 0, es_fragment_start = fragment_start\<rparr>"

text \<open>The end of an edit: the rest of the fragments, and the new snapshot.\<close>

definition finish_edit ::
  "('d, fragment_summary) dim_ops \<Rightarrow> ('d \<Rightarrow> nat option) \<Rightarrow> 'd edit_state \<Rightarrow> snapshot \<Rightarrow> (patch \<times> snapshot) option" where
  "finish_edit M off st sn = do {
     st \<leftarrow> consume_rest M off st;
     st \<leftarrow> push_slice (fc_rest (es_cursor st)) st;
     let (visible_text, deleted_text) = rb_finish (es_ropes st);
     (_, insertions) \<leftarrow> tree_edit insertion_summary insertion_dim insertion_key (es_insertions st) (sn_insertions sn);
     insertion_slices \<leftarrow> ts_extend (es_slices st) (sn_insertion_slices sn);
     Some (es_patch st, sn\<lparr>sn_fragments := es_fragments st, sn_insertions := insertions,
       sn_visible_text := visible_text, sn_deleted_text := deleted_text, sn_insertion_slices := insertion_slices\<rparr>)
   }"

definition apply_local_edit ::
  "local_edit list \<Rightarrow> lamport \<Rightarrow> snapshot \<Rightarrow> (8 word edit_operation \<times> patch \<times> snapshot) option" where
  "apply_local_edit edits timestamp sn = do {
     first_edit \<leftarrow> list_first edits;
     (new_fragments, c) \<leftarrow>
       fc_slice text_dim (visible_target (fst (fst first_edit))) Right (fc_new text_dim (sn_fragments sn));
     st \<leftarrow> push_slice new_fragments (edit_state_init sn c (ft_visible (fc_start c)));
     (ranges, new_texts, st) \<leftarrow> local_edits timestamp edits [] [] st;
     (p, sn') \<leftarrow> finish_edit text_dim visible_off st sn;
     Some (\<lparr>eo_timestamp = timestamp, eo_version = sn_version sn, eo_ranges = ranges, eo_new_text = new_texts\<rparr>, p, sn')
   }"

section \<open>Buffers\<close>

text \<open>
  The channels of \<open>wait_for_edits\<close> and \<open>wait_for_version\<close> are not part of the model.
\<close>

type_synonym buffer_op = "8 word operation"

record text_buffer =
  bf_snapshot :: snapshot
  bf_history :: "8 word history"
  bf_deferred_ops :: "(buffer_op, op_summary) node"
  bf_deferred_replicas :: "replica_id set"
  bf_lamport_clock :: lamport
  bf_subscriptions :: topic

text \<open>
  The fragments of the base text. A chunk that makes no progress is pushed again and again:
  the loop of the code does not check for it.
\<close>

partial_function (option) base_chunks ::
  "nat \<Rightarrow> bytes \<Rightarrow> lamport \<Rightarrow> nat \<Rightarrow> nat \<Rightarrow> locator \<Rightarrow> (insertion_fragment, insertion_fragment_key) node
   \<Rightarrow> fragment list \<Rightarrow> ((insertion_fragment, insertion_fragment_key) node \<times> fragment list) option" where
  "base_chunks max_len s timestamp insertion_offset text_offset prev_locator insertions fragments =
     (if text_offset < length s then do {
        let e = chunk_end max_len s text_offset;
        let fragment_id = between prev_locator locator_max;
        let f = \<lparr>fr_id = fragment_id, fr_timestamp = timestamp, fr_insertion_offset = insertion_offset,
                 fr_len = e - text_offset, fr_visible = True, fr_deletions = [], fr_max_undos = global_new\<rparr>;
        insertions \<leftarrow> tree_push insertion_summary insertions (insertion_of f);
        base_chunks max_len s timestamp (insertion_offset + (e - text_offset)) e fragment_id insertions (fragments @ [f])
      }
      else Some (insertions, fragments))"

definition new_normalized :: "replica_id \<Rightarrow> buffer_id \<Rightarrow> line_ending \<Rightarrow> bytes \<Rightarrow> text_buffer option" where
  "new_normalized replica_id remote_id line_ending normalized = do {
     let insertion_timestamp = lamport_new LOCAL;
     let lamport_clock = lamport_new replica_id;
     (lamport_clock, version, insertions, fragments) \<leftarrow>
       (if normalized \<noteq> [] then do {
          (insertions, fragments) \<leftarrow>
            base_chunks MAX_INSERTION_LEN normalized insertion_timestamp 0 0 locator_min (tree_new insertion_summary) [];
          Some (lamport_observe lamport_clock insertion_timestamp, observe global_new insertion_timestamp, insertions, fragments)
        }
        else Some (lamport_clock, global_new, tree_new insertion_summary, []));
     Some \<lparr>bf_snapshot = \<lparr>sn_visible_text = normalized, sn_deleted_text = [], sn_fragments = fragments,
               sn_insertions = insertions, sn_insertion_slices = tm_empty, sn_undo_map = um_new,
               sn_version = version, sn_remote_id = remote_id, sn_replica_id = replica_id, sn_line_ending = line_ending\<rparr>,
           bf_history = history_new normalized, bf_deferred_ops = oq_new op_timestamp, bf_deferred_replicas = {},
           bf_lamport_clock = lamport_clock, bf_subscriptions = topic_new\<rparr>
   }"

text \<open>The line ending a text uses, judged by the first newline near its start; the default is that of Unix.\<close>

fun find_newline :: "bytes \<Rightarrow> nat option" where
  "find_newline [] = None"
| "find_newline (b # bs) = (if b = 10 then Some 0 else map_option Suc (find_newline bs))"

definition detect :: "bytes \<Rightarrow> line_ending" where
  "detect s =
     (let max_ix = floor_char_boundary s (min (length s) 1000)
      in case find_newline (take max_ix s) of
           Some ix \<Rightarrow> (if ix > 0 \<and> s ! (ix - 1) = 13 then Windows else Unix)
         | None \<Rightarrow> Unix)"

definition buffer_new :: "replica_id \<Rightarrow> buffer_id \<Rightarrow> bytes \<Rightarrow> text_buffer option" where
  "buffer_new replica_id remote_id base_text =
     new_normalized replica_id remote_id (detect base_text) (normalize_line_endings base_text)"

definition branch :: "text_buffer \<Rightarrow> text_buffer" where
  "branch b =
     \<lparr>bf_snapshot = bf_snapshot b, bf_history = history_new (hi_base_text (bf_history b)),
      bf_deferred_ops = oq_new op_timestamp, bf_deferred_replicas = {},
      bf_lamport_clock = lamport_new LOCAL_BRANCH, bf_subscriptions = topic_new\<rparr>"

definition set_line_ending :: "line_ending \<Rightarrow> text_buffer \<Rightarrow> text_buffer" where
  "set_line_ending le b = b\<lparr>bf_snapshot := (bf_snapshot b)\<lparr>sn_line_ending := le\<rparr>\<rparr>"

end
