(* ===== verification/EditCore.thy ===== *)
theory EditCore
  imports Buffer
begin

text \<open>
  What an edit of a buffer keeps (\<open>apply_local_edit\<close> and \<open>apply_remote_edit\<close> in
  \<open>crates/text/src/text.rs\<close>). Every fragment stands for a run of bytes of its insertion, given by a
  content function; the ropes are the texts of the visible and of the deleted fragments in
  order. While an edit runs, the new fragments and what remains of the old ones form one
  fragment sequence with these properties, and the patch leads from the old visible text to
  the new one as far as it is built.
\<close>

section \<open>Sequences of fragments\<close>

type_synonym content = "lamport \<Rightarrow> nat \<Rightarrow> 8 word"

definition frag_text :: "content \<Rightarrow> fragment \<Rightarrow> bytes" where
  "frag_text ct f = map (ct (fr_timestamp f)) [fr_insertion_offset f ..< fr_insertion_offset f + fr_len f]"

definition vtext :: "content \<Rightarrow> fragment list \<Rightarrow> bytes" where
  "vtext ct fs = concat (map (frag_text ct) (filter fr_visible fs))"

definition dtext :: "content \<Rightarrow> fragment list \<Rightarrow> bytes" where
  "dtext ct fs = concat (map (frag_text ct) (filter (\<lambda>f. \<not> fr_visible f) fs))"

text \<open>The bytes of its insertion a fragment covers.\<close>

definition cells :: "fragment \<Rightarrow> (lamport \<times> nat) set" where
  "cells f = {fr_timestamp f} \<times> {fr_insertion_offset f ..< fr_insertion_offset f + fr_len f}"

definition frag_less :: "fragment \<Rightarrow> fragment \<Rightarrow> bool" where
  "frag_less f g \<longleftrightarrow> fr_id f < fr_id g \<and> cells f \<inter> cells g = {}"

definition frag_ok :: "fragment \<Rightarrow> bool" where
  "frag_ok f \<longleftrightarrow> locator_wf (fr_id f) \<and> fr_id f < locator_max \<and> 0 < fr_len f"

definition frags_ok :: "fragment list \<Rightarrow> bool" where
  "frags_ok fs \<longleftrightarrow> sorted_wrt frag_less fs \<and> (\<forall>f \<in> set fs. frag_ok f)"

lemma text_simps [simp]:
  "length (frag_text ct f) = fr_len f"
  "vtext ct [] = []" "dtext ct [] = []"
  "vtext ct (f # fs) = (if fr_visible f then frag_text ct f else []) @ vtext ct fs"
  "dtext ct (f # fs) = (if fr_visible f then [] else frag_text ct f) @ dtext ct fs"
  "vtext ct (fs @ gs) = vtext ct fs @ vtext ct gs"
  "dtext ct (fs @ gs) = dtext ct fs @ dtext ct gs"
  by (simp_all add: frag_text_def vtext_def dtext_def)

lemma frags_ok_simps [simp]:
  "frags_ok []"
  "frags_ok (f # fs) \<longleftrightarrow> frag_ok f \<and> (\<forall>g \<in> set fs. frag_less f g) \<and> frags_ok fs"
  "frags_ok (fs @ gs) \<longleftrightarrow> frags_ok fs \<and> frags_ok gs \<and> (\<forall>f \<in> set fs. \<forall>g \<in> set gs. frag_less f g)"
  by (auto simp: frags_ok_def sorted_wrt_append)

lemma cells_first: "frag_ok f \<Longrightarrow> (fr_timestamp f, fr_insertion_offset f) \<in> cells f"
  by (simp add: cells_def frag_ok_def)

lemma frag_less_irrefl [simp]: "\<not> frag_less f f"
  by (simp add: frag_less_def)

text \<open>Fragments are told apart by a shared cell, so by their key in the insertion index.\<close>

lemma frags_ok_shared:
  assumes "frags_ok fs" "f \<in> set fs" "g \<in> set fs" "x \<in> cells f" "x \<in> cells g"
  shows "f = g"
  using assms by (induction fs) (auto simp: frag_less_def)

lemma insertion_key_of: "insertion_key (insertion_of f) = InsertionFragmentKey (fr_timestamp f) (fr_insertion_offset f)"
  by (simp add: insertion_key_def insertion_of_def)

lemma frags_ok_key:
  assumes "frags_ok fs" "f \<in> set fs" "g \<in> set fs"
    and "insertion_key (insertion_of f) = insertion_key (insertion_of g)"
  shows "f = g"
proof -
  have "frag_ok f" "frag_ok g" using assms by (auto simp: frags_ok_def)
  then show ?thesis using frags_ok_shared [OF assms(1-3)] cells_first [of f] cells_first [of g] assms(4)
    by (simp add: insertion_key_of)
qed

section \<open>Summaries of runs\<close>

lemma frags_summary_snoc [simp]: "frags_summary (fs @ [f]) = fragment_add (frags_summary fs) (fragment_summary_of f)"
  by (simp add: frags_summary_def sum_of_def fragment_ops_def)

lemma frags_summary_text:
  "ft_visible (fs_text (frags_summary fs)) = length (vtext ct fs)"
  "ft_deleted (fs_text (frags_summary fs)) = length (dtext ct fs)"
proof (induction fs rule: rev_induct)
  case Nil
  { case 1 show ?case by (simp add: frags_summary_def sum_of_def fragment_ops_def fragment_zero_def) }
  { case 2 show ?case by (simp add: frags_summary_def sum_of_def fragment_ops_def fragment_zero_def) }
qed (simp_all add: fragment_add_def fragment_summary_of_def Let_def)

lemma frags_summary_max_id:
  "fs_max_id (frags_summary fs) = (if fs = [] then locator_min else fr_id (last fs))"
  by (induction fs rule: rev_induct)
    (simp_all add: fragment_add_def fragment_summary_of_def Let_def, simp add: frags_summary_def sum_of_def fragment_ops_def fragment_zero_def)

lemma locator_min_less: "locator_wf l \<Longrightarrow> locator_min < l"
  by (cases l, cases "digits l")
    (auto simp: locator_wf_def less_locator_def locator_min_def word_gt_0 neq_Nil_conv split: if_splits)

text \<open>The greatest identifier so far is below every later fragment's.\<close>

lemma max_id_less:
  assumes "\<forall>f \<in> set fs. fr_id f < l" "locator_wf l"
  shows "fs_max_id (frags_summary fs) < l"
  using assms by (simp add: frags_summary_max_id locator_min_less)

lemma max_id_le: "frags_ok fs \<Longrightarrow> f \<in> set fs \<Longrightarrow> fr_id f \<le> fs_max_id (frags_summary fs)"
proof (cases fs rule: rev_cases)
  case (snoc gs g)
  then have "fs_max_id (frags_summary fs) = fr_id g"
    by (simp add: frags_summary_max_id del: frags_summary_snoc)
  with snoc show "frags_ok fs \<Longrightarrow> f \<in> set fs \<Longrightarrow> ?thesis"
    by (auto simp: frag_less_def simp del: frags_summary_snoc)
qed simp

section \<open>Pieces of a fragment\<close>

definition piece :: "fragment \<Rightarrow> nat \<Rightarrow> nat \<Rightarrow> fragment" where
  "piece f i n = f\<lparr>fr_len := n, fr_insertion_offset := fr_insertion_offset f + i\<rparr>"

lemma piece_simps [simp]:
  "fr_id (piece f i n) = fr_id f" "fr_timestamp (piece f i n) = fr_timestamp f"
  "fr_visible (piece f i n) = fr_visible f" "fr_len (piece f i n) = n"
  "fr_insertion_offset (piece f i n) = fr_insertion_offset f + i"
  "fr_deletions (piece f i n) = fr_deletions f" "fr_max_undos (piece f i n) = fr_max_undos f"
  "piece f 0 (fr_len f) = f" "piece (piece f i m) j n = piece f (i + j) n"
  by (simp_all add: piece_def add.assoc)

lemma piece_text: "i + n \<le> fr_len f \<Longrightarrow> frag_text ct (piece f i n) = take n (drop i (frag_text ct f))"
  by (simp add: frag_text_def drop_map take_map)

lemma piece_text_empty [simp]: "frag_text ct (piece f i 0) = []"
  by (simp add: frag_text_def)

lemma piece_cells: "i + n \<le> fr_len f \<Longrightarrow> cells (piece f i n) \<subseteq> cells f"
  by (auto simp: cells_def)

text \<open>A fragment and the two pieces it is cut into.\<close>

lemma frag_text_cut:
  "k \<le> fr_len f \<Longrightarrow> frag_text ct (piece f 0 k) @ frag_text ct (piece f k (fr_len f - k)) = frag_text ct f"
  by (simp add: piece_text)


definition cut_rest :: "fragment \<Rightarrow> nat \<Rightarrow> fragment list" where
  "cut_rest g k = (if k < fr_len g then [piece g k (fr_len g - k)] else [])"

text \<open>The piece that is carried over, perhaps with a new identifier or deleted.\<close>

definition carried :: "fragment \<Rightarrow> nat \<Rightarrow> locator \<Rightarrow> lamport list \<Rightarrow> bool \<Rightarrow> fragment" where
  "carried g k l d v = (piece g 0 k)\<lparr>fr_id := l, fr_deletions := d, fr_visible := v\<rparr>"

lemma carried_simps [simp]:
  "fr_id (carried g k l d v) = l" "fr_timestamp (carried g k l d v) = fr_timestamp g"
  "fr_insertion_offset (carried g k l d v) = fr_insertion_offset g" "fr_len (carried g k l d v) = k"
  "fr_visible (carried g k l d v) = v" "fr_deletions (carried g k l d v) = d"
  "fr_max_undos (carried g k l d v) = fr_max_undos g"
  "frag_text ct (carried g k l d v) = frag_text ct (piece g 0 k)"
  "cells (carried g k l d v) = cells (piece g 0 k)"
  by (simp_all add: carried_def frag_text_def cells_def)

lemma carried_all: "carried g (fr_len g) (fr_id g) (fr_deletions g) (fr_visible g) = g"
  by (simp add: carried_def)

lemma cut_cells:
  assumes "k \<le> fr_len g"
  shows "cells (piece g 0 k) \<union> (\<Union>f \<in> set (cut_rest g k). cells f) = cells g"
    "f \<in> set (cut_rest g k) \<Longrightarrow> cells (piece g 0 k) \<inter> cells f = {}"
  using assms by (auto simp: cells_def cut_rest_def split: if_splits)

text \<open>Cutting the first remaining fragment keeps the sequence well formed.\<close>

lemma frags_ok_cut:
  assumes ok: "frags_ok (fs @ g # R)" and k: "0 < k" "k \<le> fr_len g"
    and l: "\<forall>f \<in> set fs. fr_id f < l" "l \<le> fr_id g" "k < fr_len g \<Longrightarrow> l < fr_id g" "locator_wf l"
  shows "frags_ok ((fs @ [carried g k l d v]) @ cut_rest g k @ R)"
proof -
  have sub: "cells (piece g 0 k) \<subseteq> cells g" "f \<in> set (cut_rest g k) \<Longrightarrow> cells f \<subseteq> cells g" for f
    using cut_cells(1) [OF k(2)] by auto
  have c: "frag_ok f" "fr_id f = fr_id g" "k < fr_len g" if "f \<in> set (cut_rest g k)" for f
    using that ok by (auto simp: cut_rest_def frag_ok_def split: if_splits)
  have "frags_ok (cut_rest g k)"
    using c(1) [of "piece g k (fr_len g - k)"] by (cases "k < fr_len g") (simp_all add: cut_rest_def)
  moreover have "frag_ok (carried g k l d v)" using ok k l by (auto simp: frag_ok_def)
  moreover have "frag_less (carried g k l d v) f" if "f \<in> set (cut_rest g k)" for f
    using c [OF that] l(3) cut_cells(2) [OF k(2) that] by (simp add: frag_less_def)
  moreover have "frag_less f (carried g k l d v)" "\<And>h. h \<in> set (cut_rest g k) \<Longrightarrow> frag_less f h" if f: "f \<in> set fs" for f
  proof -
    have "cells f \<inter> cells g = {}" "fr_id f < fr_id g" using f ok by (simp_all add: frag_less_def)
    then show "frag_less f (carried g k l d v)" "\<And>h. h \<in> set (cut_rest g k) \<Longrightarrow> frag_less f h"
      using f l(1) sub c(2) unfolding frag_less_def by (simp, blast)+
  qed
  moreover have "frag_less (carried g k l d v) f" "\<And>h. h \<in> set (cut_rest g k) \<Longrightarrow> frag_less h f" if f: "f \<in> set R" for f
  proof -
    have "cells g \<inter> cells f = {}" "fr_id g < fr_id f" using f ok by (simp_all add: frag_less_def)
    note g = this
    have "cells (piece g 0 k) \<inter> cells f = {}" using g(1) sub(1) by blast
    then show "frag_less (carried g k l d v) f" using g(2) l(2) by (simp add: frag_less_def)
    show "frag_less h f" if h: "h \<in> set (cut_rest g k)" for h
      using g(2) c(2) [OF h] sub(2) [OF h] g(1) unfolding frag_less_def by (simp, blast)
  qed
  ultimately show ?thesis using ok by (simp add: ball_Un)
qed

lemma cut_text:
  assumes "k \<le> fr_len g"
  shows "(if fr_visible g then frag_text ct (piece g 0 k) else []) @ vtext ct (cut_rest g k) = vtext ct [g]"
    "(if fr_visible g then [] else frag_text ct (piece g 0 k)) @ dtext ct (cut_rest g k) = dtext ct [g]"
  using assms by (auto simp: cut_rest_def piece_text)

section \<open>Ropes and patch\<close>

definition texts_inv :: "content \<Rightarrow> fragment list \<Rightarrow> 'd edit_state \<Rightarrow> bool" where
  "texts_inv ct R st \<longleftrightarrow> frags_ok (es_fragments st @ R) \<and>
     es_ropes st = \<lparr>rb_old_visible = vtext ct R, rb_old_deleted = dtext ct R,
       rb_new_visible = vtext ct (es_fragments st), rb_new_deleted = dtext ct (es_fragments st)\<rparr>"

definition new_text :: "content \<Rightarrow> 'd edit_state \<Rightarrow> bytes" where
  "new_text ct st = vtext ct (es_fragments st)"

definition patch_inv :: "content \<Rightarrow> bytes \<Rightarrow> fragment list \<Rightarrow> 'd edit_state \<Rightarrow> bool" where
  "patch_inv ct V R st \<longleftrightarrow> (\<exists>U. V = U @ vtext ct R \<and>
     upto V (new_text ct st) (es_patch st) (int (length U)) (int (length (new_text ct st))))"

lemma gap_extend: "gap s u o1 n1 o2 n2 \<Longrightarrow> gap s (u @ w) o1 n1 o2 n2"
  by (auto simp: gap_def nth_append)

lemma path_extend: "path s u o1 n1 p o2 n2 \<Longrightarrow> path s (u @ w) o1 n1 p o2 n2"
  by (induction p arbitrary: o1 n1) (auto intro: gap_extend)

lemma upto_extend: "upto s u p o1 n1 \<Longrightarrow> upto s (u @ w) p o1 n1"
  by (auto simp: upto_def path_extend)

lemma gap_copy:
  "gap (U @ x @ W) (N @ x) (int (length U)) (int (length N)) (int (length (U @ x))) (int (length (N @ x)))"
  by (auto simp: gap_def nth_append nat_add_distrib)

lemma upto_copy:
  assumes "upto (U @ x @ W) N p (int (length U)) (int (length N))"
  shows "upto (U @ x @ W) (N @ x) p (int (length (U @ x))) (int (length (N @ x)))"
  using upto_extend [OF assms, of x] gap_copy [of U x W N] path_gap unfolding upto_def by blast

lemma upto_replace:
  assumes "upto (U @ x @ W) N p (int (length U)) (int (length N))"
  shows "upto (U @ x @ W) (N @ y)
    (push p \<lparr>ed_old = span (int (length U)) (int (length (U @ x))), ed_new = span (int (length N)) (int (length (N @ y)))\<rparr>)
    (int (length (U @ x))) (int (length (N @ y)))"
  by (rule push_upto [OF upto_extend [OF assms] gap_refl]) auto


section \<open>Marked text\<close>

text \<open>
  The text as someone sees it who knows only some of the fragments and whom it matters which bytes
  are marked: a mark is a function of a fragment's insertion, deletions and visibility.
\<close>

type_synonym mark = "lamport \<Rightarrow> lamport list \<Rightarrow> bool \<Rightarrow> bool option"

definition marked :: "bool option \<Rightarrow> bytes \<Rightarrow> (8 word \<times> bool) list" where
  "marked b s = (case b of None \<Rightarrow> [] | Some b \<Rightarrow> map (\<lambda>x. (x, b)) s)"

definition mark_of :: "mark \<Rightarrow> fragment \<Rightarrow> bool option" where
  "mark_of m f = m (fr_timestamp f) (fr_deletions f) (fr_visible f)"

definition mtext :: "content \<Rightarrow> mark \<Rightarrow> fragment list \<Rightarrow> (8 word \<times> bool) list" where
  "mtext ct m fs = concat (map (\<lambda>f. marked (mark_of m f) (frag_text ct f)) fs)"

lemma marked_simps [simp]:
  "marked None s = []" "marked b [] = []" "marked b (s @ t) = marked b s @ marked b t"
  "length (marked (Some c) s) = length s"
  by (simp_all add: marked_def split: option.split)

lemma mtext_simps [simp]:
  "mtext ct m [] = []" "mtext ct m (f # fs) = marked (mark_of m f) (frag_text ct f) @ mtext ct m fs"
  "mtext ct m (fs @ gs) = mtext ct m fs @ mtext ct m gs"
  by (simp_all add: mtext_def)

lemma mark_of_piece [simp]:
  "mark_of m (piece g i n) = mark_of m g" "mark_of m (carried g k l d v) = m (fr_timestamp g) d v"
  by (simp_all add: mark_of_def)

lemma mtext_cut: "k \<le> fr_len g \<Longrightarrow> marked (mark_of m g) (frag_text ct (piece g 0 k)) @ mtext ct m (cut_rest g k) = mtext ct m [g]"
  using frag_text_cut [of k g ct] by (auto simp: cut_rest_def simp flip: marked_simps(3))

lemma carried_mtext:
  assumes "k \<le> fr_len g" "es_fragments st' = es_fragments st @ [carried g k l (fr_deletions g) (fr_visible g)]"
  shows "mtext ct m (es_fragments st') @ mtext ct m (cut_rest g k @ R) = mtext ct m (es_fragments st) @ mtext ct m (g # R)"
  using mtext_cut [OF assms(1), of m ct] by (simp add: assms(2) mark_of_def)

lemma mtext_new: "\<forall>f \<in> set ins. fr_timestamp f = ts \<and> fr_deletions f = [] \<and> fr_visible f \<Longrightarrow> mtext ct m ins = marked (m ts [] True) (vtext ct ins)"
  by (induction ins) (auto simp: mark_of_def)

section \<open>The index entries of an edit\<close>

abbreviation ikey :: "fragment \<Rightarrow> insertion_fragment_key" where
  "ikey f \<equiv> insertion_key (insertion_of f)"

text \<open>
  \<open>old\<close> are the fragments before the edit. The entries collected are those of distinct new
  fragments; a new fragment without one is an old fragment; an old fragment that is no longer
  there is replaced under its key.
\<close>

definition index_inv :: "lamport \<Rightarrow> fragment set \<Rightarrow> fragment list \<Rightarrow> 'd edit_state \<Rightarrow> bool" where
  "index_inv ts old R st \<longleftrightarrow>
     (\<exists>gs. es_insertions st = map insert_new gs \<and> distinct gs \<and> set gs \<subseteq> set (es_fragments st) \<and>
        (\<forall>f \<in> set (es_fragments st). f \<in> set gs \<or> f \<in> old) \<and>
        (\<forall>f \<in> old. f \<in> set (es_fragments st) \<or> f \<in> set R \<or> (\<exists>g \<in> set gs. ikey g = ikey f))) \<and>
     (\<exists>hs. es_slices st = map (slice_from_fragment ts) hs \<and> distinct hs \<and> set hs \<subseteq> set (es_fragments st))"

lemma index_inv_push:
  assumes inv: "index_inv ts old R st"
    and new: "distinct ins" "set ins \<inter> set (es_fragments st) = {}"
    and st': "es_fragments st' = es_fragments st @ ins" "es_insertions st' = es_insertions st @ map insert_new ins"
      "es_slices st' = es_slices st @ map (slice_from_fragment ts) (if sl then ins else [])"
    and R': "\<forall>f \<in> old \<inter> set R. f \<in> set R' \<or> (\<exists>g \<in> set ins. ikey g = ikey f)"
  shows "index_inv ts old R' st'"
proof -
  from inv obtain gs hs where gs: "es_insertions st = map insert_new gs" "distinct gs" "set gs \<subseteq> set (es_fragments st)"
      "\<forall>f \<in> set (es_fragments st). f \<in> set gs \<or> f \<in> old"
      "\<forall>f \<in> old. f \<in> set (es_fragments st) \<or> f \<in> set R \<or> (\<exists>g \<in> set gs. ikey g = ikey f)"
    and hs: "es_slices st = map (slice_from_fragment ts) hs" "distinct hs" "set hs \<subseteq> set (es_fragments st)"
    unfolding index_inv_def by blast
  let ?gs = "gs @ ins" and ?hs = "hs @ (if sl then ins else [])"
  have "es_insertions st' = map insert_new ?gs \<and> distinct ?gs \<and> set ?gs \<subseteq> set (es_fragments st') \<and>
      (\<forall>f \<in> set (es_fragments st'). f \<in> set ?gs \<or> f \<in> old) \<and>
      (\<forall>f \<in> old. f \<in> set (es_fragments st') \<or> f \<in> set R' \<or> (\<exists>g \<in> set ?gs. ikey g = ikey f))"
    using gs(1-4) new unfolding st'(1,2) using gs(5) R' by auto blast
  moreover have "es_slices st' = map (slice_from_fragment ts) ?hs \<and> distinct ?hs \<and> set ?hs \<subseteq> set (es_fragments st')"
    using hs new unfolding st'(1,3) by auto
  ultimately show ?thesis unfolding index_inv_def by blast
qed

lemma index_inv_slice:
  assumes "index_inv ts old (us @ R) st" "set us \<subseteq> old"
    and "es_fragments st' = es_fragments st @ us" "es_insertions st' = es_insertions st" "es_slices st' = es_slices st"
  shows "index_inv ts old R st'"
proof -
  from assms(1) obtain gs hs where gs: "es_insertions st = map insert_new gs" "distinct gs" "set gs \<subseteq> set (es_fragments st)"
      "\<forall>f \<in> set (es_fragments st). f \<in> set gs \<or> f \<in> old"
      "\<forall>f \<in> old. f \<in> set (es_fragments st) \<or> f \<in> set (us @ R) \<or> (\<exists>g \<in> set gs. ikey g = ikey f)"
    and hs: "es_slices st = map (slice_from_fragment ts) hs" "distinct hs" "set hs \<subseteq> set (es_fragments st)"
    unfolding index_inv_def by blast
  have "\<forall>f \<in> set (es_fragments st'). f \<in> set gs \<or> f \<in> old"
    "\<forall>f \<in> old. f \<in> set (es_fragments st') \<or> f \<in> set R \<or> (\<exists>g \<in> set gs. ikey g = ikey f)"
    "set gs \<subseteq> set (es_fragments st')" "set hs \<subseteq> set (es_fragments st')"
    using gs(3-5) hs(3) assms(2) unfolding assms(3) set_append by blast+
  with gs(1,2) hs(1,2) show ?thesis unfolding index_inv_def assms(4,5) by blast
qed

section \<open>Where the fragments of an edit come from\<close>

text \<open>
  A fragment is a piece of an old one; or it was deleted or inserted by the edit, which recorded
  a slice for it.
\<close>

definition piece_of :: "fragment set \<Rightarrow> fragment \<Rightarrow> bool" where
  "piece_of old f \<longleftrightarrow> (\<exists>g \<in> old. fr_timestamp f = fr_timestamp g \<and> cells f \<subseteq> cells g \<and>
     fr_deletions f = fr_deletions g \<and> fr_visible f = fr_visible g)"

definition deleted_of :: "lamport \<Rightarrow> fragment set \<Rightarrow> fragment \<Rightarrow> bool" where
  "deleted_of ts old f \<longleftrightarrow> (\<exists>g \<in> old. fr_timestamp f = fr_timestamp g \<and> cells f \<subseteq> cells g \<and>
     fr_deletions f = fr_deletions g @ [ts] \<and> \<not> fr_visible f)"

definition accounted :: "lamport \<Rightarrow> fragment set \<Rightarrow> insertion_slice set \<Rightarrow> fragment \<Rightarrow> bool" where
  "accounted ts old S f \<longleftrightarrow> piece_of old f \<or>
     slice_from_fragment ts f \<in> S \<and> (deleted_of ts old f \<or> fr_timestamp f = ts \<and> fr_deletions f = [] \<and> fr_visible f)"

definition prov_inv :: "lamport \<Rightarrow> fragment set \<Rightarrow> fragment list \<Rightarrow> 'd edit_state \<Rightarrow> bool" where
  "prov_inv ts old R st \<longleftrightarrow>
     (\<forall>f \<in> set (es_fragments st). accounted ts old (set (es_slices st)) f) \<and> (\<forall>f \<in> set R. piece_of old f)"

lemma piece_of_cells:
  "piece_of old g \<Longrightarrow> cells f \<subseteq> cells g \<Longrightarrow> fr_timestamp f = fr_timestamp g \<Longrightarrow> fr_deletions f = fr_deletions g \<Longrightarrow>
   fr_visible f = fr_visible g \<Longrightarrow> piece_of old f"
  unfolding piece_of_def by (metis subset_trans)

lemma deleted_of_cells:
  "piece_of old g \<Longrightarrow> cells f \<subseteq> cells g \<Longrightarrow> fr_timestamp f = fr_timestamp g \<Longrightarrow> fr_deletions f = fr_deletions g @ [ts] \<Longrightarrow>
   \<not> fr_visible f \<Longrightarrow> deleted_of ts old f"
  unfolding piece_of_def deleted_of_def by (metis subset_trans)

lemma accounted_mono: "accounted ts old S f \<Longrightarrow> S \<subseteq> S' \<Longrightarrow> accounted ts old S' f"
  unfolding accounted_def by blast

lemma prov_inv_cut:
  assumes inv: "prov_inv ts old (g # R) st" and k: "k \<le> fr_len g"
    and st': "es_fragments st' = es_fragments st @ [f]" "set (es_slices st) \<subseteq> set (es_slices st')"
    and f: "accounted ts old (set (es_slices st')) f"
  shows "prov_inv ts old (cut_rest g k @ R) st'"
proof -
  have "piece_of old h" if "h \<in> set (cut_rest g k)" for h
  proof (rule piece_of_cells)
    show "piece_of old g" using inv by (simp add: prov_inv_def)
    show "cells h \<subseteq> cells g" using that cut_cells(1) [OF k] by auto
  qed (use that in \<open>auto simp: cut_rest_def split: if_splits\<close>)
  moreover have "\<forall>h \<in> set (es_fragments st). accounted ts old (set (es_slices st')) h"
    using inv accounted_mono [OF _ st'(2)] unfolding prov_inv_def by blast
  ultimately show ?thesis using inv f by (auto simp: prov_inv_def st'(1))
qed

section \<open>What undoing an edit shows\<close>

text \<open>
  Given the edits that are undone, a fragment is seen when its insertion is not among them and
  all its deletions are. To one who undoes the edit, the new fragments show what the old ones show.
\<close>

definition seen_by :: "(lamport \<Rightarrow> bool) \<Rightarrow> fragment \<Rightarrow> bool" where
  "seen_by u f \<longleftrightarrow> \<not> u (fr_timestamp f) \<and> (\<forall>d \<in> set (fr_deletions f). u d)"

definition seen_text :: "content \<Rightarrow> (lamport \<Rightarrow> bool) \<Rightarrow> fragment list \<Rightarrow> bytes" where
  "seen_text ct u fs = concat (map (frag_text ct) (filter (seen_by u) fs))"

lemma seen_text_simps [simp]:
  "seen_text ct u [] = []"
  "seen_text ct u (f # fs) = (if seen_by u f then frag_text ct f else []) @ seen_text ct u fs"
  "seen_text ct u (fs @ gs) = seen_text ct u fs @ seen_text ct u gs"
  by (simp_all add: seen_text_def)

lemma seen_text_none: "\<forall>f \<in> set fs. \<not> seen_by u f \<Longrightarrow> seen_text ct u fs = []"
  by (simp add: seen_text_def filter_empty_conv)

lemma seen_text_visible: "\<forall>f \<in> set fs. fr_visible f = seen_by u f \<Longrightarrow> vtext ct fs = seen_text ct u fs"
  unfolding vtext_def seen_text_def by (metis (mono_tags, lifting) filter_cong)

lemma seen_text_cong: "\<forall>f \<in> set fs. seen_by u f = seen_by u' f \<Longrightarrow> seen_text ct u fs = seen_text ct u' fs"
  unfolding seen_text_def by (metis (mono_tags, lifting) filter_cong)

lemma seen_text_cut:
  assumes "k \<le> fr_len g" "seen_by u f = seen_by u g" "frag_text ct f = frag_text ct (piece g 0 k)"
  shows "seen_text ct u (f # cut_rest g k) = seen_text ct u [g]"
proof -
  have "seen_by u h = seen_by u g" if "h \<in> set (cut_rest g k)" for h
    using that by (auto simp: cut_rest_def seen_by_def split: if_splits)
  then show ?thesis using assms by (auto simp: cut_rest_def piece_text split: if_splits)
qed

definition undo_inv :: "content \<Rightarrow> lamport \<Rightarrow> fragment list \<Rightarrow> fragment list \<Rightarrow> 'd edit_state \<Rightarrow> bool" where
  "undo_inv ct ts old R st \<longleftrightarrow> (\<forall>u. u ts \<longrightarrow> seen_text ct u (es_fragments st @ R) = seen_text ct u old)"

lemma undo_inv_cut:
  assumes "undo_inv ct ts old (g # R) st" "k \<le> fr_len g" "es_fragments st' = es_fragments st @ [f]"
    and "\<And>u. u ts \<Longrightarrow> seen_by u f = seen_by u g" "frag_text ct f = frag_text ct (piece g 0 k)"
  shows "undo_inv ct ts old (cut_rest g k @ R) st'"
  unfolding undo_inv_def
proof (intro allI impI)
  fix u :: "lamport \<Rightarrow> bool" assume u: "u ts"
  have "seen_text ct u (es_fragments st' @ cut_rest g k @ R) =
      seen_text ct u (es_fragments st) @ seen_text ct u (f # cut_rest g k) @ seen_text ct u R"
    by (simp add: assms(3))
  also have "\<dots> = seen_text ct u (es_fragments st @ g # R)"
    unfolding seen_text_cut [OF assms(2) assms(4) [of u, OF u] assms(5)] by simp
  also have "\<dots> = seen_text ct u old" using assms(1) u unfolding undo_inv_def by blast
  finally show "seen_text ct u (es_fragments st' @ cut_rest g k @ R) = seen_text ct u old" .
qed

section \<open>The steps of an edit\<close>

definition edit_inv :: "content \<Rightarrow> bytes \<Rightarrow> lamport \<Rightarrow> fragment list \<Rightarrow> fragment list \<Rightarrow> 'd edit_state \<Rightarrow> bool" where
  "edit_inv ct V ts old R st \<longleftrightarrow> texts_inv ct R st \<and> patch_inv ct V R st \<and> index_inv ts (set old) R st \<and>
     prov_inv ts (set old) R st \<and> undo_inv ct ts old R st"

lemma edit_inv_update [simp]:
  "edit_inv ct V ts old R (st\<lparr>es_cursor := c\<rparr>) \<longleftrightarrow> edit_inv ct V ts old R st"
  "edit_inv ct V ts old R (st\<lparr>es_fragment_start := n\<rparr>) \<longleftrightarrow> edit_inv ct V ts old R st"
  by (simp_all add: edit_inv_def texts_inv_def patch_inv_def index_inv_def prov_inv_def undo_inv_def new_text_def)

text \<open>Where the remaining text starts in the old visible text.\<close>

definition vpos :: "content \<Rightarrow> bytes \<Rightarrow> fragment list \<Rightarrow> nat" where
  "vpos ct V R = length V - length (vtext ct R)"

lemma push_piece_carried:
  assumes "texts_inv ct (g # R) st" "0 < k" "k \<le> fr_len g" "v \<longrightarrow> fr_visible g"
    and "\<forall>f \<in> set (es_fragments st). fr_id f < l" "l \<le> fr_id g" "k < fr_len g \<Longrightarrow> l < fr_id g" "locator_wf l"
  shows "\<exists>ropes. push_piece (carried g k l d v) (fr_visible g) st =
      Some (st\<lparr>es_insertions := es_insertions st @ [insert_new (carried g k l d v)], es_ropes := ropes,
        es_fragments := es_fragments st @ [carried g k l d v]\<rparr>) \<and>
    texts_inv ct (cut_rest g k @ R)
      (st\<lparr>es_insertions := es_insertions st @ [insert_new (carried g k l d v)], es_ropes := ropes,
        es_fragments := es_fragments st @ [carried g k l d v]\<rparr>)"
proof -
  have ok: "frags_ok (es_fragments st @ g # R)" using assms(1) by (simp add: texts_inv_def)
  have f: "frags_ok ((es_fragments st @ [carried g k l d v]) @ cut_rest g k @ R)"
    by (rule frags_ok_cut [OF ok assms(2,3,5,6,7,8)])
  have t: "take k (frag_text ct g) = frag_text ct (piece g 0 k)"
      "drop k (frag_text ct g) = frag_text ct (piece g k (fr_len g - k))"
    using assms(3) by (simp_all add: piece_text)
  show ?thesis
    using assms(1-4) f
    by (auto simp: push_piece_def rb_push_fragment_def rb_push_def cursor_slice_text_def texts_inv_def t cut_rest_def
        simp del: frags_ok_simps)
qed

lemma edit_inv_carry:
  assumes inv: "edit_inv ct V ts old (g # R) st" and k: "0 < k" "k \<le> fr_len g"
    and l: "\<forall>f \<in> set (es_fragments st). fr_id f < l" "l \<le> fr_id g" "k < fr_len g \<Longrightarrow> l < fr_id g" "locator_wf l"
  shows "\<exists>st'. push_piece (carried g k l (fr_deletions g) (fr_visible g)) (fr_visible g) st = Some st' \<and>
    edit_inv ct V ts old (cut_rest g k @ R) st' \<and> es_cursor st' = es_cursor st \<and>
    es_fragments st' = es_fragments st @ [carried g k l (fr_deletions g) (fr_visible g)] \<and>
    es_insertion_offset st' = es_insertion_offset st \<and> es_fragment_start st' = es_fragment_start st"
proof -
  let ?f = "carried g k l (fr_deletions g) (fr_visible g)"
  obtain ropes where push: "push_piece ?f (fr_visible g) st =
      Some (st\<lparr>es_insertions := es_insertions st @ [insert_new ?f], es_ropes := ropes, es_fragments := es_fragments st @ [?f]\<rparr>)"
    and t: "texts_inv ct (cut_rest g k @ R)
      (st\<lparr>es_insertions := es_insertions st @ [insert_new ?f], es_ropes := ropes, es_fragments := es_fragments st @ [?f]\<rparr>)"
    (is "texts_inv _ _ ?st")
    using push_piece_carried [of ct g R st k "fr_visible g" l "fr_deletions g"] inv k l unfolding edit_inv_def by blast
  from inv obtain U where U: "V = U @ vtext ct (g # R)"
      "upto V (new_text ct st) (es_patch st) (int (length U)) (int (length (new_text ct st)))"
    unfolding edit_inv_def patch_inv_def by blast
  let ?x = "if fr_visible g then frag_text ct (piece g 0 k) else []"
  have V: "V = U @ ?x @ vtext ct (cut_rest g k @ R)"
    using U(1) cut_text(1) [OF k(2), of ct] by (simp del: append_assoc add: append_assoc [symmetric])
  have n: "new_text ct ?st = new_text ct st @ ?x" by (simp add: new_text_def)
  have "patch_inv ct V (cut_rest g k @ R) ?st"
    unfolding patch_inv_def n using upto_copy [OF U(2) [unfolded V]] V by (intro exI [of _ "U @ ?x"]) simp
  moreover have "index_inv ts (set old) (cut_rest g k @ R) ?st"
  proof (rule index_inv_push [where ins = "[?f]" and sl = False])
    show "index_inv ts (set old) (g # R) st" using inv by (simp add: edit_inv_def)
    show "set [?f] \<inter> set (es_fragments st) = {}" using t by (auto simp: texts_inv_def)
    show "\<forall>f \<in> set old \<inter> set (g # R). f \<in> set (cut_rest g k @ R) \<or> (\<exists>h \<in> set [?f]. ikey h = ikey f)"
      by (auto simp: insertion_key_of)
  qed auto
  moreover have "prov_inv ts (set old) (cut_rest g k @ R) ?st"
  proof (rule prov_inv_cut [where st = st and f = ?f])
    show "prov_inv ts (set old) (g # R) st" using inv by (simp add: edit_inv_def)
    then have "piece_of (set old) g" by (simp add: prov_inv_def)
    then show "accounted ts (set old) (set (es_slices ?st)) ?f"
      using piece_cells [of 0 k g] k piece_of_cells [of "set old" g ?f] by (simp add: accounted_def)
  qed (use k in simp_all)
  moreover have "undo_inv ct ts old (cut_rest g k @ R) ?st"
    by (rule undo_inv_cut [where st = st and f = ?f]) (use inv k in \<open>simp_all add: edit_inv_def seen_by_def\<close>)
  ultimately show ?thesis using push t by (simp add: edit_inv_def)
qed


lemma edit_inv_delete:
  assumes inv: "edit_inv ct V ts old (g # R) st" and k: "0 < k" "k \<le> fr_len g" and v: "fr_visible g"
    and l: "\<forall>f \<in> set (es_fragments st). fr_id f < l" "l \<le> fr_id g" "k < fr_len g \<Longrightarrow> l < fr_id g" "locator_wf l"
    and p: "p = vpos ct V (g # R)" "q = p + k" "n = new_visible_len st"
  shows "\<exists>st'. push_piece (carried g k l (fr_deletions g @ [ts]) False) True
      ((patch_push p q n n st)\<lparr>es_slices := es_slices st @ [slice_from_fragment ts (carried g k l (fr_deletions g @ [ts]) False)]\<rparr>) = Some st' \<and>
    edit_inv ct V ts old (cut_rest g k @ R) st' \<and> es_cursor st' = es_cursor st \<and>
    es_fragments st' = es_fragments st @ [carried g k l (fr_deletions g @ [ts]) False] \<and>
    es_insertion_offset st' = es_insertion_offset st \<and> es_fragment_start st' = es_fragment_start st"
proof -
  let ?f = "carried g k l (fr_deletions g @ [ts]) False"
  let ?s = "(patch_push p q n n st)\<lparr>es_slices := es_slices st @ [slice_from_fragment ts ?f]\<rparr>"
  have s: "texts_inv ct (g # R) ?s" using inv by (simp add: edit_inv_def texts_inv_def patch_push_def)
  obtain ropes where push: "push_piece ?f (fr_visible g) ?s =
      Some (?s\<lparr>es_insertions := es_insertions ?s @ [insert_new ?f], es_ropes := ropes, es_fragments := es_fragments ?s @ [?f]\<rparr>)"
    and t: "texts_inv ct (cut_rest g k @ R)
      (?s\<lparr>es_insertions := es_insertions ?s @ [insert_new ?f], es_ropes := ropes, es_fragments := es_fragments ?s @ [?f]\<rparr>)"
    (is "texts_inv _ _ ?st")
    using push_piece_carried [OF s k, of False l "fr_deletions g @ [ts]"] l by (auto simp: patch_push_def)
  from inv obtain U where U: "V = U @ vtext ct (g # R)"
      "upto V (new_text ct st) (es_patch st) (int (length U)) (int (length (new_text ct st)))"
    unfolding edit_inv_def patch_inv_def by blast
  let ?x = "frag_text ct (piece g 0 k)"
  have V: "V = U @ ?x @ vtext ct (cut_rest g k @ R)"
    using U(1) cut_text(1) [OF k(2), of ct] v by (simp del: append_assoc add: append_assoc [symmetric])
  have n: "new_text ct ?st = new_text ct st @ []" by (simp add: new_text_def patch_push_def)
  have pos: "p = length U" "q = length (U @ ?x)" "n = length (new_text ct st)"
    using U(1) p k by (simp_all add: vpos_def new_visible_len_def new_text_def frags_summary_text)
  have "es_patch ?st = push (es_patch st)
      \<lparr>ed_old = span (int (length U)) (int (length (U @ ?x))), ed_new = span (int (length (new_text ct st))) (int (length (new_text ct st @ [])))\<rparr>"
    unfolding pos by (simp add: patch_push_def)
  then have "patch_inv ct V (cut_rest g k @ R) ?st"
    unfolding patch_inv_def n using upto_replace [OF U(2) [unfolded V], of "[]"] V by (intro exI [of _ "U @ ?x"]) simp
  moreover have "index_inv ts (set old) (cut_rest g k @ R) ?st"
  proof (rule index_inv_push [where ins = "[?f]" and sl = True])
    show "index_inv ts (set old) (g # R) st" using inv by (simp add: edit_inv_def)
    show "set [?f] \<inter> set (es_fragments st) = {}" using t by (auto simp: texts_inv_def patch_push_def)
    show "\<forall>f \<in> set old \<inter> set (g # R). f \<in> set (cut_rest g k @ R) \<or> (\<exists>h \<in> set [?f]. ikey h = ikey f)"
      by (auto simp: insertion_key_of)
  qed (auto simp: patch_push_def)
  moreover have "prov_inv ts (set old) (cut_rest g k @ R) ?st"
  proof (rule prov_inv_cut [where st = st and f = ?f])
    show "prov_inv ts (set old) (g # R) st" using inv by (simp add: edit_inv_def)
    then have "piece_of (set old) g" by (simp add: prov_inv_def)
    then show "accounted ts (set old) (set (es_slices ?st)) ?f"
      using piece_cells [of 0 k g] k deleted_of_cells [of "set old" g ?f ts] by (simp add: accounted_def)
  qed (use k in \<open>auto simp: patch_push_def\<close>)
  moreover have "undo_inv ct ts old (cut_rest g k @ R) ?st"
    by (rule undo_inv_cut [where st = st and f = ?f]) (use inv k in \<open>auto simp: edit_inv_def seen_by_def patch_push_def\<close>)
  ultimately show ?thesis using push t v by (auto simp: edit_inv_def patch_push_def)
qed

text \<open>A remote edit may delete a fragment that is hidden already.\<close>

lemma edit_inv_delete_hidden:
  assumes inv: "edit_inv ct V ts old (g # R) st" and k: "0 < k" "k \<le> fr_len g" and v: "\<not> fr_visible g"
    and l: "\<forall>f \<in> set (es_fragments st). fr_id f < l" "l \<le> fr_id g" "k < fr_len g \<Longrightarrow> l < fr_id g" "locator_wf l"
  shows "\<exists>st'. push_piece (carried g k l (fr_deletions g @ [ts]) False) False
      (st\<lparr>es_slices := es_slices st @ [slice_from_fragment ts (carried g k l (fr_deletions g @ [ts]) False)]\<rparr>) = Some st' \<and>
    edit_inv ct V ts old (cut_rest g k @ R) st' \<and> es_cursor st' = es_cursor st \<and>
    es_fragments st' = es_fragments st @ [carried g k l (fr_deletions g @ [ts]) False] \<and>
    es_insertion_offset st' = es_insertion_offset st \<and> es_fragment_start st' = es_fragment_start st"
proof -
  let ?f = "carried g k l (fr_deletions g @ [ts]) False"
  let ?s = "st\<lparr>es_slices := es_slices st @ [slice_from_fragment ts ?f]\<rparr>"
  have s: "texts_inv ct (g # R) ?s" using inv by (simp add: edit_inv_def texts_inv_def)
  obtain ropes where push: "push_piece ?f (fr_visible g) ?s =
      Some (?s\<lparr>es_insertions := es_insertions ?s @ [insert_new ?f], es_ropes := ropes, es_fragments := es_fragments ?s @ [?f]\<rparr>)"
    and t: "texts_inv ct (cut_rest g k @ R)
      (?s\<lparr>es_insertions := es_insertions ?s @ [insert_new ?f], es_ropes := ropes, es_fragments := es_fragments ?s @ [?f]\<rparr>)"
    (is "texts_inv _ _ ?st")
    using push_piece_carried [OF s k, of False l "fr_deletions g @ [ts]"] l by auto
  have "vtext ct (cut_rest g k) = []" using v by (simp add: cut_rest_def)
  then have "patch_inv ct V (cut_rest g k @ R) ?st" using inv v by (simp add: edit_inv_def patch_inv_def new_text_def)
  moreover have "index_inv ts (set old) (cut_rest g k @ R) ?st"
  proof (rule index_inv_push [where ins = "[?f]" and sl = True])
    show "index_inv ts (set old) (g # R) st" using inv by (simp add: edit_inv_def)
    show "set [?f] \<inter> set (es_fragments st) = {}" using t by (auto simp: texts_inv_def)
    show "\<forall>f \<in> set old \<inter> set (g # R). f \<in> set (cut_rest g k @ R) \<or> (\<exists>h \<in> set [?f]. ikey h = ikey f)"
      by (auto simp: insertion_key_of)
  qed auto
  moreover have "prov_inv ts (set old) (cut_rest g k @ R) ?st"
  proof (rule prov_inv_cut [where st = st and f = ?f])
    show "prov_inv ts (set old) (g # R) st" using inv by (simp add: edit_inv_def)
    then have "piece_of (set old) g" by (simp add: prov_inv_def)
    then show "accounted ts (set old) (set (es_slices ?st)) ?f"
      using piece_cells [of 0 k g] k deleted_of_cells [of "set old" g ?f ts] by (simp add: accounted_def)
  qed (use k in auto)
  moreover have "undo_inv ct ts old (cut_rest g k @ R) ?st"
    by (rule undo_inv_cut [where st = st and f = ?f]) (use inv k in \<open>auto simp: edit_inv_def seen_by_def\<close>)
  ultimately show ?thesis using push t v by (auto simp: edit_inv_def)
qed

lemma push_slice_texts:
  assumes t: "texts_inv ct (us @ R) st" and p: "patch_inv ct V (us @ R) st"
  shows "\<exists>ropes. push_slice us st = Some (st\<lparr>es_ropes := ropes, es_fragments := es_fragments st @ us\<rparr>) \<and>
    texts_inv ct R (st\<lparr>es_ropes := ropes, es_fragments := es_fragments st @ us\<rparr>) \<and>
    patch_inv ct V R (st\<lparr>es_ropes := ropes, es_fragments := es_fragments st @ us\<rparr>)"
proof -
  obtain ropes where push: "push_slice us st = Some (st\<lparr>es_ropes := ropes, es_fragments := es_fragments st @ us\<rparr>)"
    and t': "texts_inv ct R (st\<lparr>es_ropes := ropes, es_fragments := es_fragments st @ us\<rparr>)" (is "texts_inv _ _ ?st")
    using t by (auto simp: push_slice_def rb_append_def rb_push_def cursor_slice_text_def texts_inv_def frags_summary_text [where ct = ct])
  from p obtain U where U: "V = U @ vtext ct (us @ R)"
      "upto V (new_text ct st) (es_patch st) (int (length U)) (int (length (new_text ct st)))"
    unfolding patch_inv_def by blast
  then have V: "V = U @ vtext ct us @ vtext ct R" by simp
  have n: "new_text ct ?st = new_text ct st @ vtext ct us" by (simp add: new_text_def)
  have "patch_inv ct V R ?st"
    unfolding patch_inv_def n using upto_copy [OF U(2) [unfolded V]] V by (intro exI [of _ "U @ vtext ct us"]) simp
  with push t' show ?thesis by blast
qed

lemma edit_inv_slice:
  assumes inv: "edit_inv ct V ts old (us @ R) st" and us: "set us \<subseteq> set old"
  shows "\<exists>st'. push_slice us st = Some st' \<and> edit_inv ct V ts old R st' \<and> es_cursor st' = es_cursor st \<and>
    es_fragments st' = es_fragments st @ us \<and> es_insertion_offset st' = es_insertion_offset st \<and>
    es_fragment_start st' = es_fragment_start st"
proof -
  obtain ropes where push: "push_slice us st = Some (st\<lparr>es_ropes := ropes, es_fragments := es_fragments st @ us\<rparr>)"
    and t': "texts_inv ct R (st\<lparr>es_ropes := ropes, es_fragments := es_fragments st @ us\<rparr>)" (is "texts_inv _ _ ?st")
      "patch_inv ct V R (st\<lparr>es_ropes := ropes, es_fragments := es_fragments st @ us\<rparr>)"
    using push_slice_texts inv unfolding edit_inv_def by blast
  have "index_inv ts (set old) R ?st"
    by (rule index_inv_slice [where us = us and st = st]) (use inv us in \<open>auto simp: edit_inv_def\<close>)
  moreover have "prov_inv ts (set old) R ?st" using inv by (auto simp: edit_inv_def prov_inv_def accounted_def)
  moreover have "undo_inv ct ts old R ?st" using inv by (simp add: edit_inv_def undo_inv_def)
  ultimately show ?thesis using push t' by (simp add: edit_inv_def)
qed

section \<open>Insertions\<close>

text \<open>
  In UTF-8 at most three bytes in a row continue a character; \<open>n\<close> is how many more may follow
  here. Text that starts with a character satisfies \<open>char_runs 0\<close>.
\<close>

fun char_runs :: "nat \<Rightarrow> bytes \<Rightarrow> bool" where
  "char_runs n [] \<longleftrightarrow> True"
| "char_runs n (b # bs) \<longleftrightarrow> (if is_char_start b then char_runs 3 bs else 0 < n \<and> char_runs (n - 1) bs)"

lemma char_runs_continue:
  "\<forall>b \<in> set c. \<not> is_char_start b \<Longrightarrow> length c \<le> n \<Longrightarrow> \<forall>m. char_runs m s \<Longrightarrow> char_runs n (c @ s)"
  by (induction c arbitrary: n) auto

text \<open>Every text in UTF-8 does.\<close>

lemma utf8_char_runs: "utf8 s \<Longrightarrow> char_runs n s"
proof -
  assume "utf8 s"
  then have "\<forall>n. char_runs n s"
  proof (induction s rule: utf8_induct)
    case (Char c s)
    then obtain b bs where "c = b # bs" "is_char_start b" "length bs \<le> 3" "\<forall>x \<in> set bs. \<not> is_char_start x"
      using utf8_len_le [of "hd c"] by (cases c) (auto simp: utf8_char_def)
    with Char.IH show ?case by (simp add: char_runs_continue)
  qed simp
  then show ?thesis by simp
qed

lemma char_runs_start:
  "char_runs n s \<Longrightarrow> n \<le> i \<Longrightarrow> i < length s \<Longrightarrow> \<exists>j \<le> i. i \<le> j + 3 \<and> is_char_start (s ! j)"
proof (induction s arbitrary: n i)
  case (Cons b bs)
  show ?case
  proof (cases i)
    case 0
    with Cons.prems show ?thesis by (auto split: if_splits)
  next
    case (Suc i')
    have "(\<exists>j \<le> i'. i' \<le> j + 3 \<and> is_char_start (bs ! j)) \<or> is_char_start b \<and> i' < 3"
      using Cons.IH [of 3 i'] Cons.IH [of "n - 1" i'] Cons.prems Suc by (auto split: if_splits)
    then show ?thesis
    proof
      assume "\<exists>j \<le> i'. i' \<le> j + 3 \<and> is_char_start (bs ! j)"
      then show ?thesis using Suc by (metis Suc_le_mono add_Suc nth_Cons_Suc)
    next
      assume "is_char_start b \<and> i' < 3"
      then show ?thesis using Suc by (intro exI [of _ 0]) auto
    qed
  qed
qed simp

lemma floor_from_ge: "is_char_start (s ! j) \<Longrightarrow> j \<le> i \<Longrightarrow> j \<le> floor_from s i"
  by (induction i) (auto simp: le_Suc_eq)

lemma chunk_end_progress:
  assumes "char_runs 0 s" "4 \<le> max_len" "offset < length s"
  shows "offset < chunk_end max_len s offset"
proof (cases "offset + max_len < length s")
  case True
  then obtain j where "j \<le> offset + max_len" "offset + max_len \<le> j + 3" "is_char_start (s ! j)"
    using char_runs_start [OF assms(1), of "offset + max_len"] by auto
  with floor_from_ge [of s j "offset + max_len"] True assms(2) show ?thesis
    by (simp add: chunk_end_def Let_def floor_char_boundary_def)
qed (use assms in \<open>simp add: chunk_end_def\<close>)

lemma char_runs_normalize: "char_runs n s \<Longrightarrow> char_runs n (normalize_line_endings s)"
proof (induction s arbitrary: n rule: normalize_line_endings.induct)
  case (1 b b' bs)
  have "is_char_start 10" "is_char_start 13" by (simp_all add: is_char_start_def)
  with 1 show ?case by (auto split: if_splits)
next
  case (2 b)
  have "is_char_start 10" by (simp add: is_char_start_def)
  with 2 show ?case by simp
qed simp

text \<open>The fragments of an insertion go below the next identifier.\<close>

definition fits_before :: "fragment list \<Rightarrow> fragment list \<Rightarrow> locator \<Rightarrow> bool" where
  "fits_before fs R nxt \<longleftrightarrow> (\<forall>f \<in> set fs. fr_id f < nxt) \<and> (\<forall>f \<in> set R. nxt \<le> fr_id f) \<and> locator_wf nxt \<and> nxt \<le> locator_max"

definition offsets_below :: "lamport \<Rightarrow> nat \<Rightarrow> fragment list \<Rightarrow> bool" where
  "offsets_below ts n fs \<longleftrightarrow> (\<forall>f \<in> set fs. fr_timestamp f = ts \<longrightarrow> fr_insertion_offset f + fr_len f \<le> n)"

lemma push_chunks_ok:
  assumes "frags_ok (es_fragments st @ R)" "fits_before (es_fragments st) R nxt"
    and "offsets_below ts (es_insertion_offset st) (es_fragments st @ R)"
    and "char_runs 0 s" "4 \<le> max_len" "offset \<le> length s"
    and "\<forall>i < length s - offset. ct ts (es_insertion_offset st + i) = s ! (offset + i)"
  shows "\<exists>ins. push_chunks max_len s ts nxt offset st =
      st\<lparr>es_slices := es_slices st @ map (slice_from_fragment ts) ins, es_insertions := es_insertions st @ map insert_new ins,
         es_fragments := es_fragments st @ ins, es_insertion_offset := es_insertion_offset st + (length s - offset)\<rparr> \<and>
    frags_ok (es_fragments st @ ins @ R) \<and> fits_before (es_fragments st @ ins) R nxt \<and>
    offsets_below ts (es_insertion_offset st + (length s - offset)) (es_fragments st @ ins @ R) \<and>
    vtext ct ins = drop offset s \<and> dtext ct ins = [] \<and> (\<forall>f \<in> set ins. fr_timestamp f = ts \<and> fr_deletions f = [] \<and> fr_visible f)"
  using assms
proof (induction max_len s ts nxt offset st rule: push_chunks.induct)
  case (1 max_len s ts nxt offset st)
  show ?case
  proof (cases "offset < length s")
    case False
    then show ?thesis using 1 by (subst push_chunks.simps) (auto intro!: exI [of _ "[]"])
  next
    case True
    let ?e = "chunk_end max_len s offset"
    let ?f = "\<lparr>fr_id = between (new_max_id st) nxt, fr_timestamp = ts, fr_insertion_offset = es_insertion_offset st,
      fr_len = ?e - offset, fr_visible = True, fr_deletions = [], fr_max_undos = global_new\<rparr>"
    let ?st = "st\<lparr>es_slices := es_slices st @ [slice_from_fragment ts ?f], es_insertions := es_insertions st @ [insert_new ?f],
      es_fragments := es_fragments st @ [?f], es_insertion_offset := es_insertion_offset st + (?e - offset)\<rparr>"
    have e: "offset < ?e" "?e \<le> length s"
      using chunk_end_progress [OF 1(5,6) True] chunk_end_le [of offset s] True by auto
    have lt: "new_max_id st < nxt"
      using max_id_less [of "es_fragments st" nxt] 1(3) by (simp add: new_max_id_def fits_before_def)
    have above: "fr_id f < fr_id ?f" if "f \<in> set (es_fragments st)" for f
    proof -
      have "fr_id f \<le> new_max_id st" using max_id_le [of "es_fragments st" f] 1(2) that by (simp add: new_max_id_def)
      also have "\<dots> < fr_id ?f" using between_greater [of "new_max_id st" nxt] by simp
      finally show ?thesis .
    qed
    have id: "fr_id ?f < nxt" "locator_wf (fr_id ?f)" "fr_id ?f < locator_max" "\<forall>f \<in> set (es_fragments st). fr_id f < fr_id ?f"
      using between_less [OF lt] 1(3) above by (auto simp: fits_before_def)
    have cells: "cells f \<inter> cells ?f = {}" if "f \<in> set (es_fragments st @ R)" for f
      using 1(4) that by (auto simp: cells_def offsets_below_def)
    have ok: "frags_ok (es_fragments ?st @ R)"
      using 1(2,3) id e cells by (auto simp: frag_less_def frag_ok_def fits_before_def Int_commute intro: less_le_trans)
    have fits: "fits_before (es_fragments ?st) R nxt" using 1(3) id by (auto simp: fits_before_def)
    have below: "offsets_below ts (es_insertion_offset ?st) (es_fragments ?st @ R)"
      using 1(4) by (force simp: offsets_below_def)
    have ct: "\<forall>i < length s - ?e. ct ts (es_insertion_offset ?st + i) = s ! (?e + i)"
    proof (intro allI impI)
      fix i assume "i < length s - ?e"
      then show "ct ts (es_insertion_offset ?st + i) = s ! (?e + i)"
        using 1(8) [rule_format, of "?e - offset + i"] e by (simp add: add.assoc)
    qed
    have ftext: "frag_text ct ?f = take (?e - offset) (drop offset s)"
      using 1(8) e by (intro nth_equalityI) (auto simp: frag_text_def)
    obtain ins where ins: "push_chunks max_len s ts nxt ?e ?st =
        ?st\<lparr>es_slices := es_slices ?st @ map (slice_from_fragment ts) ins, es_insertions := es_insertions ?st @ map insert_new ins,
          es_fragments := es_fragments ?st @ ins, es_insertion_offset := es_insertion_offset ?st + (length s - ?e)\<rparr>"
      "frags_ok (es_fragments ?st @ ins @ R)" "fits_before (es_fragments ?st @ ins) R nxt"
      "offsets_below ts (es_insertion_offset ?st + (length s - ?e)) (es_fragments ?st @ ins @ R)"
      "vtext ct ins = drop ?e s" "dtext ct ins = []" "\<forall>f \<in> set ins. fr_timestamp f = ts \<and> fr_deletions f = [] \<and> fr_visible f"
      using 1(1) [OF True refl _ refl ok fits below 1(5,6) e(2) ct] e(1) by auto
    have step: "push_chunks max_len s ts nxt offset st = push_chunks max_len s ts nxt ?e ?st"
      using True e by (subst push_chunks.simps) (simp add: Let_def)
    have "take (?e - offset) (drop offset s) @ drop ?e s = drop offset s"
      using e by (metis append_take_drop_id drop_drop le_add_diff_inverse2 less_imp_le)
    then show ?thesis unfolding step using ins e ftext
      by (intro exI [of _ "?f # ins"]) (simp add: add.assoc)
  qed
qed

lemma frags_ok_distinct: "frags_ok fs \<Longrightarrow> distinct fs"
  by (induction fs) auto

lemma edit_inv_insert:
  assumes inv: "edit_inv ct V ts old R st" and fits: "fits_before (es_fragments st) R nxt"
    and below: "offsets_below ts (es_insertion_offset st) (es_fragments st @ R)"
    and t: "char_runs 0 t" "\<forall>i < length t. ct ts (es_insertion_offset st + i) = t ! i"
    and p: "p = vpos ct V R" "n = new_visible_len st"
    and st': "st' = patch_push p p n (n + length t) (push_fragments_for_insertion t ts nxt st)"
  shows "edit_inv ct V ts old R st' \<and> es_cursor st' = es_cursor st \<and> es_fragment_start st' = es_fragment_start st \<and>
    fits_before (es_fragments st') R nxt \<and> offsets_below ts (es_insertion_offset st') (es_fragments st' @ R) \<and>
    es_insertion_offset st' = es_insertion_offset st + length t \<and> new_text ct st' = new_text ct st @ t \<and>
    (\<forall>m. mtext ct m (es_fragments st') = mtext ct m (es_fragments st) @ marked (m ts [] True) t)"
proof -
  have ok: "frags_ok (es_fragments st @ R)" using inv by (simp add: edit_inv_def texts_inv_def)
  have big: "4 \<le> MAX_INSERTION_LEN" by (simp add: MAX_INSERTION_LEN_def)
  obtain ins where ins: "push_chunks MAX_INSERTION_LEN t ts nxt 0 st =
      st\<lparr>es_slices := es_slices st @ map (slice_from_fragment ts) ins, es_insertions := es_insertions st @ map insert_new ins,
         es_fragments := es_fragments st @ ins, es_insertion_offset := es_insertion_offset st + length t\<rparr>"
    "frags_ok (es_fragments st @ ins @ R)" "fits_before (es_fragments st @ ins) R nxt"
    "offsets_below ts (es_insertion_offset st + length t) (es_fragments st @ ins @ R)"
    "vtext ct ins = t" "dtext ct ins = []" "\<forall>f \<in> set ins. fr_timestamp f = ts \<and> fr_deletions f = [] \<and> fr_visible f"
    using push_chunks_ok [OF ok fits below t(1) big, of 0 ct] t(2) by auto
  have fields: "es_fragments st' = es_fragments st @ ins" "es_insertions st' = es_insertions st @ map insert_new ins"
    "es_slices st' = es_slices st @ map (slice_from_fragment ts) ins" "es_cursor st' = es_cursor st"
    "es_ropes st' = rb_push_str t (es_ropes st)" "es_fragment_start st' = es_fragment_start st"
    "es_insertion_offset st' = es_insertion_offset st + length t"
    unfolding st' patch_push_def push_fragments_for_insertion_def ins(1) by simp_all
  have texts: "texts_inv ct R st'"
    using inv ins(2,5,6) by (simp add: edit_inv_def texts_inv_def fields rb_push_str_def)
  from inv obtain U where U: "V = U @ vtext ct R"
      "upto V (new_text ct st) (es_patch st) (int (length U)) (int (length (new_text ct st)))"
    unfolding edit_inv_def patch_inv_def by blast
  have n: "new_text ct st' = new_text ct st @ t" by (simp add: new_text_def fields ins(5))
  have "es_patch st' = push (es_patch st)
      \<lparr>ed_old = span (int (length U)) (int (length (U @ []))), ed_new = span (int (length (new_text ct st))) (int (length (new_text ct st @ t)))\<rparr>"
    unfolding st' patch_push_def push_fragments_for_insertion_def ins(1)
    using U(1) p by (simp add: vpos_def new_visible_len_def new_text_def frags_summary_text [where ct = ct])
  then have patch: "patch_inv ct V R st'"
    unfolding patch_inv_def n using upto_replace [of U "[]" "vtext ct R" _ _ t] U by (intro exI [of _ U]) simp
  have "distinct ins" "set ins \<inter> set (es_fragments st) = {}" using frags_ok_distinct [OF ins(2)] by auto
  with inv have "index_inv ts (set old) R st'"
    by (intro index_inv_push [where ins = ins and sl = True and R = R and st = st and R' = R and st' = st'])
      (simp_all add: edit_inv_def fields)
  moreover have "prov_inv ts (set old) R st'"
    using inv ins(7) by (auto simp: edit_inv_def prov_inv_def fields accounted_def)
  moreover have "undo_inv ct ts old R st'" using inv ins(7)
    by (simp add: edit_inv_def undo_inv_def fields seen_text_none seen_by_def)
  moreover have "mtext ct m (es_fragments st') = mtext ct m (es_fragments st) @ marked (m ts [] True) t" for m
    using mtext_new [OF ins(7)] ins(5) by (simp add: fields)
  ultimately show ?thesis using texts patch n ins(3,4) by (simp add: edit_inv_def fields)
qed

end
