(* ===== verification/Snapshot.thy ===== *)
theory Snapshot
  imports EditCore
begin

text \<open>
  What a snapshot of a buffer satisfies between operations (\<open>check_invariants\<close> in
  \<open>crates/text/src/text.rs\<close>, with the facts about the slice index and the undo map that undo
  relies on), and what the batch of an edit makes of the indexes.
\<close>

section \<open>The invariant of a snapshot\<close>

interpretation ins_index: keyed insertion_summary insertion_dim insertion_key
proof unfold_locales
  show "d_zero insertion_dim \<le> k" for k
    by (cases "lamport_MIN = ik_timestamp k")
      (simp_all add: insertion_dim_def less_eq_insertion_fragment_key_def order.not_eq_order_implies_strict)
qed (simp_all add: insertion_summary_def insertion_dim_def)

text \<open>The fragments are ordered and disjoint, and the ropes are their texts.\<close>

definition texts_ok :: "content \<Rightarrow> snapshot \<Rightarrow> bool" where
  "texts_ok ct sn \<longleftrightarrow> frags_ok (sn_fragments sn) \<and>
     sn_visible_text sn = vtext ct (sn_fragments sn) \<and> sn_deleted_text sn = dtext ct (sn_fragments sn)"

text \<open>The insertion index has an entry for each fragment and no other.\<close>

definition index_ok :: "snapshot \<Rightarrow> bool" where
  "index_ok sn \<longleftrightarrow> wf_tree insertion_summary (sn_insertions sn) \<and> sorted_keys insertion_key (to_list (sn_insertions sn)) \<and>
     set (to_list (sn_insertions sn)) = insertion_of ` set (sn_fragments sn) \<and> tm_wf (sn_insertion_slices sn)"

text \<open>
  A slice covers each fragment that an edit of \<open>E\<close> inserted or deleted. No insertion has the least
  timestamp: clocks start at 1.
\<close>

definition covers :: "insertion_slice \<Rightarrow> lamport \<Rightarrow> fragment \<Rightarrow> bool" where
  "covers s e f \<longleftrightarrow> sl_edit_id s = e \<and> sl_insertion_id s = fr_timestamp f \<and>
     sl_start s \<le> fr_insertion_offset f \<and> fr_insertion_offset f + fr_len f \<le> sl_end s"

definition slices_ok :: "lamport set \<Rightarrow> snapshot \<Rightarrow> bool" where
  "slices_ok E sn \<longleftrightarrow> (\<forall>f \<in> set (sn_fragments sn). \<forall>e \<in> E \<inter> insert (fr_timestamp f) (set (fr_deletions f)).
     \<exists>s. ts_contains s (sn_insertion_slices sn) \<and> covers s e f) \<and>
     (\<forall>f \<in> set (sn_fragments sn). fr_timestamp f \<noteq> lamport_MIN) \<and>
     (\<forall>s. ts_contains s (sn_insertion_slices sn) \<longrightarrow> sl_insertion_id s \<noteq> lamport_MIN)"

text \<open>Each fragment is visible as the undo map says.\<close>

definition visible_ok :: "snapshot \<Rightarrow> bool" where
  "visible_ok sn \<longleftrightarrow> um_wf (sn_undo_map sn) \<and>
     (\<forall>f \<in> set (sn_fragments sn). is_visible (sn_undo_map sn) f = Some (fr_visible f))"

definition snapshot_ok :: "lamport set \<Rightarrow> snapshot \<Rightarrow> bool" where
  "snapshot_ok E sn \<longleftrightarrow> (\<exists>ct. texts_ok ct sn) \<and> index_ok sn \<and> slices_ok E sn \<and> visible_ok sn"

text \<open>
  What a snapshot shows to someone, read from its fragments and ropes: each visible fragment is
  the next piece of the visible text, each other one the next piece of the deleted text.
\<close>

fun woven :: "mark \<Rightarrow> fragment list \<Rightarrow> bytes \<Rightarrow> bytes \<Rightarrow> (8 word \<times> bool) list" where
  "woven m [] visible deleted = []"
| "woven m (f # fs) visible deleted =
     (if fr_visible f then marked (mark_of m f) (take (fr_len f) visible) @ woven m fs (drop (fr_len f) visible) deleted
      else marked (mark_of m f) (take (fr_len f) deleted) @ woven m fs visible (drop (fr_len f) deleted))"

definition view :: "mark \<Rightarrow> snapshot \<Rightarrow> (8 word \<times> bool) list" where
  "view m sn = woven m (sn_fragments sn) (sn_visible_text sn) (sn_deleted_text sn)"

lemma woven_text: "woven m fs (vtext ct fs) (dtext ct fs) = mtext ct m fs"
  by (induction fs) simp_all

lemma view_text: "texts_ok ct sn \<Longrightarrow> view m sn = mtext ct m (sn_fragments sn)"
  by (simp add: view_def texts_ok_def woven_text)

text \<open>Everything, the visible bytes marked.\<close>

definition full_mark :: mark where
  "full_mark t ds b = Some b"

definition hide :: "('a \<times> bool) list \<Rightarrow> ('a \<times> bool) list" where
  "hide xs = map (\<lambda>(x, _). (x, False)) xs"

lemma hide_simps [simp]:
  "hide [] = []" "hide (x # xs) = (fst x, False) # hide xs" "hide (xs @ ys) = hide xs @ hide ys" "length (hide xs) = length xs"
  by (simp_all add: hide_def split: prod.split)

lemma hide_marked: "hide (marked (Some b) s) = marked (Some False) s"
  by (simp add: hide_def marked_def)

lemma visible_view: "texts_ok ct sn \<Longrightarrow> sn_visible_text sn = map fst (filter snd (view full_mark sn))"
proof -
  have "map fst (filter snd (mtext ct full_mark fs)) = vtext ct fs" for fs
    by (induction fs) (auto simp: mark_of_def full_mark_def marked_def comp_def)
  then show "texts_ok ct sn \<Longrightarrow> sn_visible_text sn = map fst (filter snd (view full_mark sn))"
    by (simp add: view_text texts_ok_def)
qed

text \<open>
  Edits of a view: each range keeps its bytes but none of them is visible any more, and the new
  text goes in front of them.
\<close>

fun view_spliced :: "('a \<times> bool) list \<Rightarrow> nat \<Rightarrow> ((nat \<times> nat) \<times> 'a list) list \<Rightarrow> ('a \<times> bool) list" where
  "view_spliced F p [] = drop p F"
| "view_spliced F p (((a, b), t) # es) =
     take (a - p) (drop p F) @ map (\<lambda>x. (x, True)) t @ hide (take (b - a) (drop a F)) @ view_spliced F b es"

lemma take_drop_up: "p \<le> a \<Longrightarrow> take (a - p) (drop p F) @ drop a F = drop p F"
  by (metis append_take_drop_id drop_drop le_add_diff_inverse2)

lemma view_spliced_from:
  assumes "p \<le> p'" "p' \<le> a"
  shows "take (p' - p) (drop p F) @ view_spliced F p' (((a, b), t) # es) = view_spliced F p (((a, b), t) # es)"
proof -
  have "take (a - p) (drop p F) = take (p' - p) (drop p F) @ take (a - p') (drop (p' - p) (drop p F))"
    using assms take_add [of "p' - p" "a - p'" "drop p F"] by simp
  then show ?thesis using assms by simp
qed

section \<open>The indexes after an edit\<close>

lemma slice_of_fragment [simp]:
  "sl_edit_id (slice_from_fragment ts f) = ts" "sl_insertion_id (slice_from_fragment ts f) = fr_timestamp f"
  "sl_start (slice_from_fragment ts f) = fr_insertion_offset f"
  "sl_end (slice_from_fragment ts f) = fr_insertion_offset f + fr_len f"
  by (simp_all add: slice_from_fragment_def sl_edit_id_def sl_insertion_id_def)

lemma slice_covers: "covers (slice_from_fragment ts f) ts f"
  by (simp add: covers_def)

lemma covers_piece:
  "covers s e g \<Longrightarrow> fr_timestamp f = fr_timestamp g \<Longrightarrow> cells f \<subseteq> cells g \<Longrightarrow> 0 < fr_len f \<Longrightarrow> covers s e f"
  by (auto simp: covers_def cells_def times_subset_iff ivl_subset)

lemma distinct_keys:
  assumes "frags_ok fs" "set gs \<subseteq> set fs" "distinct gs"
  shows "distinct (map ikey gs)" "distinct (map (slice_from_fragment ts) gs)"
proof -
  have "inj_on ikey (set gs)" using frags_ok_key [OF assms(1)] assms(2) by (auto intro: inj_onI)
  then show "distinct (map ikey gs)" using assms(3) by (simp add: distinct_map)
  have "f = g" if "f \<in> set gs" "g \<in> set gs" "slice_from_fragment ts f = slice_from_fragment ts g" for f g
  proof (rule frags_ok_key [OF assms(1)])
    have "sl_insertion_id (slice_from_fragment ts f) = sl_insertion_id (slice_from_fragment ts g)"
      "sl_start (slice_from_fragment ts f) = sl_start (slice_from_fragment ts g)" using that(3) by simp_all
    then show "ikey f = ikey g" by (simp add: insertion_key_of)
  qed (use that assms(2) in auto)
  then show "distinct (map (slice_from_fragment ts) gs)" using assms(3) by (auto simp: distinct_map intro!: inj_onI)
qed

lemma edited_inserts_new:
  assumes "distinct (map ikey gs)"
  shows "edited insertion_key k (map insert_new gs) old =
    (case find (\<lambda>g. ikey g = k) gs of Some g \<Rightarrow> Some (insertion_of g) | None \<Rightarrow> old)"
  using assms by (induction gs) (auto simp: edited_Cons insert_new_def, auto simp: edited_def)

lemma insertions_after:
  assumes t: "wf_tree insertion_summary t" "sorted_keys insertion_key (to_list t)" "set (to_list t) = insertion_of ` old"
    and gs: "distinct (map ikey gs)"
  shows "\<exists>removed t'. tree_edit insertion_summary insertion_dim insertion_key (map insert_new gs) t = Some (removed, t') \<and>
    wf_tree insertion_summary t' \<and> sorted_keys insertion_key (to_list t') \<and>
    set (to_list t') = insertion_of ` set gs \<union> insertion_of ` {f \<in> old. \<forall>g \<in> set gs. ikey g \<noteq> ikey f}"
proof -
  have "map (edit_key insertion_key) (map insert_new gs) = map ikey gs" by (simp add: insert_new_def)
  with gs have "distinct (map (edit_key insertion_key) (map insert_new gs))" by (simp only:)
  from ins_index.tree_edit_distinct_ok [OF t(1,2) this] obtain removed t' where
    t': "tree_edit insertion_summary insertion_dim insertion_key (map insert_new gs) t = Some (removed, t')"
      "wf_tree insertion_summary t'" "sorted_keys insertion_key (to_list t')"
      "\<And>k. lookup_key insertion_key k (to_list t') = edited insertion_key k (map insert_new gs) (lookup_key insertion_key k (to_list t))"
    by blast
  have "x \<in> set (to_list t') \<longleftrightarrow> x \<in> insertion_of ` set gs \<union> insertion_of ` {f \<in> old. \<forall>g \<in> set gs. ikey g \<noteq> ikey f}" for x
  proof (cases "find (\<lambda>g. ikey g = insertion_key x) gs")
    case None
    then have no: "\<forall>g \<in> set gs. ikey g \<noteq> insertion_key x" by (auto simp: find_None_iff)
    have "x \<in> set (to_list t') \<longleftrightarrow> x \<in> set (to_list t)"
      using t'(4) [of "insertion_key x"] None
      unfolding lookup_key_mem [OF t'(3)] lookup_key_mem [OF t(2)] by (simp add: edited_inserts_new [OF gs])
    with no show ?thesis unfolding t(3) by auto
  next
    case (Some g)
    then have g: "g \<in> set gs" "ikey g = insertion_key x" by (auto simp: find_Some_iff)
    have "x \<in> set (to_list t') \<longleftrightarrow> x = insertion_of g"
      using t'(4) [of "insertion_key x"] Some
      unfolding lookup_key_mem [OF t'(3)] by (auto simp: edited_inserts_new [OF gs])
    moreover have same: "h = g" if "h \<in> set gs" "ikey h = ikey g" for h
      using gs g(1) that by (auto simp: distinct_map inj_on_def)
    moreover have "x \<notin> insertion_of ` {f \<in> old. \<forall>g \<in> set gs. ikey g \<noteq> ikey f}" using g by auto
    moreover have "x = insertion_of g" if "h \<in> set gs" "x = insertion_of h" for h
      using same [OF that(1)] g(2) that(2) by simp
    then have "x \<in> insertion_of ` set gs \<longleftrightarrow> x = insertion_of g" using g(1) by blast
    ultimately show ?thesis by blast
  qed
  then show ?thesis using t' by blast
qed

lemma indexes_after:
  assumes inv: "edit_inv ct V ts (sn_fragments sn) [] st" and sn: "index_ok sn"
  shows "\<exists>removed t sl. tree_edit insertion_summary insertion_dim insertion_key (es_insertions st) (sn_insertions sn) = Some (removed, t) \<and>
    wf_tree insertion_summary t \<and> sorted_keys insertion_key (to_list t) \<and> set (to_list t) = insertion_of ` set (es_fragments st) \<and>
    ts_extend (es_slices st) (sn_insertion_slices sn) = Some sl \<and> tm_wf sl \<and>
    (\<forall>x. ts_contains x sl \<longleftrightarrow> x \<in> set (es_slices st) \<or> ts_contains x (sn_insertion_slices sn)) \<and>
    (\<forall>x \<in> set (es_slices st). \<exists>f \<in> set (es_fragments st). x = slice_from_fragment ts f)"
proof -
  let ?old = "set (sn_fragments sn)"
  have ok: "frags_ok (es_fragments st)" using inv by (simp add: edit_inv_def texts_inv_def)
  from inv have "index_inv ts ?old [] st" by (simp add: edit_inv_def)
  then obtain gs hs where gs: "es_insertions st = map insert_new gs" "distinct gs" "set gs \<subseteq> set (es_fragments st)"
      "\<forall>f \<in> set (es_fragments st). f \<in> set gs \<or> f \<in> ?old"
      "\<forall>f \<in> ?old. f \<in> set (es_fragments st) \<or> f \<in> set [] \<or> (\<exists>g \<in> set gs. ikey g = ikey f)"
    and hs: "es_slices st = map (slice_from_fragment ts) hs" "distinct hs" "set hs \<subseteq> set (es_fragments st)"
    unfolding index_inv_def by blast
  note d = distinct_keys(1) [OF ok gs(3,2)] distinct_keys(2) [OF ok hs(3,2), of ts]
  have sn_ok: "wf_tree insertion_summary (sn_insertions sn)" "sorted_keys insertion_key (to_list (sn_insertions sn))"
      "set (to_list (sn_insertions sn)) = insertion_of ` ?old" "tm_wf (sn_insertion_slices sn)"
    using sn by (simp_all add: index_ok_def)
  obtain removed t where t: "tree_edit insertion_summary insertion_dim insertion_key (es_insertions st) (sn_insertions sn) = Some (removed, t)"
      "wf_tree insertion_summary t" "sorted_keys insertion_key (to_list t)"
      "set (to_list t) = insertion_of ` set gs \<union> insertion_of ` {f \<in> ?old. \<forall>g \<in> set gs. ikey g \<noteq> ikey f}"
    using insertions_after [OF sn_ok(1-3) d(1)] unfolding gs(1) by blast
  have "set gs \<union> {f \<in> ?old. \<forall>g \<in> set gs. ikey g \<noteq> ikey f} = set (es_fragments st)"
  proof (intro set_eqI iffI)
    fix f assume f: "f \<in> set (es_fragments st)"
    have "\<forall>g \<in> set gs. ikey g \<noteq> ikey f" if "f \<notin> set gs"
      using frags_ok_key [OF ok _ f] gs(3) that by blast
    then show "f \<in> set gs \<union> {f \<in> ?old. \<forall>g \<in> set gs. ikey g \<noteq> ikey f}" using gs(4) f by blast
  next
    fix f assume "f \<in> set gs \<union> {f \<in> ?old. \<forall>g \<in> set gs. ikey g \<noteq> ikey f}"
    then show "f \<in> set (es_fragments st)" using gs(3,5) by auto
  qed
  then have set_t: "set (to_list t) = insertion_of ` set (es_fragments st)" unfolding t(4) image_Un [symmetric] by simp
  have "distinct (map fst (map (\<lambda>k. (k, ())) (es_slices st)))" using d(2) by (simp add: hs(1) comp_def)
  from tm_extend_ok [OF sn_ok(4) this] obtain sl where
    sl: "ts_extend (es_slices st) (sn_insertion_slices sn) = Some sl" "tm_wf sl"
      "tm_map sl = tm_map (sn_insertion_slices sn) ++ map_of (map (\<lambda>k. (k, ())) (es_slices st))"
    by (auto simp: ts_extend_def)
  have "ts_contains x sl \<longleftrightarrow> x \<in> set (es_slices st) \<or> ts_contains x (sn_insertion_slices sn)" for x
    using sl(2,3) sn_ok(4) by (auto simp: ts_contains_def tm_get_ok map_add_def map_of_map_restrict restrict_map_def split: option.splits if_splits)
  moreover have "\<forall>x \<in> set (es_slices st). \<exists>f \<in> set (es_fragments st). x = slice_from_fragment ts f" using hs(1,3) by auto
  ultimately show ?thesis using t set_t sl by blast
qed

section \<open>The snapshot after an edit\<close>

definition fresh_in :: "lamport \<Rightarrow> snapshot \<Rightarrow> bool" where
  "fresh_in ts sn \<longleftrightarrow> ts \<noteq> lamport_MIN \<and> um_is_undone ts (sn_undo_map sn) = Some False \<and>
     (\<forall>f \<in> set (sn_fragments sn). fr_timestamp f \<noteq> ts \<and> ts \<notin> set (fr_deletions f))"

definition edit_result :: "content \<Rightarrow> lamport \<Rightarrow> snapshot \<Rightarrow> patch \<Rightarrow> snapshot \<Rightarrow> bool" where
  "edit_result ct ts sn p sn' \<longleftrightarrow> texts_ok ct sn' \<and> index_ok sn' \<and>
     relates p (sn_visible_text sn) (sn_visible_text sn') \<and> patch_ok p \<and>
     sn_undo_map sn' = sn_undo_map sn \<and> sn_version sn' = sn_version sn \<and>
     (\<forall>x. ts_contains x (sn_insertion_slices sn) \<longrightarrow> ts_contains x (sn_insertion_slices sn')) \<and>
     (\<forall>x. ts_contains x (sn_insertion_slices sn') \<longrightarrow>
        ts_contains x (sn_insertion_slices sn) \<or> (\<exists>f \<in> set (sn_fragments sn'). x = slice_from_fragment ts f)) \<and>
     (\<forall>f \<in> set (sn_fragments sn'). accounted ts (set (sn_fragments sn)) {x. ts_contains x (sn_insertion_slices sn')} f) \<and>
     (\<forall>u. u ts \<longrightarrow> seen_text ct u (sn_fragments sn') = seen_text ct u (sn_fragments sn))"

lemma all_m_append: "all_m P (xs @ ys) = do { b \<leftarrow> all_m P xs; if b then all_m P ys else Some False }"
proof (induction xs)
  case (Cons x xs)
  then show ?case by (cases "P x") auto
qed simp

lemma accounted_visible:
  assumes f: "accounted ts (set (sn_fragments sn)) S f" and sn: "visible_ok sn" and ts: "um_is_undone ts (sn_undo_map sn) = Some False"
  shows "is_visible (sn_undo_map sn) f = Some (fr_visible f)"
  using f unfolding accounted_def
proof (elim disjE conjE)
  assume "piece_of (set (sn_fragments sn)) f"
  then obtain g where g: "g \<in> set (sn_fragments sn)" "fr_timestamp f = fr_timestamp g" "fr_deletions f = fr_deletions g"
      "fr_visible f = fr_visible g"
    unfolding piece_of_def by blast
  have "is_visible (sn_undo_map sn) g = Some (fr_visible g)" using sn g(1) by (simp add: visible_ok_def)
  then show ?thesis unfolding is_visible_def g(2-4) .
next
  assume "deleted_of ts (set (sn_fragments sn)) f"
  then obtain g where g: "g \<in> set (sn_fragments sn)" "fr_timestamp f = fr_timestamp g" "fr_deletions f = fr_deletions g @ [ts]"
      "\<not> fr_visible f"
    unfolding deleted_of_def by blast
  have "is_visible (sn_undo_map sn) g = Some (fr_visible g)" using sn g(1) by (simp add: visible_ok_def)
  then obtain u where u: "um_is_undone (fr_timestamp g) (sn_undo_map sn) = Some u"
      "\<not> u \<Longrightarrow> all_m (\<lambda>d. um_is_undone d (sn_undo_map sn)) (fr_deletions g) = Some (fr_visible g)"
    unfolding is_visible_def by (cases "um_is_undone (fr_timestamp g) (sn_undo_map sn)") (simp_all split: if_splits)
  have "all_m (\<lambda>d. um_is_undone d (sn_undo_map sn)) (fr_deletions g @ [ts]) = Some False" if "\<not> u"
    unfolding all_m_append u(2) [OF that] by (simp add: ts)
  then show ?thesis unfolding is_visible_def g(2,3) u(1) using g(4) by (cases u) simp_all
next
  assume "fr_timestamp f = ts" "fr_deletions f = []" "fr_visible f"
  then show ?thesis using ts by (simp add: is_visible_def)
qed

lemma accounted_covered:
  assumes f: "accounted ts (set (sn_fragments sn)) S f" and sn: "slices_ok E sn" and fresh: "fresh_in ts sn"
    and S: "\<forall>x. ts_contains x (sn_insertion_slices sn) \<longrightarrow> x \<in> S" and len: "0 < fr_len f"
    and e: "e \<in> insert ts E \<inter> insert (fr_timestamp f) (set (fr_deletions f))"
  shows "\<exists>s \<in> S. covers s e f"
proof -
  have old: "\<exists>s \<in> S. covers s e f"
    if g: "g \<in> set (sn_fragments sn)" "fr_timestamp f = fr_timestamp g" "cells f \<subseteq> cells g" "e \<in> insert (fr_timestamp g) (set (fr_deletions g))" for g
  proof -
    have "e \<noteq> ts" using fresh g by (auto simp: fresh_in_def)
    then obtain s where "ts_contains s (sn_insertion_slices sn)" "covers s e g" using sn g e unfolding slices_ok_def by blast
    then show ?thesis using S covers_piece [OF _ g(2,3) len] by blast
  qed
  show ?thesis
    using f unfolding accounted_def
  proof (elim disjE conjE)
    assume "piece_of (set (sn_fragments sn)) f"
    then show ?thesis using old e unfolding piece_of_def by auto
  next
    assume s: "slice_from_fragment ts f \<in> S" and "deleted_of ts (set (sn_fragments sn)) f"
    then show ?thesis using old e slice_covers [of ts f] unfolding deleted_of_def by (cases "e = ts") auto
  next
    assume "slice_from_fragment ts f \<in> S" "fr_timestamp f = ts" "fr_deletions f = []"
    then show ?thesis using e slice_covers [of ts f] by auto
  qed
qed

lemma accounted_timestamp: "accounted ts (set (sn_fragments sn)) S f \<Longrightarrow> fr_timestamp f = ts \<or> (\<exists>g \<in> set (sn_fragments sn). fr_timestamp f = fr_timestamp g)"
  unfolding accounted_def piece_of_def deleted_of_def by blast

lemma edit_result_ok:
  assumes r: "edit_result ct ts sn p sn'" and sn: "snapshot_ok E sn" and fresh: "fresh_in ts sn"
  shows "snapshot_ok (insert ts E) sn'"
proof -
  let ?S = "{x. ts_contains x (sn_insertion_slices sn')}"
  have acc: "accounted ts (set (sn_fragments sn)) ?S f" if "f \<in> set (sn_fragments sn')" for f
    using r that by (simp add: edit_result_def)
  have len: "0 < fr_len f" if "f \<in> set (sn_fragments sn')" for f
    using r that by (auto simp: edit_result_def texts_ok_def frags_ok_def frag_ok_def)
  have new_ts: "fr_timestamp f \<noteq> lamport_MIN" if "f \<in> set (sn_fragments sn')" for f
    using accounted_timestamp [OF acc [OF that]] sn fresh by (auto simp: snapshot_ok_def slices_ok_def fresh_in_def)
  have "slices_ok (insert ts E) sn'"
    unfolding slices_ok_def
  proof (intro conjI ballI)
    fix f e assume f: "f \<in> set (sn_fragments sn')" and e: "e \<in> insert ts E \<inter> insert (fr_timestamp f) (set (fr_deletions f))"
    show "\<exists>s. ts_contains s (sn_insertion_slices sn') \<and> covers s e f"
      using accounted_covered [OF acc [OF f] _ fresh _ len [OF f] e] sn r by (auto simp: snapshot_ok_def edit_result_def)
  next
    fix f assume "f \<in> set (sn_fragments sn')"
    then show "fr_timestamp f \<noteq> lamport_MIN" by (rule new_ts)
  next
    show "\<forall>s. ts_contains s (sn_insertion_slices sn') \<longrightarrow> sl_insertion_id s \<noteq> lamport_MIN"
    proof (intro allI impI)
      fix x assume "ts_contains x (sn_insertion_slices sn')"
      then consider "ts_contains x (sn_insertion_slices sn)" | f where "f \<in> set (sn_fragments sn')" "x = slice_from_fragment ts f"
        using r unfolding edit_result_def by blast
      then show "sl_insertion_id x \<noteq> lamport_MIN"
        using sn new_ts by cases (auto simp: snapshot_ok_def slices_ok_def)
    qed
  qed
  moreover have "visible_ok sn'"
    using accounted_visible [OF acc] sn fresh r by (simp add: visible_ok_def snapshot_ok_def fresh_in_def edit_result_def)
  ultimately show ?thesis using r unfolding snapshot_ok_def edit_result_def by blast
qed

end
