(* ===== verification/FragmentIds.thy ===== *)
theory FragmentIds
  imports Snapshot "HOL-Library.Product_Lexorder"
begin

text \<open>
  The fragments an undo concerns (\<open>fragment_ids_for_edits\<close> in \<open>crates/text/src/text.rs\<close>): the
  slices of the edits in the slice index, sorted by insertion, and for each slice the entries
  of the insertion index that lie in it, found by one cursor that only moves forward.
\<close>

section \<open>Definitions\<close>

definition edit_probe :: "lamport \<Rightarrow> insertion_slice" where
  "edit_probe edit =
     InsertionSlice (lamport_value edit) (lamport_replica edit)
       (lamport_value lamport_MIN) (lamport_replica lamport_MIN) 0 0"

fun slices_of_edits :: "lamport list \<Rightarrow> insertion_slice tree_set \<Rightarrow> insertion_slice list option" where
  "slices_of_edits [] slices = Some []"
| "slices_of_edits (edit # edit_ids) slices = do {
     from_probe \<leftarrow> ts_iter_from (edit_probe edit) slices;
     rest \<leftarrow> slices_of_edits edit_ids slices;
     Some (takeWhile (\<lambda>s. sl_edit_id s = edit) from_probe @ rest)
   }"

text \<open>The sort key; \<open>Reverse\<close> of the end is its negation.\<close>

definition slice_sort_key :: "insertion_slice \<Rightarrow> lamport \<times> nat \<times> int" where
  "slice_sort_key s = (sl_insertion_id s, sl_start s, - int (sl_end s))"

type_synonym insertion_cursor = "(insertion_fragment, insertion_fragment_key, insertion_fragment_key) cursor"

partial_function (option) collect_slice ::
  "insertion_slice \<Rightarrow> locator list \<Rightarrow> insertion_cursor \<Rightarrow> (locator list \<times> insertion_cursor) option" where
  "collect_slice s fragment_ids c = do {
     entry \<leftarrow> cursor_item c;
     (case entry of
       None \<Rightarrow> Some (fragment_ids, c)
     | Some i \<Rightarrow>
         if if_timestamp i \<noteq> sl_insertion_id s \<or> if_split_offset i \<ge> sl_end s then Some (fragment_ids, c)
         else do {
           c \<leftarrow> cursor_next insertion_dim c;
           collect_slice s (fragment_ids @ [if_fragment_id i]) c
         })
   }"

fun collect_slices :: "insertion_slice list \<Rightarrow> locator list \<Rightarrow> insertion_cursor \<Rightarrow> locator list option" where
  "collect_slices [] fragment_ids c = Some fragment_ids"
| "collect_slices (s # slices) fragment_ids c = do {
     let start = c_position c;
     c \<leftarrow> (if sl_insertion_id s \<noteq> ik_timestamp start \<or> sl_start s > ik_split_offset start
           then map_option snd (cursor_seek_forward insertion_dim
             (key_target (InsertionFragmentKey (sl_insertion_id s) (sl_start s))) Left c)
           else Some c);
     (fragment_ids, c) \<leftarrow> collect_slice s fragment_ids c;
     collect_slices slices fragment_ids c
   }"

definition fragment_ids_for_edits :: "lamport list \<Rightarrow> snapshot \<Rightarrow> locator list option" where
  "fragment_ids_for_edits edit_ids sn = do {
     slices \<leftarrow> slices_of_edits edit_ids (sn_insertion_slices sn);
     let slices = sort_key slice_sort_key slices;
     fragment_ids \<leftarrow> collect_slices slices [] (cursor_new insertion_dim (sn_insertions sn));
     Some (sort fragment_ids)
   }"

section \<open>The slices of the edits\<close>

lemma takeWhile_filter: "sorted_wrt (\<lambda>x y. P y \<longrightarrow> P x) xs \<Longrightarrow> takeWhile P xs = filter P xs \<and> dropWhile P xs = filter (\<lambda>x. \<not> P x) xs"
  by (induction xs) (auto simp: filter_empty_conv)

lemma takeWhile_append_dropWhile_filter: "takeWhile P xs @ dropWhile P xs = xs"
  by simp

lemma probe_least: "edit_probe e \<le> s \<longleftrightarrow> e \<le> sl_edit_id s"
proof -
  have "sl_edit_id (edit_probe e) = e" "sl_insertion_id (edit_probe e) = lamport_MIN" "sl_start (edit_probe e) = 0" "sl_end (edit_probe e) = 0"
    by (simp_all add: edit_probe_def sl_edit_id_def sl_insertion_id_def)
  moreover have "lamport_MIN < sl_insertion_id s \<or> lamport_MIN = sl_insertion_id s"
    using lamport_MIN_least [of "sl_insertion_id s"] by (simp only: le_less)
  ultimately show ?thesis unfolding less_eq_insertion_slice_def by (auto simp: le_less)
qed

lemma slice_less_edit: "s < t \<Longrightarrow> sl_edit_id s \<le> sl_edit_id (t :: insertion_slice)"
  by (auto simp: less_insertion_slice_def less_eq_insertion_slice_def)

lemma slices_of_edits_ok:
  assumes "tm_wf slices"
  shows "\<exists>ss. slices_of_edits es slices = Some ss \<and> set ss = {s. ts_contains s slices \<and> sl_edit_id s \<in> set es}"
proof (induction es)
  case (Cons e es)
  then obtain ss where ss: "slices_of_edits es slices = Some ss" "set ss = {s. ts_contains s slices \<and> sl_edit_id s \<in> set es}" by blast
  let ?all = "map fst (tm_entries slices)"
  have keys: "sorted_wrt (<) ?all" "set ?all = {s. ts_contains s slices}"
    using assms by (auto simp: tm_wf_def ts_contains_def tm_get_ok [OF assms] tm_map_def map_of_eq_None_iff image_iff)
  have it: "ts_iter_from (edit_probe e) slices = Some (filter (\<lambda>s. e \<le> sl_edit_id s) ?all)"
    using tm_iter_from_ok [OF assms, of "edit_probe e"] by (simp add: ts_iter_from_def filter_map o_def split_def probe_least)
  have "sorted_wrt (\<lambda>x y. sl_edit_id y = e \<longrightarrow> sl_edit_id x = e) (filter (\<lambda>s. e \<le> sl_edit_id s) ?all)"
    by (rule sorted_wrt_mono_rel [OF _ sorted_wrt_filter [OF keys(1)]]) (auto dest: slice_less_edit)
  from conjunct1 [OF takeWhile_filter [OF this]]
  have "set (takeWhile (\<lambda>s. sl_edit_id s = e) (filter (\<lambda>s. e \<le> sl_edit_id s) ?all)) = {s. ts_contains s slices \<and> sl_edit_id s = e}"
    using keys(2) by auto
  then show ?case using ss it by auto
qed simp

section \<open>Following a slice\<close>

definition in_slice :: "insertion_slice \<Rightarrow> insertion_fragment \<Rightarrow> bool" where
  "in_slice s i \<longleftrightarrow> if_timestamp i = sl_insertion_id s \<and> if_split_offset i < sl_end s"

definition slice_key :: "insertion_slice \<Rightarrow> insertion_fragment_key" where
  "slice_key s = InsertionFragmentKey (sl_insertion_id s) (sl_start s)"

lemma collect_slice_ok:
  assumes "cursor_at insertion_summary insertion_dim c xs ys" "c_did_seek c"
  shows "\<exists>c'. collect_slice s ids c = Some (ids @ map if_fragment_id (takeWhile (in_slice s) ys), c') \<and>
    cursor_at insertion_summary insertion_dim c' (xs @ takeWhile (in_slice s) ys) (dropWhile (in_slice s) ys) \<and> c_did_seek c'"
  using assms
proof (induction ys arbitrary: c xs ids)
  case Nil
  then show ?case using cursor_item_ok [OF Nil] by (subst collect_slice.simps) auto
next
  case (Cons y ys)
  have item: "cursor_item c = Some (Some y)" using cursor_item_ok [OF Cons.prems] by simp
  show ?case
  proof (cases "in_slice s y")
    case False
    then show ?thesis using Cons.prems item by (subst collect_slice.simps) (auto simp: in_slice_def)
  next
    case True
    obtain c1 where c1: "cursor_next insertion_dim c = Some c1" "c_did_seek c1" "cursor_at insertion_summary insertion_dim c1 (xs @ [y]) ys"
      using ins_index.cursor_next_ok [OF Cons.prems(1)] Cons.prems(2) by auto
    have "\<not> (if_timestamp y \<noteq> sl_insertion_id s \<or> if_split_offset y \<ge> sl_end s)" using True by (simp add: in_slice_def)
    then have "collect_slice s ids c = collect_slice s (ids @ [if_fragment_id y]) c1"
      using item c1(1) by (subst collect_slice.simps) simp
    then show ?thesis using Cons.IH [OF c1(3,2), of "ids @ [if_fragment_id y]"] True by auto
  qed
qed

text \<open>All entries of a slice are next to each other.\<close>

lemma in_slice_prefix:
  assumes "sorted_keys insertion_key ys" "\<forall>y \<in> set ys. slice_key s \<le> insertion_key y"
  shows "takeWhile (in_slice s) ys = filter (in_slice s) ys"
proof -
  have "in_slice s x" if "slice_key s \<le> insertion_key x" "insertion_key x < insertion_key y" "in_slice s y" for x y
  proof -
    have "sl_insertion_id s \<le> if_timestamp x"
      using that(1) by (auto simp: slice_key_def insertion_key_def less_eq_insertion_fragment_key_def)
    moreover have "if_timestamp x \<le> if_timestamp y" using that(2) by (auto simp: insertion_key_def less_insertion_fragment_key_def)
    moreover have "if_timestamp y = sl_insertion_id s" using that(3) by (simp add: in_slice_def)
    ultimately have "if_timestamp x = sl_insertion_id s" "if_timestamp y = sl_insertion_id s" by simp_all
    then show ?thesis using that(2,3)
      by (simp add: in_slice_def insertion_key_def less_insertion_fragment_key_def)
  qed
  then have "sorted_wrt (\<lambda>x y. in_slice s y \<longrightarrow> in_slice s x) ys"
    using assms(2) by (intro sorted_wrt_mono_rel [OF _ assms(1) [unfolded sorted_keys_def]]) blast
  then show ?thesis by (rule conjunct1 [OF takeWhile_filter])
qed

section \<open>All slices\<close>

lemma sorted_keys_distinct: "sorted_keys key xs \<Longrightarrow> distinct xs"
  by (induction xs) (auto simp: sorted_keys_def)

lemma frags_ok_id: "frags_ok fs \<Longrightarrow> f \<in> set fs \<Longrightarrow> g \<in> set fs \<Longrightarrow> fr_id f = fr_id g \<Longrightarrow> f = g"
  by (induction fs) (auto simp: frag_less_def)

definition in_range :: "insertion_slice \<Rightarrow> insertion_fragment \<Rightarrow> bool" where
  "in_range s i \<longleftrightarrow> if_timestamp i = sl_insertion_id s \<and> sl_start s \<le> if_split_offset i \<and> if_split_offset i < sl_end s"

lemma in_range_iff: "in_range s i \<longleftrightarrow> in_slice s i \<and> slice_key s \<le> insertion_key i"
  by (auto simp: in_range_def in_slice_def slice_key_def insertion_key_def less_eq_insertion_fragment_key_def)

text \<open>
  The cursor has the entries \<open>xs\<close> behind it; \<open>found\<close> are those whose identifiers were collected,
  among them all that come after the last slice's start.
\<close>

definition collecting :: "insertion_fragment_key \<Rightarrow> insertion_fragment list \<Rightarrow> insertion_fragment list \<Rightarrow> insertion_fragment list
  \<Rightarrow> insertion_cursor \<Rightarrow> bool" where
  "collecting k found xs ys c \<longleftrightarrow> cursor_at insertion_summary insertion_dim c xs ys \<and> sorted_keys insertion_key (xs @ ys) \<and>
     (c_did_seek c \<or> xs = []) \<and> distinct found \<and> set found \<subseteq> set xs \<and>
     (\<forall>x \<in> set xs. if_timestamp x \<le> ik_timestamp k \<and> (k \<le> insertion_key x \<longrightarrow> x \<in> set found))"

lemma seek_slice_ok:
  assumes c: "collecting k found xs ys c" and k: "k \<le> slice_key s" "sl_insertion_id s \<noteq> lamport_MIN"
  shows "\<exists>c' us vs. (if sl_insertion_id s \<noteq> ik_timestamp (c_position c) \<or> sl_start s > ik_split_offset (c_position c)
      then map_option snd (cursor_seek_forward insertion_dim (key_target (slice_key s)) Left c) else Some c) = Some c' \<and>
    collecting (slice_key s) found (xs @ us) vs c' \<and> c_did_seek c' \<and> ys = us @ vs \<and> (\<forall>y \<in> set vs. slice_key s \<le> insertion_key y)"
proof -
  note c' = c [unfolded collecting_def]
  have pos: "c_position c = (if xs = [] then InsertionFragmentKey lamport_MIN 0 else insertion_key (last xs))"
    using ins_index.after_keys [of xs "d_zero insertion_dim"] c' ins_index.zero_least
    by (auto simp: cursor_at_def insertion_dim_def)
  have ts: "ik_timestamp k \<le> sl_insertion_id s" using k(1) by (auto simp: slice_key_def less_eq_insertion_fragment_key_def)
  have xs: "if_timestamp x \<le> sl_insertion_id s" if "x \<in> set xs" for x using c' that ts by (blast intro: order_trans)
  have found: "x \<in> set found" if "x \<in> set xs" "slice_key s \<le> insertion_key x" for x
    using c' k(1) that by (blast intro: order_trans)
  show ?thesis
  proof (cases "sl_insertion_id s \<noteq> ik_timestamp (c_position c) \<or> sl_start s > ik_split_offset (c_position c)")
    case True
    have le: "c_position c \<le> slice_key s"
    proof (cases "xs = []")
      case False
      with True pos xs [of "last xs"] show ?thesis
        by (auto simp: slice_key_def insertion_key_def less_eq_insertion_fragment_key_def)
    next
      case nil: True
      then show ?thesis using ins_index.zero_least [of "slice_key s"] by (simp add: pos insertion_dim_def)
    qed
    have ys: "sorted_keys insertion_key ys" "\<forall>y \<in> set ys. c_position c \<le> insertion_key y"
      using c' ins_index.position_keys [of xs ys] by (auto simp: cursor_at_def)
    have at: "cursor_at insertion_summary insertion_dim c xs ys" using c' by blast
    have seek: "key_target (slice_key s) (c_position c) \<noteq> Less" using le by (simp add: not_less)
    obtain lo hi where lo: "lo = filter (\<lambda>x. insertion_key x < slice_key s) ys" and hi: "hi = filter (\<lambda>x. slice_key s \<le> insertion_key x) ys"
      by blast
    obtain b c1 where c1: "cursor_seek_forward insertion_dim (key_target (slice_key s)) Left c = Some (b, c1)" "c_did_seek c1"
        "cursor_at insertion_summary insertion_dim c1 (xs @ lo) hi"
      using ins_index.cursor_seek_forward_ok [OF at seek ins_index.pass_mono_keys [OF ys] ins_index.advance_keys [OF ys]]
      unfolding lo hi by blast
    have split: "ys = lo @ hi" unfolding lo hi using sorted_low_high [OF ys(1)] by simp
    have low: "if_timestamp x \<le> sl_insertion_id s \<and> \<not> slice_key s \<le> insertion_key x" if "x \<in> set lo" for x
      using that by (auto simp: lo not_le slice_key_def insertion_key_def less_insertion_fragment_key_def)
    have "sorted_keys insertion_key ((xs @ lo) @ hi)" "distinct found" "set found \<subseteq> set (xs @ lo)"
      using c' unfolding split by (simp_all add: le_supI1)
    then have "collecting (slice_key s) found (xs @ lo) hi c1"
      unfolding collecting_def using c1(2,3) xs found low by (auto simp: slice_key_def)
    moreover have "\<forall>y \<in> set hi. slice_key s \<le> insertion_key y" by (simp add: hi)
    ultimately show ?thesis using True c1(1,2) split by (intro exI [of _ c1] exI [of _ lo] exI [of _ hi]) simp
  next
    case False
    then have "xs \<noteq> []" using k(2) pos by auto
    moreover have "slice_key s \<le> insertion_key (last xs)"
      using False pos \<open>xs \<noteq> []\<close> by (simp add: slice_key_def less_eq_insertion_fragment_key_def)
    moreover have "\<forall>y \<in> set ys. insertion_key (last xs) < insertion_key y"
      using c' \<open>xs \<noteq> []\<close> by (auto simp: sorted_keys_def sorted_wrt_append)
    ultimately have "\<forall>y \<in> set ys. slice_key s \<le> insertion_key y" "c_did_seek c"
      using c' by (meson less_imp_le order_trans, blast)
    moreover have "collecting (slice_key s) found (xs @ []) ys c"
      using c' xs found by (auto simp: collecting_def slice_key_def)
    ultimately show ?thesis using False by (intro exI [of _ c] exI [of _ "[]"] exI [of _ ys]) simp
  qed
qed

lemma collect_slices_ok:
  assumes "collecting k found xs ys c" "sorted_wrt (\<lambda>s t. slice_key s \<le> slice_key t) slices"
    and "\<forall>s \<in> set slices. k \<le> slice_key s \<and> sl_insertion_id s \<noteq> lamport_MIN"
  shows "\<exists>found'. collect_slices slices (map if_fragment_id found) c = Some (map if_fragment_id found') \<and>
    distinct found' \<and> set found' = set found \<union> {x \<in> set (xs @ ys). \<exists>s \<in> set slices. in_range s x}"
  using assms
proof (induction slices arbitrary: k found xs ys c)
  case Nil
  then show ?case by (auto simp: collecting_def)
next
  case (Cons s slices)
  obtain c1 us vs where c1: "(if sl_insertion_id s \<noteq> ik_timestamp (c_position c) \<or> sl_start s > ik_split_offset (c_position c)
      then map_option snd (cursor_seek_forward insertion_dim (key_target (slice_key s)) Left c) else Some c) = Some c1"
      "collecting (slice_key s) found (xs @ us) vs c1" "c_did_seek c1" "ys = us @ vs" "\<forall>y \<in> set vs. slice_key s \<le> insertion_key y"
    using seek_slice_ok [OF Cons.prems(1), of s] Cons.prems(3) by auto
  have vs: "sorted_keys insertion_key ((xs @ us) @ vs)" "cursor_at insertion_summary insertion_dim c1 (xs @ us) vs"
      "distinct found" "set found \<subseteq> set (xs @ us)"
      "\<forall>x \<in> set (xs @ us). if_timestamp x \<le> sl_insertion_id s \<and> (slice_key s \<le> insertion_key x \<longrightarrow> x \<in> set found)"
    using c1(2) unfolding collecting_def by (simp_all add: slice_key_def)
  obtain t r where t: "t = takeWhile (in_slice s) vs" and r: "r = dropWhile (in_slice s) vs" by blast
  have "sorted_keys insertion_key vs" using vs(1) by simp
  then have "t = filter (in_slice s) vs" unfolding t using in_slice_prefix c1(5) by blast
  then have "set t = {x \<in> set vs. in_slice s x}" by auto
  moreover have "vs = t @ r" unfolding t r by simp
  ultimately have tr: "vs = t @ r" "set t = {x \<in> set vs. in_slice s x}" by blast+
  obtain c2 where c2: "collect_slice s (map if_fragment_id found) c1 = Some (map if_fragment_id (found @ t), c2)"
      "cursor_at insertion_summary insertion_dim c2 ((xs @ us) @ t) r" "c_did_seek c2"
    using collect_slice_ok [OF vs(2) c1(3), of s "map if_fragment_id found"] unfolding t r by auto
  have d: "distinct ((xs @ us) @ vs)" using vs(1) sorted_keys_distinct by blast
  have "collecting (slice_key s) (found @ t) (xs @ us @ t) r c2"
    unfolding collecting_def
  proof (intro conjI)
    show "cursor_at insertion_summary insertion_dim c2 (xs @ us @ t) r" using c2(2) by simp
    show "sorted_keys insertion_key ((xs @ us @ t) @ r)" using vs(1) unfolding tr(1) by simp
    show "distinct (found @ t)" using vs(3,4) d unfolding tr(1) by auto
    show "set (found @ t) \<subseteq> set (xs @ us @ t)" using vs(4) by auto
    show "\<forall>x \<in> set (xs @ us @ t). if_timestamp x \<le> ik_timestamp (slice_key s) \<and> (slice_key s \<le> insertion_key x \<longrightarrow> x \<in> set (found @ t))"
      using vs(5) tr(2) by (auto simp: slice_key_def in_slice_def)
  qed (use c2(3) in simp)
  moreover have "sorted_wrt (\<lambda>s t. slice_key s \<le> slice_key t) slices"
    "\<forall>t \<in> set slices. slice_key s \<le> slice_key t \<and> sl_insertion_id t \<noteq> lamport_MIN"
    using Cons.prems(2,3) by simp_all
  ultimately obtain found' where f: "collect_slices slices (map if_fragment_id (found @ t)) c2 = Some (map if_fragment_id found')" "distinct found'"
      "set found' = set (found @ t) \<union> {x \<in> set ((xs @ us @ t) @ r). \<exists>s \<in> set slices. in_range s x}"
    using Cons.IH by blast
  have "set (found @ t) = set found \<union> {x \<in> set (xs @ ys). in_range s x}"
  proof -
    have "{x \<in> set (xs @ us). in_range s x} \<subseteq> set found" using vs(5) by (auto simp: in_range_iff)
    moreover have "{x \<in> set vs. in_range s x} = set t" unfolding tr(2) using c1(5) by (auto simp: in_range_iff)
    ultimately show ?thesis unfolding c1(4) by auto
  qed
  then have "set found' = set found \<union> {x \<in> set (xs @ ys). \<exists>s \<in> set (s # slices). in_range s x}"
    using f(3) unfolding c1(4) tr(1) by auto
  then show ?case using c1(1) [unfolded slice_key_def] c2(1) f(1,2) by (intro exI [of _ found']) (simp add: Let_def)
qed

lemma fragment_ids_ok:
  assumes sn: "texts_ok ct sn" "index_ok sn" and s: "\<forall>s. ts_contains s (sn_insertion_slices sn) \<longrightarrow> sl_insertion_id s \<noteq> lamport_MIN"
  shows "\<exists>ids. fragment_ids_for_edits es sn = Some ids \<and> sorted_wrt (<) ids \<and>
    set ids = fr_id ` {f \<in> set (sn_fragments sn). \<exists>s. ts_contains s (sn_insertion_slices sn) \<and> sl_edit_id s \<in> set es \<and> in_range s (insertion_of f)}"
proof -
  have t: "wf_tree insertion_summary (sn_insertions sn)" "sorted_keys insertion_key (to_list (sn_insertions sn))"
      "set (to_list (sn_insertions sn)) = insertion_of ` set (sn_fragments sn)" "tm_wf (sn_insertion_slices sn)"
    using sn(2) by (simp_all add: index_ok_def)
  obtain ss where ss: "slices_of_edits es (sn_insertion_slices sn) = Some ss"
      "set ss = {s. ts_contains s (sn_insertion_slices sn) \<and> sl_edit_id s \<in> set es}"
    using slices_of_edits_ok [OF t(4)] by blast
  let ?ss = "sort_key slice_sort_key ss"
  have "sorted_wrt (\<lambda>s t. slice_sort_key s \<le> slice_sort_key t) ?ss" using sorted_sort_key [of slice_sort_key ss] by (simp add: sorted_map)
  then have sorted: "sorted_wrt (\<lambda>s t. slice_key s \<le> slice_key t) ?ss"
    by (rule sorted_wrt_mono_rel [rotated]) (auto simp: slice_sort_key_def slice_key_def less_eq_insertion_fragment_key_def)
  have "collecting (InsertionFragmentKey lamport_MIN 0) [] [] (to_list (sn_insertions sn)) (cursor_new insertion_dim (sn_insertions sn))"
    using cursor_at_new [OF t(1)] t(2) by (simp add: collecting_def)
  from collect_slices_ok [OF this sorted] obtain found where
    found: "collect_slices ?ss [] (cursor_new insertion_dim (sn_insertions sn)) = Some (map if_fragment_id found)" "distinct found"
      "set found = {x \<in> insertion_of ` set (sn_fragments sn). \<exists>s \<in> set ss. in_range s x}"
    using ss(2) s ins_index.zero_least t(3) by (auto simp: insertion_dim_def)
  have "inj_on if_fragment_id (insertion_of ` set (sn_fragments sn))"
    using sn(1) by (auto simp: inj_on_def insertion_of_def texts_ok_def dest: frags_ok_id)
  then have "distinct (map if_fragment_id found)" using found(2,3) by (auto simp: distinct_map intro: inj_on_subset)
  then have "sorted_wrt (<) (sort (map if_fragment_id found))" by (simp add: strict_sorted_iff)
  moreover have "set (sort (map if_fragment_id found)) = fr_id ` {f \<in> set (sn_fragments sn). \<exists>s \<in> set ss. in_range s (insertion_of f)}"
  proof -
    have "{x \<in> insertion_of ` set (sn_fragments sn). \<exists>s \<in> set ss. in_range s x} =
        insertion_of ` {f \<in> set (sn_fragments sn). \<exists>s \<in> set ss. in_range s (insertion_of f)}" by blast
    then show ?thesis unfolding set_sort set_map found(3) by (simp add: image_image insertion_of_def)
  qed
  ultimately show ?thesis using ss found(1) by (simp add: fragment_ids_for_edits_def Let_def)
qed

end
