(* ===== verification/EditWalk.thy ===== *)
theory EditWalk
  imports Snapshot
begin

text \<open>
  The walk of an edit over the old fragments, once for local and for remote edits. An edit asks
  three things of the position it keeps: it reads an offset from it, a fragment adds its whole
  length to the offset or nothing, and seeking compares offsets (\<open>edit_walk\<close>). From these follow
  what jumping ahead, carrying over the rest or the prefix of a fragment, inserting and
  finishing do to the invariant of \<open>EditCore\<close>.
\<close>

section \<open>Where an edit stands\<close>

definition remaining :: "nat \<Rightarrow> fragment list \<Rightarrow> fragment list" where
  "remaining k gs = (case gs of [] \<Rightarrow> [] | g # r \<Rightarrow> cut_rest g k @ r)"

definition wsum :: "(fragment \<Rightarrow> nat) \<Rightarrow> fragment list \<Rightarrow> nat" where
  "wsum wt gs = sum_list (map wt gs)"

text \<open>The fragments the edit still has ahead, and the text if it stopped here.\<close>

definition ahead :: "nat \<Rightarrow> 'd edit_state \<Rightarrow> fragment list" where
  "ahead s st = remaining (es_fragment_start st - s) (fc_rest (es_cursor st))"

definition whole :: "content \<Rightarrow> nat \<Rightarrow> 'd edit_state \<Rightarrow> bytes" where
  "whole ct s st = new_text ct st @ vtext ct (ahead s st)"

definition marks :: "content \<Rightarrow> mark \<Rightarrow> nat \<Rightarrow> 'd edit_state \<Rightarrow> (8 word \<times> bool) list" where
  "marks ct m s st = mtext ct m (es_fragments st) @ mtext ct m (ahead s st)"

text \<open>
  The cursor's position reads \<open>s\<close>, and \<open>fragment_start\<close> lies within its fragment; \<open>N\<close> is the
  offset behind the last fragment.
\<close>

definition walking :: "('d \<Rightarrow> nat option) \<Rightarrow> (fragment \<Rightarrow> nat) \<Rightarrow> nat \<Rightarrow> content \<Rightarrow> bytes \<Rightarrow> lamport \<Rightarrow> fragment list
  \<Rightarrow> nat \<Rightarrow> 'd edit_state \<Rightarrow> bool" where
  "walking off wt N ct V ts old s st \<longleftrightarrow>
     off (fc_start (es_cursor st)) = Some s \<and> s \<le> es_fragment_start st \<and>
     es_fragment_start st \<le> s + (case fc_rest (es_cursor st) of [] \<Rightarrow> 0 | g # _ \<Rightarrow> wt g) \<and>
     s + wsum wt (fc_rest (es_cursor st)) = N \<and>
     frags_ok (fc_rest (es_cursor st)) \<and> set (fc_rest (es_cursor st)) \<subseteq> set old \<and> (\<forall>f \<in> set old. fr_timestamp f \<noteq> ts) \<and>
     (\<forall>f \<in> set (es_fragments st). \<forall>g \<in> set (fc_rest (es_cursor st)). fr_id f < fr_id g) \<and>
     offsets_below ts (es_insertion_offset st) (es_fragments st) \<and>
     edit_inv ct V ts old (ahead s st) st"

lemma walk_start:
  "walking off wt N ct V ts old s st \<Longrightarrow> off (fc_start (es_cursor st)) = Some s \<and> s \<le> es_fragment_start st \<and>
    es_fragment_start st \<le> s + (case fc_rest (es_cursor st) of [] \<Rightarrow> 0 | g # _ \<Rightarrow> wt g)"
  unfolding walking_def by blast

lemma remaining_simps [simp]:
  "remaining k [] = []" "remaining k (g # r) = cut_rest g k @ r"
  by (simp_all add: remaining_def)

lemma cut_rest_0: "frag_ok g \<Longrightarrow> cut_rest g 0 = [g]"
  using piece_simps(8) [of g] by (simp add: cut_rest_def frag_ok_def del: piece_simps)

lemma cut_rest_all [simp]: "cut_rest g (fr_len g) = []" "cut_rest (piece g k n) n = []"
  by (simp_all add: cut_rest_def)

lemma cut_rest_piece:
  "k + j \<le> fr_len g \<Longrightarrow> cut_rest (piece g k (fr_len g - k)) j = cut_rest g (k + j)"
  by (auto simp: cut_rest_def)

lemma remaining_0: "frags_ok gs \<Longrightarrow> remaining 0 gs = gs"
  by (cases gs) (simp_all add: cut_rest_0)

lemma wsum_simps [simp]: "wsum wt [] = 0" "wsum wt (g # r) = wt g + wsum wt r" "wsum wt (a @ b) = wsum wt a + wsum wt b"
  by (simp_all add: wsum_def)

lemma cut_rest_ids: "f \<in> set (cut_rest g k) \<Longrightarrow> fr_id f = fr_id g \<and> fr_timestamp f = fr_timestamp g"
  by (auto simp: cut_rest_def split: if_splits)

lemma offsets_below_carried:
  "offsets_below ts n fs \<Longrightarrow> fr_timestamp g \<noteq> ts \<Longrightarrow> offsets_below ts n (fs @ [carried g k l d v])"
  by (auto simp: offsets_below_def)

lemma offsets_below_append_old:
  "offsets_below ts n fs \<Longrightarrow> \<forall>f \<in> set gs. fr_timestamp f \<noteq> ts \<Longrightarrow> offsets_below ts n (fs @ gs)"
  by (auto simp: offsets_below_def)

lemma new_id_greater: "frags_ok (es_fragments st) \<Longrightarrow> f \<in> set (es_fragments st) \<Longrightarrow> fr_id f < between (new_max_id st) l"
  using max_id_le [of "es_fragments st" f] between_greater [of "new_max_id st" l] unfolding new_max_id_def
  by (rule le_less_trans)

lemma carried_text:
  assumes "k \<le> fr_len g" "es_fragments st' = es_fragments st @ [carried g k l d (fr_visible g)]"
  shows "new_text ct st' @ vtext ct (cut_rest g k @ R) = new_text ct st @ vtext ct (g # R)"
  using cut_text(1) [OF assms(1), of ct] by (auto simp: new_text_def assms(2))

section \<open>Where the cursor is\<close>

text \<open>The cursor of an edit stands behind a prefix of the old fragments, at the position that prefix leads to.\<close>

definition placed :: "('d, fragment_summary) dim_ops \<Rightarrow> fragment list \<Rightarrow> 'd frag_cursor \<Rightarrow> bool" where
  "placed M old c \<longleftrightarrow> (\<exists>us. old = us @ fc_rest c \<and> fc_start c = after fragment_ops M (d_zero M) us)"

lemma placed_next: "placed M old c \<Longrightarrow> placed M old (fc_next M c)"
proof -
  assume "placed M old c"
  then obtain us where us: "old = us @ fc_rest c" "fc_start c = after fragment_ops M (d_zero M) us" unfolding placed_def by blast
  show "placed M old (fc_next M c)"
    unfolding placed_def
  proof (cases "fc_rest c")
    case Nil
    then show "\<exists>vs. old = vs @ fc_rest (fc_next M c) \<and> fc_start (fc_next M c) = after fragment_ops M (d_zero M) vs"
      using us by (intro exI [of _ us]) (simp add: fc_next_def fc_end_def fc_item_def list_first_def)
  next
    case (Cons g r)
    then show "\<exists>vs. old = vs @ fc_rest (fc_next M c) \<and> fc_start (fc_next M c) = after fragment_ops M (d_zero M) vs"
      using us by (intro exI [of _ "us @ [g]"]) (simp add: fc_next_def fc_end_def fc_item_def list_first_def fragment_ops_def)
  qed
qed

lemma placed_slice:
  assumes "placed M old c" "fc_slice M target b c = Some (us, c')"
  shows "placed M old c'"
proof -
  obtain vs where vs: "old = vs @ fc_rest c" "fc_start c = after fragment_ops M (d_zero M) vs" using assms(1) unfolding placed_def by blast
  have "fc_rest c = us @ fc_rest c'" "fc_start c' = after fragment_ops M (fc_start c) us"
    using assms(2) advance_append [of fragment_ops M "passes target b" "fc_start c" "fc_rest c"]
    by (auto simp: fc_slice_def split: if_splits prod.splits)
  then show ?thesis unfolding placed_def using vs by (intro exI [of _ "vs @ us"]) simp
qed

lemma push_piece_cursor: "push_piece f w st = Some st' \<Longrightarrow> es_cursor st' = es_cursor st \<and> es_fragment_start st' = es_fragment_start st"
  by (auto simp: push_piece_def split: bind_splits)

lemma push_slice_cursor: "push_slice fs st = Some st' \<Longrightarrow> es_cursor st' = es_cursor st \<and> es_fragment_start st' = es_fragment_start st"
  by (auto simp: push_slice_def split: bind_splits)

lemma consume_rest_placed:
  assumes "consume_rest M off st = Some st'" "placed M old (es_cursor st)"
  shows "placed M old (es_cursor st')"
  using assms by (auto simp: consume_rest_def Let_def intro: placed_next split: bind_splits if_splits)

lemma skip_to_placed:
  assumes "skip_to M off target b n st = Some st'" "placed M old (es_cursor st)"
  shows "placed M old (es_cursor st') \<and> (st' = st \<or> off (fc_start (es_cursor st')) = Some (es_fragment_start st'))"
  using assms consume_rest_placed [OF _ assms(2)] placed_slice [of M old _ target b]
  by (fastforce simp: skip_to_def split: bind_splits if_splits)

lemma preserve_prefix_cursor: "preserve_prefix off n st = Some st' \<Longrightarrow> es_cursor st' = es_cursor st"
  by (auto simp: preserve_prefix_def Let_def dest: push_piece_cursor split: bind_splits if_splits)

text \<open>The new fragments only grow.\<close>

definition grows :: "'d edit_state \<Rightarrow> 'd edit_state \<Rightarrow> bool" where
  "grows st st' \<longleftrightarrow> (\<exists>fs. es_fragments st' = es_fragments st @ fs)"

lemma grows_refl [simp]: "grows st st"
  by (simp add: grows_def)

lemma grows_trans: "grows st st' \<Longrightarrow> grows st' st'' \<Longrightarrow> grows st st''"
  by (auto simp: grows_def)

lemma push_piece_grows: "push_piece f w st = Some st' \<Longrightarrow> grows st st'"
  by (auto simp: push_piece_def grows_def split: bind_splits)

lemma push_slice_grows: "push_slice fs st = Some st' \<Longrightarrow> grows st st'"
  by (auto simp: push_slice_def grows_def split: bind_splits)

lemma consume_rest_grows: "consume_rest M off st = Some st' \<Longrightarrow> grows st st'"
  by (auto simp: consume_rest_def Let_def grows_def split: bind_splits if_splits dest!: push_piece_grows [unfolded grows_def])

lemma skip_to_grows: "skip_to M off target b n st = Some st' \<Longrightarrow> grows st st'"
  by (auto simp: skip_to_def grows_def split: bind_splits if_splits
      dest!: consume_rest_grows [unfolded grows_def] push_slice_grows [unfolded grows_def])

lemma preserve_prefix_grows: "preserve_prefix off n st = Some st' \<Longrightarrow> grows st st'"
  by (auto simp: preserve_prefix_def Let_def grows_def split: bind_splits if_splits dest!: push_piece_grows [unfolded grows_def])

lemma grows_mtext: "grows st st' \<Longrightarrow> length (mtext ct m (es_fragments st)) \<le> length (mtext ct m (es_fragments st'))"
  by (auto simp: grows_def)

lemma drop_forward:
  assumes "xs @ drop q F = ys @ drop p F" "length ys \<le> length xs" "p \<le> length F" "q \<le> length F"
  shows "p \<le> q"
  using arg_cong [OF assms(1), of length] assms(2-4) by simp

text \<open>The marked text ahead of a placed cursor is a rest of the old one.\<close>

lemma mtext_ahead:
  assumes "old = us @ gs" "case gs of [] \<Rightarrow> True | g # _ \<Rightarrow> k \<le> fr_len g"
  shows "mtext ct m (remaining k gs) =
    drop (length (mtext ct m us) + (case gs of [] \<Rightarrow> 0 | g # _ \<Rightarrow> min k (length (mtext ct m [g])))) (mtext ct m old)"
proof (cases gs)
  case (Cons g r)
  let ?a = "marked (mark_of m g) (frag_text ct (piece g 0 k))"
  have cut: "mtext ct m [g] = ?a @ mtext ct m (cut_rest g k)"
    using mtext_cut [of k g m ct] assms(2) Cons by simp
  have len: "length ?a = min k (length (mtext ct m [g]))"
    using assms(2) Cons by (cases "mark_of m g") (auto simp: frag_text_def)
  have "mtext ct m old = (mtext ct m us @ ?a) @ mtext ct m (cut_rest g k) @ mtext ct m r"
    using assms(1) Cons mtext_simps(3) [of ct m "[g]" r] unfolding cut by simp
  moreover have "length (mtext ct m us @ ?a) = length (mtext ct m us) + min k (length (mtext ct m [g]))" using len by simp
  ultimately have "drop (length (mtext ct m us) + min k (length (mtext ct m [g]))) (mtext ct m old) = mtext ct m (cut_rest g k) @ mtext ct m r"
    by (metis append_eq_conv_conj)
  then show ?thesis using Cons by simp
qed (use assms in simp)

section \<open>Local and remote edits alike\<close>

locale edit_walk =
  fixes M :: "('d, fragment_summary) dim_ops" and off :: "'d \<Rightarrow> nat option" and wt :: "fragment \<Rightarrow> nat"
    and tgt :: "nat \<Rightarrow> 'd \<Rightarrow> ordering"
  assumes off_zero: "off (d_zero M) = Some 0"
    and off_add: "off p = Some s \<Longrightarrow> off (d_add M p (fragment_summary_of f)) = Some (s + wt f)"
    and wt_cases: "wt f = 0 \<or> wt f = fr_len f"
    and tgt_off: "off p = Some s \<Longrightarrow> tgt n p = ord_cmp n s"
begin

lemma off_end: "off (fc_start c) = Some s \<Longrightarrow> off (fc_end M c) = Some (s + (case fc_rest c of [] \<Rightarrow> 0 | g # _ \<Rightarrow> wt g))"
  by (auto simp: fc_end_def fc_item_def list_first_def off_add split: list.splits)

lemma off_after: "off p = Some s \<Longrightarrow> off (after fragment_ops M p us) = Some (s + wsum wt us)"
  by (induction us arbitrary: p s) (simp_all add: off_add fragment_ops_def add.assoc)

lemma passes_off: "off p = Some s \<Longrightarrow> passes (tgt n) b p \<longleftrightarrow> s < n \<or> s = n \<and> b = Right"
  by (auto simp: passes_def tgt_off ord_cmp_def)

lemma advance_off:
  assumes "off p = Some s" "s \<le> n" "advance fragment_ops M (passes (tgt n) b) p gs = (us, vs)"
  shows "gs = us @ vs \<and> s + wsum wt us \<le> n \<and> (case vs of [] \<Rightarrow> True | v # _ \<Rightarrow> n \<le> s + wsum wt us + wt v)"
  using assms
proof (induction gs arbitrary: p s us)
  case (Cons g gs)
  have e: "off (d_add M p (summary_of fragment_ops g)) = Some (s + wt g)"
    using off_add [OF Cons.prems(1), of g] by (simp add: fragment_ops_def)
  show ?case
  proof (cases "passes (tgt n) b (d_add M p (summary_of fragment_ops g))")
    case True
    with Cons.prems(3) obtain us' where "advance fragment_ops M (passes (tgt n) b) (d_add M p (summary_of fragment_ops g)) gs = (us', vs)"
        "us = g # us'"
      by (auto simp: Let_def split: prod.splits)
    with Cons.IH [OF e] True passes_off [OF e] show ?thesis by (force simp: add.assoc split: list.splits)
  next
    case False
    with Cons.prems passes_off [OF e, of n b] show ?thesis by (auto simp: Let_def)
  qed
qed simp

text \<open>The rest of the current fragment is carried over and the cursor moves on.\<close>

lemma carry_to_end:
  assumes w: "walking off wt N ct V ts old s st" and rest: "fc_rest (es_cursor st) = g # r"
    and fs: "es_fragment_start st = s + k" "k < fr_len g" "wt g = fr_len g"
  shows "\<exists>st1. push_piece (g\<lparr>fr_len := fr_len g - k, fr_insertion_offset := fr_insertion_offset g + k\<rparr>) (fr_visible g) st = Some st1 \<and>
    es_cursor st1 = es_cursor st \<and> es_insertion_offset st1 = es_insertion_offset st \<and>
    (let st' = st1\<lparr>es_cursor := fc_next M (es_cursor st), es_fragment_start := s + fr_len g\<rparr> in
      walking off wt N ct V ts old (s + fr_len g) st' \<and> whole ct (s + fr_len g) st' = whole ct s st \<and>
      (\<forall>m. marks ct m (s + fr_len g) st' = marks ct m s st))"
proof -
  let ?g = "piece g k (fr_len g - k)" and ?c = "fc_next M (es_cursor st)"
  have w': "frags_ok r" "set r \<subseteq> set old" "s + fr_len g + wsum wt r = N" "\<forall>f \<in> set old. fr_timestamp f \<noteq> ts"
      "\<forall>f \<in> set (es_fragments st). fr_id f < fr_id g" "\<forall>h \<in> set r. fr_id g < fr_id h" "locator_wf (fr_id g)"
      "offsets_below ts (es_insertion_offset st) (es_fragments st)" "edit_inv ct V ts old (cut_rest g k @ r) st"
      "\<forall>f \<in> set (es_fragments st). \<forall>h \<in> set r. fr_id f < fr_id h" "fr_timestamp g \<noteq> ts" "off (fc_start (es_cursor st)) = Some s"
    using w fs by (auto simp: walking_def rest ahead_def frag_less_def frag_ok_def)
  have c: "fc_rest ?c = r" "off (fc_start ?c) = Some (s + fr_len g)"
    using off_end [OF w'(12)] fs(3) by (simp_all add: fc_next_def rest)
  have R: "cut_rest g k @ r = ?g # r" using fs(2) by (simp add: cut_rest_def)
  obtain st1 where st1: "push_piece (carried ?g (fr_len ?g) (fr_id ?g) (fr_deletions ?g) (fr_visible ?g)) (fr_visible ?g) st = Some st1"
      "edit_inv ct V ts old (cut_rest ?g (fr_len ?g) @ r) st1" "es_cursor st1 = es_cursor st"
      "es_fragments st1 = es_fragments st @ [carried ?g (fr_len ?g) (fr_id ?g) (fr_deletions ?g) (fr_visible ?g)]"
      "es_insertion_offset st1 = es_insertion_offset st" "es_fragment_start st1 = es_fragment_start st"
    using edit_inv_carry [of ct V ts old ?g r st "fr_len ?g" "fr_id ?g"] w' fs(2) unfolding R by auto
  have suffix: "g\<lparr>fr_len := fr_len g - k, fr_insertion_offset := fr_insertion_offset g + k\<rparr> = carried ?g (fr_len ?g) (fr_id ?g) (fr_deletions ?g) (fr_visible ?g)"
    by (simp add: piece_def carried_def)
  let ?st = "st1\<lparr>es_cursor := ?c, es_fragment_start := s + fr_len g\<rparr>"
  have A: "ahead (s + fr_len g) ?st = r" using c(1) remaining_0 [OF w'(1)] by (simp add: ahead_def)
  have "walking off wt N ct V ts old (s + fr_len g) ?st"
    unfolding walking_def A using w' c st1 offsets_below_carried [OF w'(8), of ?g] by (auto simp: new_text_def)
  moreover have "whole ct (s + fr_len g) ?st = whole ct s st"
    unfolding whole_def A using carried_text [of "fr_len ?g" ?g st1 st "fr_id ?g" "fr_deletions ?g" ct r] st1(4) fs(1) R
    by (simp add: ahead_def rest new_text_def)
  moreover have "marks ct m (s + fr_len g) ?st = marks ct m s st" for m
    unfolding marks_def A using carried_mtext [of "fr_len ?g" ?g st1 st "fr_id ?g" ct m r] st1(4) fs(1) R
    by (simp add: ahead_def rest)
  ultimately show ?thesis unfolding suffix using st1(1,3,5) by (intro exI [of _ st1]) simp
qed

lemma consume_rest_ok:
  assumes w: "walking off wt N ct V ts old s st"
  shows "\<exists>st' s'. consume_rest M off st = Some st' \<and> walking off wt N ct V ts old s' (st'\<lparr>es_fragment_start := s'\<rparr>) \<and>
    off (fc_end M (es_cursor st)) \<noteq> None \<and> s' \<le> the (off (fc_end M (es_cursor st))) \<and>
    whole ct s' (st'\<lparr>es_fragment_start := s'\<rparr>) = whole ct s st \<and> es_insertion_offset st' = es_insertion_offset st \<and>
    (\<forall>m. marks ct m s' (st'\<lparr>es_fragment_start := s'\<rparr>) = marks ct m s st)"
proof (cases "es_fragment_start st > s")
  case False
  with w have s: "es_fragment_start st = s" "off (fc_start (es_cursor st)) = Some s" by (simp_all add: walking_def)
  have same: "st\<lparr>es_fragment_start := s\<rparr> = st" using s by simp
  show ?thesis using w s off_end [of "es_cursor st" s]
    by (intro exI [of _ st] exI [of _ s], unfold same) (simp add: consume_rest_def Let_def)
next
  case True
  then obtain g r where rest: "fc_rest (es_cursor st) = g # r" using w by (auto simp: walking_def split: list.splits)
  obtain k where fs: "es_fragment_start st = s + k" "0 < k"
    using that [of "es_fragment_start st - s"] True by simp
  have w0: "off (fc_start (es_cursor st)) = Some s" "k \<le> wt g" using walk_start [OF w] fs(1) by (simp_all add: rest)
  have s: "off (fc_start (es_cursor st)) = Some s" "off (fc_end M (es_cursor st)) = Some (s + fr_len g)" "wt g = fr_len g" "k \<le> fr_len g"
    using w0 fs(2) wt_cases [of g] off_end [OF w0(1)] by (simp_all add: rest)
  let ?c = "fc_next M (es_cursor st)"
  show ?thesis
  proof (cases "k < fr_len g")
    case False
    with s have k: "k = fr_len g" by simp
    have r: "frags_ok r" using w by (simp add: walking_def rest)
    have c: "fc_rest ?c = r" "off (fc_start ?c) = Some (s + fr_len g)" using s by (simp_all add: fc_next_def rest)
    have "walking off wt N ct V ts old (s + fr_len g) (st\<lparr>es_cursor := ?c, es_fragment_start := s + fr_len g\<rparr>)"
      using w c k s fs remaining_0 [OF r] by (auto simp: walking_def rest ahead_def new_text_def)
    then show ?thesis using fs s k c remaining_0 [OF r]
      by (auto simp: consume_rest_def Let_def whole_def marks_def ahead_def rest new_text_def intro!: exI [of _ "s + fr_len g"])
  next
    case k: True
    obtain st1 where "push_piece (g\<lparr>fr_len := fr_len g - k, fr_insertion_offset := fr_insertion_offset g + k\<rparr>) (fr_visible g) st = Some st1"
        "es_cursor st1 = es_cursor st" "es_insertion_offset st1 = es_insertion_offset st"
        "walking off wt N ct V ts old (s + fr_len g) (st1\<lparr>es_cursor := ?c, es_fragment_start := s + fr_len g\<rparr>)"
        "whole ct (s + fr_len g) (st1\<lparr>es_cursor := ?c, es_fragment_start := s + fr_len g\<rparr>) = whole ct s st"
        "\<forall>m. marks ct m (s + fr_len g) (st1\<lparr>es_cursor := ?c, es_fragment_start := s + fr_len g\<rparr>) = marks ct m s st"
      using carry_to_end [OF w rest fs(1) k s(3)] unfolding Let_def by blast
    then show ?thesis using fs s k
      by (intro exI [of _ "st1\<lparr>es_cursor := ?c\<rparr>"] exI [of _ "s + fr_len g"])
        (simp add: consume_rest_def Let_def fc_item_def rest list_first_def)
  qed
qed

lemma skip_to_ok:
  assumes w: "walking off wt N ct V ts old s st" and n: "es_fragment_start st \<le> n" "n \<le> N"
  shows "\<exists>st' s'. skip_to M off (tgt n) b n st = Some st' \<and> walking off wt N ct V ts old s' st' \<and>
    es_fragment_start st' \<le> n \<and> (case fc_rest (es_cursor st') of [] \<Rightarrow> es_fragment_start st' = n | g # _ \<Rightarrow> n \<le> s' + wt g) \<and>
    whole ct s' st' = whole ct s st \<and> es_insertion_offset st' = es_insertion_offset st \<and> (\<forall>m. marks ct m s' st' = marks ct m s st)"
proof -
  have s: "off (fc_start (es_cursor st)) = Some s" using w by (simp add: walking_def)
  let ?e = "s + (case fc_rest (es_cursor st) of [] \<Rightarrow> 0 | g # _ \<Rightarrow> wt g)"
  have e: "off (fc_end M (es_cursor st)) = Some ?e" by (rule off_end [OF s])
  show ?thesis
  proof (cases "?e < n")
    case False
    then show ?thesis using w n e by (auto simp: skip_to_def walking_def split: list.splits intro!: exI [of _ st] exI [of _ s])
  next
    case True
    obtain st1 s1 where st1: "consume_rest M off st = Some st1" "walking off wt N ct V ts old s1 (st1\<lparr>es_fragment_start := s1\<rparr>)"
        "s1 \<le> ?e" "whole ct s1 (st1\<lparr>es_fragment_start := s1\<rparr>) = whole ct s st" "es_insertion_offset st1 = es_insertion_offset st"
        "\<forall>m. marks ct m s1 (st1\<lparr>es_fragment_start := s1\<rparr>) = marks ct m s st"
      using consume_rest_ok [OF w] e by auto
    have s1: "off (fc_start (es_cursor st1)) = Some s1" "s1 \<le> n" using st1(2,3) True by (simp_all add: walking_def)
    obtain us vs where adv: "advance fragment_ops M (passes (tgt n) b) (fc_start (es_cursor st1)) (fc_rest (es_cursor st1)) = (us, vs)"
      by fastforce
    note a = advance_off [OF s1 adv]
    let ?c = "\<lparr>fc_rest = vs, fc_start = after fragment_ops M (fc_start (es_cursor st1)) us\<rparr>"
    have slice: "fc_slice M (tgt n) b (es_cursor st1) = Some (us, ?c)"
      using adv s1 tgt_off [OF s1(1), of n] by (simp add: fc_slice_def ord_cmp_def)
    have w1: "frags_ok (us @ vs)" "set (us @ vs) \<subseteq> set old" "s1 + wsum wt (us @ vs) = N" "\<forall>f \<in> set old. fr_timestamp f \<noteq> ts"
        "\<forall>f \<in> set (es_fragments st1). \<forall>g \<in> set (us @ vs). fr_id f < fr_id g"
        "offsets_below ts (es_insertion_offset st1) (es_fragments st1)" "edit_inv ct V ts old (us @ vs) st1"
      using st1(2) a remaining_0 [of "us @ vs"]
      by (auto simp: walking_def ahead_def new_text_def)
    obtain st2 where st2: "push_slice us st1 = Some st2" "edit_inv ct V ts old vs st2" "es_cursor st2 = es_cursor st1"
        "es_fragments st2 = es_fragments st1 @ us" "es_insertion_offset st2 = es_insertion_offset st1"
      using edit_inv_slice [OF w1(7)] w1(2) by auto
    let ?s = "s1 + wsum wt us" and ?st = "st2\<lparr>es_cursor := ?c, es_fragment_start := s1 + wsum wt us\<rparr>"
    have c: "off (fc_start ?c) = Some ?s" using off_after [OF s1(1)] by simp
    have skip: "skip_to M off (tgt n) b n st = Some ?st"
      using True e st1(1) slice st2(1) c by (simp add: skip_to_def Let_def)
    have R: "ahead ?s ?st = vs" using w1(1) by (simp add: ahead_def remaining_0)
    have "walking off wt N ct V ts old ?s ?st"
      unfolding walking_def R using c w1 st2 offsets_below_append_old [OF w1(6), of us]
      by (auto simp: frag_less_def new_text_def)
    moreover have "whole ct ?s ?st = whole ct s1 (st1\<lparr>es_fragment_start := s1\<rparr>)"
      unfolding whole_def R using a w1(1) remaining_0 [of "us @ vs"] by (simp add: ahead_def new_text_def st2(4))
    moreover have "marks ct m ?s ?st = marks ct m s1 (st1\<lparr>es_fragment_start := s1\<rparr>)" for m
      unfolding marks_def R using a w1(1) remaining_0 [of "us @ vs"] by (simp add: ahead_def st2(4))
    moreover have "?s \<le> n" "case vs of [] \<Rightarrow> ?s = n | g # _ \<Rightarrow> n \<le> ?s + wt g"
      using a w1(3) n by (auto split: list.splits)
    ultimately show ?thesis using skip st1(4-6) st2(5) by (intro exI [of _ ?st] exI [of _ ?s]) (simp split: list.splits)
  qed
qed

lemma preserve_prefix_ok:
  assumes w: "walking off wt N ct V ts old s st" and n: "es_fragment_start st \<le> n"
    and g: "case fc_rest (es_cursor st) of [] \<Rightarrow> es_fragment_start st = n | g # _ \<Rightarrow> n \<le> s + wt g"
  shows "\<exists>st'. preserve_prefix off n st = Some st' \<and> walking off wt N ct V ts old s st' \<and> es_fragment_start st' = n \<and>
    es_cursor st' = es_cursor st \<and> whole ct s st' = whole ct s st \<and> es_insertion_offset st' = es_insertion_offset st \<and>
    (\<forall>m. marks ct m s st' = marks ct m s st)"
proof (cases "es_fragment_start st < n")
  case False
  with w n show ?thesis by (simp add: preserve_prefix_def)
next
  case True
  then obtain g r where rest: "fc_rest (es_cursor st) = g # r" using assms(3) by (auto split: list.splits)
  obtain k where fs: "es_fragment_start st = s + k" using w le_Suc_ex unfolding walking_def by blast
  obtain j where n: "n = s + k + j" "0 < j" using True less_imp_add_positive fs by metis
  let ?g = "piece g k (fr_len g - k)" and ?l = "between (new_max_id st) (fr_id g)"
  have s: "off (fc_start (es_cursor st)) = Some s" "wt g = fr_len g" "k + j \<le> fr_len g" "k < fr_len g" "j \<le> fr_len g - k"
    using w True assms(3) wt_cases [of g] fs n by (auto simp: walking_def rest)
  have w': "frags_ok (g # r)" "set (g # r) \<subseteq> set old" "fr_timestamp g \<noteq> ts" "locator_wf (fr_id g)"
      "\<forall>f \<in> set (es_fragments st). fr_id f < fr_id g" "frags_ok (es_fragments st)"
      "offsets_below ts (es_insertion_offset st) (es_fragments st)" "edit_inv ct V ts old (cut_rest g k @ r) st"
    using w fs by (auto simp: walking_def rest ahead_def frag_ok_def edit_inv_def texts_inv_def)
  have R: "cut_rest g k @ r = ?g # r" using s by (simp add: cut_rest_def)
  have lt: "new_max_id st < fr_id g" using max_id_less [OF w'(5,4)] by (simp add: new_max_id_def)
  have l: "\<forall>f \<in> set (es_fragments st). fr_id f < ?l" "?l < fr_id g" "locator_wf ?l" "?l \<le> fr_id g"
    using between_less [OF lt w'(4)] new_id_greater [OF w'(6)] by simp_all
  obtain st1 where st1: "push_piece (carried ?g j ?l (fr_deletions ?g) (fr_visible ?g)) (fr_visible ?g) st = Some st1"
      "edit_inv ct V ts old (cut_rest ?g j @ r) st1" "es_cursor st1 = es_cursor st"
      "es_fragments st1 = es_fragments st @ [carried ?g j ?l (fr_deletions ?g) (fr_visible ?g)]"
      "es_insertion_offset st1 = es_insertion_offset st" "es_fragment_start st1 = es_fragment_start st"
    using edit_inv_carry [of ct V ts old ?g r st j ?l] w'(8) l n s unfolding R by auto
  have prefix: "g\<lparr>fr_len := j, fr_insertion_offset := fr_insertion_offset g + k, fr_id := ?l\<rparr> =
      carried ?g j ?l (fr_deletions ?g) (fr_visible ?g)"
    by (simp add: carried_def piece_def)
  let ?st = "st1\<lparr>es_fragment_start := n\<rparr>"
  have pre: "preserve_prefix off n st = Some ?st"
    using True fs n s st1(1) by (simp add: preserve_prefix_def Let_def fc_item_def rest list_first_def prefix)
  have cut: "cut_rest ?g j = cut_rest g (k + j)" using cut_rest_piece [of k j g] s by simp
  have A: "ahead s ?st = cut_rest g (k + j) @ r" using st1(3) n by (simp add: ahead_def rest add.assoc)
  have "walking off wt N ct V ts old s ?st"
    unfolding walking_def A using w s st1 w' l offsets_below_carried [OF w'(7), of ?g] assms(3) n fs
    by (auto simp: rest cut frag_less_def walking_def new_text_def intro: less_trans)
  moreover have "whole ct s ?st = whole ct s st"
    using carried_text [of j ?g st1 st ?l "fr_deletions ?g" ct r] s st1(4) A R cut fs
    by (simp add: whole_def new_text_def ahead_def rest)
  moreover have "marks ct m s ?st = marks ct m s st" for m
    using carried_mtext [of j ?g st1 st ?l ct m r] s st1(4) A R cut fs
    by (simp add: marks_def ahead_def rest)
  ultimately show ?thesis using pre st1 by simp
qed

lemma insert_text_ok:
  assumes w: "walking off wt N ct V ts old s st" and t: "char_runs 0 t" "\<forall>i < length t. ct ts (es_insertion_offset st + i) = t ! i"
    and p: "t \<noteq> [] \<Longrightarrow> p = vpos ct V (ahead s st)"
  shows "walking off wt N ct V ts old s (insert_text t ts p st) \<and> es_cursor (insert_text t ts p st) = es_cursor st \<and>
    es_fragment_start (insert_text t ts p st) = es_fragment_start st \<and>
    new_text ct (insert_text t ts p st) = new_text ct st @ t \<and>
    es_insertion_offset (insert_text t ts p st) = es_insertion_offset st + length t \<and>
    (\<forall>m. mtext ct m (es_fragments (insert_text t ts p st)) = mtext ct m (es_fragments st) @ marked (m ts [] True) t)"
proof (cases "t = []")
  case True
  with w show ?thesis by (simp add: insert_text_def)
next
  case False
  let ?nxt = "case fc_item (es_cursor st) of None \<Rightarrow> locator_max | Some f \<Rightarrow> fr_id f" and ?R = "ahead s st"
  let ?st = "patch_push p p (new_visible_len st) (new_visible_len st + length t) (push_fragments_for_insertion t ts ?nxt st)"
  have st: "insert_text t ts p st = ?st" using False by (simp add: insert_text_def Let_def)
  have w': "frags_ok (fc_rest (es_cursor st))" "frags_ok (es_fragments st)" "edit_inv ct V ts old ?R st"
      "offsets_below ts (es_insertion_offset st) (es_fragments st)" "\<forall>f \<in> set (fc_rest (es_cursor st)). fr_timestamp f \<noteq> ts"
      "\<forall>f \<in> set (es_fragments st). \<forall>g \<in> set (fc_rest (es_cursor st)). fr_id f < fr_id g"
    using w by (auto simp: walking_def edit_inv_def texts_inv_def)
  have R: "\<exists>g \<in> set (fc_rest (es_cursor st)). fr_id f = fr_id g \<and> fr_timestamp f = fr_timestamp g" if "f \<in> set ?R" for f
    using that by (cases "fc_rest (es_cursor st)") (auto simp: ahead_def dest: cut_rest_ids)
  have fits: "fits_before (es_fragments st) ?R ?nxt"
  proof (cases "fc_rest (es_cursor st)")
    case Nil
    then show ?thesis using w'(2) R by (auto simp: fits_before_def fc_item_def list_first_def frags_ok_def frag_ok_def)
  next
    case (Cons g r)
    then have "\<forall>h \<in> set (g # r). fr_id g \<le> fr_id h" "locator_wf (fr_id g)" "fr_id g < locator_max"
      using w'(1) by (auto simp: frag_less_def frag_ok_def)
    moreover have "?nxt = fr_id g" using Cons by (simp add: fc_item_def list_first_def)
    moreover have "\<forall>f \<in> set ?R. fr_id g \<le> fr_id f" using R Cons calculation(1) by metis
    ultimately show ?thesis using w'(6) Cons unfolding fits_before_def by (simp add: less_imp_le)
  qed
  have below: "offsets_below ts (es_insertion_offset st) (es_fragments st @ ?R)"
    using offsets_below_append_old [OF w'(4), of ?R] R w'(5) by metis
  have fin: "edit_inv ct V ts old ?R ?st" "es_cursor ?st = es_cursor st" "es_fragment_start ?st = es_fragment_start st"
      "fits_before (es_fragments ?st) ?R ?nxt" "offsets_below ts (es_insertion_offset ?st) (es_fragments ?st @ ?R)"
      "es_insertion_offset ?st = es_insertion_offset st + length t" "new_text ct ?st = new_text ct st @ t"
      "\<forall>m. mtext ct m (es_fragments ?st) = mtext ct m (es_fragments st) @ marked (m ts [] True) t"
    using edit_inv_insert [OF w'(3) fits below t p refl refl] False by blast+
  have A: "ahead s ?st = ?R" using fin(2,3) by (simp add: ahead_def)
  have "\<forall>f \<in> set (es_fragments ?st). \<forall>g \<in> set (fc_rest (es_cursor st)). fr_id f < fr_id g"
  proof (cases "fc_rest (es_cursor st)")
    case (Cons g r)
    then have "\<forall>h \<in> set (g # r). fr_id g \<le> fr_id h" "?nxt = fr_id g"
      using w'(1) by (auto simp: frag_less_def fc_item_def list_first_def)
    then show ?thesis using fin(4) Cons unfolding fits_before_def by (metis less_le_trans)
  qed simp
  then have "walking off wt N ct V ts old s ?st"
    unfolding walking_def A using w fin(1-3,5) by (simp add: walking_def offsets_below_def)
  then show ?thesis using fin(2,3,6-8) unfolding st by simp
qed

text \<open>The end of an edit, up to the new indexes.\<close>

lemma carry_rest_ok:
  assumes w: "walking off wt N ct V ts old s st"
  shows "\<exists>st1 st2. consume_rest M off st = Some st1 \<and> push_slice (fc_rest (es_cursor st1)) st1 = Some st2 \<and>
    edit_inv ct V ts old [] st2 \<and> new_text ct st2 = whole ct s st \<and> (\<forall>m. mtext ct m (es_fragments st2) = marks ct m s st)"
proof -
  obtain st1 s1 where st1: "consume_rest M off st = Some st1" "walking off wt N ct V ts old s1 (st1\<lparr>es_fragment_start := s1\<rparr>)"
      "whole ct s1 (st1\<lparr>es_fragment_start := s1\<rparr>) = whole ct s st" "\<forall>m. marks ct m s1 (st1\<lparr>es_fragment_start := s1\<rparr>) = marks ct m s st"
    using consume_rest_ok [OF w] by blast
  let ?r = "fc_rest (es_cursor st1)"
  have r: "frags_ok ?r" "set ?r \<subseteq> set old" "edit_inv ct V ts old (?r @ []) st1"
    using st1(2) remaining_0 [of ?r]
    by (auto simp: walking_def ahead_def new_text_def)
  obtain st2 where st2: "push_slice ?r st1 = Some st2" "edit_inv ct V ts old [] st2" "es_fragments st2 = es_fragments st1 @ ?r"
    using edit_inv_slice [OF r(3,2)] by auto
  have "new_text ct st2 = whole ct s st"
    unfolding st1(3) [symmetric] using remaining_0 [OF r(1)] by (simp add: whole_def ahead_def new_text_def st2(3))
  moreover have "mtext ct m (es_fragments st2) = marks ct m s st" for m
    unfolding st1(4) [rule_format, symmetric] using remaining_0 [OF r(1)] by (simp add: marks_def ahead_def st2(3))
  ultimately show ?thesis using st1(1) st2 by blast
qed

lemma finish_edit_ok:
  assumes w: "walking off wt N ct (sn_visible_text sn) ts (sn_fragments sn) s st" and sn: "index_ok sn"
  shows "\<exists>p sn'. finish_edit M off st sn = Some (p, sn') \<and> edit_result ct ts sn p sn' \<and> sn_visible_text sn' = whole ct s st \<and>
    (\<forall>m. mtext ct m (sn_fragments sn') = marks ct m s st)"
proof -
  let ?old = "set (sn_fragments sn)" and ?V = "sn_visible_text sn"
  obtain st1 st2 where st: "consume_rest M off st = Some st1" "push_slice (fc_rest (es_cursor st1)) st1 = Some st2"
      "edit_inv ct ?V ts (sn_fragments sn) [] st2" "new_text ct st2 = whole ct s st"
      "\<forall>m. mtext ct m (es_fragments st2) = marks ct m s st"
    using carry_rest_ok [OF w] by blast
  obtain removed t sl where t: "tree_edit insertion_summary insertion_dim insertion_key (es_insertions st2) (sn_insertions sn) = Some (removed, t)"
      "wf_tree insertion_summary t" "sorted_keys insertion_key (to_list t)" "set (to_list t) = insertion_of ` set (es_fragments st2)"
      "ts_extend (es_slices st2) (sn_insertion_slices sn) = Some sl" "tm_wf sl"
      "\<forall>x. ts_contains x sl \<longleftrightarrow> x \<in> set (es_slices st2) \<or> ts_contains x (sn_insertion_slices sn)"
      "\<forall>x \<in> set (es_slices st2). \<exists>f \<in> set (es_fragments st2). x = slice_from_fragment ts f"
    using indexes_after [OF st(3) sn] by blast
  let ?sn = "sn\<lparr>sn_fragments := es_fragments st2, sn_insertions := t, sn_visible_text := vtext ct (es_fragments st2),
    sn_deleted_text := dtext ct (es_fragments st2), sn_insertion_slices := sl\<rparr>"
  have i: "texts_inv ct [] st2" "patch_inv ct ?V [] st2" "prov_inv ts ?old [] st2" "undo_inv ct ts (sn_fragments sn) [] st2" using st(3) by (simp_all add: edit_inv_def)
  have "rb_finish (es_ropes st2) = (vtext ct (es_fragments st2), dtext ct (es_fragments st2))"
    using i(1) by (simp add: texts_inv_def rb_finish_def)
  then have fin: "finish_edit M off st sn = Some (es_patch st2, ?sn)"
    using st(1,2) t(1,5) by (simp add: finish_edit_def)
  have "relates (es_patch st2) ?V (new_text ct st2)" "patch_ok (es_patch st2)"
    using i(2) by (auto simp: patch_inv_def upto_def relates_def)
  moreover have "texts_ok ct ?sn" using i(1) by (simp add: texts_ok_def texts_inv_def)
  moreover have "index_ok ?sn" using t by (simp add: index_ok_def)
  moreover have "\<forall>f \<in> set (es_fragments st2). accounted ts ?old {x. ts_contains x sl} f"
    using i(3) t(7) accounted_mono unfolding prov_inv_def by (metis (mono_tags, lifting) mem_Collect_eq subsetI)
  ultimately have "edit_result ct ts sn (es_patch st2) ?sn"
    using t(7,8) i(4) by (simp add: edit_result_def new_text_def undo_inv_def)
  then show ?thesis using fin st(4,5) by (intro exI [of _ "es_patch st2"] exI [of _ ?sn]) (simp add: new_text_def)
qed

text \<open>The start of an edit.\<close>

lemma start_edit_ok:
  assumes sn: "texts_ok ct sn" and fresh: "\<forall>f \<in> set (sn_fragments sn). fr_timestamp f \<noteq> ts"
  shows "\<exists>us c s st. fc_slice M (tgt n) b (fc_new M (sn_fragments sn)) = Some (us, c) \<and> off (fc_start c) = Some s \<and>
    push_slice us (edit_state_init sn c s) = Some st \<and> es_cursor st = c \<and> es_fragment_start st = s \<and> es_insertion_offset st = 0 \<and>
    walking off wt (wsum wt (sn_fragments sn)) ct (sn_visible_text sn) ts (sn_fragments sn) s st \<and>
    s \<le> n \<and> whole ct s st = sn_visible_text sn \<and> (\<forall>m. marks ct m s st = mtext ct m (sn_fragments sn)) \<and>
    fc_start c = after fragment_ops M (d_zero M) us \<and> sn_fragments sn = us @ fc_rest c"
proof -
  let ?fs = "sn_fragments sn"
  have ok: "frags_ok ?fs" "sn_visible_text sn = vtext ct ?fs" "sn_deleted_text sn = dtext ct ?fs" using sn by (simp_all add: texts_ok_def)
  obtain us vs where adv: "advance fragment_ops M (passes (tgt n) b) (d_zero M) ?fs = (us, vs)" by fastforce
  note a = advance_off [OF off_zero _ adv]
  let ?c = "\<lparr>fc_rest = vs, fc_start = after fragment_ops M (d_zero M) us\<rparr>" and ?s = "wsum wt us"
  let ?st = "edit_state_init sn ?c ?s"
  have slice: "fc_slice M (tgt n) b (fc_new M ?fs) = Some (us, ?c)"
    using adv tgt_off [OF off_zero, of n] by (simp add: fc_slice_def fc_new_def ord_cmp_def)
  have c: "off (fc_start ?c) = Some ?s" using off_after [OF off_zero] by simp
  have inv: "edit_inv ct (sn_visible_text sn) ts ?fs (us @ vs) ?st"
    unfolding edit_inv_def
  proof (intro conjI)
    show "texts_inv ct (us @ vs) ?st" using ok a by (simp add: texts_inv_def edit_state_init_def rb_new_def)
    show "patch_inv ct (sn_visible_text sn) (us @ vs) ?st"
      using ok a by (auto simp: patch_inv_def edit_state_init_def upto_def new_text_def gap_def)
    show "index_inv ts (set ?fs) (us @ vs) ?st" using a by (auto simp: index_inv_def edit_state_init_def)
    show "prov_inv ts (set ?fs) (us @ vs) ?st" using a by (auto simp: prov_inv_def edit_state_init_def piece_of_def)
    show "undo_inv ct ts ?fs (us @ vs) ?st" using a by (simp add: undo_inv_def edit_state_init_def)
  qed
  have old: "set us \<subseteq> set ?fs" "set vs \<subseteq> set ?fs" "frags_ok vs" "frags_ok us" "\<forall>f \<in> set us. \<forall>g \<in> set vs. fr_id f < fr_id g"
    using a ok(1) by (auto simp: frag_less_def)
  obtain st where st: "push_slice us ?st = Some st" "edit_inv ct (sn_visible_text sn) ts ?fs vs st" "es_cursor st = ?c"
      "es_fragments st = us" "es_insertion_offset st = 0" "es_fragment_start st = ?s"
    using edit_inv_slice [OF inv old(1)] by (auto simp: edit_state_init_def)
  have R: "ahead ?s st = vs" using old(3) st(3,6) by (simp add: ahead_def remaining_0)
  have "offsets_below ts 0 us" using fresh old(1) by (auto simp: offsets_below_def)
  moreover have "wsum wt us + wsum wt vs = wsum wt ?fs" using a by (metis wsum_simps(3) le0)
  ultimately have "walking off wt (wsum wt ?fs) ct (sn_visible_text sn) ts ?fs ?s st"
    unfolding walking_def R using c st(2-6) old fresh by (auto split: list.splits)
  moreover have "whole ct ?s st = sn_visible_text sn"
    unfolding whole_def R using a ok(2) st(4) by (simp add: new_text_def)
  moreover have "marks ct m ?s st = mtext ct m ?fs" for m unfolding marks_def R using a st(4) by simp
  moreover have "?s \<le> n" "?fs = us @ vs" using a by simp_all
  ultimately show ?thesis using slice c st(1,3,5,6) by (intro exI [of _ us] exI [of _ ?c] exI [of _ ?s] exI [of _ st]) simp
qed

end

end
