(* ===== verification/BaseText.thy ===== *)
theory BaseText
  imports Snapshot
begin

text \<open>
  A new buffer (\<open>Buffer::new_normalized\<close> in \<open>crates/text/src/text.rs\<close>): the loop that cuts the
  base text into fragments ends on UTF-8 text, and the snapshot satisfies its invariant.
\<close>

lemma tree_new_insertions [simp]: "wf_tree insertion_summary (tree_new insertion_summary)" "to_list (tree_new insertion_summary) = []"
  using wf_tree_new by simp_all

lemma base_chunks_ok:
  assumes "char_runs 0 s" "4 \<le> max_len" "q \<le> length s" "prev < locator_max"
    and "wf_tree insertion_summary t" "to_list t = map insertion_of fs" "sorted_keys insertion_key (to_list t)"
    and "frags_ok fs" "\<forall>f \<in> set fs. fr_id f \<le> prev" "offsets_below ts q fs"
    and "\<forall>f \<in> set fs. fr_timestamp f = ts \<and> fr_visible f \<and> fr_deletions f = []"
    and "vtext (\<lambda>_ i. s ! i) fs = take q s"
  shows "\<exists>t' fs'. base_chunks max_len s ts q q prev t fs = Some (t', fs') \<and> wf_tree insertion_summary t' \<and>
    to_list t' = map insertion_of fs' \<and> sorted_keys insertion_key (to_list t') \<and> frags_ok fs' \<and>
    (\<forall>f \<in> set fs'. fr_timestamp f = ts \<and> fr_visible f \<and> fr_deletions f = []) \<and> vtext (\<lambda>_ i. s ! i) fs' = s"
  using assms(3-)
proof (induction "length s - q" arbitrary: q prev t fs rule: less_induct)
  case less
  show ?case
  proof (cases "q < length s")
    case False
    then show ?thesis using less.prems by (subst base_chunks.simps) auto
  next
    case True
    let ?e = "chunk_end max_len s q" and ?id = "between prev locator_max"
    let ?f = "\<lparr>fr_id = ?id, fr_timestamp = ts, fr_insertion_offset = q,
      fr_len = ?e - q, fr_visible = True, fr_deletions = [], fr_max_undos = global_new\<rparr>"
    have e: "q < ?e" "?e \<le> length s" using chunk_end_progress [OF assms(1,2) True] chunk_end_le [of q s] True by auto
    have l: "?id < locator_max" using between_less [OF less.prems(2)] by simp
    obtain t1 where t1: "tree_push insertion_summary t (insertion_of ?f) = Some t1" "wf_tree insertion_summary t1"
        "to_list t1 = to_list t @ [insertion_of ?f]"
      using ins_index.tree_push_ok [OF less.prems(3)] by blast
    have below: "\<forall>f \<in> set fs. fr_timestamp f = ts \<and> fr_insertion_offset f + fr_len f \<le> q \<and> fr_id f < ?id \<and> 0 < fr_len f"
      using less.prems(6-9) between_greater [of prev locator_max]
      by (auto simp: offsets_below_def frags_ok_def frag_ok_def intro: le_less_trans)
    have "sorted_keys insertion_key (to_list t1)"
      using less.prems(5) below by (fastforce simp: t1(3) less.prems(4) insertion_key_of less_insertion_fragment_key_def)
    moreover have "frags_ok (fs @ [?f])"
      using less.prems(6) below l e by (fastforce simp: frag_ok_def frag_less_def cells_def)
    moreover have "offsets_below ts ?e (fs @ [?f])" using below e by (fastforce simp: offsets_below_def)
    moreover have "vtext (\<lambda>_ i. s ! i) (fs @ [?f]) = take ?e s"
    proof -
      have "frag_text (\<lambda>_ i. s ! i) ?f = take (?e - q) (drop q s)"
        using e by (intro nth_equalityI) (auto simp: frag_text_def)
      then show ?thesis using less.prems(10) e take_add [of q "?e - q" s] by simp
    qed
    ultimately obtain t' fs' where
      "base_chunks max_len s ts ?e ?e ?id t1 (fs @ [?f]) = Some (t', fs')" "wf_tree insertion_summary t'"
      "to_list t' = map insertion_of fs'" "sorted_keys insertion_key (to_list t')" "frags_ok fs'"
      "\<forall>f \<in> set fs'. fr_timestamp f = ts \<and> fr_visible f \<and> fr_deletions f = []" "vtext (\<lambda>_ i. s ! i) fs' = s"
      using less.hyps [of ?e ?id t1 "fs @ [?f]"] e l t1 less.prems(4,7,9) below by (force simp: less_imp_le)
    then show ?thesis using True e t1(1) by (subst base_chunks.simps) (auto simp: Let_def)
  qed
qed

text \<open>The undo map of a new buffer holds no count.\<close>

lemma um_new_undone: "um_is_undone e um_new = Some False"
  using um_undo_count_ok [OF um_new_wf(1)] um_new_wf(2) by (simp add: um_is_undone_def top_count_def)

lemma new_normalized_ok:
  assumes "char_runs 0 s"
  shows "\<exists>b. new_normalized r i le s = Some b \<and> sn_visible_text (bf_snapshot b) = s \<and>
    snapshot_ok (- {lamport_new LOCAL}) (bf_snapshot b) \<and>
    (\<forall>f \<in> set (sn_fragments (bf_snapshot b)). fr_timestamp f = lamport_new LOCAL \<and> fr_deletions f = []) \<and>
    sn_undo_map (bf_snapshot b) = um_new"
proof -
  let ?ct = "\<lambda>_ i. s ! i"
  have ok: "snapshot_ok (- {lamport_new LOCAL}) sn"
    if "frags_ok (sn_fragments sn)" "sn_visible_text sn = vtext ?ct (sn_fragments sn)" "sn_deleted_text sn = []"
      "\<forall>f \<in> set (sn_fragments sn). fr_timestamp f = lamport_new LOCAL \<and> fr_visible f \<and> fr_deletions f = []"
      "wf_tree insertion_summary (sn_insertions sn)" "sorted_keys insertion_key (to_list (sn_insertions sn))"
      "to_list (sn_insertions sn) = map insertion_of (sn_fragments sn)" "sn_insertion_slices sn = tm_empty" "sn_undo_map sn = um_new" for sn
  proof -
    have "dtext ?ct (sn_fragments sn) = []" using that(4) by (simp add: dtext_def filter_empty_conv)
    then have "texts_ok ?ct sn" using that(1-3) by (simp add: texts_ok_def)
    moreover have "index_ok sn" using that(5-8) tm_wf_empty(1) by (simp add: index_ok_def)
    moreover have "slices_ok (- {lamport_new LOCAL}) sn" using that(4,8)
      by (auto simp: slices_ok_def lamport_new_def lamport_MIN_def ts_contains_def tm_get_ok [OF tm_wf_empty(1)] tm_wf_empty(2))
    moreover have "visible_ok sn" using that(4,9) um_new_wf(1) by (simp add: visible_ok_def is_visible_def um_new_undone)
    ultimately show ?thesis unfolding snapshot_ok_def by blast
  qed
  show ?thesis
  proof (cases "s = []")
    case True
    then show ?thesis using ok by (simp add: new_normalized_def Let_def)
  next
    case False
    have "4 \<le> MAX_INSERTION_LEN" by (simp add: MAX_INSERTION_LEN_def)
    moreover have "locator_min < locator_max" by (rule locator_min_less) simp
    ultimately obtain t fs where t: "base_chunks MAX_INSERTION_LEN s (lamport_new LOCAL) 0 0 locator_min (tree_new insertion_summary) [] = Some (t, fs)"
        "wf_tree insertion_summary t" "to_list t = map insertion_of fs" "sorted_keys insertion_key (to_list t)" "frags_ok fs"
        "\<forall>f \<in> set fs. fr_timestamp f = lamport_new LOCAL \<and> fr_visible f \<and> fr_deletions f = []" "vtext ?ct fs = s"
      using base_chunks_ok [OF assms, of MAX_INSERTION_LEN 0 locator_min "tree_new insertion_summary" "[]" "lamport_new LOCAL"]
      by (auto simp: offsets_below_def)
    then show ?thesis using False ok by (simp add: new_normalized_def Let_def)
  qed
qed



end
