(* ===== verification/LocalEdit.thy ===== *)
theory LocalEdit
  imports EditWalk BaseText
begin

text \<open>
  Local edits (\<open>apply_local_edit\<close> in \<open>crates/text/src/text.rs\<close>): the walk by offsets in the visible
  text, the deletion of a range, and what a batch of edits does to the text.
\<close>

section \<open>Positions in the visible text\<close>

definition vis_len :: "fragment \<Rightarrow> nat" where
  "vis_len f = (if fr_visible f then fr_len f else 0)"

interpretation local_walk: edit_walk text_dim visible_off vis_len visible_target
  by unfold_locales
    (auto simp: text_dim_def visible_off_def vis_len_def visible_target_def fragment_summary_of_def Let_def)

lemma vis_len_text: "wsum vis_len gs = length (vtext ct gs)"
  by (induction gs) (simp_all add: vis_len_def)

abbreviation local_inv :: "content \<Rightarrow> bytes \<Rightarrow> lamport \<Rightarrow> fragment list \<Rightarrow> nat \<Rightarrow> fragment_text_summary edit_state \<Rightarrow> bool" where
  "local_inv ct V \<equiv> walking visible_off vis_len (length V) ct V"

text \<open>\<open>fragment_start\<close> is where the remaining text starts in the old text.\<close>

lemma local_pos:
  assumes "local_inv ct V ts old s st"
  shows "vpos ct V (ahead s st) = es_fragment_start st" "vtext ct (ahead s st) = drop (es_fragment_start st) V"
    "es_fragment_start st \<le> length V"
proof -
  obtain U where U: "V = U @ vtext ct (ahead s st)"
    using assms unfolding walking_def edit_inv_def patch_inv_def by blast
  have "length (vtext ct (ahead s st)) + es_fragment_start st = length V"
  proof (cases "fc_rest (es_cursor st)")
    case Nil
    then show ?thesis using assms by (simp add: walking_def ahead_def)
  next
    case (Cons g r)
    let ?k = "es_fragment_start st - s"
    have "length (vtext ct (cut_rest g ?k)) = vis_len g - ?k" by (auto simp: cut_rest_def vis_len_def)
    then show ?thesis using walk_start [OF assms] assms Cons vis_len_text [of r ct] by (simp add: walking_def ahead_def)
  qed
  moreover from this U have "length U = es_fragment_start st" using arg_cong [OF U, of length] by simp
  ultimately show "vpos ct V (ahead s st) = es_fragment_start st" "vtext ct (ahead s st) = drop (es_fragment_start st) V"
      "es_fragment_start st \<le> length V"
    using U by (simp_all add: vpos_def)
qed

text \<open>Its offset among all fragments: what is hidden before the cursor counts as well.\<close>

definition full_at :: "fragment_text_summary edit_state \<Rightarrow> nat" where
  "full_at st = es_fragment_start st + ft_deleted (fc_start (es_cursor st))"

lemma local_after:
  "ft_visible (after fragment_ops text_dim p us) + ft_deleted (after fragment_ops text_dim p us) =
   ft_visible p + ft_deleted p + length (mtext ct full_mark us)"
  by (induction us arbitrary: p) (auto simp: text_dim_def fragment_ops_def fragment_summary_of_def Let_def mark_of_def full_mark_def)

lemma local_full:
  assumes w: "local_inv ct V ts old s st" and p: "placed text_dim old (es_cursor st)"
  shows "mtext ct full_mark (ahead s st) = drop (full_at st) (mtext ct full_mark old)" "full_at st \<le> length (mtext ct full_mark old)"
proof -
  obtain us where us: "old = us @ fc_rest (es_cursor st)" "fc_start (es_cursor st) = after fragment_ops text_dim (d_zero text_dim) us"
    using p unfolding placed_def by blast
  let ?k = "es_fragment_start st - s"
  have s: "ft_visible (fc_start (es_cursor st)) = s" "s \<le> es_fragment_start st" using walk_start [OF w] by (simp_all add: visible_off_def)
  have l: "s + ft_deleted (fc_start (es_cursor st)) = length (mtext ct full_mark us)"
    using local_after [of "d_zero text_dim" us ct] s(1) unfolding us(2) [symmetric] by (simp add: text_dim_def)
  have k: "case fc_rest (es_cursor st) of [] \<Rightarrow> ?k = 0 | g # _ \<Rightarrow> ?k \<le> fr_len g"
    using walk_start [OF w] by (auto simp: vis_len_def split: list.splits if_splits)
  then have e: "length (mtext ct full_mark us) + (case fc_rest (es_cursor st) of [] \<Rightarrow> 0 | g # _ \<Rightarrow> min ?k (length (mtext ct full_mark [g]))) = full_at st"
    using l s(2) by (auto simp: full_at_def mark_of_def full_mark_def split: list.splits)
  have "case fc_rest (es_cursor st) of [] \<Rightarrow> True | g # _ \<Rightarrow> ?k \<le> fr_len g" using k by (simp split: list.splits)
  from mtext_ahead [OF us(1) this, of ct full_mark]
  show "mtext ct full_mark (ahead s st) = drop (full_at st) (mtext ct full_mark old)" unfolding e by (simp add: ahead_def)
  show "full_at st \<le> length (mtext ct full_mark old)"
    unfolding e [symmetric] arg_cong [OF us(1), of "mtext ct full_mark"] by (auto split: list.splits)
qed

section \<open>Deleting a range\<close>

text \<open>What is deleted moves, hidden, from the old fragments to the new ones.\<close>

definition eaten :: "content \<Rightarrow> nat \<Rightarrow> 'd edit_state \<Rightarrow> (8 word \<times> bool) list" where
  "eaten ct s st = mtext ct full_mark (es_fragments st) @ hide (mtext ct full_mark (ahead s st))"

lemma delete_local_piece_placed:
  "delete_local_piece ts n st = Some st' \<Longrightarrow> placed text_dim old (es_cursor st) \<Longrightarrow> placed text_dim old (es_cursor st')"
  by (auto simp: delete_local_piece_def Let_def patch_push_def dest!: push_piece_cursor intro: placed_next split: bind_splits if_splits)

lemma delete_local_piece_grows: "delete_local_piece ts n st = Some st' \<Longrightarrow> grows st st'"
  by (auto simp: delete_local_piece_def Let_def patch_push_def grows_def split: bind_splits if_splits
      dest!: push_piece_grows [unfolded grows_def])

lemma delete_piece_hidden:
  assumes w: "local_inv ct V ts old s st" and n: "es_fragment_start st < n"
    and rest: "fc_rest (es_cursor st) = g # r" and v: "\<not> fr_visible g"
  shows "\<exists>st'. delete_local_piece ts n st = Some st' \<and> local_inv ct V ts old s st' \<and> new_text ct st' = new_text ct st \<and>
    es_insertion_offset st' = es_insertion_offset st \<and> es_fragment_start st' = es_fragment_start st \<and>
    fc_rest (es_cursor st') = r \<and> eaten ct s st' = eaten ct s st"
proof -
  let ?c = "fc_next text_dim (es_cursor st)"
  have s: "es_fragment_start st = s" "ft_visible (fc_start (es_cursor st)) = s" "ft_visible (fc_end text_dim (es_cursor st)) = s"
    using walk_start [OF w] v local_walk.off_end [of "es_cursor st" s] by (simp_all add: rest vis_len_def visible_off_def)
  have w': "frags_ok (g # r)" "frag_ok g" "edit_inv ct V ts old (g # r) st" "frags_ok r" "fr_timestamp g \<noteq> ts"
      "\<forall>f \<in> set (es_fragments st). fr_id f < fr_id g" "offsets_below ts (es_insertion_offset st) (es_fragments st)"
    using w s by (auto simp: walking_def rest ahead_def cut_rest_0)
  obtain st1 where st1: "push_piece (carried g (fr_len g) (fr_id g) (fr_deletions g) (fr_visible g)) (fr_visible g) st = Some st1"
      "edit_inv ct V ts old (cut_rest g (fr_len g) @ r) st1" "es_cursor st1 = es_cursor st"
      "es_fragments st1 = es_fragments st @ [carried g (fr_len g) (fr_id g) (fr_deletions g) (fr_visible g)]"
      "es_insertion_offset st1 = es_insertion_offset st" "es_fragment_start st1 = es_fragment_start st"
    using edit_inv_carry [OF w'(3), of "fr_len g" "fr_id g"] w'(2,6) by (auto simp: frag_ok_def)
  let ?st = "st1\<lparr>es_fragment_start := s, es_cursor := ?c\<rparr>"
  have "delete_local_piece ts n st = Some ?st"
    using st1(1) [unfolded carried_all] s n v w'(2)
    by (simp add: delete_local_piece_def Let_def fc_item_def rest list_first_def frag_ok_def min_def)
  moreover have "local_inv ct V ts old s ?st"
    using w w' st1 s v walk_start [OF w] offsets_below_carried [OF w'(7), of g]
    by (auto simp: walking_def rest ahead_def fc_next_def visible_off_def vis_len_def frag_less_def remaining_0
        new_text_def split: list.splits)
  moreover have "eaten ct s ?st = eaten ct s st"
    using st1(4) s v w'(2,4) remaining_0 [of r] by (simp add: eaten_def ahead_def fc_next_def rest cut_rest_0 mark_of_def full_mark_def hide_marked carried_all)
  ultimately show ?thesis using st1(4,5) s v by (simp add: new_text_def fc_next_def rest)
qed

lemma delete_piece_visible:
  assumes w: "local_inv ct V ts old s st" and n: "es_fragment_start st < n"
    and rest: "fc_rest (es_cursor st) = g # r" and v: "fr_visible g"
  shows "\<exists>st' s'. delete_local_piece ts n st = Some st' \<and> local_inv ct V ts old s' st' \<and> new_text ct st' = new_text ct st \<and>
    es_insertion_offset st' = es_insertion_offset st \<and> es_fragment_start st' = min n (s + fr_len g) \<and>
    (s + fr_len g \<le> n \<longrightarrow> fc_rest (es_cursor st') = r) \<and> eaten ct s' st' = eaten ct s st"
proof -
  obtain k where fs: "es_fragment_start st = s + k" using walk_start [OF w] le_Suc_ex by blast
  let ?c = "fc_next text_dim (es_cursor st)" and ?g = "piece g k (fr_len g - k)" and ?l = "between (new_max_id st) (fr_id g)"
  have s: "ft_visible (fc_start (es_cursor st)) = s" "ft_visible (fc_end text_dim (es_cursor st)) = s + fr_len g" "k \<le> fr_len g"
    using walk_start [OF w] v local_walk.off_end [of "es_cursor st" s] fs by (simp_all add: rest vis_len_def visible_off_def)
  have "s + k \<le> min n (s + fr_len g)" "min n (s + fr_len g) - (s + k) \<le> fr_len g - k" using n fs s(3) by auto
  then obtain j where j: "min n (s + fr_len g) = s + k + j" "j \<le> fr_len g - k"
    using that [of "min n (s + fr_len g) - (s + k)"] by simp
  have w': "frags_ok (g # r)" "edit_inv ct V ts old (cut_rest g k @ r) st" "frags_ok r" "fr_timestamp g \<noteq> ts" "locator_wf (fr_id g)"
      "\<forall>f \<in> set (es_fragments st). fr_id f < fr_id g" "offsets_below ts (es_insertion_offset st) (es_fragments st)"
      "frags_ok (es_fragments st)" "vis_len g = fr_len g"
    using w fs v by (auto simp: walking_def rest ahead_def edit_inv_def texts_inv_def frag_ok_def vis_len_def)
  show ?thesis
  proof (cases "j = 0")
    case True
    have e: "s + fr_len g \<le> n" "k = fr_len g" using True j n fs s(3) by (auto simp: min_def split: if_splits)
    let ?st = "st\<lparr>es_cursor := ?c\<rparr>"
    have "delete_local_piece ts n st = Some ?st"
      using s e fs v by (simp add: delete_local_piece_def Let_def fc_item_def rest list_first_def min_def)
    moreover have "local_inv ct V ts old (s + fr_len g) ?st"
      using w w' s e fs
      by (auto simp: walking_def rest ahead_def fc_next_def visible_off_def remaining_0
          new_text_def split: list.splits)
    moreover have "eaten ct (s + fr_len g) ?st = eaten ct s st"
      using e fs remaining_0 [OF w'(3)] by (simp add: eaten_def ahead_def fc_next_def rest)
    ultimately show ?thesis using e fs by (intro exI [of _ ?st] exI [of _ "s + fr_len g"]) (simp add: new_text_def fc_next_def rest)
  next
    case False
    then have R: "cut_rest g k @ r = ?g # r" using j by (simp add: cut_rest_def)
    have lt: "new_max_id st < fr_id g" using max_id_less [OF w'(6,5)] by (simp add: new_max_id_def)
    have l: "\<forall>f \<in> set (es_fragments st). fr_id f < ?l" "?l < fr_id g" "locator_wf ?l" "?l \<le> fr_id g"
      using between_less [OF lt w'(5)] new_id_greater [OF w'(8)] by simp_all
    let ?f = "carried ?g j ?l (fr_deletions g @ [ts]) False"
    have p: "s + k = vpos ct V (?g # r)" using local_pos(1) [OF w] R fs by (simp add: ahead_def rest)
    obtain st1 where st1: "push_piece ?f True ((patch_push (s + k) (s + k + j) (new_visible_len st) (new_visible_len st) st)
          \<lparr>es_slices := es_slices st @ [slice_from_fragment ts ?f]\<rparr>) = Some st1"
        "edit_inv ct V ts old (cut_rest ?g j @ r) st1" "es_cursor st1 = es_cursor st"
        "es_fragments st1 = es_fragments st @ [?f]"
        "es_insertion_offset st1 = es_insertion_offset st" "es_fragment_start st1 = es_fragment_start st"
      using edit_inv_delete [of ct V ts old ?g r st j ?l "s + k" "s + k + j" "new_visible_len st"]
        w'(2) l v False j p unfolding R by auto
    have f: "g\<lparr>fr_len := j, fr_insertion_offset := fr_insertion_offset g + k, fr_id := ?l, fr_deletions := fr_deletions g @ [ts], fr_visible := False\<rparr> = ?f"
      by (simp add: carried_def piece_def)
    have cut: "cut_rest ?g j = cut_rest g (k + j)" using cut_rest_piece [of k j g] j s(3) by simp
    let ?c' = "if s + fr_len g \<le> n then ?c else es_cursor st" and ?s = "if s + fr_len g \<le> n then s + fr_len g else s"
    let ?st = "st1\<lparr>es_fragment_start := s + k + j, es_cursor := ?c'\<rparr>"
    have "delete_local_piece ts n st = Some ?st"
      using st1(1,3) s fs v j False by (simp add: delete_local_piece_def Let_def fc_item_def rest list_first_def f)
    moreover have lr: "\<forall>h \<in> set r. ?l < fr_id h" using w'(1) l(2) by (auto simp: frag_less_def intro: less_trans)
    moreover have "local_inv ct V ts old ?s ?st"
    proof (cases "s + fr_len g \<le> n")
      case True
      then have "k + j = fr_len g" using j s(3) by (simp add: min_def split: if_splits)
      then show ?thesis
        using True lr w w' s st1 fs cut offsets_below_carried [OF w'(7), of ?g]
        by (auto simp: walking_def rest ahead_def fc_next_def visible_off_def remaining_0 frag_less_def
            new_text_def split: list.splits)
    next
      case False
      then show ?thesis
        using lr w w' s st1 fs cut l j offsets_below_carried [OF w'(7), of ?g]
        by (auto simp: walking_def rest ahead_def visible_off_def add.assoc
            new_text_def)
    qed
    moreover have "eaten ct ?s ?st = eaten ct s st"
    proof -
      have A: "ahead ?s ?st = cut_rest ?g j @ r"
        using w'(3) remaining_0 [of r] j fs rest st1(3) cut by (auto simp: ahead_def fc_next_def min_def add.assoc split: if_splits)
      have "mtext ct full_mark (ahead s st) = marked (Some True) (frag_text ct (piece ?g 0 j)) @ mtext ct full_mark (cut_rest ?g j @ r)"
        using mtext_cut [of j ?g full_mark ct] j v R fs by (simp add: ahead_def rest mark_of_def full_mark_def)
      then show ?thesis unfolding eaten_def A using st1(4) by (simp add: mark_of_def full_mark_def hide_marked)
    qed
    ultimately show ?thesis using st1(4,5) j
      by (intro exI [of _ ?st] exI [of _ ?s]) (simp add: new_text_def fc_next_def rest)
  qed
qed

lemma delete_local_ok:
  assumes "local_inv ct V ts old s st" "n \<le> length V" "placed text_dim old (es_cursor st)"
  shows "\<exists>st' s'. delete_local ts n st = Some st' \<and> local_inv ct V ts old s' st' \<and> new_text ct st' = new_text ct st \<and>
    es_insertion_offset st' = es_insertion_offset st \<and> es_fragment_start st' = max n (es_fragment_start st) \<and>
    placed text_dim old (es_cursor st') \<and> eaten ct s' st' = eaten ct s st \<and> grows st st'"
  using assms(1,3)
proof (induction "length (fc_rest (es_cursor st))" arbitrary: st s rule: less_induct)
  case less
  show ?case
  proof (cases "es_fragment_start st < n")
    case False
    then show ?thesis using less.prems by (subst delete_local.simps) (auto simp: max_def)
  next
    case True
    then have "fc_rest (es_cursor st) \<noteq> []"
      using local_pos(2) [OF less.prems(1)] assms(2) by (auto simp: ahead_def)
    then obtain g r where rest: "fc_rest (es_cursor st) = g # r" by (cases "fc_rest (es_cursor st)") auto
    obtain st1 s1 where st1: "delete_local_piece ts n st = Some st1" "local_inv ct V ts old s1 st1" "new_text ct st1 = new_text ct st"
        "es_insertion_offset st1 = es_insertion_offset st" "es_fragment_start st1 \<le> n"
        "es_fragment_start st1 = n \<or> fc_rest (es_cursor st1) = r" "eaten ct s1 st1 = eaten ct s st"
    proof (cases "fr_visible g")
      case True
      from delete_piece_visible [OF less.prems(1) \<open>es_fragment_start st < n\<close> rest this] that show ?thesis
        by (metis min.absorb1 min.cobounded1 nat_le_linear)
    next
      case False
      from delete_piece_hidden [OF less.prems(1) \<open>es_fragment_start st < n\<close> rest this] that show ?thesis
        using \<open>es_fragment_start st < n\<close> by (metis less_imp_le)
    qed
    have p1: "placed text_dim old (es_cursor st1)" by (rule delete_local_piece_placed [OF st1(1) less.prems(2)])
    from st1(6) have "\<exists>st' s'. delete_local ts n st1 = Some st' \<and> local_inv ct V ts old s' st' \<and> new_text ct st' = new_text ct st1 \<and>
      es_insertion_offset st' = es_insertion_offset st1 \<and> es_fragment_start st' = n \<and>
      placed text_dim old (es_cursor st') \<and> eaten ct s' st' = eaten ct s1 st1 \<and> grows st1 st'"
    proof
      assume "es_fragment_start st1 = n"
      then show ?thesis using st1(2) p1 by (subst delete_local.simps) auto
    next
      assume "fc_rest (es_cursor st1) = r"
      then show ?thesis using less.hyps [OF _ st1(2) p1] rest st1(5) by (simp add: max_absorb1)
    qed
    then show ?thesis using True st1(1,3,4,7) grows_trans [OF delete_local_piece_grows [OF st1(1)]]
      by (subst delete_local.simps) (auto simp: max_def)
  qed
qed

section \<open>A batch of edits\<close>

text \<open>The specification: the old text with each range replaced, the ranges being ordered and apart.\<close>

fun spliced :: "bytes \<Rightarrow> nat \<Rightarrow> local_edit list \<Rightarrow> bytes" where
  "spliced V p [] = drop p V"
| "spliced V p (((a, b), t) # es) = take (a - p) (drop p V) @ t @ spliced V b es"

fun edits_ok :: "nat \<Rightarrow> nat \<Rightarrow> local_edit list \<Rightarrow> bool" where
  "edits_ok n p [] \<longleftrightarrow> True"
| "edits_ok n p (((a, b), t) # es) \<longleftrightarrow> p \<le> a \<and> a \<le> b \<and> b \<le> n \<and> char_runs 0 t \<and> edits_ok n b es"

definition normalized :: "local_edit list \<Rightarrow> local_edit list" where
  "normalized es = map (\<lambda>(r, t). (r, normalize_line_endings t)) es"

text \<open>The new text of an edit as one content.\<close>

definition inserted :: "local_edit list \<Rightarrow> bytes" where
  "inserted es = concat (map snd (normalized es))"

lemma local_edit_step_ok:
  assumes w: "local_inv ct V ts old s st" "placed text_dim old (es_cursor st)"
    and ab: "es_fragment_start st \<le> a" "a \<le> b" "b \<le> length V"
    and t: "char_runs 0 t" "\<forall>i < length t. ct ts (es_insertion_offset st + i) = t ! i"
    and F: "F = mtext ct full_mark old"
  shows "\<exists>a' b' st' s'. local_edit_step ts a b t st = Some ((a', b'), st') \<and> local_inv ct V ts old s' st' \<and>
    placed text_dim old (es_cursor st') \<and> es_fragment_start st' = b \<and> full_at st' = b' \<and> full_at st \<le> a' \<and> a' \<le> b' \<and> b' \<le> length F \<and>
    new_text ct st' = new_text ct st @ take (a - es_fragment_start st) (drop (es_fragment_start st) V) @ t \<and>
    mtext ct full_mark (es_fragments st') = mtext ct full_mark (es_fragments st) @
      take (a' - full_at st) (drop (full_at st) F) @ map (\<lambda>x. (x, True)) t @ hide (take (b' - a') (drop a' F)) \<and>
    es_insertion_offset st' = es_insertion_offset st + length t"
proof -
  let ?p = "es_fragment_start st" and ?q = "full_at st"
  obtain st1 s1 where st1: "skip_to text_dim visible_off (visible_target a) Right a st = Some st1" "local_inv ct V ts old s1 st1"
      "es_fragment_start st1 \<le> a"
      "case fc_rest (es_cursor st1) of [] \<Rightarrow> es_fragment_start st1 = a | g # _ \<Rightarrow> a \<le> s1 + vis_len g"
      "whole ct s1 st1 = whole ct s st" "es_insertion_offset st1 = es_insertion_offset st" "\<forall>m. marks ct m s1 st1 = marks ct m s st"
    using local_walk.skip_to_ok [OF w(1) ab(1), of Right] ab(2,3) by auto
  obtain st2 where st2: "preserve_prefix visible_off a st1 = Some st2" "local_inv ct V ts old s1 st2" "es_fragment_start st2 = a"
      "es_cursor st2 = es_cursor st1" "whole ct s1 st2 = whole ct s1 st1" "es_insertion_offset st2 = es_insertion_offset st1"
      "\<forall>m. marks ct m s1 st2 = marks ct m s1 st1"
    using local_walk.preserve_prefix_ok [OF st1(2-4)] by blast
  have p2: "placed text_dim old (es_cursor st2)" using skip_to_placed [OF st1(1) w(2)] st2(4) by simp
  let ?st3 = "insert_text t ts a st2"
  have st3: "local_inv ct V ts old s1 ?st3" "es_fragment_start ?st3 = a" "new_text ct ?st3 = new_text ct st2 @ t"
      "es_insertion_offset ?st3 = es_insertion_offset st + length t" "es_cursor ?st3 = es_cursor st2"
      "\<forall>m. mtext ct m (es_fragments ?st3) = mtext ct m (es_fragments st2) @ marked (m ts [] True) t"
    using local_walk.insert_text_ok [OF st2(2) t(1), of a] t(2) local_pos(1) [OF st2(2)] st2(3,6) st1(6) by simp_all
  obtain st4 s4 where st4: "delete_local ts b ?st3 = Some st4" "local_inv ct V ts old s4 st4" "new_text ct st4 = new_text ct ?st3"
      "es_insertion_offset st4 = es_insertion_offset ?st3" "es_fragment_start st4 = max b (es_fragment_start ?st3)"
      "placed text_dim old (es_cursor st4)" "eaten ct s4 st4 = eaten ct s1 ?st3" "grows ?st3 st4"
    using delete_local_ok [OF st3(1) ab(3)] p2 unfolding st3(5) by blast
  have "new_text ct st2 @ drop a V = (new_text ct st @ take (a - ?p) (drop ?p V)) @ drop a V"
    using st1(5) st2(3,5) local_pos(2) [OF st2(2)] local_pos(2) [OF w(1)] by (simp add: whole_def take_drop_up [OF ab(1)])
  then have n: "new_text ct st2 = new_text ct st @ take (a - ?p) (drop ?p V)" by (simp only: append_same_eq)
  let ?a' = "full_at st2" and ?b' = "full_at st4"
  have fa: "mtext ct full_mark (ahead s st) = drop ?q F" "?q \<le> length F" "mtext ct full_mark (ahead s1 st2) = drop ?a' F" "?a' \<le> length F"
      "mtext ct full_mark (ahead s4 st4) = drop ?b' F" "?b' \<le> length F"
    using local_full [OF w] local_full [OF st2(2) p2] local_full [OF st4(2,6)] by (simp_all add: F)
  have a3: "ahead s1 ?st3 = ahead s1 st2" using st3(2,5) st2(3) by (simp add: ahead_def)
  have m2: "mtext ct full_mark (es_fragments st2) @ drop ?a' F = mtext ct full_mark (es_fragments st) @ drop ?q F"
    using st1(7) [rule_format, of full_mark] st2(7) [rule_format, of full_mark] fa(1,3) by (simp add: marks_def)
  have up: "?q \<le> ?a'"
    using drop_forward [OF m2 grows_mtext [OF grows_trans [OF skip_to_grows [OF st1(1)] preserve_prefix_grows [OF st2(1)]]] fa(2,4)] .
  have "mtext ct full_mark (es_fragments st2) @ drop ?a' F =
      (mtext ct full_mark (es_fragments st) @ take (?a' - ?q) (drop ?q F)) @ drop ?a' F"
    unfolding m2 by (simp add: take_drop_up [OF up])
  then have m2': "mtext ct full_mark (es_fragments st2) = mtext ct full_mark (es_fragments st) @ take (?a' - ?q) (drop ?q F)"
    by (simp only: append_same_eq)
  have m4: "mtext ct full_mark (es_fragments st4) @ drop ?b' (hide F) = mtext ct full_mark (es_fragments ?st3) @ drop ?a' (hide F)"
    using st4(7) fa(3,5) by (simp add: eaten_def a3 hide_def drop_map)
  have up4: "?a' \<le> ?b'" using drop_forward [OF m4 grows_mtext [OF st4(8)]] fa(4,6) by simp
  have "mtext ct full_mark (es_fragments st4) @ drop ?b' (hide F) =
      (mtext ct full_mark (es_fragments ?st3) @ take (?b' - ?a') (drop ?a' (hide F))) @ drop ?b' (hide F)"
    unfolding m4 by (simp add: take_drop_up [OF up4])
  then have "mtext ct full_mark (es_fragments st4) = mtext ct full_mark (es_fragments ?st3) @ hide (take (?b' - ?a') (drop ?a' F))"
    by (simp only: append_same_eq) (simp add: hide_def take_map drop_map)
  moreover have "mtext ct full_mark (es_fragments ?st3) = mtext ct full_mark (es_fragments st2) @ map (\<lambda>x. (x, True)) t"
    using st3(6) by (simp add: full_mark_def marked_def)
  moreover have "local_edit_step ts a b t st = Some ((?a', ?b'), st4)"
    using st1(1) st2(1,3,4) st4(1,5) st3(2) ab(2) by (simp add: local_edit_step_def full_at_def max_absorb1)
  ultimately show ?thesis
    using st4(2-6) st3(2-4) n ab(2) up up4 fa(6) m2' by (intro exI [of _ ?a'] exI [of _ ?b'] exI [of _ st4] exI [of _ s4]) simp
qed

lemma local_edits_ok:
  assumes "local_inv ct V ts old s st" "placed text_dim old (es_cursor st)" "edits_ok (length V) (es_fragment_start st) es"
    and "\<forall>i < length (inserted es). ct ts (es_insertion_offset st + i) = inserted es ! i"
    and F: "F = mtext ct full_mark old"
  shows "\<exists>rs st' s'. local_edits ts es ranges texts st = Some (ranges @ rs, texts @ map snd (normalized es), st') \<and>
    length rs = length es \<and> local_inv ct V ts old s' st' \<and>
    whole ct s' st' = new_text ct st @ spliced V (es_fragment_start st) (normalized es) \<and>
    edits_ok (length F) (full_at st) (zip rs (map snd (normalized es))) \<and>
    marks ct full_mark s' st' = mtext ct full_mark (es_fragments st) @ view_spliced F (full_at st) (zip rs (map snd (normalized es)))"
  using assms(1-4)
proof (induction es arbitrary: s st ranges texts)
  case Nil
  then show ?case using local_pos(2) [OF Nil(1)] local_full(1) [OF Nil(1,2)] by (auto simp: normalized_def whole_def marks_def F)
next
  case (Cons e es)
  obtain a b t where e: "e = ((a, b), t)" by (metis surj_pair)
  let ?t = "normalize_line_endings t"
  have ins: "inserted (e # es) = ?t @ inserted es" by (simp add: inserted_def normalized_def e)
  have ct: "\<forall>i < length ?t. ct ts (es_insertion_offset st + i) = ?t ! i"
    using Cons.prems(4) unfolding ins by (auto simp: nth_append)
  have ab: "es_fragment_start st \<le> a" "a \<le> b" "b \<le> length V" "char_runs 0 ?t"
    using Cons.prems(3) char_runs_normalize by (simp_all add: e)
  obtain a' b' st1 s1 where st1: "local_edit_step ts a b ?t st = Some ((a', b'), st1)" "local_inv ct V ts old s1 st1"
      "placed text_dim old (es_cursor st1)" "es_fragment_start st1 = b" "full_at st1 = b'" "full_at st \<le> a'" "a' \<le> b'" "b' \<le> length F"
      "new_text ct st1 = new_text ct st @ take (a - es_fragment_start st) (drop (es_fragment_start st) V) @ ?t"
      "mtext ct full_mark (es_fragments st1) = mtext ct full_mark (es_fragments st) @
        take (a' - full_at st) (drop (full_at st) F) @ map (\<lambda>x. (x, True)) ?t @ hide (take (b' - a') (drop a' F))"
      "es_insertion_offset st1 = es_insertion_offset st + length ?t"
    using local_edit_step_ok [OF Cons.prems(1,2) ab ct F] by blast
  have ct': "\<forall>i < length (inserted es). ct ts (es_insertion_offset st1 + i) = inserted es ! i"
  proof (intro allI impI)
    fix i assume "i < length (inserted es)"
    then show "ct ts (es_insertion_offset st1 + i) = inserted es ! i"
      using Cons.prems(4) [rule_format, of "length ?t + i"] st1(11) by (simp add: ins add.assoc)
  qed
  have ok: "edits_ok (length V) (es_fragment_start st1) es" using Cons.prems(3) st1(4) by (simp add: e)
  from Cons.IH [OF st1(2,3) ok ct', of "ranges @ [(a', b')]" "texts @ [?t]"] obtain rs st' s' where
    "local_edits ts es (ranges @ [(a', b')]) (texts @ [?t]) st1 = Some (ranges @ (a', b') # rs, texts @ ?t # map snd (normalized es), st')"
    "length rs = length es" "local_inv ct V ts old s' st'" "whole ct s' st' = new_text ct st1 @ spliced V b (normalized es)"
    "edits_ok (length F) b' (zip rs (map snd (normalized es)))"
    "marks ct full_mark s' st' = mtext ct full_mark (es_fragments st1) @ view_spliced F b' (zip rs (map snd (normalized es)))"
    by (auto simp: st1(4,5))
  then show ?case using st1(1,6-10) ab(4)
    by (intro exI [of _ "(a', b') # rs"] exI [of _ st'] exI [of _ s']) (simp add: e normalized_def)
qed

section \<open>The edit of a snapshot\<close>

text \<open>The content of the edit's own insertion is its new text.\<close>

definition extended :: "content \<Rightarrow> lamport \<Rightarrow> bytes \<Rightarrow> content" where
  "extended ct ts u = ct(ts := \<lambda>i. u ! i)"

lemma extended_text: "\<forall>f \<in> set fs. fr_timestamp f \<noteq> ts \<Longrightarrow> vtext (extended ct ts u) fs = vtext ct fs \<and> dtext (extended ct ts u) fs = dtext ct fs"
  by (induction fs) (auto simp: extended_def frag_text_def)

lemma splice_from: "p \<le> p' \<Longrightarrow> edits_ok n p' (e # es) \<Longrightarrow> take (p' - p) (drop p V) @ spliced V p' (normalized (e # es)) = spliced V p (normalized (e # es))"
proof -
  assume p: "p \<le> p'" "edits_ok n p' (e # es)"
  obtain a b t where e: "e = ((a, b), t)" by (metis surj_pair)
  have "take (a - p) (drop p V) = take (p' - p) (drop p V) @ take (a - p') (drop (p' - p) (drop p V))"
    using p take_add [of "p' - p" "a - p'" "drop p V"] by (simp add: e)
  then show "take (p' - p) (drop p V) @ spliced V p' (normalized (e # es)) = spliced V p (normalized (e # es))"
    using p by (simp add: e normalized_def)
qed

lemma edits_ok_from: "p \<le> p' \<Longrightarrow> edits_ok n p' es \<Longrightarrow> edits_ok n p es"
  by (cases "(n, p, es)" rule: edits_ok.cases) auto

lemma view_spliced_start:
  assumes "edits_ok n p es" "es \<noteq> []"
  shows "take p F @ view_spliced F p es = view_spliced F 0 es"
proof -
  obtain a b t es' where e: "es = ((a, b), t) # es'" using assms(2) by (metis neq_Nil_conv surj_pair)
  then show ?thesis using view_spliced_from [of 0 p a F b t es'] assms(1) by simp
qed

lemma apply_local_edit_ok:
  assumes sn: "texts_ok ct0 sn" "index_ok sn" and fresh: "\<forall>f \<in> set (sn_fragments sn). fr_timestamp f \<noteq> ts"
    and es: "edits_ok (length (sn_visible_text sn)) 0 es" "es \<noteq> []"
  shows "\<exists>rs p sn'. apply_local_edit es ts sn =
      Some (\<lparr>eo_timestamp = ts, eo_version = sn_version sn, eo_ranges = rs, eo_new_text = map snd (normalized es)\<rparr>, p, sn') \<and>
    length rs = length es \<and> edit_result (extended ct0 ts (inserted es)) ts sn p sn' \<and>
    sn_visible_text sn' = spliced (sn_visible_text sn) 0 (normalized es) \<and>
    edits_ok (length (view full_mark sn)) 0 (zip rs (map snd (normalized es))) \<and>
    view full_mark sn' = view_spliced (view full_mark sn) 0 (zip rs (map snd (normalized es)))"
proof -
  let ?ct = "extended ct0 ts (inserted es)" and ?V = "sn_visible_text sn" and ?F = "view full_mark sn"
  obtain a b t es' where e: "es = ((a, b), t) # es'" using es(2) by (metis neq_Nil_conv surj_pair)
  have t: "texts_ok ?ct sn" using sn(1) extended_text [OF fresh] by (simp add: texts_ok_def)
  have F: "?F = mtext ?ct full_mark (sn_fragments sn)" by (rule view_text [OF t])
  obtain us c s st where st: "fc_slice text_dim (visible_target a) Right (fc_new text_dim (sn_fragments sn)) = Some (us, c)"
      "visible_off (fc_start c) = Some s" "push_slice us (edit_state_init sn c s) = Some st" "es_fragment_start st = s"
      "es_insertion_offset st = 0" "local_inv ?ct ?V ts (sn_fragments sn) s st" "s \<le> a" "whole ?ct s st = ?V"
      "\<forall>m. marks ?ct m s st = mtext ?ct m (sn_fragments sn)" "es_cursor st = c"
      "fc_start c = after fragment_ops text_dim (d_zero text_dim) us" "sn_fragments sn = us @ fc_rest c"
    using local_walk.start_edit_ok [OF t fresh, of a Right] vis_len_text [of "sn_fragments sn" ?ct] t
    by (auto simp: texts_ok_def)
  have p: "placed text_dim (sn_fragments sn) (es_cursor st)" using st(10-12) unfolding placed_def by blast
  have n: "new_text ?ct st = take s ?V"
    using st(8) local_pos(2,3) [OF st(6)] st(4) unfolding whole_def by (metis append_same_eq append_take_drop_id)
  have m: "mtext ?ct full_mark (es_fragments st) = take (full_at st) ?F"
    using st(9) [rule_format, of full_mark] local_full(1) [OF st(6) p] unfolding marks_def F [symmetric]
    by (metis append_same_eq append_take_drop_id)
  have ok: "edits_ok (length ?V) (es_fragment_start st) es" using es(1) st(4,7) by (simp add: e)
  have "\<forall>i < length (inserted es). ?ct ts (es_insertion_offset st + i) = inserted es ! i" by (simp add: extended_def st(5))
  from local_edits_ok [OF st(6) p ok this F, of "[]" "[]"] obtain rs st' s' where st':
    "local_edits ts es [] [] st = Some (rs, map snd (normalized es), st')" "length rs = length es"
    "local_inv ?ct ?V ts (sn_fragments sn) s' st'" "whole ?ct s' st' = new_text ?ct st @ spliced ?V s (normalized es)"
    "edits_ok (length ?F) (full_at st) (zip rs (map snd (normalized es)))"
    "marks ?ct full_mark s' st' = mtext ?ct full_mark (es_fragments st) @ view_spliced ?F (full_at st) (zip rs (map snd (normalized es)))"
    by (auto simp: st(4))
  obtain q sn' where q: "finish_edit text_dim visible_off st' sn = Some (q, sn')" "edit_result ?ct ts sn q sn'"
      "sn_visible_text sn' = whole ?ct s' st'" "\<forall>m. mtext ?ct m (sn_fragments sn') = marks ?ct m s' st'"
    using local_walk.finish_edit_ok [OF st'(3) sn(2)] by blast
  have "zip rs (map snd (normalized es)) \<noteq> []" using st'(2) es(2) by (auto simp: zip_eq_Nil_iff normalized_def)
  from view_spliced_start [OF st'(5) this, of ?F] have "view full_mark sn' = view_spliced ?F 0 (zip rs (map snd (normalized es)))"
    using view_text [of ?ct sn' full_mark] q(2,4) st'(6) m by (simp add: edit_result_def)
  moreover have "take s ?V @ spliced ?V s (normalized es) = spliced ?V 0 (normalized es)"
    using splice_from [of 0 s "length ?V"] ok st(4) by (simp add: e)
  moreover have "ft_visible (fc_start c) = s" using st(2) by (simp add: visible_off_def)
  ultimately show ?thesis using st(1,3) st'(1,2,4) q n edits_ok_from [OF _ st'(5), of 0]
    by (simp add: apply_local_edit_def e list_first_def)
qed



end
