(* ===== verification/UndoEdit.thy ===== *)
theory UndoEdit
  imports FragmentIds LocalEdit
begin

text \<open>
  Undo and redo (\<open>apply_undo\<close> in \<open>crates/text/src/text.rs\<close>): the counts of the operation enter
  the undo map, and every fragment that one of the edits inserted or deleted gets the visibility the
  map now gives it. The ropes and the published patch follow.
\<close>

section \<open>Definitions\<close>

definition id_visible_dim :: "(locator option \<times> nat, fragment_summary) dim_ops" where
  "id_visible_dim = dims2 id_dim visible_dim"

text \<open>\<open>Some(fragment_id)\<close> as a target; \<open>None\<close> is the least position.\<close>

definition id_target :: "locator \<Rightarrow> locator option \<times> nat \<Rightarrow> ordering" where
  "id_target l p = (case fst p of None \<Rightarrow> Greater | Some m \<Rightarrow> ord_cmp l m)"

definition undo_item ::
  "undo_map \<Rightarrow> lamport \<Rightarrow> (locator option \<times> nat) edit_state \<Rightarrow> (locator option \<times> nat) edit_state option" where
  "undo_item undos timestamp st =
     (case fc_item (es_cursor st) of
       None \<Rightarrow> Some st
     | Some fragment \<Rightarrow> do {
         let fragment_was_visible = fr_visible fragment;
         visible \<leftarrow> is_visible undos fragment;
         let fragment = fragment\<lparr>fr_visible := visible, fr_max_undos := observe (fr_max_undos fragment) timestamp\<rparr>;
         let old_start = snd (fc_start (es_cursor st));
         let new_start = new_visible_len st;
         let st =
           (if fragment_was_visible \<and> \<not> fr_visible fragment
            then patch_push old_start (old_start + fr_len fragment) new_start new_start st
            else if \<not> fragment_was_visible \<and> fr_visible fragment
            then patch_push old_start old_start new_start (new_start + fr_len fragment) st
            else st);
         ropes \<leftarrow> rb_push_fragment fragment fragment_was_visible (es_ropes st);
         Some (st\<lparr>es_ropes := ropes, es_fragments := es_fragments st @ [fragment],
                  es_cursor := fc_next id_visible_dim (es_cursor st)\<rparr>)
       })"

fun undo_fragments ::
  "undo_map \<Rightarrow> lamport \<Rightarrow> locator list \<Rightarrow> (locator option \<times> nat) edit_state
   \<Rightarrow> (locator option \<times> nat) edit_state option" where
  "undo_fragments undos timestamp [] st = Some st"
| "undo_fragments undos timestamp (fragment_id # fragment_ids) st = do {
     (preceding_fragments, c) \<leftarrow> fc_slice id_visible_dim (id_target fragment_id) Left (es_cursor st);
     st \<leftarrow> push_slice preceding_fragments (st\<lparr>es_cursor := c\<rparr>);
     st \<leftarrow> undo_item undos timestamp st;
     undo_fragments undos timestamp fragment_ids st
   }"

definition apply_undo :: "undo_operation \<Rightarrow> snapshot \<Rightarrow> (patch \<times> snapshot) option" where
  "apply_undo undo sn = do {
     undos \<leftarrow> um_insert undo (sn_undo_map sn);
     let sn = sn\<lparr>sn_undo_map := undos\<rparr>;
     fragment_ids \<leftarrow> fragment_ids_for_edits (map fst (uo_counts undo)) sn;
     st \<leftarrow> undo_fragments undos (uo_timestamp undo) fragment_ids
       (edit_state_init sn (fc_new id_visible_dim (sn_fragments sn)) 0);
     st \<leftarrow> push_slice (fc_rest (es_cursor st)) st;
     let (visible_text, deleted_text) = rb_finish (es_ropes st);
     Some (es_patch st, sn\<lparr>sn_fragments := es_fragments st, sn_visible_text := visible_text, sn_deleted_text := deleted_text\<rparr>)
   }"

section \<open>The fragments after an undo\<close>

definition reseen :: "fragment \<Rightarrow> bool \<Rightarrow> global \<Rightarrow> fragment" where
  "reseen f v m = f\<lparr>fr_visible := v, fr_max_undos := m\<rparr>"

definition undone :: "undo_map \<Rightarrow> lamport \<Rightarrow> locator set \<Rightarrow> fragment \<Rightarrow> fragment" where
  "undone undos ts I f =
     (if fr_id f \<in> I then reseen f (is_visible undos f = Some True) (observe (fr_max_undos f) ts) else f)"

lemma is_visible_same:
  assumes "fr_timestamp f = fr_timestamp g" "fr_deletions f = fr_deletions g"
  shows "is_visible undos f = is_visible undos g"
  unfolding is_visible_def assms ..

lemma reseen_simps [simp]:
  "fr_id (reseen f v m) = fr_id f" "fr_timestamp (reseen f v m) = fr_timestamp f" "fr_len (reseen f v m) = fr_len f"
  "fr_insertion_offset (reseen f v m) = fr_insertion_offset f" "fr_deletions (reseen f v m) = fr_deletions f"
  "fr_visible (reseen f v m) = v" "cells (reseen f v m) = cells f" "frag_text ct (reseen f v m) = frag_text ct f"
  "frag_ok (reseen f v m) = frag_ok f" "insertion_of (reseen f v m) = insertion_of f"
  "frag_less (reseen f v m) g = frag_less f g" "frag_less g (reseen f v m) = frag_less g f"
  by (simp_all add: reseen_def cells_def frag_text_def frag_ok_def insertion_of_def frag_less_def)

lemma reseen_visible [simp]: "is_visible undos (reseen f v m) = is_visible undos f"
  by (rule is_visible_same) simp_all

lemma undone_simps [simp]:
  "fr_id (undone undos ts I f) = fr_id f" "fr_timestamp (undone undos ts I f) = fr_timestamp f" "fr_len (undone undos ts I f) = fr_len f"
  "fr_insertion_offset (undone undos ts I f) = fr_insertion_offset f" "fr_deletions (undone undos ts I f) = fr_deletions f"
  "insertion_of (undone undos ts I f) = insertion_of f" "is_visible u (undone undos ts I f) = is_visible u f"
  by (simp_all add: undone_def)

text \<open>One fragment is seen anew: the four ways its bytes move between the ropes.\<close>

lemma reseen_texts:
  assumes t: "texts_inv ct (g # R) st" and p: "patch_inv ct V (g # R) st" and st0: "es_fragments st0 = es_fragments st" "es_ropes st0 = es_ropes st"
    and patch: "es_patch st0 =
      (if fr_visible g \<and> \<not> v then es_patch (patch_push (vpos ct V (g # R)) (vpos ct V (g # R) + fr_len g) (new_visible_len st) (new_visible_len st) st)
       else if \<not> fr_visible g \<and> v then es_patch (patch_push (vpos ct V (g # R)) (vpos ct V (g # R)) (new_visible_len st) (new_visible_len st + fr_len g) st)
       else es_patch st)"
  shows "\<exists>ropes. rb_push_fragment (reseen g v m) (fr_visible g) (es_ropes st0) = Some ropes \<and>
    texts_inv ct R (st0\<lparr>es_ropes := ropes, es_fragments := es_fragments st0 @ [reseen g v m]\<rparr>) \<and>
    patch_inv ct V R (st0\<lparr>es_ropes := ropes, es_fragments := es_fragments st0 @ [reseen g v m]\<rparr>)"
proof -
  let ?x = "if fr_visible g then frag_text ct g else []" and ?y = "if v then frag_text ct g else []"
  obtain ropes where ropes: "rb_push_fragment (reseen g v m) (fr_visible g) (es_ropes st0) = Some ropes"
      "texts_inv ct R (st0\<lparr>es_ropes := ropes, es_fragments := es_fragments st0 @ [reseen g v m]\<rparr>)" (is "texts_inv _ _ ?st")
    using t by (cases "fr_visible g"; cases v)
      (auto simp: texts_inv_def st0 rb_push_fragment_def rb_push_def cursor_slice_text_def frag_ok_def)
  from p obtain U where U: "V = U @ ?x @ vtext ct R"
      "upto V (new_text ct st) (es_patch st) (int (length U)) (int (length (new_text ct st)))"
    unfolding patch_inv_def by auto
  have n: "new_text ct ?st = new_text ct st @ ?y" by (simp add: new_text_def st0)
  have pos: "vpos ct V (g # R) = length U" "new_visible_len st = length (new_text ct st)"
    using U(1) by (auto simp: vpos_def new_visible_len_def new_text_def frags_summary_text [where ct = ct])
  have "upto V (new_text ct st @ ?y) (es_patch ?st) (int (length (U @ ?x))) (int (length (new_text ct st @ ?y)))"
  proof (cases "fr_visible g = v")
    case True
    then have "es_patch ?st = es_patch st" "?x = ?y" using patch by auto
    then show ?thesis using upto_copy [OF U(2) [unfolded U(1)]] U(1) by simp
  next
    case False
    then have "es_patch ?st = push (es_patch st) \<lparr>ed_old = span (int (length U)) (int (length (U @ ?x))),
        ed_new = span (int (length (new_text ct st))) (int (length (new_text ct st @ ?y)))\<rparr>"
      using patch unfolding pos by (auto simp: patch_push_def)
    then show ?thesis using upto_replace [OF U(2) [unfolded U(1)], of ?y] U(1) by simp
  qed
  then have "patch_inv ct V R ?st" unfolding patch_inv_def n using U(1) by (intro exI [of _ "U @ ?x"]) simp
  with ropes show ?thesis by blast
qed

section \<open>The walk by identifier\<close>

lemma id_dim_step:
  "d_add id_visible_dim p (summary_of fragment_ops f) = (Some (fr_id f), snd p + length (vtext ct [f]))"
  by (cases p) (simp add: id_visible_dim_def dims2_def id_dim_def visible_dim_def fragment_ops_def fragment_summary_of_def Let_def)

lemma advance_id:
  "advance fragment_ops id_visible_dim (passes (id_target l) Left) p R = (takeWhile (\<lambda>f. fr_id f < l) R, dropWhile (\<lambda>f. fr_id f < l) R)"
proof (induction R arbitrary: p)
  case (Cons f R)
  have "passes (id_target l) Left (Some (fr_id f), n) \<longleftrightarrow> fr_id f < l" for n
    by (auto simp: passes_def id_target_def ord_cmp_def)
  then show ?case using Cons by (simp add: id_dim_step [where ct = undefined] Let_def)
qed simp

lemma after_id:
  "after fragment_ops id_visible_dim p us = (if us = [] then fst p else Some (fr_id (last us)), snd p + length (vtext ct us))"
  by (induction us arbitrary: p) (simp_all add: id_dim_step [where ct = ct])

definition undoing :: "content \<Rightarrow> bytes \<Rightarrow> undo_map \<Rightarrow> lamport \<Rightarrow> locator set \<Rightarrow> fragment list \<Rightarrow> fragment list
  \<Rightarrow> (locator option \<times> nat) edit_state \<Rightarrow> bool" where
  "undoing ct V undos ts I A R st \<longleftrightarrow>
     es_cursor st = \<lparr>fc_rest = R, fc_start = (if A = [] then None else Some (fr_id (last A)), length (vtext ct A))\<rparr> \<and>
     texts_inv ct R st \<and> patch_inv ct V R st \<and> es_fragments st = map (undone undos ts I) A \<and> V = vtext ct (A @ R)"

lemma texts_inv_cursor [simp]:
  "texts_inv ct R (st\<lparr>es_cursor := c\<rparr>) \<longleftrightarrow> texts_inv ct R st" "patch_inv ct V R (st\<lparr>es_cursor := c\<rparr>) \<longleftrightarrow> patch_inv ct V R st"
  by (simp_all add: texts_inv_def patch_inv_def new_text_def)

lemma undo_skip:
  assumes u: "undoing ct V undos ts I A (us @ vs) st" and us: "\<forall>f \<in> set us. fr_id f \<notin> I"
    and c: "c = \<lparr>fc_rest = vs, fc_start = after fragment_ops id_visible_dim (fc_start (es_cursor st)) us\<rparr>"
  shows "\<exists>st'. push_slice us (st\<lparr>es_cursor := c\<rparr>) = Some st' \<and> undoing ct V undos ts I (A @ us) vs st'"
proof -
  have same: "map (undone undos ts I) us = us" using us by (intro map_idI) (simp add: undone_def)
  have "texts_inv ct (us @ vs) (st\<lparr>es_cursor := c\<rparr>)" "patch_inv ct V (us @ vs) (st\<lparr>es_cursor := c\<rparr>)"
    using u unfolding undoing_def texts_inv_cursor by blast+
  from push_slice_texts [OF this] obtain ropes where
    "push_slice us (st\<lparr>es_cursor := c\<rparr>) = Some (st\<lparr>es_cursor := c, es_ropes := ropes, es_fragments := es_fragments st @ us\<rparr>)"
    "texts_inv ct vs (st\<lparr>es_cursor := c, es_ropes := ropes, es_fragments := es_fragments st @ us\<rparr>)"
    "patch_inv ct V vs (st\<lparr>es_cursor := c, es_ropes := ropes, es_fragments := es_fragments st @ us\<rparr>)"
    by auto
  then show ?thesis using u same by (auto simp: undoing_def c after_id [where ct = ct])
qed

lemma undo_item_ok:
  assumes u: "undoing ct V undos ts I A (g # R) st" and g: "fr_id g \<in> I" "is_visible undos g = Some v"
  shows "\<exists>st'. undo_item undos ts st = Some st' \<and> undoing ct V undos ts I (A @ [g]) R st'"
proof -
  let ?g = "reseen g v (observe (fr_max_undos g) ts)" and ?old = "length (vtext ct A)" and ?new = "new_visible_len st"
  let ?st0 = "if fr_visible g \<and> \<not> v then patch_push ?old (?old + fr_len g) ?new ?new st
    else if \<not> fr_visible g \<and> v then patch_push ?old ?old ?new (?new + fr_len g) st else st"
  have c: "es_cursor st = \<lparr>fc_rest = g # R, fc_start = (if A = [] then None else Some (fr_id (last A)), ?old)\<rparr>"
    using u by (simp add: undoing_def)
  have inv: "texts_inv ct (g # R) st" "patch_inv ct V (g # R) st" using u unfolding undoing_def by blast+
  have pos: "vpos ct V (g # R) = ?old" using u by (simp add: undoing_def vpos_def)
  have same: "es_fragments ?st0 = es_fragments st" "es_ropes ?st0 = es_ropes st" "es_cursor ?st0 = es_cursor st"
    by (simp_all add: patch_push_def)
  have "es_patch ?st0 = (if fr_visible g \<and> \<not> v then es_patch (patch_push (vpos ct V (g # R)) (vpos ct V (g # R) + fr_len g) ?new ?new st)
      else if \<not> fr_visible g \<and> v then es_patch (patch_push (vpos ct V (g # R)) (vpos ct V (g # R)) ?new (?new + fr_len g) st)
      else es_patch st)"
    unfolding pos by simp
  from reseen_texts [OF inv same(1,2) this, of "observe (fr_max_undos g) ts"] obtain ropes where
    r: "rb_push_fragment ?g (fr_visible g) (es_ropes ?st0) = Some ropes"
      "texts_inv ct R (?st0\<lparr>es_ropes := ropes, es_fragments := es_fragments ?st0 @ [?g]\<rparr>)"
      "patch_inv ct V R (?st0\<lparr>es_ropes := ropes, es_fragments := es_fragments ?st0 @ [?g]\<rparr>)"
    by blast
  let ?st = "?st0\<lparr>es_ropes := ropes, es_fragments := es_fragments ?st0 @ [?g], es_cursor := fc_next id_visible_dim (es_cursor st)\<rparr>"
  have "undo_item undos ts st = Some ?st"
    using g(2) r(1) same
    by (cases v; cases "fr_visible g") (simp_all add: undo_item_def c fc_item_def Let_def reseen_def patch_push_def)
  moreover have "undone undos ts I g = ?g" using g by (simp add: undone_def)
  moreover have "fc_next id_visible_dim (es_cursor st) = \<lparr>fc_rest = R, fc_start = (Some (fr_id g), length (vtext ct (A @ [g])))\<rparr>"
    using id_dim_step [of "fc_start (es_cursor st)" g ct] by (simp add: c fc_next_def fc_end_def fc_item_def fragment_ops_def)
  ultimately show ?thesis using u r(2,3) same(1) by (intro exI [of _ ?st]) (simp add: undoing_def)
qed

lemma undo_fragments_ok:
  assumes "undoing ct V undos ts I A R st" "sorted_wrt (<) ids" "set ids \<subseteq> fr_id ` set R"
    and "\<forall>f \<in> set R. fr_id f \<in> I \<longleftrightarrow> fr_id f \<in> set ids" "frags_ok (A @ R)" "\<forall>f \<in> set R. is_visible undos f \<noteq> None"
  shows "\<exists>st' A' R'. undo_fragments undos ts ids st = Some st' \<and> undoing ct V undos ts I A' R' st' \<and> A' @ R' = A @ R \<and>
    (\<forall>f \<in> set R'. fr_id f \<notin> I)"
  using assms
proof (induction ids arbitrary: A R st)
  case (Cons l ids)
  let ?us = "takeWhile (\<lambda>f. fr_id f < l) R" and ?vs = "dropWhile (\<lambda>f. fr_id f < l) R"
  have ids: "sorted_wrt (\<lambda>f g. fr_id f < fr_id g) (A @ R)"
    using Cons.prems(5) unfolding frags_ok_def by (auto simp: frag_less_def intro: sorted_wrt_mono_rel [rotated])
  from Cons.prems(3) obtain g0 where g0: "g0 \<in> set R" "fr_id g0 = l" by auto
  obtain g r where vs: "?vs = g # r" using g0 by (cases ?vs) (auto simp: dropWhile_eq_Nil_conv)
  have R: "R = ?us @ g # r" using vs takeWhile_dropWhile_id [of "\<lambda>f. fr_id f < l" R] by simp
  have "\<not> fr_id g < l" using vs by (metis hd_dropWhile list.distinct(1) list.sel(1))
  moreover have "g0 \<in> set (g # r)" using g0 R set_takeWhileD by (metis Un_iff less_irrefl set_append)
  moreover have sr: "\<forall>h \<in> set r. fr_id g < fr_id h" using ids R by (metis sorted_wrt.simps(2) sorted_wrt_append)
  ultimately have g: "fr_id g = l" using g0(2) by auto
  have below: "\<forall>f \<in> set ?us. fr_id f \<notin> I"
  proof
    fix f assume f: "f \<in> set ?us"
    then have "fr_id f < l" "f \<in> set R" by (auto dest: set_takeWhileD)
    then show "fr_id f \<notin> I" using Cons.prems(2,4) by auto
  qed
  have start: "id_target l (fc_start (es_cursor st)) \<noteq> Less"
  proof (cases "A = []")
    case False
    then have "fr_id (last A) < l" using ids g0 by (auto simp: sorted_wrt_append)
    with False Cons.prems(1) show ?thesis by (auto simp: undoing_def id_target_def ord_cmp_def)
  qed (use Cons.prems(1) in \<open>simp add: undoing_def id_target_def\<close>)
  let ?c = "\<lparr>fc_rest = g # r, fc_start = after fragment_ops id_visible_dim (fc_start (es_cursor st)) ?us\<rparr>"
  have slice: "fc_slice id_visible_dim (id_target l) Left (es_cursor st) = Some (?us, ?c)"
    using Cons.prems(1) start vs by (simp add: fc_slice_def undoing_def advance_id)
  have "undoing ct V undos ts I A (?us @ g # r) st" using Cons.prems(1) R by simp
  from undo_skip [OF this below refl] obtain st1 where
    st1: "push_slice ?us (st\<lparr>es_cursor := ?c\<rparr>) = Some st1" "undoing ct V undos ts I (A @ ?us) (g # r) st1" by blast
  have gI: "fr_id g \<in> I" using Cons.prems(4) g g0 by auto
  have gR: "g \<in> set R" using R by (metis in_set_conv_decomp)
  then obtain v where "is_visible undos g = Some v" using Cons.prems(6) by auto
  from undo_item_ok [OF st1(2) gI this] obtain st2 where
    st2: "undo_item undos ts st1 = Some st2" "undoing ct V undos ts I ((A @ ?us) @ [g]) r st2" by blast
  have rR: "set r \<subseteq> set R" using R by (metis Un_upper2 set_append set_subset_Cons subset_trans)
  have "set ids \<subseteq> fr_id ` set r"
  proof
    fix k assume k: "k \<in> set ids"
    then have "l < k" using Cons.prems(2) by simp
    obtain f where f: "f \<in> set R" "fr_id f = k" using Cons.prems(3) k by auto
    then have "f \<in> set ?us \<or> f \<in> set (g # r)" using R by (metis Un_iff set_append)
    then show "k \<in> fr_id ` set r" using f(2) g \<open>l < k\<close> by (auto dest: set_takeWhileD)
  qed
  moreover have "\<forall>f \<in> set r. fr_id f \<in> I \<longleftrightarrow> fr_id f \<in> set ids"
  proof
    fix f assume f: "f \<in> set r"
    then have "fr_id f \<noteq> l" "f \<in> set R" using sr g rR by auto
    then show "fr_id f \<in> I \<longleftrightarrow> fr_id f \<in> set ids" using Cons.prems(4) by simp
  qed
  moreover have "frags_ok (((A @ ?us) @ [g]) @ r)" using Cons.prems(5) R by (metis append.assoc append_Cons append_Nil)
  moreover have "sorted_wrt (<) ids" "\<forall>f \<in> set r. is_visible undos f \<noteq> None" using Cons.prems(2,6) rR by auto
  ultimately obtain st' A' R' where "undo_fragments undos ts ids st2 = Some st'" "undoing ct V undos ts I A' R' st'"
      "A' @ R' = ((A @ ?us) @ [g]) @ r" "\<forall>f \<in> set R'. fr_id f \<notin> I"
    using Cons.IH [OF st2(2)] by blast
  moreover have "((A @ ?us) @ [g]) @ r = A @ R" using R by (metis append.assoc append_Cons append_Nil)
  ultimately show ?case using slice st1(1) st2(1) by (intro exI [of _ st'] exI [of _ A'] exI [of _ R']) simp
qed auto

section \<open>The snapshot after an undo\<close>

definition undone_in :: "undo_map \<Rightarrow> lamport \<Rightarrow> bool" where
  "undone_in m e \<longleftrightarrow> top_count (\<lambda>_. True) e (set (to_list m)) mod 2 = 1"

abbreviation seen_in :: "undo_map \<Rightarrow> fragment \<Rightarrow> bool" where
  "seen_in m \<equiv> seen_by (undone_in m)"

lemma um_is_undone_in: "um_wf m \<Longrightarrow> um_is_undone e m = Some (undone_in m e)"
  by (simp add: um_is_undone_def um_undo_count_ok undone_in_def)

lemma all_m_total: "all_m (\<lambda>x. Some (P x)) xs = Some (\<forall>x \<in> set xs. P x)"
  by (induction xs) auto

lemma um_visible: "um_wf m \<Longrightarrow> is_visible m f = Some (seen_in m f)"
  by (simp add: is_visible_def um_is_undone_in all_m_total seen_by_def)

text \<open>What an undo leaves of a fragment.\<close>

definition same_piece :: "fragment \<Rightarrow> fragment \<Rightarrow> bool" where
  "same_piece f g \<longleftrightarrow> fr_id f = fr_id g \<and> fr_timestamp f = fr_timestamp g \<and> fr_insertion_offset f = fr_insertion_offset g \<and>
     fr_len f = fr_len g \<and> fr_deletions f = fr_deletions g"

lemma unaffected_seen:
  assumes "fr_timestamp f \<notin> E" "set (fr_deletions f) \<inter> E = {}" "\<forall>e. e \<notin> E \<longrightarrow> undone_in m' e = undone_in m e"
  shows "seen_in m' f = seen_in m f"
  using assms unfolding seen_by_def by (metis disjoint_iff)

lemma seen_undone [simp]: "seen_in u (undone undos ts I f) = seen_in u f"
  by (simp add: seen_by_def)

lemma undone_visible: "is_visible undos f = Some v \<Longrightarrow> fr_visible (undone undos ts I f) = (if fr_id f \<in> I then v else fr_visible f)"
  by (simp add: undone_def)

text \<open>A fragment that no slice of an edit covers was neither inserted nor deleted by it.\<close>

lemma uncovered:
  assumes sn: "slices_ok E sn" and K: "K \<subseteq> E" and f: "f \<in> set (sn_fragments sn)" "0 < fr_len f"
    and I: "I = fr_id ` {f \<in> set (sn_fragments sn). \<exists>s. ts_contains s (sn_insertion_slices sn) \<and> sl_edit_id s \<in> K \<and> in_range s (insertion_of f)}"
    and n: "fr_id f \<notin> I"
  shows "fr_timestamp f \<notin> K" "set (fr_deletions f) \<inter> K = {}"
proof -
  have "e \<notin> K" if e: "e \<in> insert (fr_timestamp f) (set (fr_deletions f))" for e
  proof
    assume k: "e \<in> K"
    then obtain s where s: "ts_contains s (sn_insertion_slices sn)" "covers s e f" using sn K f(1) e unfolding slices_ok_def by blast
    then have "in_range s (insertion_of f)" "sl_edit_id s \<in> K" using f(2) k by (auto simp: covers_def in_range_def insertion_of_def)
    then show False using n f(1) s(1) unfolding I by blast
  qed
  then show "fr_timestamp f \<notin> K" "set (fr_deletions f) \<inter> K = {}" by auto
qed

lemma apply_undo_ok:
  assumes sn: "texts_ok ct sn" "index_ok sn" "slices_ok E sn" "visible_ok sn"
    and u: "op_wf undo" "fresh_op undo (sn_undo_map sn)" "fst ` set (uo_counts undo) \<subseteq> E"
  shows "\<exists>p sn'. apply_undo undo sn = Some (p, sn') \<and> um_insert undo (sn_undo_map sn) = Some (sn_undo_map sn') \<and>
    texts_ok ct sn' \<and> index_ok sn' \<and> slices_ok E sn' \<and> visible_ok sn' \<and>
    relates p (sn_visible_text sn) (sn_visible_text sn') \<and> patch_ok p \<and> sn_version sn' = sn_version sn \<and>
    sn_insertion_slices sn' = sn_insertion_slices sn \<and> list_all2 same_piece (sn_fragments sn') (sn_fragments sn)"
proof -
  let ?fs = "sn_fragments sn" and ?V = "sn_visible_text sn" and ?ts = "uo_timestamp undo" and ?K = "fst ` set (uo_counts undo)"
  have wf: "um_wf (sn_undo_map sn)" using sn(4) by (simp add: visible_ok_def)
  obtain m where m: "um_insert undo (sn_undo_map sn) = Some m" "um_wf m"
      "\<forall>P e. top_count P e (set (to_list m)) =
        max (top_count P e (set (to_list (sn_undo_map sn)))) (if P ?ts then op_count undo e else 0)"
    using um_insert_counts [OF wf u(1,2)] by blast
  have keep: "undone_in m e = undone_in (sn_undo_map sn) e" if "e \<notin> ?K" for e
  proof -
    have "map_of (uo_counts undo) e = None" using that by (simp add: map_of_eq_None_iff)
    then have "op_count undo e = 0" by (simp add: op_count_def)
    then show ?thesis using m(3) by (simp add: undone_in_def)
  qed
  let ?sn = "sn\<lparr>sn_undo_map := m\<rparr>"
  obtain ids where ids: "fragment_ids_for_edits (map fst (uo_counts undo)) ?sn = Some ids" "sorted_wrt (<) ids"
      "set ids = fr_id ` {f \<in> set ?fs. \<exists>s. ts_contains s (sn_insertion_slices sn) \<and> sl_edit_id s \<in> ?K \<and> in_range s (insertion_of f)}"
    using fragment_ids_ok [of ct ?sn "map fst (uo_counts undo)"] sn by (auto simp: texts_ok_def index_ok_def slices_ok_def)
  have ok: "frags_ok ?fs" "?V = vtext ct ?fs" "sn_deleted_text sn = dtext ct ?fs" using sn(1) by (simp_all add: texts_ok_def)
  let ?st = "edit_state_init ?sn (fc_new id_visible_dim ?fs) 0" and ?I = "set ids"
  have "undoing ct ?V m ?ts ?I [] ?fs ?st"
    using ok by (simp add: undoing_def edit_state_init_def fc_new_def id_visible_dim_def dims2_def id_dim_def visible_dim_def
        texts_inv_def patch_inv_def new_text_def rb_new_def upto_def gap_def)
  moreover have "set ids \<subseteq> fr_id ` set ?fs" unfolding ids(3) by auto
  moreover have "frags_ok ([] @ ?fs)" "\<forall>f \<in> set ?fs. is_visible m f \<noteq> None" using ok(1) by (simp_all add: um_visible [OF m(2)])
  ultimately obtain st A R where
    st: "undo_fragments m ?ts ids ?st = Some st" "undoing ct ?V m ?ts ?I A R st" "A @ R = ?fs" "\<forall>f \<in> set R. fr_id f \<notin> ?I"
    using undo_fragments_ok [OF _ ids(2), of ct ?V m ?ts ?I "[]" ?fs ?st] by (metis append_Nil)
  have R: "map (undone m ?ts ?I) R = R" using st(4) by (intro map_idI) (simp add: undone_def)
  obtain ropes where fin: "push_slice R st = Some (st\<lparr>es_ropes := ropes, es_fragments := es_fragments st @ R\<rparr>)"
      "texts_inv ct [] (st\<lparr>es_ropes := ropes, es_fragments := es_fragments st @ R\<rparr>)"
      "patch_inv ct ?V [] (st\<lparr>es_ropes := ropes, es_fragments := es_fragments st @ R\<rparr>)"
    using push_slice_texts [of ct R "[]" st ?V] st(2) unfolding undoing_def by auto
  let ?new = "map (undone m ?ts ?I) ?fs"
  have new: "es_fragments st @ R = ?new" using st(2) R by (simp add: undoing_def flip: st(3))
  let ?sn' = "sn\<lparr>sn_undo_map := m, sn_fragments := ?new, sn_visible_text := vtext ct ?new, sn_deleted_text := dtext ct ?new\<rparr>"
  have "rb_finish ropes = (vtext ct ?new, dtext ct ?new)" "fc_rest (es_cursor st) = R"
    using fin(2) st(2) unfolding new by (auto simp: texts_inv_def rb_finish_def undoing_def)
  then have run: "apply_undo undo sn = Some (es_patch st, ?sn')"
    using m(1) ids(1) st(1) fin(1) unfolding new by (simp add: apply_undo_def)
  have texts: "texts_ok ct ?sn'" using fin(2) new by (simp add: texts_ok_def texts_inv_def)
  have "relates (es_patch st) ?V (vtext ct ?new)" "patch_ok (es_patch st)"
    using fin(3) new by (auto simp: patch_inv_def upto_def relates_def new_text_def)
  moreover have "index_ok ?sn'" using sn(2) by (simp add: index_ok_def image_image)
  moreover have "slices_ok E ?sn'" using sn(3) by (simp add: slices_ok_def covers_def)
  moreover have "fr_visible (undone m ?ts ?I f) = seen_in m f" if f: "f \<in> set ?fs" for f
  proof (cases "fr_id f \<in> ?I")
    case False
    have "0 < fr_len f" using ok(1) f by (auto simp: frags_ok_def frag_ok_def)
    then have "fr_timestamp f \<notin> ?K" "set (fr_deletions f) \<inter> ?K = {}"
      using uncovered [OF sn(3) u(3) f _ ids(3) False] by blast+
    then have "seen_in m f = seen_in (sn_undo_map sn) f" using keep by (intro unaffected_seen [of _ ?K]) auto
    also have "\<dots> = fr_visible f" using sn(4) f um_visible [OF wf] by (simp add: visible_ok_def)
    finally show ?thesis using False by (simp add: undone_visible [OF um_visible [OF m(2)]])
  qed (simp add: undone_visible [OF um_visible [OF m(2)]])
  then have "visible_ok ?sn'" using m(2) by (simp add: visible_ok_def um_visible)
  moreover have "list_all2 same_piece ?new ?fs" by (simp add: list_all2_map1 same_piece_def list_all2_same)
  ultimately show ?thesis using run m(1) texts by (intro exI [of _ "es_patch st"] exI [of _ ?sn']) simp
qed


lemma sample_edit:
  "\<exists>b op p sn. new_normalized 5 1 Unix [97, 98, 99] = Some b \<and>
    apply_local_edit [((1, 2), [120])] (Lamport 2 5) (bf_snapshot b) = Some (op, p, sn) \<and>
    snapshot_ok (insert (Lamport 2 5) (- {lamport_new LOCAL})) sn \<and> sn_undo_map sn = um_new"
proof -
  obtain b where b: "new_normalized 5 1 Unix [97, 98, 99] = Some b" "sn_visible_text (bf_snapshot b) = [97, 98, 99]"
      "snapshot_ok (- {lamport_new LOCAL}) (bf_snapshot b)"
      "\<forall>f \<in> set (sn_fragments (bf_snapshot b)). fr_timestamp f = lamport_new LOCAL \<and> fr_deletions f = []"
      "sn_undo_map (bf_snapshot b) = um_new"
    using new_normalized_ok [of "[97, 98, 99]" 5 1 Unix] by (auto simp: is_char_start_def)
  have f: "fresh_in (Lamport 2 5) (bf_snapshot b)"
    using b(4,5) um_new_undone by (auto simp: fresh_in_def lamport_new_def LOCAL_def lamport_MIN_def)
  obtain ct where ct: "texts_ok ct (bf_snapshot b)" "index_ok (bf_snapshot b)" using b(3) by (auto simp: snapshot_ok_def)
  have "edits_ok (length (sn_visible_text (bf_snapshot b))) 0 [((1, 2), [120])]" by (simp add: b(2) is_char_start_def)
  from apply_local_edit_ok [OF ct _ this] f obtain rs p sn where
    r: "apply_local_edit [((1, 2), [120])] (Lamport 2 5) (bf_snapshot b) = Some (rs, p, sn)"
      "edit_result (extended ct (Lamport 2 5) (inserted [((1, 2), [120])])) (Lamport 2 5) (bf_snapshot b) p sn"
    unfolding fresh_in_def by blast
  show ?thesis using b(1,5) r edit_result_ok [OF r(2) b(3) f] by (auto simp: edit_result_def)
qed


end
