(* ===== verification/RemoteEdit.thy ===== *)
theory RemoteEdit
  imports UndoEdit
begin

text \<open>
  Remote edits (\<open>apply_remote_edit\<close> in \<open>crates/text/src/text.rs\<close>): the walk by offsets among the
  fragments the edit's version has observed. Insertions that the version does not know stay where
  they are, and of what the range covers only what was visible to the version is deleted.
\<close>

section \<open>Definitions\<close>

definition remote_dim :: "global \<Rightarrow> (versioned_full_offset \<times> nat, fragment_summary) dim_ops" where
  "remote_dim version = dims2 (versioned_dim version) visible_dim"

definition full_off :: "versioned_full_offset \<times> nat \<Rightarrow> nat option" where
  "full_off p = full_offset (fst p)"

definition remote_target :: "nat \<Rightarrow> versioned_full_offset \<times> nat \<Rightarrow> ordering" where
  "remote_target n p = offset_target n (fst p)"

text \<open>At the end of a fragment the version knows, its rest is carried over.\<close>

definition end_fragment ::
  "('d, fragment_summary) dim_ops \<Rightarrow> ('d \<Rightarrow> nat option) \<Rightarrow> nat \<Rightarrow> 'd edit_state \<Rightarrow> 'd edit_state option" where
  "end_fragment M off range_start st = do {
     fragment_end \<leftarrow> off (fc_end M (es_cursor st));
     (if fragment_end = range_start \<and> fragment_end > es_fragment_start st then do {
        fragment \<leftarrow> fc_item (es_cursor st);
        start \<leftarrow> off (fc_start (es_cursor st));
        st \<leftarrow> push_piece (fragment\<lparr>fr_len := fragment_end - es_fragment_start st,
            fr_insertion_offset := fr_insertion_offset fragment + (es_fragment_start st - start)\<rparr>)
          (fr_visible fragment) st;
        let c = fc_next M (es_cursor st);
        start \<leftarrow> off (fc_start c);
        Some (st\<lparr>es_cursor := c, es_fragment_start := start\<rparr>)
      }
      else Some st)
   }"

text \<open>Concurrent insertions with a higher timestamp stay in front of the new text.\<close>

partial_function (option) skip_concurrent ::
  "('d, fragment_summary) dim_ops \<Rightarrow> lamport \<Rightarrow> nat \<Rightarrow> 'd edit_state \<Rightarrow> 'd edit_state option" where
  "skip_concurrent M timestamp range_start st =
     (case fc_item (es_cursor st) of
       None \<Rightarrow> Some st
     | Some fragment \<Rightarrow>
         (if es_fragment_start st = range_start \<and> fr_timestamp fragment > timestamp then do {
            ropes \<leftarrow> rb_push_fragment fragment (fr_visible fragment) (es_ropes st);
            skip_concurrent M timestamp range_start
              (st\<lparr>es_ropes := ropes, es_fragments := es_fragments st @ [fragment],
                  es_cursor := fc_next M (es_cursor st)\<rparr>)
          }
          else Some st))"

text \<open>One round of the loop that deletes a range.\<close>

definition delete_remote_piece ::
  "global \<Rightarrow> undo_map \<Rightarrow> lamport \<Rightarrow> nat \<Rightarrow> (versioned_full_offset \<times> nat) edit_state
   \<Rightarrow> (versioned_full_offset \<times> nat) edit_state option" where
  "delete_remote_piece version undos timestamp range_end st = do {
     let c = es_cursor st;
     f \<leftarrow> fc_item c;
     fragment_end \<leftarrow> full_off (fc_end (remote_dim version) c);
     start \<leftarrow> full_off (fc_start c);
     let intersection_end = min range_end fragment_end;
     (intersection, st) \<leftarrow>
       (if observed version (fr_timestamp f) then do {
          let i = f\<lparr>fr_len := intersection_end - es_fragment_start st,
            fr_insertion_offset := fr_insertion_offset f + (es_fragment_start st - start),
            fr_id := between (new_max_id st) (fr_id f)\<rparr>;
          was \<leftarrow> was_visible version undos f;
          Some (if was then
                  let i = i\<lparr>fr_deletions := fr_deletions i @ [timestamp], fr_visible := False\<rparr>
                  in (i, st\<lparr>es_slices := es_slices st @ [slice_from_fragment timestamp i]\<rparr>)
                else (i, st))
        }
        else Some (f, st));
     st \<leftarrow> (if fr_len intersection > 0 then do {
         let st =
           (if fr_visible f \<and> \<not> fr_visible intersection then
              let old_start = snd (fc_start c) + (es_fragment_start st - start); new_start = new_visible_len st
              in patch_push old_start (old_start + fr_len intersection) new_start new_start st
            else st);
         st \<leftarrow> push_piece intersection (fr_visible f) st;
         Some (st\<lparr>es_fragment_start := intersection_end\<rparr>)
       } else Some st);
     Some (if fragment_end \<le> range_end then st\<lparr>es_cursor := fc_next (remote_dim version) c\<rparr> else st)
   }"

partial_function (option) delete_remote ::
  "global \<Rightarrow> undo_map \<Rightarrow> lamport \<Rightarrow> nat \<Rightarrow> (versioned_full_offset \<times> nat) edit_state
   \<Rightarrow> (versioned_full_offset \<times> nat) edit_state option" where
  "delete_remote version undos timestamp range_end st =
     (if es_fragment_start st < range_end then do {
        st \<leftarrow> delete_remote_piece version undos timestamp range_end st;
        delete_remote version undos timestamp range_end st
      }
      else Some st)"

text \<open>One edit. The assertion that \<open>fragment_start\<close> is not past the range can fail.\<close>

definition remote_edit_step ::
  "global \<Rightarrow> undo_map \<Rightarrow> lamport \<Rightarrow> nat \<Rightarrow> nat \<Rightarrow> bytes \<Rightarrow> (versioned_full_offset \<times> nat) edit_state
   \<Rightarrow> (versioned_full_offset \<times> nat) edit_state option" where
  "remote_edit_step version undos timestamp range_start range_end new_str st = do {
     st \<leftarrow> skip_to (remote_dim version) full_off (remote_target range_start) Left range_start st;
     st \<leftarrow> end_fragment (remote_dim version) full_off range_start st;
     st \<leftarrow> skip_concurrent (remote_dim version) timestamp range_start st;
     (if es_fragment_start st > range_start then None
      else do {
        st \<leftarrow> preserve_prefix full_off range_start st;
        start \<leftarrow> full_off (fc_start (es_cursor st));
        let old_start = snd (fc_start (es_cursor st)) +
          (case fc_item (es_cursor st) of
            Some f \<Rightarrow> (if fr_visible f then es_fragment_start st - start else 0)
          | None \<Rightarrow> 0);
        delete_remote version undos timestamp range_end (insert_text new_str timestamp old_start st)
      })
   }"

fun remote_edits ::
  "global \<Rightarrow> undo_map \<Rightarrow> lamport \<Rightarrow> local_edit list \<Rightarrow> (versioned_full_offset \<times> nat) edit_state
   \<Rightarrow> (versioned_full_offset \<times> nat) edit_state option" where
  "remote_edits version undos timestamp [] st = Some st"
| "remote_edits version undos timestamp (((range_start, range_end), new_str) # edits) st = do {
     st \<leftarrow> remote_edit_step version undos timestamp range_start range_end new_str st;
     remote_edits version undos timestamp edits st
   }"

definition apply_remote_edit ::
  "global \<Rightarrow> (nat \<times> nat) list \<Rightarrow> bytes list \<Rightarrow> lamport \<Rightarrow> snapshot \<Rightarrow> (patch option \<times> snapshot) option" where
  "apply_remote_edit version ranges new_str timestamp sn =
     (case ranges of
       [] \<Rightarrow> Some (None, sn)
     | first_range # _ \<Rightarrow> do {
         (new_fragments, c) \<leftarrow>
           fc_slice (remote_dim version) (remote_target (fst first_range)) Left (fc_new (remote_dim version) (sn_fragments sn));
         start \<leftarrow> full_off (fc_start c);
         st \<leftarrow> push_slice new_fragments (edit_state_init sn c start);
         st \<leftarrow> remote_edits version (sn_undo_map sn) timestamp (zip ranges new_str) st;
         (p, sn') \<leftarrow> finish_edit (remote_dim version) full_off st sn;
         Some (Some p, sn')
       })"

section \<open>Offsets among what a version has observed\<close>

lemma val_new [simp]: "val global_new i = 0"
  by (simp add: global_new_def)

lemma observed_all_insertion:
  "observed_all v (observe global_new t) \<longleftrightarrow> observed v t"
proof -
  have "global_get (observe global_new t) r = (if r = lamport_replica t then lamport_value t else 0)" for r
    by (simp add: observe_get) (simp add: global_get_eq)
  then show ?thesis
    by (simp add: observed_all_get [OF wf_observe [OF wf_new]] observed_def)
qed

lemma observed_any_insertion: "\<not> observed v t \<Longrightarrow> \<not> observed_any v (observe global_new t)"
proof
  assume n: "\<not> observed v t" and "observed_any v (observe global_new t)"
  then obtain i where i: "i < length (g_values v)" "i < length (g_values (observe global_new t))"
      "g_values (observe global_new t) ! i > 0" "g_values v ! i \<ge> g_values (observe global_new t) ! i"
    by (auto simp: observed_any_def list_ex_length)
  then have "val (observe global_new t) i > 0" "val (observe global_new t) i \<le> val v i"
    by (simp_all add: nth_default_nth)
  moreover from this have "i = unat (lamport_replica t)" by (simp add: val_observe split: if_splits)
  ultimately have "lamport_value t \<le> global_get v (lamport_replica t)" by (simp add: val_observe global_get_eq)
  then show False using n by (simp add: observed_def)
qed

definition seen_len :: "global \<Rightarrow> fragment \<Rightarrow> nat" where
  "seen_len version f = (if observed version (fr_timestamp f) then fr_len f else 0)"

lemma versioned_step:
  "versioned_add v (Offset s) (fragment_summary_of f) = Offset (s + seen_len v f)"
  using observed_all_insertion [of v "fr_timestamp f"] observed_any_insertion [of v "fr_timestamp f"]
  by (simp add: fragment_summary_of_def Let_def seen_len_def)

interpretation remote_walk: edit_walk "remote_dim v" full_off "seen_len v" remote_target for v
proof unfold_locales
  fix p s f
  assume "full_off p = Some s"
  then show "full_off (d_add (remote_dim v) p (fragment_summary_of f)) = Some (s + seen_len v f)"
    using versioned_step [of v s f]
    by (cases p; cases "fst p") (simp_all add: full_off_def remote_dim_def dims2_def versioned_dim_def)
next
  fix p s n
  assume "full_off p = Some s"
  then show "remote_target n p = ord_cmp n s"
    by (cases "fst p") (simp_all add: full_off_def remote_target_def)
qed (simp_all add: full_off_def remote_dim_def dims2_def versioned_dim_def seen_len_def)

lemma remote_after: "snd (after fragment_ops (remote_dim v) p us) = snd p + length (vtext ct us)"
  by (induction us arbitrary: p)
    (auto simp: remote_dim_def dims2_def visible_dim_def fragment_ops_def fragment_summary_of_def Let_def split: prod.split)

section \<open>Where a remote edit stands\<close>

text \<open>
  A fragment is never left entirely consumed before the cursor, and the old visible text is that
  of the old fragments, so that the second half of the position is an offset in it.
\<close>

definition remote_inv ::
  "content \<Rightarrow> bytes \<Rightarrow> global \<Rightarrow> lamport \<Rightarrow> fragment list \<Rightarrow> nat \<Rightarrow> (versioned_full_offset \<times> nat) edit_state \<Rightarrow> bool" where
  "remote_inv ct V v ts old s st \<longleftrightarrow>
     walking full_off (seen_len v) (wsum (seen_len v) old) ct V ts old s st \<and> placed (remote_dim v) old (es_cursor st) \<and>
     V = vtext ct old \<and>
     (case fc_rest (es_cursor st) of [] \<Rightarrow> True | g # _ \<Rightarrow> es_fragment_start st = s \<or> es_fragment_start st < s + seen_len v g)"

lemma remote_invD:
  assumes "remote_inv ct V v ts old s st"
  shows "walking full_off (seen_len v) (wsum (seen_len v) old) ct V ts old s st" "placed (remote_dim v) old (es_cursor st)"
    "V = vtext ct old"
  using assms unfolding remote_inv_def by blast+

definition old_pos :: "nat \<Rightarrow> (versioned_full_offset \<times> nat) edit_state \<Rightarrow> nat" where
  "old_pos s st = snd (fc_start (es_cursor st)) +
     (case fc_item (es_cursor st) of Some f \<Rightarrow> (if fr_visible f then es_fragment_start st - s else 0) | None \<Rightarrow> 0)"

lemma seen_len_le: "seen_len v g \<le> fr_len g"
  by (simp add: seen_len_def)

lemma remote_pos:
  assumes "remote_inv ct V v ts old s st"
  shows "vpos ct V (ahead s st) = old_pos s st"
proof -
  obtain us where us: "old = us @ fc_rest (es_cursor st)" "fc_start (es_cursor st) = after fragment_ops (remote_dim v) (d_zero (remote_dim v)) us"
    using assms unfolding remote_inv_def placed_def by blast
  have p: "snd (fc_start (es_cursor st)) = length (vtext ct us)"
    using us(2) remote_after [of v "d_zero (remote_dim v)" us ct] by (simp add: remote_dim_def dims2_def visible_dim_def)
  note w = remote_invD(1) [OF assms] and V = remote_invD(3) [OF assms]
  show ?thesis
  proof (cases "fc_rest (es_cursor st)")
    case Nil
    then show ?thesis using V us p by (simp add: vpos_def ahead_def old_pos_def fc_item_def list_first_def)
  next
    case (Cons g r)
    let ?k = "es_fragment_start st - s"
    have "?k \<le> fr_len g" using walk_start [OF w] Cons seen_len_le [of v g] by (simp, linarith)
    then have "length (vtext ct (cut_rest g ?k)) + (if fr_visible g then ?k else 0) = length (vtext ct [g])"
      by (auto simp: cut_rest_def)
    then show ?thesis using V us p Cons
      by (auto simp: vpos_def ahead_def old_pos_def fc_item_def list_first_def split: if_splits)
  qed
qed

text \<open>A mark that is given to just the fragments the version has observed.\<close>

definition sees :: "global \<Rightarrow> lamport \<Rightarrow> mark \<Rightarrow> bool" where
  "sees v ts m \<longleftrightarrow> (\<forall>t ds b. t \<noteq> ts \<longrightarrow> (m t ds b = None \<longleftrightarrow> \<not> observed v t))"

lemma length_sees: "sees v ts m \<Longrightarrow> \<forall>f \<in> set us. fr_timestamp f \<noteq> ts \<Longrightarrow> length (mtext ct m us) = wsum (seen_len v) us"
proof (induction us)
  case (Cons f us)
  have "(mark_of m f = None) = (\<not> observed v (fr_timestamp f))" using Cons.prems by (simp add: sees_def mark_of_def)
  then have "length (marked (mark_of m f) (frag_text ct f)) = seen_len v f"
    by (cases "mark_of m f") (auto simp: seen_len_def)
  then show ?case using Cons by simp
qed simp

lemma remote_ahead:
  assumes "remote_inv ct V v ts old s st" "sees v ts m"
  shows "mtext ct m (ahead s st) = drop (es_fragment_start st) (mtext ct m old)" "length (mtext ct m old) = wsum (seen_len v) old"
proof -
  obtain us where us: "old = us @ fc_rest (es_cursor st)" using assms(1) unfolding remote_inv_def placed_def by blast
  note w = remote_invD(1) [OF assms(1)]
  then have ts: "\<forall>f \<in> set old. fr_timestamp f \<noteq> ts" "s + wsum (seen_len v) (fc_rest (es_cursor st)) = wsum (seen_len v) old"
    by (simp_all add: walking_def)
  have s: "length (mtext ct m us) = s"
    using length_sees [OF assms(2), of us ct] us ts by (simp add: ball_Un)
  show "length (mtext ct m old) = wsum (seen_len v) old" using length_sees [OF assms(2) ts(1)] .
  let ?k = "es_fragment_start st - s"
  have k: "case fc_rest (es_cursor st) of [] \<Rightarrow> ?k = 0 | g # _ \<Rightarrow> ?k \<le> fr_len g \<and> min ?k (length (mtext ct m [g])) = ?k"
  proof (cases "fc_rest (es_cursor st)")
    case (Cons g r)
    then have "fr_timestamp g \<noteq> ts" "?k \<le> seen_len v g" using walk_start [OF w] ts us by auto
    then show ?thesis using length_sees [OF assms(2), of "[g]" ct] seen_len_le [of v g] Cons by simp
  qed (use walk_start [OF w] in simp)
  have "case fc_rest (es_cursor st) of [] \<Rightarrow> True | g # _ \<Rightarrow> ?k \<le> fr_len g" using k by (simp split: list.splits)
  from mtext_ahead [OF us this, of ct m] k s walk_start [OF w]
  show "mtext ct m (ahead s st) = drop (es_fragment_start st) (mtext ct m old)"
    by (simp add: ahead_def split: list.splits)
qed

section \<open>The steps before the range\<close>

definition ready :: "global \<Rightarrow> nat \<Rightarrow> nat \<Rightarrow> 'd edit_state \<Rightarrow> bool" where
  "ready v n s st \<longleftrightarrow> es_fragment_start st \<le> n \<and>
     (case fc_rest (es_cursor st) of [] \<Rightarrow> es_fragment_start st = n | g # _ \<Rightarrow> es_fragment_start st = n \<or> n < s + seen_len v g)"

lemma remote_start:
  assumes "remote_inv ct V v ts old s st"
  shows "full_off (fc_start (es_cursor st)) = Some s"
    "full_off (fc_end (remote_dim v) (es_cursor st)) = Some (s + (case fc_rest (es_cursor st) of [] \<Rightarrow> 0 | g # _ \<Rightarrow> seen_len v g))"
proof -
  show "full_off (fc_start (es_cursor st)) = Some s" using remote_invD(1) [OF assms] by (simp add: walking_def)
  then show "full_off (fc_end (remote_dim v) (es_cursor st)) = Some (s + (case fc_rest (es_cursor st) of [] \<Rightarrow> 0 | g # _ \<Rightarrow> seen_len v g))"
    by (rule remote_walk.off_end)
qed

lemma remote_skip_to:
  assumes r: "remote_inv ct V v ts old s st" and n: "es_fragment_start st \<le> n" "n \<le> wsum (seen_len v) old"
  shows "\<exists>st' s'. skip_to (remote_dim v) full_off (remote_target n) Left n st = Some st' \<and> remote_inv ct V v ts old s' st' \<and>
    es_fragment_start st' \<le> n \<and> (case fc_rest (es_cursor st') of [] \<Rightarrow> es_fragment_start st' = n | g # _ \<Rightarrow> n \<le> s' + seen_len v g) \<and>
    whole ct s' st' = whole ct s st \<and> es_insertion_offset st' = es_insertion_offset st \<and> (\<forall>m. marks ct m s' st' = marks ct m s st)"
proof -
  note w = remote_invD(1,2) [OF r]
  obtain st' s' where st': "skip_to (remote_dim v) full_off (remote_target n) Left n st = Some st'"
      "walking full_off (seen_len v) (wsum (seen_len v) old) ct V ts old s' st'"
      "es_fragment_start st' \<le> n" "case fc_rest (es_cursor st') of [] \<Rightarrow> es_fragment_start st' = n | g # _ \<Rightarrow> n \<le> s' + seen_len v g"
      "whole ct s' st' = whole ct s st" "es_insertion_offset st' = es_insertion_offset st" "\<forall>m. marks ct m s' st' = marks ct m s st"
    using remote_walk.skip_to_ok [OF w(1) n, of Left] by blast
  note p = skip_to_placed [OF st'(1) w(2)]
  have s': "full_off (fc_start (es_cursor st')) = Some s'" using st'(2) by (simp add: walking_def)
  have "remote_inv ct V v ts old s' st'"
  proof (cases "st' = st")
    case True
    then have "s' = s" using s' w(1) by (simp add: walking_def)
    then show ?thesis using r True by simp
  next
    case False
    then have "es_fragment_start st' = s'" using p s' by simp
    then show ?thesis using r st'(2) p by (simp add: remote_inv_def split: list.splits)
  qed
  then show ?thesis using st' by blast
qed

lemma end_fragment_ok:
  assumes r: "remote_inv ct V v ts old s st" and n: "es_fragment_start st \<le> n"
    and g: "case fc_rest (es_cursor st) of [] \<Rightarrow> es_fragment_start st = n | g # _ \<Rightarrow> n \<le> s + seen_len v g"
  shows "\<exists>st' s'. end_fragment (remote_dim v) full_off n st = Some st' \<and> remote_inv ct V v ts old s' st' \<and> ready v n s' st' \<and>
    whole ct s' st' = whole ct s st \<and> es_insertion_offset st' = es_insertion_offset st \<and> (\<forall>m. marks ct m s' st' = marks ct m s st)"
proof (cases "\<exists>g r. fc_rest (es_cursor st) = g # r \<and> s + seen_len v g = n \<and> es_fragment_start st < n")
  case False
  have "end_fragment (remote_dim v) full_off n st = Some st"
    using False remote_start(2) [OF r] g n by (auto simp: end_fragment_def split: list.splits)
  moreover have "ready v n s st" using False g n by (auto simp: ready_def split: list.splits)
  ultimately show ?thesis using r by blast
next
  case True
  then obtain g r' where rest: "fc_rest (es_cursor st) = g # r'" "s + seen_len v g = n" "es_fragment_start st < n" by blast
  note w = remote_invD(1,2) [OF r]
  obtain k where k: "es_fragment_start st = s + k" using walk_start [OF w(1)] le_Suc_ex by blast
  have len: "k < fr_len g" "seen_len v g = fr_len g" using rest(2,3) k by (auto simp: seen_len_def split: if_splits)
  obtain st1 where st1: "push_piece (g\<lparr>fr_len := fr_len g - k, fr_insertion_offset := fr_insertion_offset g + k\<rparr>) (fr_visible g) st = Some st1"
      "es_cursor st1 = es_cursor st" "es_insertion_offset st1 = es_insertion_offset st"
      "walking full_off (seen_len v) (wsum (seen_len v) old) ct V ts old n (st1\<lparr>es_cursor := fc_next (remote_dim v) (es_cursor st), es_fragment_start := n\<rparr>)"
      "whole ct n (st1\<lparr>es_cursor := fc_next (remote_dim v) (es_cursor st), es_fragment_start := n\<rparr>) = whole ct s st"
      "\<forall>m. marks ct m n (st1\<lparr>es_cursor := fc_next (remote_dim v) (es_cursor st), es_fragment_start := n\<rparr>) = marks ct m s st"
    using remote_walk.carry_to_end [OF w(1) rest(1) k len] rest(2) len(2) unfolding Let_def by auto
  let ?st = "st1\<lparr>es_cursor := fc_next (remote_dim v) (es_cursor st), es_fragment_start := n\<rparr>"
  have e: "full_off (fc_start (fc_next (remote_dim v) (es_cursor st))) = Some n"
    using remote_start(2) [OF r] rest by (simp add: fc_next_def)
  have "end_fragment (remote_dim v) full_off n st = Some ?st"
    using rest(2) st1(1,2) remote_start [OF r] rest k len e
    by (auto simp: end_fragment_def fc_item_def list_first_def)
  moreover have "remote_inv ct V v ts old n ?st"
    using r st1(4) placed_next [OF w(2)] by (simp add: remote_inv_def split: list.splits)
  moreover have "ready v n n ?st" by (simp add: ready_def split: list.splits)
  ultimately show ?thesis using st1(3,5,6) by (intro exI [of _ ?st] exI [of _ n]) simp
qed

text \<open>A fragment that is skipped is pushed whole, with no entry for the index.\<close>

lemma push_whole: "0 < fr_len g \<Longrightarrow> rb_push_fragment g (fr_visible g) b = rb_append (fs_text (frags_summary [g])) b"
  by (cases "fr_visible g")
    (auto simp: rb_push_fragment_def rb_append_def rb_push_def cursor_slice_text_def frags_summary_text [where ct = undefined]
      split: option.split bind_splits)

lemma skip_concurrent_ok:
  assumes "remote_inv ct V v ts old s st" "ready v n s st"
    and causal: "\<forall>f \<in> set old. observed v (fr_timestamp f) \<longrightarrow> fr_timestamp f < ts"
  shows "\<exists>st' s'. skip_concurrent (remote_dim v) ts n st = Some st' \<and> remote_inv ct V v ts old s' st' \<and> ready v n s' st' \<and>
    whole ct s' st' = whole ct s st \<and> es_insertion_offset st' = es_insertion_offset st \<and> (\<forall>m. marks ct m s' st' = marks ct m s st)"
  using assms(1,2)
proof (induction "length (fc_rest (es_cursor st))" arbitrary: st s rule: less_induct)
  case less
  show ?case
  proof (cases "\<exists>g r. fc_rest (es_cursor st) = g # r \<and> es_fragment_start st = n \<and> ts < fr_timestamp g")
    case False
    then show ?thesis using less.prems
      by (subst skip_concurrent.simps) (auto simp: fc_item_def list_first_def split: list.splits)
  next
    case True
    then obtain g r where g: "fc_rest (es_cursor st) = g # r" "es_fragment_start st = n" "ts < fr_timestamp g" by blast
    note w = remote_invD [OF less.prems(1)]
    have gold: "g \<in> set old" using w(1) g(1) by (simp add: walking_def)
    then have len: "seen_len v g = 0" using causal g(3) by (auto simp: seen_len_def)
    then have s: "es_fragment_start st = s" using walk_start [OF w(1)] g(1) by simp
    have w': "frags_ok (g # r)" "frag_ok g" "edit_inv ct V ts old ([g] @ r) st" "0 < fr_len g"
      using w(1) s g(1) by (auto simp: walking_def ahead_def cut_rest_0 frag_ok_def)
    obtain st1 where st1: "push_slice [g] st = Some st1" "edit_inv ct V ts old r st1" "es_cursor st1 = es_cursor st"
        "es_fragments st1 = es_fragments st @ [g]" "es_insertion_offset st1 = es_insertion_offset st" "es_fragment_start st1 = es_fragment_start st"
      using edit_inv_slice [OF w'(3)] gold by auto
    then obtain ropes where ropes: "rb_push_fragment g (fr_visible g) (es_ropes st) = Some ropes"
        "st1 = st\<lparr>es_ropes := ropes, es_fragments := es_fragments st @ [g]\<rparr>"
      unfolding push_whole [OF w'(4)] push_slice_def by (auto split: bind_splits)
    let ?st = "st1\<lparr>es_cursor := fc_next (remote_dim v) (es_cursor st)\<rparr>"
    have c: "fc_rest (es_cursor ?st) = r" "full_off (fc_start (es_cursor ?st)) = Some s"
      using remote_start [OF less.prems(1)] g(1) len by (simp_all add: fc_next_def)
    have A: "ahead s ?st = r" "ahead s st = g # r"
      using c(1) s st1(6) g(1) w'(1,2) remaining_0 [of r] by (simp_all add: ahead_def cut_rest_0)
    have "walking full_off (seen_len v) (wsum (seen_len v) old) ct V ts old s ?st"
      unfolding walking_def A using w(1) c st1(2-6) s len g(1) w'(1) offsets_below_append_old [of ts "es_insertion_offset st" "es_fragments st" "[g]"]
      by (auto simp: walking_def frag_less_def split: list.splits)
    then have inv: "remote_inv ct V v ts old s ?st"
      using w(2,3) placed_next [of "remote_dim v" old "es_cursor st"] s st1(6) by (simp add: remote_inv_def split: list.splits)
    have "ready v n s ?st" using g(2) st1(6) by (simp add: ready_def split: list.splits)
    moreover have "length (fc_rest (es_cursor ?st)) < length (fc_rest (es_cursor st))" using c(1) g(1) by simp
    ultimately obtain st' s' where st': "skip_concurrent (remote_dim v) ts n ?st = Some st'" "remote_inv ct V v ts old s' st'" "ready v n s' st'"
        "whole ct s' st' = whole ct s ?st" "es_insertion_offset st' = es_insertion_offset ?st" "\<forall>m. marks ct m s' st' = marks ct m s ?st"
      using less.hyps inv by blast
    have "skip_concurrent (remote_dim v) ts n st = Some st'"
      using st'(1) ropes g by (subst skip_concurrent.simps) (simp add: fc_item_def list_first_def)
    moreover have "whole ct s ?st = whole ct s st" unfolding whole_def A using st1(4) by (simp add: new_text_def)
    moreover have "marks ct m s ?st = marks ct m s st" for m unfolding marks_def A using st1(4) by simp
    ultimately show ?thesis using st' st1(5) by (intro exI [of _ st'] exI [of _ s']) simp
  qed
qed

lemma remote_prefix:
  assumes r: "remote_inv ct V v ts old s st" and n: "ready v n s st"
  shows "\<exists>st'. preserve_prefix full_off n st = Some st' \<and> remote_inv ct V v ts old s st' \<and> es_fragment_start st' = n \<and>
    whole ct s st' = whole ct s st \<and> es_insertion_offset st' = es_insertion_offset st \<and> (\<forall>m. marks ct m s st' = marks ct m s st)"
proof -
  note w = remote_invD [OF r]
  have n': "es_fragment_start st \<le> n" "case fc_rest (es_cursor st) of [] \<Rightarrow> es_fragment_start st = n | g # _ \<Rightarrow> n \<le> s + seen_len v g"
    using n walk_start [OF w(1)] by (auto simp: ready_def split: list.splits)
  obtain st' where st': "preserve_prefix full_off n st = Some st'" "walking full_off (seen_len v) (wsum (seen_len v) old) ct V ts old s st'"
      "es_fragment_start st' = n" "es_cursor st' = es_cursor st" "whole ct s st' = whole ct s st"
      "es_insertion_offset st' = es_insertion_offset st" "\<forall>m. marks ct m s st' = marks ct m s st"
    using remote_walk.preserve_prefix_ok [OF w(1) n'] by blast
  have "remote_inv ct V v ts old s st'"
    using r n st'(2-4) by (auto simp: remote_inv_def ready_def split: list.splits)
  then show ?thesis using st' by blast
qed

section \<open>Deleting what the version saw\<close>

definition was_seen :: "global \<Rightarrow> undo_map \<Rightarrow> lamport \<Rightarrow> lamport list \<Rightarrow> bool" where
  "was_seen v undos t ds \<longleftrightarrow> um_was_undone t v undos = Some False \<and>
     (\<forall>d \<in> set ds. observed v d \<longrightarrow> um_was_undone d v undos = Some True)"

lemma was_visible_ok:
  assumes "um_wf undos" "observed v (fr_timestamp f)"
  shows "was_visible v undos f = Some (was_seen v undos (fr_timestamp f) (fr_deletions f))"
proof -
  let ?u = "\<lambda>e. top_count (observed v) e (set (to_list undos)) mod 2 = 1"
  have "(\<lambda>d. if \<not> observed v d then Some True else um_was_undone d v undos) = (\<lambda>d. Some (observed v d \<longrightarrow> ?u d))"
    using um_was_undone_ok [OF assms(1)] by auto
  then show ?thesis
    using assms(2) um_was_undone_ok [OF assms(1), of "fr_timestamp f" v]
    by (simp add: was_visible_def was_seen_def all_m_total um_was_undone_ok [OF assms(1)])
qed

text \<open>What the version sees: its own fragments, and of them as marked those that it and the edit leave visible.\<close>

definition version_mark :: "global \<Rightarrow> undo_map \<Rightarrow> lamport \<Rightarrow> mark" where
  "version_mark v undos ts t ds b =
     (if t = ts then Some True
      else if observed v t then Some (ts \<notin> set ds \<and> was_seen v undos t ds) else None)"

text \<open>What others see: the fragments the version does not know.\<close>

definition other_mark :: "global \<Rightarrow> lamport \<Rightarrow> mark" where
  "other_mark v ts t ds b = (if t = ts \<or> observed v t then None else Some b)"

lemma sees_version_mark: "sees v ts (version_mark v undos ts)"
  by (simp add: sees_def version_mark_def)

text \<open>The three ways a known piece is carried over.\<close>

lemma edit_inv_remote:
  assumes inv: "edit_inv ct V ts old (g # R) st" and k: "0 < k" "k \<le> fr_len g"
    and l: "\<forall>f \<in> set (es_fragments st). fr_id f < l" "l \<le> fr_id g" "k < fr_len g \<Longrightarrow> l < fr_id g" "locator_wf l"
    and p: "fr_visible g \<Longrightarrow> p = vpos ct V (g # R)"
    and f: "f = carried g k l (if was then fr_deletions g @ [ts] else fr_deletions g) (fr_visible g \<and> \<not> was)"
    and st1: "st1 = (if was then st\<lparr>es_slices := es_slices st @ [slice_from_fragment ts f]\<rparr> else st)"
    and st2: "st2 = (if fr_visible g \<and> \<not> fr_visible f then patch_push p (p + k) (new_visible_len st1) (new_visible_len st1) st1 else st1)"
  shows "\<exists>st'. push_piece f (fr_visible g) st2 = Some st' \<and>
    edit_inv ct V ts old (cut_rest g k @ R) st' \<and> es_cursor st' = es_cursor st \<and> es_fragments st' = es_fragments st @ [f] \<and>
    es_insertion_offset st' = es_insertion_offset st \<and> es_fragment_start st' = es_fragment_start st"
proof (cases was)
  case False
  then show ?thesis using edit_inv_carry [OF inv k l] unfolding st2 st1 f by auto
next
  case was: True
  show ?thesis
  proof (cases "fr_visible g")
    case True
    have "st2 = (patch_push p (p + k) (new_visible_len st) (new_visible_len st) st)
        \<lparr>es_slices := es_slices st @ [slice_from_fragment ts (carried g k l (fr_deletions g @ [ts]) False)]\<rparr>"
      using was True by (simp add: st2 st1 f patch_push_def new_visible_len_def)
    then show ?thesis using edit_inv_delete [OF inv k True l p [OF True] refl refl] was True by (simp add: f)
  next
    case False
    then show ?thesis using edit_inv_delete_hidden [OF inv k False l] was by (simp add: st2 st1 f)
  qed
qed

text \<open>A fragment unknown to the version is kept as it is.\<close>

lemma delete_piece_unknown:
  assumes r: "remote_inv ct V v ts old s st" and n: "es_fragment_start st < n"
    and rest: "fc_rest (es_cursor st) = g # gs" and g: "\<not> observed v (fr_timestamp g)"
  shows "\<exists>st'. delete_remote_piece v undos ts n st = Some st' \<and> remote_inv ct V v ts old s st' \<and>
    es_insertion_offset st' = es_insertion_offset st \<and> es_fragment_start st' = es_fragment_start st \<and> fc_rest (es_cursor st') = gs \<and>
    mtext ct (version_mark v undos ts) (es_fragments st') = mtext ct (version_mark v undos ts) (es_fragments st) \<and>
    (\<forall>m. marks ct m s st' = marks ct m s st)"
proof -
  note w = remote_invD [OF r]
  let ?c = "fc_next (remote_dim v) (es_cursor st)"
  have len: "seen_len v g = 0" using g by (simp add: seen_len_def)
  then have s: "es_fragment_start st = s" using walk_start [OF w(1)] rest by simp
  have w': "frags_ok (g # gs)" "frag_ok g" "edit_inv ct V ts old (g # gs) st" "fr_timestamp g \<noteq> ts" "set (g # gs) \<subseteq> set old"
      "\<forall>f \<in> set (es_fragments st). fr_id f < fr_id g" "offsets_below ts (es_insertion_offset st) (es_fragments st)"
    using w(1) s rest by (auto simp: walking_def ahead_def cut_rest_0)
  obtain st1 where st1: "push_piece (carried g (fr_len g) (fr_id g) (fr_deletions g) (fr_visible g)) (fr_visible g) st = Some st1"
      "edit_inv ct V ts old (cut_rest g (fr_len g) @ gs) st1" "es_cursor st1 = es_cursor st"
      "es_fragments st1 = es_fragments st @ [carried g (fr_len g) (fr_id g) (fr_deletions g) (fr_visible g)]"
      "es_insertion_offset st1 = es_insertion_offset st" "es_fragment_start st1 = es_fragment_start st"
    using edit_inv_carry [OF w'(3), of "fr_len g" "fr_id g"] w'(2,6) by (auto simp: frag_ok_def)
  let ?st = "st1\<lparr>es_fragment_start := s, es_cursor := ?c\<rparr>"
  have st: "delete_remote_piece v undos ts n st = Some ?st"
    using st1(1) [unfolded carried_all] remote_start [OF r] s n g len w'(2)
    by (simp add: delete_remote_piece_def Let_def fc_item_def rest list_first_def frag_ok_def min_def)
  have c: "fc_rest ?c = gs" "full_off (fc_start ?c) = Some s"
    using remote_start [OF r] rest len by (simp_all add: fc_next_def)
  have A: "ahead s ?st = gs" "ahead s st = g # gs"
    using c(1) s rest w'(1,2) remaining_0 [of gs] by (simp_all add: ahead_def cut_rest_0)
  have "walking full_off (seen_len v) (wsum (seen_len v) old) ct V ts old s ?st"
    unfolding walking_def A using w(1) w' c st1(2-6) s len rest offsets_below_append_old [OF w'(7), of "[g]"]
    by (auto simp: walking_def frag_less_def carried_all split: list.splits)
  then have "remote_inv ct V v ts old s ?st"
    using w(2,3) placed_next [of "remote_dim v" old "es_cursor st"] by (simp add: remote_inv_def split: list.splits)
  moreover have "marks ct m s ?st = marks ct m s st" for m unfolding marks_def A using st1(4) by (simp add: carried_all)
  moreover have "version_mark v undos ts (fr_timestamp g) (fr_deletions g) (fr_visible g) = None"
    using g w'(4) by (simp add: version_mark_def)
  ultimately show ?thesis using st st1(4,5) s c(1) by (intro exI [of _ ?st]) simp
qed

lemma delete_known_step:
  assumes item: "fc_item (es_cursor st) = Some g" "observed v (fr_timestamp g)" "was_visible v undos g = Some was"
    and pos: "full_off (fc_end (remote_dim v) (es_cursor st)) = Some e" "full_off (fc_start (es_cursor st)) = Some s"
      "min n e = es_fragment_start st + j" "0 < j"
    and f: "f = (if was then g\<lparr>fr_len := j, fr_insertion_offset := fr_insertion_offset g + (es_fragment_start st - s),
          fr_id := between (new_max_id st) (fr_id g), fr_deletions := fr_deletions g @ [ts], fr_visible := False\<rparr>
        else g\<lparr>fr_len := j, fr_insertion_offset := fr_insertion_offset g + (es_fragment_start st - s),
          fr_id := between (new_max_id st) (fr_id g)\<rparr>)"
    and st1: "st1 = (if was then st\<lparr>es_slices := es_slices st @ [slice_from_fragment ts f]\<rparr> else st)"
    and st2: "st2 = (if fr_visible g \<and> \<not> fr_visible f then patch_push (old_pos s st) (old_pos s st + j) (new_visible_len st1) (new_visible_len st1) st1 else st1)"
    and push: "push_piece f (fr_visible g) st2 = Some st3" "es_cursor st3 = es_cursor st"
  shows "delete_remote_piece v undos ts n st = Some (st3\<lparr>es_fragment_start := min n e,
    es_cursor := if e \<le> n then fc_next (remote_dim v) (es_cursor st) else es_cursor st\<rparr>)"
proof -
  have p: "fr_visible g \<Longrightarrow> old_pos s st = snd (fc_start (es_cursor st)) + (es_fragment_start st - s)"
    using item(1) by (simp add: old_pos_def)
  have same: "st3\<lparr>es_fragment_start := m, es_cursor := es_cursor st\<rparr> = st3\<lparr>es_fragment_start := m\<rparr>" for m
    using push(2) by simp
  show ?thesis
    using push(1) item pos p unfolding st2 st1 f
    by (cases was; cases "fr_visible g"; cases "e \<le> n") (simp_all add: delete_remote_piece_def Let_def same)
qed

text \<open>A piece of a known fragment is carried over, deleted if the version saw it.\<close>

lemma delete_piece_known:
  assumes r: "remote_inv ct V v ts old s st" and n: "es_fragment_start st < n" and undos: "um_wf undos"
    and rest: "fc_rest (es_cursor st) = g # gs" and g: "observed v (fr_timestamp g)"
  shows "\<exists>st' s'. delete_remote_piece v undos ts n st = Some st' \<and> remote_inv ct V v ts old s' st' \<and>
    es_insertion_offset st' = es_insertion_offset st \<and> es_fragment_start st' = min n (s + fr_len g) \<and>
    (s + fr_len g \<le> n \<longrightarrow> fc_rest (es_cursor st') = gs) \<and>
    mtext ct (version_mark v undos ts) (es_fragments st') @ hide (mtext ct (version_mark v undos ts) (ahead s' st')) =
      mtext ct (version_mark v undos ts) (es_fragments st) @ hide (mtext ct (version_mark v undos ts) (ahead s st)) \<and>
    marks ct (other_mark v ts) s' st' = marks ct (other_mark v ts) s st"
proof -
  note w = remote_invD [OF r]
  have len: "seen_len v g = fr_len g" using g by (simp add: seen_len_def)
  obtain k where fs: "es_fragment_start st = s + k" using walk_start [OF w(1)] le_Suc_ex by blast
  let ?c = "fc_next (remote_dim v) (es_cursor st)" and ?g = "piece g k (fr_len g - k)" and ?l = "between (new_max_id st) (fr_id g)"
  have w': "frags_ok (g # gs)" "edit_inv ct V ts old (cut_rest g k @ gs) st" "frags_ok gs" "fr_timestamp g \<noteq> ts" "locator_wf (fr_id g)"
      "\<forall>f \<in> set (es_fragments st). fr_id f < fr_id g" "offsets_below ts (es_insertion_offset st) (es_fragments st)"
      "frags_ok (es_fragments st)" "0 < fr_len g"
    using w(1) fs by (auto simp: walking_def rest ahead_def edit_inv_def texts_inv_def frag_ok_def)
  have k: "k < fr_len g" using r w'(9) fs len rest by (auto simp: remote_inv_def)
  have "s + k < min n (s + fr_len g)" using n fs k by simp
  then obtain j where j: "min n (s + fr_len g) = s + k + j" "0 < j" using less_imp_add_positive by metis
  have jk: "j \<le> fr_len g - k" using j(1) k by (auto simp: min_def split: if_splits)
  have R: "cut_rest g k @ gs = ?g # gs" using k by (simp add: cut_rest_def)
  have A0: "ahead s st = ?g # gs" using R fs rest by (simp add: ahead_def)
  have lt: "new_max_id st < fr_id g" using max_id_less [OF w'(6,5)] by (simp add: new_max_id_def)
  have l: "\<forall>f \<in> set (es_fragments st). fr_id f < ?l" "?l < fr_id g" "locator_wf ?l" "?l \<le> fr_id g"
    using between_less [OF lt w'(5)] new_id_greater [OF w'(8)] by simp_all
  let ?was = "was_seen v undos (fr_timestamp g) (fr_deletions g)"
  let ?f = "carried ?g j ?l (if ?was then fr_deletions g @ [ts] else fr_deletions g) (fr_visible g \<and> \<not> ?was)"
  let ?st1 = "if ?was then st\<lparr>es_slices := es_slices st @ [slice_from_fragment ts ?f]\<rparr> else st"
  let ?p = "snd (fc_start (es_cursor st)) + k"
  let ?st2 = "if fr_visible g \<and> \<not> fr_visible ?f then patch_push ?p (?p + j) (new_visible_len ?st1) (new_visible_len ?st1) ?st1 else ?st1"
  have p: "?p = vpos ct V (?g # gs)" if "fr_visible ?g"
    using remote_pos [OF r] that unfolding A0 by (simp add: old_pos_def fc_item_def list_first_def rest fs)
  obtain st3 where st3: "push_piece ?f (fr_visible g) ?st2 = Some st3" "edit_inv ct V ts old (cut_rest ?g j @ gs) st3"
      "es_cursor st3 = es_cursor st" "es_fragments st3 = es_fragments st @ [?f]"
      "es_insertion_offset st3 = es_insertion_offset st" "es_fragment_start st3 = es_fragment_start st"
    using edit_inv_remote [OF w'(2) [unfolded R] j(2), of ?l ?p ?f ?was ?st1 ?st2] l jk p by auto
  have f: "(if ?was then g\<lparr>fr_len := j, fr_insertion_offset := fr_insertion_offset g + k, fr_id := ?l, fr_deletions := fr_deletions g @ [ts], fr_visible := False\<rparr>
      else g\<lparr>fr_len := j, fr_insertion_offset := fr_insertion_offset g + k, fr_id := ?l\<rparr>) = ?f"
    by (simp add: carried_def piece_def)
  have cut: "cut_rest ?g j = cut_rest g (k + j)" using cut_rest_piece [of k j g] jk k by simp
  let ?c' = "if s + fr_len g \<le> n then ?c else es_cursor st" and ?s = "if s + fr_len g \<le> n then s + fr_len g else s"
  let ?st = "st3\<lparr>es_fragment_start := s + k + j, es_cursor := ?c'\<rparr>"
  have step: "delete_remote_piece v undos ts n st = Some ?st"
  proof -
    have "delete_remote_piece v undos ts n st = Some (st3\<lparr>es_fragment_start := min n (s + fr_len g),
        es_cursor := if s + fr_len g \<le> n then ?c else es_cursor st\<rparr>)"
    proof (rule delete_known_step [where f = ?f and s = s and j = j])
      show "push_piece ?f (fr_visible g) ?st2 = Some st3" by (rule st3(1))
      show "?st2 = (if fr_visible g \<and> \<not> fr_visible ?f then patch_push (old_pos s st) (old_pos s st + j) (new_visible_len ?st1) (new_visible_len ?st1) ?st1 else ?st1)"
        by (simp add: old_pos_def fc_item_def list_first_def rest fs)
      show "?f = (if ?was then g\<lparr>fr_len := j, fr_insertion_offset := fr_insertion_offset g + (es_fragment_start st - s), fr_id := ?l,
            fr_deletions := fr_deletions g @ [ts], fr_visible := False\<rparr>
          else g\<lparr>fr_len := j, fr_insertion_offset := fr_insertion_offset g + (es_fragment_start st - s), fr_id := ?l\<rparr>)"
        using f fs by simp
    qed (use g was_visible_ok [OF undos g] remote_start [OF r] rest fs j len st3(3) in \<open>simp_all add: fc_item_def list_first_def\<close>)
    then show ?thesis by (simp only: j(1))
  qed
  have c: "fc_rest ?c = gs" "full_off (fc_start ?c) = Some (s + fr_len g)"
    using remote_start [OF r] rest len by (simp_all add: fc_next_def)
  have A: "ahead ?s ?st = cut_rest ?g j @ gs"
    using c(1) cut w'(3) remaining_0 [of gs] j rest st3(3) by (auto simp: ahead_def min_def add.assoc split: if_splits)
  have lr: "\<forall>h \<in> set gs. ?l < fr_id h" using w'(1) l(2) by (auto simp: frag_less_def intro: less_trans)
  have "walking full_off (seen_len v) (wsum (seen_len v) old) ct V ts old ?s ?st"
    unfolding walking_def A using w(1) w' lr l c st3(2-6) fs len rest j offsets_below_append_old [OF w'(7), of "[?f]"]
    by (auto simp: walking_def split: list.splits if_splits)
  then have inv: "remote_inv ct V v ts old ?s ?st"
    using w(2,3) placed_next [of "remote_dim v" old "es_cursor st"] st3(3) rest len j by (auto simp: remote_inv_def split: list.splits)
  let ?M = "version_mark v undos ts"
  have M: "mark_of ?M ?f = Some False" "\<exists>b. mark_of ?M ?g = Some b" "mark_of (other_mark v ts) ?f = None" "mark_of (other_mark v ts) ?g = None"
    using g w'(4) by (simp_all add: mark_of_def version_mark_def other_mark_def)
  have mcut: "mtext ct m (?g # gs) = marked (mark_of m ?g) (frag_text ct (piece ?g 0 j)) @ mtext ct m (cut_rest ?g j @ gs)" for m
    using mtext_cut [of j ?g m ct] jk by simp
  have ftext: "mtext ct m (es_fragments st3) = mtext ct m (es_fragments st) @ marked (mark_of m ?f) (frag_text ct (piece ?g 0 j))" for m
    by (simp add: st3(4))
  have "mtext ct ?M (es_fragments ?st) @ hide (mtext ct ?M (ahead ?s ?st)) = mtext ct ?M (es_fragments st) @ hide (mtext ct ?M (ahead s st))"
    unfolding A A0 mcut using ftext [of ?M] M(1,2) by (auto simp del: mtext_simps simp: hide_marked)
  moreover have "marks ct (other_mark v ts) ?s ?st = marks ct (other_mark v ts) s st"
    unfolding marks_def A A0 mcut using ftext [of "other_mark v ts"] M(3,4) by (simp del: mtext_simps)
  moreover have "s + fr_len g \<le> n \<longrightarrow> fc_rest (es_cursor ?st) = gs" using c(1) by simp
  ultimately show ?thesis using step inv st3(5) j(1) by (intro exI [of _ ?st] exI [of _ ?s]) simp
qed

lemma delete_remote_ok:
  assumes "remote_inv ct V v ts old s st" and n: "n \<le> wsum (seen_len v) old" and undos: "um_wf undos"
  shows "\<exists>st' s'. delete_remote v undos ts n st = Some st' \<and> remote_inv ct V v ts old s' st' \<and>
    es_insertion_offset st' = es_insertion_offset st \<and> es_fragment_start st' = max n (es_fragment_start st) \<and>
    mtext ct (version_mark v undos ts) (es_fragments st') @ hide (mtext ct (version_mark v undos ts) (ahead s' st')) =
      mtext ct (version_mark v undos ts) (es_fragments st) @ hide (mtext ct (version_mark v undos ts) (ahead s st)) \<and>
    marks ct (other_mark v ts) s' st' = marks ct (other_mark v ts) s st"
  using assms(1)
proof (induction "length (fc_rest (es_cursor st))" arbitrary: st s rule: less_induct)
  case less
  note w = remote_invD [OF less.prems]
  show ?case
  proof (cases "es_fragment_start st < n")
    case False
    then show ?thesis using less.prems by (subst delete_remote.simps) (auto simp: max_def)
  next
    case True
    have "fc_rest (es_cursor st) \<noteq> []" using w(1) True n by (auto simp: walking_def)
    then obtain g r where rest: "fc_rest (es_cursor st) = g # r" by (cases "fc_rest (es_cursor st)") auto
    obtain st1 s1 where st1: "delete_remote_piece v undos ts n st = Some st1" "remote_inv ct V v ts old s1 st1"
        "es_insertion_offset st1 = es_insertion_offset st" "es_fragment_start st1 \<le> n"
        "es_fragment_start st1 = n \<or> fc_rest (es_cursor st1) = r"
        "mtext ct (version_mark v undos ts) (es_fragments st1) @ hide (mtext ct (version_mark v undos ts) (ahead s1 st1)) =
          mtext ct (version_mark v undos ts) (es_fragments st) @ hide (mtext ct (version_mark v undos ts) (ahead s st))"
        "marks ct (other_mark v ts) s1 st1 = marks ct (other_mark v ts) s st"
    proof (cases "observed v (fr_timestamp g)")
      case known: True
      obtain st1 s1 where a: "delete_remote_piece v undos ts n st = Some st1" "remote_inv ct V v ts old s1 st1"
          "es_insertion_offset st1 = es_insertion_offset st" "es_fragment_start st1 = min n (s + fr_len g)"
          "s + fr_len g \<le> n \<longrightarrow> fc_rest (es_cursor st1) = r"
          "mtext ct (version_mark v undos ts) (es_fragments st1) @ hide (mtext ct (version_mark v undos ts) (ahead s1 st1)) =
            mtext ct (version_mark v undos ts) (es_fragments st) @ hide (mtext ct (version_mark v undos ts) (ahead s st))"
          "marks ct (other_mark v ts) s1 st1 = marks ct (other_mark v ts) s st"
        using delete_piece_known [OF less.prems True undos rest known] by blast
      moreover have "es_fragment_start st1 \<le> n" "es_fragment_start st1 = n \<or> fc_rest (es_cursor st1) = r"
        using a(4,5) by (auto simp: min_def split: if_splits)
      ultimately show ?thesis using that by blast
    next
      case unknown: False
      obtain st1 where a: "delete_remote_piece v undos ts n st = Some st1" "remote_inv ct V v ts old s st1"
          "es_insertion_offset st1 = es_insertion_offset st" "es_fragment_start st1 = es_fragment_start st" "fc_rest (es_cursor st1) = r"
          "mtext ct (version_mark v undos ts) (es_fragments st1) = mtext ct (version_mark v undos ts) (es_fragments st)"
          "\<forall>m. marks ct m s st1 = marks ct m s st"
        using delete_piece_unknown [OF less.prems True rest unknown] by blast
      moreover have "mtext ct (version_mark v undos ts) (ahead s st1) = mtext ct (version_mark v undos ts) (ahead s st)"
        using a(6) a(7) [rule_format, of "version_mark v undos ts"] by (simp add: marks_def)
      ultimately show ?thesis using that True by simp
    qed
    from st1(5) have "\<exists>st' s'. delete_remote v undos ts n st1 = Some st' \<and> remote_inv ct V v ts old s' st' \<and>
      es_insertion_offset st' = es_insertion_offset st1 \<and> es_fragment_start st' = n \<and>
      mtext ct (version_mark v undos ts) (es_fragments st') @ hide (mtext ct (version_mark v undos ts) (ahead s' st')) =
        mtext ct (version_mark v undos ts) (es_fragments st1) @ hide (mtext ct (version_mark v undos ts) (ahead s1 st1)) \<and>
      marks ct (other_mark v ts) s' st' = marks ct (other_mark v ts) s1 st1"
    proof
      assume "es_fragment_start st1 = n"
      then show ?thesis using st1(2) by (subst delete_remote.simps) auto
    next
      assume "fc_rest (es_cursor st1) = r"
      then show ?thesis using less.hyps [OF _ st1(2)] rest st1(4) by (simp add: max_absorb1)
    qed
    then show ?thesis using True st1(1,3,6,7) by (subst delete_remote.simps) (auto simp: max_def)
  qed
qed

section \<open>A remote edit\<close>

lemma remote_edit_step_ok:
  assumes r: "remote_inv ct V v ts old s st" and ab: "es_fragment_start st \<le> a" "a \<le> b" "b \<le> wsum (seen_len v) old"
    and undos: "um_wf undos" and causal: "\<forall>f \<in> set old. observed v (fr_timestamp f) \<longrightarrow> fr_timestamp f < ts"
    and t: "char_runs 0 t" "\<forall>i < length t. ct ts (es_insertion_offset st + i) = t ! i"
    and F: "F = mtext ct (version_mark v undos ts) old"
  shows "\<exists>st' s'. remote_edit_step v undos ts a b t st = Some st' \<and> remote_inv ct V v ts old s' st' \<and> es_fragment_start st' = b \<and>
    es_insertion_offset st' = es_insertion_offset st + length t \<and>
    mtext ct (version_mark v undos ts) (es_fragments st') = mtext ct (version_mark v undos ts) (es_fragments st) @
      take (a - es_fragment_start st) (drop (es_fragment_start st) F) @ map (\<lambda>x. (x, True)) t @ hide (take (b - a) (drop a F)) \<and>
    marks ct (other_mark v ts) s' st' = marks ct (other_mark v ts) s st"
proof -
  let ?M = "version_mark v undos ts" and ?O = "other_mark v ts" and ?p = "es_fragment_start st"
  have ahead: "mtext ct ?M (ahead s st) = drop (es_fragment_start st) F" if "remote_inv ct V v ts old s st" for s st
    using remote_ahead(1) [OF that sees_version_mark] by (simp add: F)
  obtain st1 s1 where st1: "skip_to (remote_dim v) full_off (remote_target a) Left a st = Some st1" "remote_inv ct V v ts old s1 st1"
      "es_fragment_start st1 \<le> a" "case fc_rest (es_cursor st1) of [] \<Rightarrow> es_fragment_start st1 = a | g # _ \<Rightarrow> a \<le> s1 + seen_len v g"
      "es_insertion_offset st1 = es_insertion_offset st" "\<forall>m. marks ct m s1 st1 = marks ct m s st"
    using remote_skip_to [OF r ab(1) le_trans [OF ab(2,3)]] by blast
  obtain st2 s2 where st2: "end_fragment (remote_dim v) full_off a st1 = Some st2" "remote_inv ct V v ts old s2 st2" "ready v a s2 st2"
      "es_insertion_offset st2 = es_insertion_offset st1" "\<forall>m. marks ct m s2 st2 = marks ct m s1 st1"
    using end_fragment_ok [OF st1(2-4)] by blast
  obtain st3 s3 where st3: "skip_concurrent (remote_dim v) ts a st2 = Some st3" "remote_inv ct V v ts old s3 st3" "ready v a s3 st3"
      "es_insertion_offset st3 = es_insertion_offset st2" "\<forall>m. marks ct m s3 st3 = marks ct m s2 st2"
    using skip_concurrent_ok [OF st2(2,3) causal] by blast
  obtain st4 where st4: "preserve_prefix full_off a st3 = Some st4" "remote_inv ct V v ts old s3 st4" "es_fragment_start st4 = a"
      "es_insertion_offset st4 = es_insertion_offset st3" "\<forall>m. marks ct m s3 st4 = marks ct m s3 st3"
    using remote_prefix [OF st3(2,3)] by blast
  let ?st5 = "insert_text t ts (old_pos s3 st4) st4"
  have off: "es_insertion_offset st4 = es_insertion_offset st" using st1(5) st2(4) st3(4) st4(4) by simp
  have st5: "walking full_off (seen_len v) (wsum (seen_len v) old) ct V ts old s3 ?st5" "es_cursor ?st5 = es_cursor st4"
      "es_fragment_start ?st5 = a" "es_insertion_offset ?st5 = es_insertion_offset st + length t"
      "\<forall>m. mtext ct m (es_fragments ?st5) = mtext ct m (es_fragments st4) @ marked (m ts [] True) t"
    using remote_walk.insert_text_ok [OF remote_invD(1) [OF st4(2)] t(1), of "old_pos s3 st4"] t(2) remote_pos [OF st4(2)] st4(3)
    by (simp_all add: off)
  have inv5: "remote_inv ct V v ts old s3 ?st5"
    using st4(2) st5(1) unfolding remote_inv_def st5(2,3) st4(3) by blast
  have ahead5: "ahead s3 ?st5 = ahead s3 st4" using st5(2,3) st4(3) by (simp add: ahead_def)
  obtain st6 s6 where st6: "delete_remote v undos ts b ?st5 = Some st6" "remote_inv ct V v ts old s6 st6"
      "es_insertion_offset st6 = es_insertion_offset ?st5" "es_fragment_start st6 = b"
      "mtext ct ?M (es_fragments st6) @ hide (mtext ct ?M (ahead s6 st6)) = mtext ct ?M (es_fragments ?st5) @ hide (mtext ct ?M (ahead s3 ?st5))"
      "marks ct ?O s6 st6 = marks ct ?O s3 ?st5"
    using delete_remote_ok [OF inv5 ab(3) undos] st5(3) ab(2) by (auto simp: max_absorb1)
  have start: "full_off (fc_start (es_cursor st4)) = Some s3" by (rule remote_start(1) [OF st4(2)])
  have step: "remote_edit_step v undos ts a b t st = Some st6"
    using st1(1) st2(1) st3(1,3) st4(1) start st6(1)
    by (simp add: remote_edit_step_def ready_def Let_def old_pos_def)
  have same: "marks ct m s3 st4 = marks ct m s st" for m using st1(6) st2(5) st3(5) st4(5) by simp
  have "mtext ct ?M (es_fragments st6) = mtext ct ?M (es_fragments st) @ take (a - ?p) (drop ?p F) @ map (\<lambda>x. (x, True)) t @ hide (take (b - a) (drop a F))"
  proof -
    have "mtext ct ?M (es_fragments st4) @ drop a F = (mtext ct ?M (es_fragments st) @ take (a - ?p) (drop ?p F)) @ drop a F"
      using same [of ?M] ahead [OF st4(2)] ahead [OF r] st4(3) by (simp add: marks_def take_drop_up [OF ab(1)])
    then have 4: "mtext ct ?M (es_fragments st4) = mtext ct ?M (es_fragments st) @ take (a - ?p) (drop ?p F)"
      by (simp only: append_same_eq)
    have 5: "mtext ct ?M (es_fragments ?st5) = mtext ct ?M (es_fragments st4) @ map (\<lambda>x. (x, True)) t"
      using st5(5) by (simp add: version_mark_def marked_def)
    have "mtext ct ?M (es_fragments st6) @ hide (drop b F) = mtext ct ?M (es_fragments ?st5) @ hide (drop a F)"
      using st6(5) ahead [OF st6(2)] ahead [OF st4(2)] st6(4) st4(3) by (simp add: ahead5)
    also have "hide (drop a F) = hide (take (b - a) (drop a F)) @ hide (drop b F)"
      using take_drop_up [OF ab(2), of F] by (simp flip: hide_simps(3))
    finally have "mtext ct ?M (es_fragments st6) = mtext ct ?M (es_fragments ?st5) @ hide (take (b - a) (drop a F))" by simp
    then show ?thesis unfolding 5 4 by simp
  qed
  moreover have "marks ct ?O s6 st6 = marks ct ?O s st"
    using st6(6) same [of ?O] st5(5) by (simp add: marks_def ahead5 other_mark_def)
  ultimately show ?thesis using step st6(2-4) st5(4) by (intro exI [of _ st6] exI [of _ s6]) simp
qed

lemma remote_edits_ok:
  assumes "remote_inv ct V v ts old s st" "edits_ok (wsum (seen_len v) old) (es_fragment_start st) es"
    and "\<forall>i < length (concat (map snd es)). ct ts (es_insertion_offset st + i) = concat (map snd es) ! i"
    and undos: "um_wf undos" and causal: "\<forall>f \<in> set old. observed v (fr_timestamp f) \<longrightarrow> fr_timestamp f < ts"
    and F: "F = mtext ct (version_mark v undos ts) old"
  shows "\<exists>st' s'. remote_edits v undos ts es st = Some st' \<and> remote_inv ct V v ts old s' st' \<and>
    marks ct (version_mark v undos ts) s' st' = mtext ct (version_mark v undos ts) (es_fragments st) @ view_spliced F (es_fragment_start st) es \<and>
    marks ct (other_mark v ts) s' st' = marks ct (other_mark v ts) s st"
  using assms(1-3)
proof (induction es arbitrary: s st)
  case Nil
  then show ?case using remote_ahead(1) [OF Nil(1) sees_version_mark] by (auto simp: marks_def F)
next
  case (Cons e es)
  obtain a b t where e: "e = ((a, b), t)" by (metis surj_pair)
  have ct: "\<forall>i < length t. ct ts (es_insertion_offset st + i) = t ! i"
    using Cons.prems(3) by (auto simp: e nth_append)
  have ab: "es_fragment_start st \<le> a" "a \<le> b" "b \<le> wsum (seen_len v) old" "char_runs 0 t"
    using Cons.prems(2) by (simp_all add: e)
  obtain st1 s1 where st1: "remote_edit_step v undos ts a b t st = Some st1" "remote_inv ct V v ts old s1 st1" "es_fragment_start st1 = b"
      "es_insertion_offset st1 = es_insertion_offset st + length t"
      "mtext ct (version_mark v undos ts) (es_fragments st1) = mtext ct (version_mark v undos ts) (es_fragments st) @
        take (a - es_fragment_start st) (drop (es_fragment_start st) F) @ map (\<lambda>x. (x, True)) t @ hide (take (b - a) (drop a F))"
      "marks ct (other_mark v ts) s1 st1 = marks ct (other_mark v ts) s st"
    using remote_edit_step_ok [OF Cons.prems(1) ab(1-3) undos causal ab(4) ct F] by blast
  have "\<forall>i < length (concat (map snd es)). ct ts (es_insertion_offset st1 + i) = concat (map snd es) ! i"
  proof (intro allI impI)
    fix i assume "i < length (concat (map snd es))"
    then show "ct ts (es_insertion_offset st1 + i) = concat (map snd es) ! i"
      using Cons.prems(3) [rule_format, of "length t + i"] st1(4) by (simp add: e add.assoc)
  qed
  moreover have "edits_ok (wsum (seen_len v) old) (es_fragment_start st1) es" using Cons.prems(2) st1(3) by (simp add: e)
  ultimately obtain st' s' where "remote_edits v undos ts es st1 = Some st'" "remote_inv ct V v ts old s' st'"
      "marks ct (version_mark v undos ts) s' st' = mtext ct (version_mark v undos ts) (es_fragments st1) @ view_spliced F b es"
      "marks ct (other_mark v ts) s' st' = marks ct (other_mark v ts) s1 st1"
    using Cons.IH [OF st1(2)] st1(3) by auto
  then show ?case using st1(1,5,6) by (auto simp: e)
qed

section \<open>The remote edit of a snapshot\<close>

lemma apply_remote_edit_ok:
  assumes sn: "texts_ok ct0 sn" "index_ok sn" "um_wf (sn_undo_map sn)" and fresh: "\<forall>f \<in> set (sn_fragments sn). fr_timestamp f \<noteq> ts"
    and causal: "\<forall>f \<in> set (sn_fragments sn). observed v (fr_timestamp f) \<longrightarrow> fr_timestamp f < ts"
    and rs: "ranges \<noteq> []" "length texts = length ranges"
    and ok: "edits_ok (length (view (version_mark v (sn_undo_map sn) ts) sn)) 0 (zip ranges texts)"
  shows "\<exists>p sn'. apply_remote_edit v ranges texts ts sn = Some (Some p, sn') \<and>
    edit_result (extended ct0 ts (concat texts)) ts sn p sn' \<and>
    view (version_mark v (sn_undo_map sn) ts) sn' = view_spliced (view (version_mark v (sn_undo_map sn) ts) sn) 0 (zip ranges texts) \<and>
    view (other_mark v ts) sn' = view (other_mark v ts) sn"
proof -
  let ?ct = "extended ct0 ts (concat texts)" and ?V = "sn_visible_text sn" and ?u = "sn_undo_map sn"
  let ?M = "version_mark v ?u ts" and ?O = "other_mark v ts"
  let ?F = "view ?M sn" and ?old = "sn_fragments sn" and ?es = "zip ranges texts"
  obtain a b rs' where r: "ranges = (a, b) # rs'" using rs(1) by (metis neq_Nil_conv surj_pair)
  obtain t ts' where tt: "texts = t # ts'" using rs r by (cases texts) auto
  have t: "texts_ok ?ct sn" using sn(1) extended_text [OF fresh] by (simp add: texts_ok_def)
  have F: "?F = mtext ?ct ?M ?old" by (rule view_text [OF t])
  obtain us c s st where st: "fc_slice (remote_dim v) (remote_target a) Left (fc_new (remote_dim v) ?old) = Some (us, c)"
      "full_off (fc_start c) = Some s" "push_slice us (edit_state_init sn c s) = Some st" "es_fragment_start st = s"
      "es_insertion_offset st = 0" "walking full_off (seen_len v) (wsum (seen_len v) ?old) ?ct ?V ts ?old s st" "s \<le> a"
      "\<forall>m. marks ?ct m s st = mtext ?ct m ?old" "es_cursor st = c"
      "fc_start c = after fragment_ops (remote_dim v) (d_zero (remote_dim v)) us" "?old = us @ fc_rest c"
    using remote_walk.start_edit_ok [OF t fresh, where v = v and n = a and b = Left] by auto
  have p: "placed (remote_dim v) ?old (es_cursor st)" using st(9-11) unfolding placed_def by blast
  have inv: "remote_inv ?ct ?V v ts ?old s st"
    using st(4,6) p t by (simp add: remote_inv_def texts_ok_def split: list.splits)
  have len: "wsum (seen_len v) ?old = length ?F" using remote_ahead(2) [OF inv sees_version_mark, of ?u] by (simp add: F)
  have m: "mtext ?ct ?M (es_fragments st) = take s ?F"
    using st(8) [rule_format, of ?M] remote_ahead(1) [OF inv sees_version_mark, of ?u] unfolding marks_def F [symmetric] st(4)
    by (metis append_same_eq append_take_drop_id)
  have ok': "edits_ok (wsum (seen_len v) ?old) (es_fragment_start st) ?es" using ok st(4,7) len r tt by simp
  have "map snd ?es = texts" using rs(2) by simp
  then have "\<forall>i < length (concat (map snd ?es)). ?ct ts (es_insertion_offset st + i) = concat (map snd ?es) ! i"
    by (simp add: extended_def st(5))
  from remote_edits_ok [OF inv ok' this sn(3) causal F] obtain st' s' where st': "remote_edits v ?u ts ?es st = Some st'"
      "remote_inv ?ct ?V v ts ?old s' st'" "marks ?ct ?M s' st' = mtext ?ct ?M (es_fragments st) @ view_spliced ?F s ?es"
      "marks ?ct ?O s' st' = marks ?ct ?O s st"
    by (auto simp: st(4))
  obtain q sn' where q: "finish_edit (remote_dim v) full_off st' sn = Some (q, sn')" "edit_result ?ct ts sn q sn'"
      "\<forall>m. mtext ?ct m (sn_fragments sn') = marks ?ct m s' st'"
    using remote_walk.finish_edit_ok [OF remote_invD(1) [OF st'(2)] sn(2)] by blast
  have t': "texts_ok ?ct sn'" using q(2) by (simp add: edit_result_def)
  have "edits_ok (length ?F) s ?es" "?es \<noteq> []" using ok' len st(4) r tt by simp_all
  from view_spliced_start [OF this] have "view ?M sn' = view_spliced ?F 0 ?es"
    using view_text [OF t', of ?M] q(3) st'(3) m by simp
  moreover have "view ?O sn' = view ?O sn"
    using view_text [OF t', of ?O] view_text [OF t, of ?O] q(3) st'(4) st(8) by simp
  ultimately show ?thesis using st(1-3) st'(1) q(1,2) by (simp add: apply_remote_edit_def r)
qed

text \<open>A new buffer looks the same to every version that has its base text.\<close>

lemma all_visible_text:
  "\<forall>f \<in> set fs. fr_visible f \<and> mark_of m f = Some True \<Longrightarrow> mtext ct m fs = map (\<lambda>x. (x, True)) (vtext ct fs)"
  by (induction fs) (simp_all add: marked_def)

lemma new_buffer_view:
  assumes s: "char_runs 0 s" "s \<noteq> []" and b: "new_normalized r i le s = Some b" and ts: "lamport_new LOCAL \<noteq> ts" "ts \<noteq> lamport_MIN"
  shows "observed (sn_version (bf_snapshot b)) (lamport_new LOCAL)" "fresh_in ts (bf_snapshot b)"
    "snapshot_ok (- {lamport_new LOCAL}) (bf_snapshot b)" "sn_visible_text (bf_snapshot b) = s"
    "\<forall>f \<in> set (sn_fragments (bf_snapshot b)). fr_timestamp f = lamport_new LOCAL"
    "view full_mark (bf_snapshot b) = map (\<lambda>x. (x, True)) s"
    "observed v (lamport_new LOCAL) \<Longrightarrow> view (version_mark v (sn_undo_map (bf_snapshot b)) ts) (bf_snapshot b) = map (\<lambda>x. (x, True)) s"
proof -
  let ?sn = "bf_snapshot b"
  have ok: "sn_visible_text ?sn = s" "snapshot_ok (- {lamport_new LOCAL}) ?sn" "sn_undo_map ?sn = um_new"
      "\<forall>f \<in> set (sn_fragments ?sn). fr_timestamp f = lamport_new LOCAL \<and> fr_deletions f = []"
    using new_normalized_ok [OF s(1), of r i le] b by auto
  then show "sn_visible_text ?sn = s" "snapshot_ok (- {lamport_new LOCAL}) ?sn"
    "\<forall>f \<in> set (sn_fragments ?sn). fr_timestamp f = lamport_new LOCAL" by simp_all
  show "fresh_in ts ?sn" using ok ts um_new_undone by (auto simp: fresh_in_def)
  have "sn_version ?sn = observe global_new (lamport_new LOCAL)"
    using b s(2) by (auto simp: new_normalized_def Let_def split: bind_splits)
  then show "observed (sn_version ?sn) (lamport_new LOCAL)" by (simp add: observed_def observe_get)
  have vis: "fr_visible f" if "f \<in> set (sn_fragments ?sn)" for f
    using ok that um_new_undone by (auto simp: snapshot_ok_def visible_ok_def is_visible_def)
  obtain ct where t: "texts_ok ct ?sn" using ok(2) by (auto simp: snapshot_ok_def)
  have V: "vtext ct (sn_fragments ?sn) = s" using t ok(1) by (simp add: texts_ok_def)
  show "view full_mark ?sn = map (\<lambda>x. (x, True)) s"
    unfolding view_text [OF t] V [symmetric] using vis by (intro all_visible_text) (simp add: mark_of_def full_mark_def)
  have seen: "was_seen v um_new (lamport_new LOCAL) []"
    using um_was_undone_ok [OF um_new_wf(1), of "lamport_new LOCAL" v] um_new_wf(2) by (simp add: was_seen_def top_count_def)
  show "view (version_mark v (sn_undo_map ?sn) ts) ?sn = map (\<lambda>x. (x, True)) s" if "observed v (lamport_new LOCAL)"
    unfolding view_text [OF t] V [symmetric] using vis that ok(3,4) ts(1) seen
    by (intro all_visible_text) (simp add: mark_of_def version_mark_def)
qed





end
