(* ===== verification/BufferOps.thy ===== *)
theory BufferOps
  imports UndoEdit "HOL-Library.AList"
begin

text \<open>
  The operations of a buffer on its own text (\<open>impl Buffer\<close> in \<open>crates/text/src/text.rs\<close>): edits,
  transactions, undo and redo, which tie the snapshot, the history, the clock and the subscriptions
  together. \<open>Instant::now\<close> is a parameter, read once when a transaction starts and once when it ends.
\<close>

section \<open>Transactions\<close>

definition start_transaction_at :: "nat \<Rightarrow> text_buffer \<Rightarrow> transaction_id option \<times> text_buffer" where
  "start_transaction_at now b =
     (let (tid, clock, h) = start_transaction (sn_version (bf_snapshot b)) now (bf_lamport_clock b) (bf_history b)
      in (tid, b\<lparr>bf_history := h, bf_lamport_clock := clock\<rparr>))"

definition end_transaction_at :: "nat \<Rightarrow> text_buffer \<Rightarrow> ((transaction_id \<times> global) option \<times> text_buffer) option" where
  "end_transaction_at now b = do {
     (ended, h) \<leftarrow> end_transaction now (bf_history b);
     (case ended of
       Some entry \<Rightarrow> do {
         let since = tr_start (he_transaction entry);
         (grouped, h) \<leftarrow> group h;
         tid \<leftarrow> grouped;
         Some (Some (tid, since), b\<lparr>bf_history := h\<rparr>)
       }
     | None \<Rightarrow> Some (None, b\<lparr>bf_history := h\<rparr>))
   }"

definition buffer_finalize :: "text_buffer \<Rightarrow> transaction option \<times> text_buffer" where
  "buffer_finalize b = (let (t, h) = finalize_last_transaction (bf_history b) in (t, b\<lparr>bf_history := h\<rparr>))"

definition group_until_transaction :: "transaction_id \<Rightarrow> text_buffer \<Rightarrow> text_buffer option" where
  "group_until_transaction tid b = do { h \<leftarrow> group_until tid (bf_history b); Some (b\<lparr>bf_history := h\<rparr>) }"

definition forget_transaction :: "transaction_id \<Rightarrow> text_buffer \<Rightarrow> (transaction option \<times> text_buffer) option" where
  "forget_transaction tid b = do { (t, h) \<leftarrow> forget tid (bf_history b); Some (t, b\<lparr>bf_history := h\<rparr>) }"

definition buffer_merge_transactions :: "transaction_id \<Rightarrow> transaction_id \<Rightarrow> text_buffer \<Rightarrow> text_buffer option" where
  "buffer_merge_transactions tid destination b = do {
     h \<leftarrow> merge_transactions tid destination (bf_history b);
     Some (b\<lparr>bf_history := h\<rparr>)
   }"

definition buffer_push_transaction :: "transaction \<Rightarrow> nat \<Rightarrow> text_buffer \<Rightarrow> text_buffer option" where
  "buffer_push_transaction t now b = do { h \<leftarrow> push_transaction t now (bf_history b); Some (b\<lparr>bf_history := h\<rparr>) }"

definition buffer_push_empty_transaction :: "nat \<Rightarrow> text_buffer \<Rightarrow> (transaction_id \<times> text_buffer) option" where
  "buffer_push_empty_transaction now b = do {
     (tid, clock, h) \<leftarrow> push_empty_transaction (sn_version (bf_snapshot b)) now (bf_lamport_clock b) (bf_history b);
     Some (tid, b\<lparr>bf_history := h, bf_lamport_clock := clock\<rparr>)
   }"

section \<open>Edits\<close>

definition buffer_apply_local_edit ::
  "local_edit list \<Rightarrow> lamport \<Rightarrow> text_buffer \<Rightarrow> (8 word edit_operation \<times> text_buffer) option" where
  "buffer_apply_local_edit edits timestamp b = do {
     (edit_op, edits_patch, sn) \<leftarrow> apply_local_edit edits timestamp (bf_snapshot b);
     Some (edit_op, b\<lparr>bf_snapshot := sn, bf_subscriptions := publish edits_patch (bf_subscriptions b)\<rparr>)
   }"

definition observe_version :: "lamport \<Rightarrow> text_buffer \<Rightarrow> text_buffer" where
  "observe_version timestamp b =
     b\<lparr>bf_snapshot := (bf_snapshot b)\<lparr>sn_version := observe (sn_version (bf_snapshot b)) timestamp\<rparr>\<rparr>"

definition tick_clock :: "text_buffer \<Rightarrow> lamport \<times> text_buffer" where
  "tick_clock b = (let (timestamp, clock) = tick (bf_lamport_clock b) in (timestamp, b\<lparr>bf_lamport_clock := clock\<rparr>))"

definition buffer_edit :: "nat \<Rightarrow> nat \<Rightarrow> local_edit list \<Rightarrow> text_buffer \<Rightarrow> (buffer_op \<times> text_buffer) option" where
  "buffer_edit now now' edits b = do {
     let (_, b) = start_transaction_at now b;
     let (timestamp, b) = tick_clock b;
     (edit_op, b) \<leftarrow> buffer_apply_local_edit edits timestamp b;
     let operation = Edit edit_op;
     h \<leftarrow> history_push operation (bf_history b);
     h \<leftarrow> push_undo (op_timestamp operation) h;
     let b = observe_version (op_timestamp operation) (b\<lparr>bf_history := h\<rparr>);
     (_, b) \<leftarrow> end_transaction_at now' b;
     Some (operation, b)
   }"

section \<open>Undo and redo\<close>

definition buffer_apply_undo :: "undo_operation \<Rightarrow> text_buffer \<Rightarrow> text_buffer option" where
  "buffer_apply_undo undo b = do {
     (edits, sn) \<leftarrow> apply_undo undo (bf_snapshot b);
     Some (b\<lparr>bf_snapshot := sn, bf_subscriptions := publish edits (bf_subscriptions b)\<rparr>)
   }"

definition undo_operations :: "(lamport \<times> 32 word) list \<Rightarrow> text_buffer \<Rightarrow> (buffer_op \<times> text_buffer) option" where
  "undo_operations counts b = do {
     let (timestamp, b) = tick_clock b;
     let version = sn_version (bf_snapshot b);
     let b = observe_version timestamp b;
     let undo = \<lparr>uo_timestamp = timestamp, uo_version = version, uo_counts = counts\<rparr>;
     b \<leftarrow> buffer_apply_undo undo b;
     Some (Undo undo, b)
   }"

text \<open>\<open>saturating_add(1)\<close>.\<close>

definition saturating_inc :: "32 word \<Rightarrow> 32 word" where
  "saturating_inc n = (if n = - 1 then n else n + 1)"

fun undo_counts :: "lamport list \<Rightarrow> undo_map \<Rightarrow> (lamport \<times> 32 word) list \<Rightarrow> (lamport \<times> 32 word) list option" where
  "undo_counts [] undos counts = Some counts"
| "undo_counts (edit # edit_ids) undos counts = do {
     n \<leftarrow> um_undo_count edit undos;
     undo_counts edit_ids undos (AList.update edit (saturating_inc n) counts)
   }"

definition undo_or_redo :: "transaction \<Rightarrow> text_buffer \<Rightarrow> (buffer_op \<times> text_buffer) option" where
  "undo_or_redo t b = do {
     counts \<leftarrow> undo_counts (tr_edit_ids t) (sn_undo_map (bf_snapshot b)) [];
     (operation, b) \<leftarrow> undo_operations counts b;
     h \<leftarrow> history_push operation (bf_history b);
     Some (operation, b\<lparr>bf_history := h\<rparr>)
   }"

fun undo_or_redo_all :: "transaction list \<Rightarrow> text_buffer \<Rightarrow> (buffer_op list \<times> text_buffer) option" where
  "undo_or_redo_all [] b = Some ([], b)"
| "undo_or_redo_all (t # ts) b = do {
     (op, b) \<leftarrow> undo_or_redo t b;
     (ops, b) \<leftarrow> undo_or_redo_all ts b;
     Some (op # ops, b)
   }"

definition buffer_undo :: "text_buffer \<Rightarrow> ((transaction_id \<times> buffer_op) option \<times> text_buffer) option" where
  "buffer_undo b = do {
     (popped, h) \<leftarrow> pop_undo (bf_history b);
     (case popped of
       Some entry \<Rightarrow> do {
         let t = he_transaction entry;
         (op, b) \<leftarrow> undo_or_redo t (b\<lparr>bf_history := h\<rparr>);
         Some (Some (tr_id t, op), b)
       }
     | None \<Rightarrow> Some (None, b\<lparr>bf_history := h\<rparr>))
   }"

definition buffer_redo :: "text_buffer \<Rightarrow> ((transaction_id \<times> buffer_op) option \<times> text_buffer) option" where
  "buffer_redo b = do {
     (popped, h) \<leftarrow> pop_redo (bf_history b);
     (case popped of
       Some entry \<Rightarrow> do {
         let t = he_transaction entry;
         (op, b) \<leftarrow> undo_or_redo t (b\<lparr>bf_history := h\<rparr>);
         Some (Some (tr_id t, op), b)
       }
     | None \<Rightarrow> Some (None, b\<lparr>bf_history := h\<rparr>))
   }"

definition undo_transaction :: "transaction_id \<Rightarrow> text_buffer \<Rightarrow> (buffer_op option \<times> text_buffer) option" where
  "undo_transaction tid b = do {
     (removed, h) \<leftarrow> remove_from_undo tid (bf_history b);
     (case removed of
       Some entry \<Rightarrow> do {
         (op, b) \<leftarrow> undo_or_redo (he_transaction entry) (b\<lparr>bf_history := h\<rparr>);
         Some (Some op, b)
       }
     | None \<Rightarrow> Some (None, b\<lparr>bf_history := h\<rparr>))
   }"

definition undo_to_transaction :: "transaction_id \<Rightarrow> text_buffer \<Rightarrow> (buffer_op list \<times> text_buffer) option" where
  "undo_to_transaction tid b = do {
     (entries, h) \<leftarrow> remove_from_undo_until tid (bf_history b);
     undo_or_redo_all (map he_transaction entries) (b\<lparr>bf_history := h\<rparr>)
   }"

definition redo_to_transaction :: "transaction_id \<Rightarrow> text_buffer \<Rightarrow> (buffer_op list \<times> text_buffer) option" where
  "redo_to_transaction tid b = do {
     (entries, h) \<leftarrow> remove_from_redo tid (bf_history b);
     undo_or_redo_all (map he_transaction entries) (b\<lparr>bf_history := h\<rparr>)
   }"

end
