(* ===== verification/BufferInv.thy ===== *)
theory BufferInv
  imports BufferOps
begin

text \<open>
  The invariant of a buffer between its own operations, and that each of them keeps it: the snapshot is
  well formed, the clock is ahead of every timestamp in it, and the history only names edits that undo
  can find.
\<close>

section \<open>The edits a history names\<close>

definition hist_ids :: "'c history \<Rightarrow> lamport set" where
  "hist_ids h = (\<Union>e \<in> set (hi_undo_stack h) \<union> set (hi_redo_stack h). set (entry_edit_ids e))"

lemma hist_ids_update [simp]:
  "hist_ids (h\<lparr>hi_operations := x\<rparr>) = hist_ids h" "hist_ids (h\<lparr>hi_transaction_depth := d\<rparr>) = hist_ids h"
  by (simp_all add: hist_ids_def)

lemma entry_ids_update [simp]:
  "entry_edit_ids (e\<lparr>he_last_edit_at := t\<rparr>) = entry_edit_ids e" "entry_edit_ids (e\<lparr>he_suppress_grouping := s\<rparr>) = entry_edit_ids e"
  "entry_edit_ids (e\<lparr>he_transaction := tr\<rparr>) = tr_edit_ids tr"
  by (simp_all add: entry_edit_ids_def)

lemma group_trailing_ids: "group_trailing n h = Some (r, h') \<Longrightarrow> hist_ids h' \<subseteq> hist_ids h"
proof -
  assume g: "group_trailing n h = Some (r, h')"
  let ?k = "length (hi_undo_stack h) - n"
  have n: "n \<le> length (hi_undo_stack h)" using g by (auto simp: group_trailing_def split: if_splits)
  show ?thesis
  proof (cases "split_last (take ?k (hi_undo_stack h))")
    case None
    then show ?thesis using g n by (auto simp: group_trailing_def Let_def hist_ids_def)
  next
    case (Some x)
    obtain init e where x: "x = (init, e)" by fastforce
    have k: "take ?k (hi_undo_stack h) = init @ [e]"
      using Some x by (cases "take ?k (hi_undo_stack h)" rule: rev_cases) auto
    obtain D where D: "drop ?k (hi_undo_stack h) = D" by simp
    have stack: "hi_undo_stack h = init @ e # D"
      using k D append_take_drop_id [of ?k "hi_undo_stack h"] by simp
    have "hi_redo_stack h' = hi_redo_stack h" using g n by (auto simp: group_trailing_def Let_def)
    moreover obtain e' where "hi_undo_stack h' = init @ [e']" "entry_edit_ids e' = entry_edit_ids e @ concat (map entry_edit_ids D)"
      using g n k D by (auto simp: group_trailing_def Let_def)
    ultimately show ?thesis by (auto simp: hist_ids_def stack)
  qed
qed

lemma group_ids: "group h = Some (r, h') \<Longrightarrow> hist_ids h' \<subseteq> hist_ids h"
  unfolding group_def by (rule group_trailing_ids)

lemma end_transaction_ids: "end_transaction now h = Some (r, h') \<Longrightarrow> hist_ids h' \<subseteq> hist_ids h"
  by (cases "hi_undo_stack h" rule: rev_cases) (auto simp: end_transaction_def hist_ids_def Let_def split: if_splits)

lemma start_transaction_ids: "start_transaction v now c h = (r, c', h') \<Longrightarrow> hist_ids h' = hist_ids h"
  by (auto simp: start_transaction_def hist_ids_def push_entry_def entry_edit_ids_def Let_def split: if_splits prod.splits)

lemma push_undo_ids: "push_undo op h = Some h' \<Longrightarrow> hist_ids h' \<subseteq> insert op (hist_ids h)"
  by (cases "hi_undo_stack h" rule: rev_cases)
    (auto simp: push_undo_def hist_ids_def entry_edit_ids_def Let_def split: if_splits option.splits operation.splits)

lemma pop_ids:
  "pop_undo h = Some (e, h') \<Longrightarrow> hist_ids h' = hist_ids h \<and> (\<forall>x. e = Some x \<longrightarrow> set (entry_edit_ids x) \<subseteq> hist_ids h)"
  "pop_redo h = Some (e, h') \<Longrightarrow> hist_ids h' = hist_ids h \<and> (\<forall>x. e = Some x \<longrightarrow> set (entry_edit_ids x) \<subseteq> hist_ids h)"
  by (cases "hi_undo_stack h" rule: rev_cases; auto simp: pop_undo_def hist_ids_def split: if_splits)
    (cases "hi_redo_stack h" rule: rev_cases; auto simp: pop_redo_def hist_ids_def split: if_splits)

lemma remove_ids:
  assumes "remove_from_undo tid h = Some (e, h')"
  shows "hist_ids h' = hist_ids h \<and> (\<forall>x. e = Some x \<longrightarrow> set (entry_edit_ids x) \<subseteq> hist_ids h)"
proof (cases "rposition (has_id tid) (hi_undo_stack h)")
  case None
  then show ?thesis using assms unfolding remove_from_undo_def None by (auto split: if_splits)
next
  case (Some i)
  then obtain as x bs where x: "hi_undo_stack h = as @ x # bs" "i = length as" by (rule rposition_Some)
  then show ?thesis using assms Some by (auto simp: remove_from_undo_def hist_ids_def split: if_splits)
qed

lemma remove_until_ids:
  assumes "remove_from_undo_until tid h = Some (es, h')"
  shows "hist_ids h' = hist_ids h \<and> (\<forall>x \<in> set es. set (entry_edit_ids x) \<subseteq> hist_ids h)"
proof (cases "rposition (has_id tid) (hi_undo_stack h)")
  case None
  then show ?thesis using assms unfolding remove_from_undo_until_def None by (auto split: if_splits)
next
  case (Some i)
  then obtain as x bs where x: "hi_undo_stack h = as @ x # bs" "i = length as" by (rule rposition_Some)
  then show ?thesis using assms Some by (auto simp: remove_from_undo_until_def hist_ids_def split: if_splits)
qed

lemma remove_redo_ids:
  assumes "remove_from_redo tid h = Some (es, h')"
  shows "hist_ids h' = hist_ids h \<and> (\<forall>x \<in> set es. set (entry_edit_ids x) \<subseteq> hist_ids h)"
proof (cases "rposition (has_id tid) (hi_redo_stack h)")
  case None
  then show ?thesis using assms unfolding remove_from_redo_def None by (auto split: if_splits)
next
  case (Some i)
  then obtain as x bs where x: "hi_redo_stack h = as @ x # bs" "i = length as" by (rule rposition_Some)
  then show ?thesis using assms Some by (auto simp: remove_from_redo_def hist_ids_def split: if_splits)
qed

lemma forget_ids:
  assumes "forget tid h = Some (t, h')"
  shows "hist_ids h' \<union> (case t of Some x \<Rightarrow> set (tr_edit_ids x) | None \<Rightarrow> {}) \<subseteq> hist_ids h"
proof (cases "rposition (has_id tid) (hi_undo_stack h)")
  case (Some i)
  then obtain as x bs where x: "hi_undo_stack h = as @ x # bs" "i = length as" by (rule rposition_Some)
  then show ?thesis using assms Some by (auto simp: forget_def hist_ids_def entry_edit_ids_def split: if_splits)
next
  case n: None
  show ?thesis
  proof (cases "rposition (has_id tid) (hi_redo_stack h)")
    case None
    then show ?thesis using assms unfolding forget_def n None by (auto split: if_splits)
  next
    case (Some i)
    then obtain as x bs where x: "hi_redo_stack h = as @ x # bs" "i = length as" by (rule rposition_Some)
    then show ?thesis using assms Some unfolding forget_def n by (auto simp: hist_ids_def entry_edit_ids_def split: if_splits)
  qed
qed

lemma transaction_mut_ids:
  assumes m: "transaction_mut tid f h = Some h'" and f: "\<And>t. set (tr_edit_ids (f t)) \<subseteq> set (tr_edit_ids t) \<union> X"
  shows "hist_ids h' \<subseteq> hist_ids h \<union> X"
proof -
  have e: "set (entry_edit_ids (update_entry f x)) \<subseteq> set (entry_edit_ids x) \<union> X" for x
    using f [of "he_transaction x"] by (simp add: entry_edit_ids_def update_entry_def)
  show ?thesis
  proof (cases "rposition (has_id tid) (hi_undo_stack h)")
    case (Some i)
    then obtain as x bs where x: "hi_undo_stack h = as @ x # bs" "i = length as" by (rule rposition_Some)
    have "h' = h\<lparr>hi_undo_stack := as @ update_entry f x # bs\<rparr>" using m Some x by (simp add: transaction_mut_def)
    then show ?thesis using e [of x] unfolding hist_ids_def x(1) by simp blast
  next
    case n: None
    then obtain i where i: "rposition (has_id tid) (hi_redo_stack h) = Some i"
      using m by (cases "rposition (has_id tid) (hi_redo_stack h)") (simp_all add: transaction_mut_def del: rposition_None)
    then obtain as x bs where x: "hi_redo_stack h = as @ x # bs" "i = length as" by (rule rposition_Some)
    have "h' = h\<lparr>hi_redo_stack := as @ update_entry f x # bs\<rparr>" using m n i x by (simp add: transaction_mut_def del: rposition_None)
    then show ?thesis using e [of x] unfolding hist_ids_def x(1) by simp blast
  qed
qed

lemma merge_ids:
  assumes "merge_transactions tid d h = Some h'"
  shows "hist_ids h' \<subseteq> hist_ids h"
proof -
  obtain t h1 where f: "forget tid h = Some (t, h1)" using assms by (auto simp: merge_transactions_def split: bind_splits)
  note i = forget_ids [OF f]
  show ?thesis
  proof (cases t)
    case None
    then show ?thesis using assms f i by (simp add: merge_transactions_def)
  next
    case (Some x)
    let ?m = "transaction_mut d (\<lambda>y. y\<lparr>tr_edit_ids := tr_edit_ids y @ tr_edit_ids x\<rparr>) h1"
    show ?thesis
    proof (cases ?m)
      case None
      then show ?thesis using assms f i Some by (simp add: merge_transactions_def)
    next
      case (Some h2)
      then have "hist_ids h2 \<subseteq> hist_ids h1 \<union> set (tr_edit_ids x)" by (rule transaction_mut_ids) auto
      then show ?thesis using assms f i \<open>t = Some x\<close> Some by (auto simp: merge_transactions_def)
    qed
  qed
qed

section \<open>The clock\<close>

definition lv :: "lamport \<Rightarrow> nat" where
  "lv e = unat (lamport_value e)"

definition stamps_below :: "nat \<Rightarrow> snapshot \<Rightarrow> bool" where
  "stamps_below n sn \<longleftrightarrow>
     (\<forall>f \<in> set (sn_fragments sn). lv (fr_timestamp f) < n \<and> (\<forall>d \<in> set (fr_deletions f). lv d < n)) \<and>
     (\<forall>x \<in> set (to_list (sn_undo_map sn)). lv (edit_id (ue_key x)) < n \<and> lv (undo_id (ue_key x)) < n)"

text \<open>Room for \<open>k\<close> more ticks before the 32-bit counter wraps.\<close>

definition room :: "nat \<Rightarrow> text_buffer \<Rightarrow> bool" where
  "room k b \<longleftrightarrow> lv (bf_lamport_clock b) + k < 2 ^ 32"

lemma tick_lv: "lv c + 1 < 2 ^ 32 \<Longrightarrow> lv (snd (tick c)) = lv c + 1"
  by (simp add: lv_def tick_def unat_word_ariths)

lemma stamps_below_mono: "stamps_below n sn \<Longrightarrow> n \<le> m \<Longrightarrow> stamps_below m sn"
  unfolding stamps_below_def by (meson less_le_trans)

lemma undone_absent:
  assumes "um_wf m" "\<forall>x \<in> set (to_list m). edit_id (ue_key x) \<noteq> e"
  shows "um_is_undone e m = Some False"
proof -
  have "{x \<in> set (to_list m). edit_id (ue_key x) = e} = {}" using assms(2) by auto
  then have "top_count (\<lambda>_. True) e (set (to_list m)) = 0"
    unfolding top_count_def by (simp only: simp_thms image_empty Max_singleton)
  then show ?thesis by (simp add: um_is_undone_def um_undo_count_ok [OF assms(1)])
qed

lemma stamps_fresh:
  assumes "stamps_below (lv c) sn" "visible_ok sn" "0 < lv c"
  shows "fresh_in c sn"
proof -
  have "c \<noteq> lamport_MIN" using assms(3) by (auto simp: lv_def lamport_MIN_def)
  moreover have "um_is_undone c (sn_undo_map sn) = Some False"
    by (rule undone_absent) (use assms in \<open>auto simp: visible_ok_def stamps_below_def\<close>)
  ultimately show ?thesis using assms(1) by (auto simp: fresh_in_def stamps_below_def)
qed

lemma stamps_fresh_op: "stamps_below (lv c) sn \<Longrightarrow> uo_timestamp u = c \<Longrightarrow> fresh_op u (sn_undo_map sn)"
  by (auto simp: stamps_below_def fresh_op_def)

lemma stamps_after_edit:
  assumes r: "edit_result ct ts sn p sn'" and n: "stamps_below n sn" "n \<le> m" "lv ts < m"
  shows "stamps_below m sn'"
proof -
  have m: "stamps_below m sn" by (rule stamps_below_mono [OF n(1,2)])
  have "lv (fr_timestamp f) < m \<and> (\<forall>d \<in> set (fr_deletions f). lv d < m)" if "f \<in> set (sn_fragments sn')" for f
  proof -
    have "accounted ts (set (sn_fragments sn)) {x. ts_contains x (sn_insertion_slices sn')} f"
      using r that unfolding edit_result_def by blast
    then show ?thesis using m n(3) unfolding accounted_def piece_of_def deleted_of_def stamps_below_def by auto
  qed
  moreover have "sn_undo_map sn' = sn_undo_map sn" using r by (simp add: edit_result_def)
  ultimately show ?thesis using m by (simp add: stamps_below_def)
qed

lemma stamps_after_undo:
  assumes um: "um_insert u (sn_undo_map sn) = Some (sn_undo_map sn')" "um_wf (sn_undo_map sn)" "op_wf u"
    and same: "list_all2 same_piece (sn_fragments sn') (sn_fragments sn)"
    and n: "stamps_below n sn" "n \<le> m" "lv (uo_timestamp u) < m" "\<forall>e \<in> fst ` set (uo_counts u). lv e < m"
  shows "stamps_below m sn'"
proof -
  have m: "stamps_below m sn" by (rule stamps_below_mono [OF n(1,2)])
  have "\<exists>g \<in> set (sn_fragments sn). same_piece f g" if "f \<in> set (sn_fragments sn')" for f
    using same that by (metis in_set_conv_nth list_all2_conv_all_nth)
  then have "lv (fr_timestamp f) < m \<and> (\<forall>d \<in> set (fr_deletions f). lv d < m)" if "f \<in> set (sn_fragments sn')" for f
    using m that unfolding same_piece_def stamps_below_def by metis
  moreover have "set (to_list (sn_undo_map sn')) \<subseteq> op_entries u \<union> set (to_list (sn_undo_map sn))"
    using um_insert_ok [OF um(2,3)] um(1) by auto
  then have "lv (edit_id (ue_key x)) < m \<and> lv (undo_id (ue_key x)) < m" if "x \<in> set (to_list (sn_undo_map sn'))" for x
    using m n(3,4) that unfolding stamps_below_def op_entries_iff by (force simp: op_entries_iff)
  ultimately show ?thesis by (simp add: stamps_below_def)
qed

section \<open>The invariant\<close>

text \<open>\<open>E\<close> are the edits undo can find.\<close>

definition hist_ok :: "nat \<Rightarrow> lamport set \<Rightarrow> 'c history \<Rightarrow> bool" where
  "hist_ok n E h \<longleftrightarrow> history_inv h \<and> (\<forall>e \<in> hist_ids h. e \<in> E \<and> lv e < n)"

definition buffer_ok :: "lamport set \<Rightarrow> text_buffer \<Rightarrow> bool" where
  "buffer_ok E b \<longleftrightarrow> snapshot_ok E (bf_snapshot b) \<and> stamps_below (lv (bf_lamport_clock b)) (bf_snapshot b) \<and>
     hist_ok (lv (bf_lamport_clock b)) E (bf_history b) \<and> 0 < lv (bf_lamport_clock b)"

lemma hist_ok_mono: "hist_ok n E h \<Longrightarrow> n \<le> m \<Longrightarrow> E \<subseteq> E' \<Longrightarrow> hist_ok m E' h"
  unfolding hist_ok_def by (meson less_le_trans subsetD)

lemma hist_ok_step: "hist_ok n E h \<Longrightarrow> history_step h h' \<Longrightarrow> hist_ids h' \<subseteq> hist_ids h \<Longrightarrow> hist_ok n E h'"
  unfolding hist_ok_def using history_step_inv by blast

lemma snapshot_ok_version [simp]:
  "snapshot_ok E (sn\<lparr>sn_version := v\<rparr>) = snapshot_ok E sn" "stamps_below n (sn\<lparr>sn_version := v\<rparr>) = stamps_below n sn"
  "texts_ok ct (sn\<lparr>sn_version := v\<rparr>) = texts_ok ct sn"
  by (simp_all add: snapshot_ok_def texts_ok_def index_ok_def slices_ok_def visible_ok_def stamps_below_def)

lemma buffer_ok_history: "buffer_ok E b \<Longrightarrow> hist_ok (lv (bf_lamport_clock b)) E h \<Longrightarrow> buffer_ok E (b\<lparr>bf_history := h\<rparr>)"
  by (simp add: buffer_ok_def)

section \<open>Edits of a buffer\<close>

text \<open>What an edit does to the history.\<close>

definition edit_history ::
  "global \<Rightarrow> nat \<Rightarrow> nat \<Rightarrow> lamport \<Rightarrow> 8 word edit_operation \<Rightarrow> 8 word history \<Rightarrow> 8 word history option" where
  "edit_history v now now' clock op h = do {
     let (_, _, h) = start_transaction v now clock h;
     h \<leftarrow> history_push (Edit op) h;
     h \<leftarrow> push_undo (eo_timestamp op) h;
     (ended, h) \<leftarrow> end_transaction now' h;
     (case ended of
       None \<Rightarrow> Some h
     | Some _ \<Rightarrow> do { (grouped, h) \<leftarrow> group h; _ \<leftarrow> grouped; Some h })
   }"

definition edit_stamp :: "text_buffer \<Rightarrow> lamport" where
  "edit_stamp b = (if hi_transaction_depth (bf_history b) = 0 then snd (tick (bf_lamport_clock b)) else bf_lamport_clock b)"

lemma start_transaction_clock:
  "start_transaction v now c h = (r, c', h') \<Longrightarrow> c' = (if hi_transaction_depth h = 0 then snd (tick c) else c) \<and>
     hi_transaction_depth h' = hi_transaction_depth h + 1 \<and> history_step h h'"
  by (auto intro: history_step.start)
    (auto simp: start_transaction_def push_entry_def tick_def Let_def split: if_splits)

lemma group_some:
  assumes "hi_undo_stack h \<noteq> []"
  shows "\<exists>tid h'. group h = Some (Some tid, h') \<and> hi_transaction_depth h' = hi_transaction_depth h"
proof -
  obtain e es where e: "rev (hi_undo_stack h) = e # es" using assms by (cases "rev (hi_undo_stack h)") auto
  have "group_count (hi_group_interval h) e es < length (hi_undo_stack h)"
    using group_count_le [of "hi_group_interval h" e es] arg_cong [OF e, of length] by simp
  then obtain ks x ms x' where "group_trailing (group_count (hi_group_interval h) e es) h =
      Some (Some (transaction_id x), h\<lparr>hi_undo_stack := ks @ [x']\<rparr>)"
    by (rule group_trailing_nonempty)
  then show ?thesis by (simp add: group_def e)
qed

lemma end_transaction_ok:
  assumes h: "hist_ok n E h" "0 < hi_transaction_depth h"
  shows "\<exists>ended h'. end_transaction now h = Some (ended, h') \<and> hist_ok n E h' \<and> hi_transaction_depth h' = hi_transaction_depth h - 1 \<and>
    (ended \<noteq> None \<longrightarrow> hi_undo_stack h' \<noteq> [])"
proof -
  have "hi_undo_stack h \<noteq> []" using h by (simp add: hist_ok_def history_inv_def)
  then have "\<exists>ended h'. end_transaction now h = Some (ended, h') \<and> hi_transaction_depth h' = hi_transaction_depth h - 1 \<and>
      (ended \<noteq> None \<longrightarrow> hi_undo_stack h' \<noteq> [])"
    using h(2) by (cases "hi_undo_stack h" rule: rev_cases) (auto simp: end_transaction_def Let_def)
  then obtain ended h' where e: "end_transaction now h = Some (ended, h')" "hi_transaction_depth h' = hi_transaction_depth h - 1"
      "ended \<noteq> None \<longrightarrow> hi_undo_stack h' \<noteq> []" by blast
  then show ?thesis
    using hist_ok_step [OF h(1) history_step.finish end_transaction_ids] e(1) by blast
qed

lemma group_hist_ok:
  assumes "hist_ok n E h" "hi_undo_stack h \<noteq> []"
  shows "\<exists>tid h'. group h = Some (Some tid, h') \<and> hist_ok n E h' \<and> hi_transaction_depth h' = hi_transaction_depth h"
  using group_some [OF assms(2)] hist_ok_step [OF assms(1) history_step.group group_ids] by blast

lemma end_transaction_at_ok:
  assumes h: "hist_ok n E (bf_history b)" "0 < hi_transaction_depth (bf_history b)"
  shows "\<exists>r h. end_transaction_at now b = Some (r, b\<lparr>bf_history := h\<rparr>) \<and> hist_ok n E h \<and>
    hi_transaction_depth h = hi_transaction_depth (bf_history b) - 1"
proof -
  obtain ended h' where e: "end_transaction now (bf_history b) = Some (ended, h')" "hist_ok n E h'"
      "hi_transaction_depth h' = hi_transaction_depth (bf_history b) - 1" "ended \<noteq> None \<longrightarrow> hi_undo_stack h' \<noteq> []"
    using end_transaction_ok [OF h] by blast
  show ?thesis
  proof (cases ended)
    case None
    then show ?thesis using e by (intro exI [of _ None] exI [of _ h']) (simp add: end_transaction_at_def)
  next
    case (Some entry)
    then obtain tid g where "group h' = Some (Some tid, g)" "hist_ok n E g" "hi_transaction_depth g = hi_transaction_depth h'"
      using group_hist_ok [OF e(2)] e(4) by auto
    then show ?thesis using e Some
      by (intro exI [of _ "Some (tid, tr_start (he_transaction entry))"] exI [of _ g]) (simp add: end_transaction_at_def)
  qed
qed

lemma push_undo_ok:
  assumes "hist_ok n E h" "0 < hi_transaction_depth h" "op \<in> E" "lv op < n"
  shows "\<exists>h'. push_undo op h = Some h' \<and> hist_ok n E h' \<and> hi_transaction_depth h' = hi_transaction_depth h"
proof -
  have "hi_undo_stack h \<noteq> []" using assms by (simp add: hist_ok_def history_inv_def)
  then have "\<exists>h'. push_undo op h = Some h' \<and> hi_transaction_depth h' = hi_transaction_depth h"
    using assms(2) by (cases "hi_undo_stack h" rule: rev_cases)
      (auto simp: push_undo_def Let_def split: option.split operation.split)
  then obtain h' where h': "push_undo op h = Some h'" "hi_transaction_depth h' = hi_transaction_depth h" by blast
  have "history_inv h'" using assms(1) history_step_inv [OF history_step.push_undo [OF h'(1)]] by (simp add: hist_ok_def)
  then have "hist_ok n E h'" using push_undo_ids [OF h'(1)] assms(1,3,4) unfolding hist_ok_def by blast
  with h' show ?thesis by blast
qed

lemma history_push_hist_ok:
  "hist_ok n E h \<Longrightarrow> \<exists>ops. history_push op h = Some (h\<lparr>hi_operations := ops\<rparr>) \<and> hist_ok n E (h\<lparr>hi_operations := ops\<rparr>)"
  using history_push_ok [of h op] by (auto simp: hist_ok_def history_inv_def)

lemma edit_history_ok:
  assumes h: "hist_ok n E h" "n \<le> m" "lv (eo_timestamp op) < m"
  shows "\<exists>h'. edit_history v now now' c op h = Some h' \<and> hist_ok m (insert (eo_timestamp op) E) h' \<and>
    hi_transaction_depth h' = hi_transaction_depth h"
proof -
  let ?E = "insert (eo_timestamp op) E"
  obtain r c1 h1 where h1: "start_transaction v now c h = (r, c1, h1)" by (metis prod_cases3)
  note d = start_transaction_clock [OF h1]
  have "hist_ok m ?E h" by (rule hist_ok_mono [OF h(1,2)]) blast
  then have ok1: "hist_ok m ?E h1" using hist_ok_step d start_transaction_ids [OF h1] by blast
  obtain ops where h2: "history_push (Edit op) h1 = Some (h1\<lparr>hi_operations := ops\<rparr>)" "hist_ok m ?E (h1\<lparr>hi_operations := ops\<rparr>)"
    using history_push_hist_ok [OF ok1] by blast
  obtain h3 where h3: "push_undo (eo_timestamp op) (h1\<lparr>hi_operations := ops\<rparr>) = Some h3" "hist_ok m ?E h3"
      "hi_transaction_depth h3 = hi_transaction_depth h + 1"
    using push_undo_ok [OF h2(2)] d h(3) by auto
  have "0 < hi_transaction_depth h3" using h3(3) by simp
  from end_transaction_ok [OF h3(2) this] obtain ended h4 where h4: "end_transaction now' h3 = Some (ended, h4)" "hist_ok m ?E h4"
      "hi_transaction_depth h4 = hi_transaction_depth h3 - 1" "ended \<noteq> None \<longrightarrow> hi_undo_stack h4 \<noteq> []"
    by blast
  have d4: "hi_transaction_depth h4 = hi_transaction_depth h" using h4(3) h3(3) by simp
  show ?thesis
  proof (cases ended)
    case None
    then show ?thesis using h1 h2(1) h3(1) h4 d4 by (simp add: edit_history_def)
  next
    case (Some e)
    then obtain tid h5 where "group h4 = Some (Some tid, h5)" "hist_ok m ?E h5" "hi_transaction_depth h5 = hi_transaction_depth h4"
      using group_hist_ok [OF h4(2)] h4(4) by auto
    then show ?thesis using h1 h2(1) h3(1) h4(1) d4 Some by (simp add: edit_history_def)
  qed
qed

lemma buffer_edit_run:
  assumes e: "apply_local_edit es (edit_stamp b) (bf_snapshot b) = Some (op, p, sn)" "eo_timestamp op = edit_stamp b"
    and h: "edit_history (sn_version (bf_snapshot b)) now now' (bf_lamport_clock b) op (bf_history b) = Some h"
  shows "buffer_edit now now' es b = Some (Edit op, b\<lparr>bf_snapshot := sn\<lparr>sn_version := observe (sn_version sn) (edit_stamp b)\<rparr>,
    bf_history := h, bf_lamport_clock := snd (tick (edit_stamp b)), bf_subscriptions := publish p (bf_subscriptions b)\<rparr>)"
proof -
  obtain r c1 h1 where h1: "start_transaction (sn_version (bf_snapshot b)) now (bf_lamport_clock b) (bf_history b) = (r, c1, h1)"
    by (metis prod_cases3)
  have c1: "c1 = edit_stamp b" using start_transaction_clock [OF h1] by (simp add: edit_stamp_def)
  obtain h2 where h2: "history_push (Edit op) h1 = Some h2" using h h1 by (auto simp: edit_history_def split: bind_splits)
  obtain h3 where h3: "push_undo (edit_stamp b) h2 = Some h3" using h h1 h2 e(2) by (auto simp: edit_history_def split: bind_splits)
  obtain ended h4 where h4: "end_transaction now' h3 = Some (ended, h4)"
    using h h1 h2 h3 e(2) by (auto simp: edit_history_def split: bind_splits)
  show ?thesis
  proof (cases ended)
    case None
    then have "h4 = h" using h h1 h2 h3 h4 e(2) by (simp add: edit_history_def)
    then show ?thesis using h1 h2 h3 h4 None e
      by (simp add: buffer_edit_def start_transaction_at_def tick_clock_def c1 tick_def buffer_apply_local_edit_def
          observe_version_def end_transaction_at_def)
  next
    case (Some entry)
    then obtain tid where g: "group h4 = Some (Some tid, h)"
      using h h1 h2 h3 h4 e(2) by (auto simp: edit_history_def split: bind_splits)
    then show ?thesis using h1 h2 h3 h4 Some e
      by (simp add: buffer_edit_def start_transaction_at_def tick_clock_def c1 tick_def buffer_apply_local_edit_def
          observe_version_def end_transaction_at_def)
  qed
qed

lemma edit_stamp_lv:
  assumes "room 2 b"
  shows "lv (bf_lamport_clock b) \<le> lv (edit_stamp b)" "lv (edit_stamp b) \<le> lv (bf_lamport_clock b) + 1"
    "lv (snd (tick (edit_stamp b))) = lv (edit_stamp b) + 1"
  using assms tick_lv [of "bf_lamport_clock b"] tick_lv [of "edit_stamp b"] by (auto simp: room_def edit_stamp_def)

text \<open>An edit of a well formed buffer: the snapshot, the history and the clock afterwards.\<close>

lemma buffer_edit_ok:
  assumes b: "buffer_ok E b" and ct: "texts_ok ct (bf_snapshot b)" and r: "room 2 b"
    and es: "es \<noteq> []" "edits_ok (length (sn_visible_text (bf_snapshot b))) 0 es"
  shows "\<exists>op p sn b'. buffer_edit now now' es b = Some (Edit op, b') \<and> buffer_ok (insert (edit_stamp b) E) b' \<and>
    edit_result (extended ct (edit_stamp b) (inserted es)) (edit_stamp b) (bf_snapshot b) p sn \<and>
    sn_visible_text sn = spliced (sn_visible_text (bf_snapshot b)) 0 (normalized es) \<and>
    bf_snapshot b' = sn\<lparr>sn_version := observe (sn_version sn) (edit_stamp b)\<rparr> \<and>
    bf_lamport_clock b' = snd (tick (edit_stamp b)) \<and> bf_subscriptions b' = publish p (bf_subscriptions b) \<and>
    edit_history (sn_version (bf_snapshot b)) now now' (bf_lamport_clock b) op (bf_history b) = Some (bf_history b') \<and>
    eo_timestamp op = edit_stamp b \<and> eo_version op = sn_version (bf_snapshot b) \<and> fresh_in (edit_stamp b) (bf_snapshot b)"
proof -
  let ?ts = "edit_stamp b" and ?sn = "bf_snapshot b"
  note lvs = edit_stamp_lv [OF r]
  have bb: "snapshot_ok E ?sn" "stamps_below (lv (bf_lamport_clock b)) ?sn" "hist_ok (lv (bf_lamport_clock b)) E (bf_history b)"
    using b by (simp_all add: buffer_ok_def)
  have below: "stamps_below (lv ?ts) ?sn" by (rule stamps_below_mono [OF bb(2) lvs(1)])
  have fresh: "fresh_in ?ts ?sn" using stamps_fresh [OF below] b lvs(1) by (auto simp: buffer_ok_def snapshot_ok_def)
  have "index_ok ?sn" "\<forall>f \<in> set (sn_fragments ?sn). fr_timestamp f \<noteq> ?ts" using bb(1) fresh by (simp_all add: snapshot_ok_def fresh_in_def)
  from apply_local_edit_ok [OF ct this es(2,1)] obtain rs p sn where
    e: "apply_local_edit es ?ts ?sn = Some (\<lparr>eo_timestamp = ?ts, eo_version = sn_version ?sn, eo_ranges = rs, eo_new_text = map snd (normalized es)\<rparr>, p, sn)"
      "edit_result (extended ct ?ts (inserted es)) ?ts ?sn p sn" "sn_visible_text sn = spliced (sn_visible_text ?sn) 0 (normalized es)"
    by blast
  let ?op = "\<lparr>eo_timestamp = ?ts, eo_version = sn_version ?sn, eo_ranges = rs, eo_new_text = map snd (normalized es)\<rparr>"
  let ?n = "lv (snd (tick ?ts))"
  have n: "lv (bf_lamport_clock b) \<le> ?n" "lv ?ts < ?n" "0 < ?n" using lvs by simp_all
  obtain h where h: "edit_history (sn_version ?sn) now now' (bf_lamport_clock b) ?op (bf_history b) = Some h"
      "hist_ok ?n (insert ?ts E) h"
    using edit_history_ok [OF bb(3) n(1), of ?op "sn_version ?sn" now now' "bf_lamport_clock b"] n(2) by auto
  let ?b = "b\<lparr>bf_snapshot := sn\<lparr>sn_version := observe (sn_version sn) ?ts\<rparr>, bf_history := h, bf_lamport_clock := snd (tick ?ts),
    bf_subscriptions := publish p (bf_subscriptions b)\<rparr>"
  have "buffer_edit now now' es b = Some (Edit ?op, ?b)"
    by (rule buffer_edit_run [OF e(1) _ h(1)]) simp
  moreover have "snapshot_ok (insert ?ts E) sn" by (rule edit_result_ok [OF e(2) bb(1) fresh])
  moreover have "stamps_below ?n sn" by (rule stamps_after_edit [OF e(2) bb(2) n(1,2)])
  ultimately show ?thesis using e(2,3) h n(3) fresh
    by (intro exI [of _ ?op] exI [of _ p] exI [of _ sn] exI [of _ ?b]) (simp add: buffer_ok_def)
qed

section \<open>Undo of a buffer\<close>

abbreviation undo_count_of :: "undo_map \<Rightarrow> lamport \<Rightarrow> 32 word" where
  "undo_count_of m e \<equiv> top_count (\<lambda>_. True) e (set (to_list m))"

lemma undo_counts_ok:
  assumes "um_wf m"
  shows "\<exists>cs. undo_counts es m counts = Some cs \<and> (distinct (map fst counts) \<longrightarrow> distinct (map fst cs)) \<and>
    map_of cs = (\<lambda>e. if e \<in> set es then Some (saturating_inc (undo_count_of m e)) else map_of counts e)"
proof (induction es arbitrary: counts)
  case (Cons e es)
  obtain cs where "undo_counts es m (AList.update e (saturating_inc (undo_count_of m e)) counts) = Some cs"
      "distinct (map fst counts) \<longrightarrow> distinct (map fst cs)"
      "map_of cs = (\<lambda>x. if x \<in> set es then Some (saturating_inc (undo_count_of m x))
         else map_of (AList.update e (saturating_inc (undo_count_of m e)) counts) x)"
    using Cons.IH [of "AList.update e (saturating_inc (undo_count_of m e)) counts"] distinct_update [of counts e] by blast
  then show ?case using um_undo_count_ok [OF assms, of e] by (auto simp: update_conv' fun_eq_iff)
qed simp

lemma max_saturating_inc: "max n (saturating_inc n) = saturating_inc n"
proof (cases "n = - 1")
  case False
  then have "n < - 1" by (simp add: word_order.not_eq_extremum)
  then have "unat n < unat (- 1 :: 32 word)" by (rule unat_mono)
  then have "unat n < 2 ^ 32 - 1" by (simp add: unsigned_minus_1_eq_mask mask_eq_exp_minus_1)
  then have "n \<le> n + 1" by (simp add: word_le_nat_alt unat_word_ariths)
  then show ?thesis by (simp add: saturating_inc_def max_def)
qed (simp add: saturating_inc_def)

lemma seen_text_same: "list_all2 same_piece fs gs \<Longrightarrow> seen_text ct u fs = seen_text ct u gs"
  by (induction rule: list_all2_induct) (auto simp: same_piece_def seen_by_def frag_text_def)

lemma snapshot_text:
  assumes "texts_ok ct sn" "visible_ok sn"
  shows "sn_visible_text sn = seen_text ct (undone_in (sn_undo_map sn)) (sn_fragments sn)"
proof -
  have "\<forall>f \<in> set (sn_fragments sn). fr_visible f = seen_in (sn_undo_map sn) f"
    using assms(2) um_visible unfolding visible_ok_def by (metis option.inject)
  then show ?thesis using assms(1) seen_text_visible by (simp add: texts_ok_def)
qed

lemma undo_or_redo_ok:
  assumes b: "buffer_ok E b" and ct: "texts_ok ct (bf_snapshot b)" and r: "room 1 b"
    and ids: "\<forall>e \<in> set (tr_edit_ids t). e \<in> E \<and> lv e < lv (bf_lamport_clock b)"
  shows "\<exists>op b' p ops. undo_or_redo t b = Some (Undo op, b') \<and> buffer_ok E b' \<and> texts_ok ct (bf_snapshot b') \<and>
    list_all2 same_piece (sn_fragments (bf_snapshot b')) (sn_fragments (bf_snapshot b)) \<and>
    undo_count_of (sn_undo_map (bf_snapshot b')) =
      (\<lambda>e. if e \<in> set (tr_edit_ids t) then saturating_inc (undo_count_of (sn_undo_map (bf_snapshot b)) e)
           else undo_count_of (sn_undo_map (bf_snapshot b)) e) \<and>
    relates p (sn_visible_text (bf_snapshot b)) (sn_visible_text (bf_snapshot b')) \<and>
    bf_history b' = (bf_history b)\<lparr>hi_operations := ops\<rparr> \<and>
    bf_lamport_clock b' = snd (tick (bf_lamport_clock b)) \<and> bf_subscriptions b' = publish p (bf_subscriptions b)"
proof -
  let ?c = "bf_lamport_clock b" and ?sn = "bf_snapshot b"
  let ?v = "sn_version ?sn" and ?m = "sn_undo_map ?sn"
  let ?sn1 = "?sn\<lparr>sn_version := observe ?v ?c\<rparr>"
  have bb: "snapshot_ok E ?sn" "stamps_below (lv ?c) ?sn" "hist_ok (lv ?c) E (bf_history b)" using b by (simp_all add: buffer_ok_def)
  have wf: "um_wf ?m" using bb(1) by (simp add: snapshot_ok_def visible_ok_def)
  obtain cs where cs: "undo_counts (tr_edit_ids t) ?m [] = Some cs" "distinct (map fst cs)"
      "map_of cs = (\<lambda>e. if e \<in> set (tr_edit_ids t) then Some (saturating_inc (undo_count_of ?m e)) else None)"
    using undo_counts_ok [OF wf, of "tr_edit_ids t" "[]"] unfolding map_of.simps by force
  let ?u = "\<lparr>uo_timestamp = ?c, uo_version = ?v, uo_counts = cs\<rparr>"
  have dom: "fst ` set cs = set (tr_edit_ids t)" using arg_cong [OF cs(3), of dom] by (simp add: dom_map_of_conv_image_fst dom_if)
  have u: "op_wf ?u" "fresh_op ?u ?m" "fst ` set (uo_counts ?u) \<subseteq> E"
    using cs(2) ids stamps_fresh_op [OF bb(2), of ?u] by (auto simp: op_wf_def dom)
  have s1: "texts_ok ct ?sn1" "index_ok ?sn1" "slices_ok E ?sn1" "visible_ok ?sn1"
    using ct bb(1) by (simp_all add: snapshot_ok_def texts_ok_def index_ok_def slices_ok_def visible_ok_def)
  have u1: "fresh_op ?u (sn_undo_map ?sn1)" using u(2) by simp
  from apply_undo_ok [OF s1 u(1) u1 u(3)] obtain p sn' where
    r: "apply_undo ?u ?sn1 = Some (p, sn')" "um_insert ?u ?m = Some (sn_undo_map sn')" "texts_ok ct sn'"
      "index_ok sn'" "slices_ok E sn'" "visible_ok sn'" "relates p (sn_visible_text ?sn) (sn_visible_text sn')"
      "list_all2 same_piece (sn_fragments sn') (sn_fragments ?sn)"
    by auto
  have n: "lv (snd (tick ?c)) = lv ?c + 1" using assms(3) by (intro tick_lv) (simp add: room_def)
  have counts: "undo_count_of (sn_undo_map sn') e = max (undo_count_of ?m e) (op_count ?u e)" for e
    using um_insert_counts [OF wf u(1,2)] r(2) by auto
  have counts': "undo_count_of (sn_undo_map sn') = (\<lambda>e. if e \<in> set (tr_edit_ids t) then saturating_inc (undo_count_of ?m e) else undo_count_of ?m e)"
    unfolding counts by (rule ext) (simp add: op_count_def cs(3) max_saturating_inc)
  obtain ops where h: "history_push (Undo ?u) (bf_history b) = Some ((bf_history b)\<lparr>hi_operations := ops\<rparr>)"
      "hist_ok (lv ?c) E ((bf_history b)\<lparr>hi_operations := ops\<rparr>)"
    using history_push_hist_ok [OF bb(3)] by blast
  let ?b = "b\<lparr>bf_snapshot := sn', bf_history := (bf_history b)\<lparr>hi_operations := ops\<rparr>, bf_lamport_clock := snd (tick ?c),
    bf_subscriptions := publish p (bf_subscriptions b)\<rparr>"
  have run: "undo_or_redo t b = Some (Undo ?u, ?b)"
    using cs(1) r(1) h(1) by (simp add: undo_or_redo_def undo_operations_def tick_clock_def tick_def observe_version_def buffer_apply_undo_def)
  have "stamps_below (lv ?c + 1) sn'"
    using stamps_after_undo [OF r(2) wf u(1) r(8) bb(2), of "lv ?c + 1"] ids by (simp add: dom less_Suc_eq)
  moreover have "snapshot_ok E sn'" using r(3-6) unfolding snapshot_ok_def by blast
  moreover have "hist_ok (lv ?c + 1) E ((bf_history b)\<lparr>hi_operations := ops\<rparr>)" by (rule hist_ok_mono [OF h(2)]) simp_all
  ultimately have "buffer_ok E ?b" using b n by (simp add: buffer_ok_def)
  then show ?thesis using run r counts' by (intro exI [of _ ?u] exI [of _ ?b] exI [of _ p] exI [of _ ops]) simp
qed

lemma undone_after:
  assumes "undo_count_of m' = (\<lambda>e. if e \<in> S then saturating_inc (undo_count_of m e) else undo_count_of m e)"
    and "\<forall>e \<in> S. undo_count_of m e \<noteq> - 1"
  shows "undone_in m' = (\<lambda>e. if e \<in> S then \<not> undone_in m e else undone_in m e)"
proof
  fix e
  have odd: "(n + 1) mod 2 = 1 \<longleftrightarrow> n mod 2 \<noteq> 1" for n :: "32 word"
    unfolding odd_iff_mod_2_eq_one [symmetric] by simp
  show "undone_in m' e = (if e \<in> S then \<not> undone_in m e else undone_in m e)"
    using fun_cong [OF assms(1), of e] assms(2) odd [of "undo_count_of m e"]
    unfolding undone_in_def by (simp add: saturating_inc_def split: if_splits)
qed

end
