(* ===== verification/BufferCorrect.thy ===== *)
theory BufferCorrect
  imports BufferInv
begin

text \<open>
  What the operations of a buffer promise together: undoing the edits of a transaction restores the
  text, redoing restores the edits, and no session of a user panics.
\<close>

section \<open>Undoing a run of edits\<close>

text \<open>Edits one after the other, with their timestamps.\<close>

inductive edit_run :: "text_buffer \<Rightarrow> lamport list \<Rightarrow> text_buffer \<Rightarrow> bool" for b where
  none: "edit_run b [] b"
| edit: "edit_run b T b' \<Longrightarrow> es \<noteq> [] \<Longrightarrow> edits_ok (length (sn_visible_text (bf_snapshot b'))) 0 es \<Longrightarrow> room 2 b' \<Longrightarrow>
    buffer_edit now now' es b' = Some (Edit op, b'') \<Longrightarrow> edit_run b (T @ [eo_timestamp op]) b''"

lemma undo_count_fresh:
  assumes "stamps_below (lv e) sn"
  shows "undo_count_of (sn_undo_map sn) e = 0"
proof -
  have "{x \<in> set (to_list (sn_undo_map sn)). edit_id (ue_key x) = e} = {}" using assms by (auto simp: stamps_below_def)
  then show ?thesis unfolding top_count_def by (simp only: simp_thms image_empty Max_singleton)
qed

lemma seen_text_extended: "\<forall>f \<in> set fs. fr_timestamp f \<noteq> ts \<Longrightarrow> seen_text (extended ct ts s) u fs = seen_text ct u fs"
  by (induction fs) (auto simp: extended_def frag_text_def)

text \<open>To one who undoes all the edits of a run, the fragments after it show what those before it show.\<close>

lemma edit_run_ok:
  assumes "edit_run b T b'" "buffer_ok E b" "texts_ok ct (bf_snapshot b)"
  shows "\<exists>ct'. buffer_ok (E \<union> set T) b' \<and> texts_ok ct' (bf_snapshot b') \<and>
    (\<forall>u. (\<forall>e \<in> set T. u e) \<longrightarrow> seen_text ct' u (sn_fragments (bf_snapshot b')) = seen_text ct u (sn_fragments (bf_snapshot b))) \<and>
    sn_undo_map (bf_snapshot b') = sn_undo_map (bf_snapshot b) \<and> lv (bf_lamport_clock b) \<le> lv (bf_lamport_clock b') \<and>
    (\<forall>e \<in> set T. lv (bf_lamport_clock b) \<le> lv e \<and> lv e < lv (bf_lamport_clock b'))"
  using assms
proof (induction rule: edit_run.induct)
  case none
  then show ?case by auto
next
  case (edit T b' es now now' op b'')
  then obtain ct' where b': "buffer_ok (E \<union> set T) b'" "texts_ok ct' (bf_snapshot b')"
      "\<forall>u. (\<forall>e \<in> set T. u e) \<longrightarrow> seen_text ct' u (sn_fragments (bf_snapshot b')) = seen_text ct u (sn_fragments (bf_snapshot b))"
      "sn_undo_map (bf_snapshot b') = sn_undo_map (bf_snapshot b)" "lv (bf_lamport_clock b) \<le> lv (bf_lamport_clock b')"
      "\<forall>e \<in> set T. lv (bf_lamport_clock b) \<le> lv e \<and> lv e < lv (bf_lamport_clock b')"
    by blast
  let ?ts = "edit_stamp b'"
  let ?ct = "extended ct' ?ts (inserted es)"
  obtain p sn where e: "buffer_ok (insert ?ts (E \<union> set T)) b''" "edit_result ?ct ?ts (bf_snapshot b') p sn"
      "bf_snapshot b'' = sn\<lparr>sn_version := observe (sn_version sn) ?ts\<rparr>" "bf_lamport_clock b'' = snd (tick ?ts)"
      "eo_timestamp op = ?ts" "fresh_in ?ts (bf_snapshot b')"
    using buffer_edit_ok [OF b'(1,2) edit.hyps(4,2,3), of now now'] unfolding edit.hyps(5) by blast
  note lvs = edit_stamp_lv [OF edit.hyps(4)]
  have "seen_text ?ct u (sn_fragments sn) = seen_text ct u (sn_fragments (bf_snapshot b))" if "u ?ts" "\<forall>e \<in> set T. u e" for u
  proof -
    have "seen_text ?ct u (sn_fragments sn) = seen_text ?ct u (sn_fragments (bf_snapshot b'))"
      using e(2) that(1) unfolding edit_result_def by blast
    also have "\<dots> = seen_text ct' u (sn_fragments (bf_snapshot b'))" using e(6) by (intro seen_text_extended) (simp add: fresh_in_def)
    also have "\<dots> = seen_text ct u (sn_fragments (bf_snapshot b))" using b'(3) that(2) by blast
    finally show ?thesis .
  qed
  moreover have "insert ?ts (E \<union> set T) = E \<union> set (T @ [?ts])" by auto
  moreover have "texts_ok ?ct sn" "sn_undo_map sn = sn_undo_map (bf_snapshot b')" using e(2) by (simp_all add: edit_result_def)
  ultimately show ?case using e(1,3,4,5) b'(4-6) lvs
    by (intro exI [of _ ?ct]) auto
qed

lemma seen_text_agree:
  assumes "stamps_below n sn" "\<forall>e. lv e < n \<longrightarrow> u e = u' e"
  shows "seen_text ct u (sn_fragments sn) = seen_text ct u' (sn_fragments sn)"
  using assms by (intro seen_text_cong) (auto simp: seen_by_def stamps_below_def)

lemma run_undo_redo_ok:
  assumes b: "buffer_ok E b" and run: "edit_run b T b'" and t: "set (tr_edit_ids t) = set T" and r: "room 2 b'"
  shows "\<exists>op b1 op' b2. undo_or_redo t b' = Some (op, b1) \<and> sn_visible_text (bf_snapshot b1) = sn_visible_text (bf_snapshot b) \<and>
    undo_or_redo t b1 = Some (op', b2) \<and> sn_visible_text (bf_snapshot b2) = sn_visible_text (bf_snapshot b')"
proof -
  let ?m = "sn_undo_map (bf_snapshot b)" and ?n = "lv (bf_lamport_clock b)"
  obtain ct where ct: "texts_ok ct (bf_snapshot b)" using b by (auto simp: buffer_ok_def snapshot_ok_def)
  obtain ct' where b': "buffer_ok (E \<union> set T) b'" "texts_ok ct' (bf_snapshot b')"
      "\<forall>u. (\<forall>e \<in> set T. u e) \<longrightarrow> seen_text ct' u (sn_fragments (bf_snapshot b')) = seen_text ct u (sn_fragments (bf_snapshot b))"
      "sn_undo_map (bf_snapshot b') = ?m" "\<forall>e \<in> set T. ?n \<le> lv e \<and> lv e < lv (bf_lamport_clock b')"
    using edit_run_ok [OF run b ct] by blast
  have below: "stamps_below ?n (bf_snapshot b)" and vis: "visible_ok (bf_snapshot b)" "visible_ok (bf_snapshot b')"
    using b b'(1) by (simp_all add: buffer_ok_def snapshot_ok_def)
  have zero: "undo_count_of ?m e = 0" if "e \<in> set T" for e
    using undo_count_fresh [OF stamps_below_mono [OF below]] b'(5) that by blast
  have ids: "\<forall>e \<in> set (tr_edit_ids t). e \<in> E \<union> set T \<and> lv e < lv (bf_lamport_clock b')" using b'(5) t by auto
  have r1: "room 1 b'" using r by (simp add: room_def)
  obtain op b1 where b1: "undo_or_redo t b' = Some (op, b1)" "buffer_ok (E \<union> set T) b1" "texts_ok ct' (bf_snapshot b1)"
      "list_all2 same_piece (sn_fragments (bf_snapshot b1)) (sn_fragments (bf_snapshot b'))"
      "undo_count_of (sn_undo_map (bf_snapshot b1)) = (\<lambda>e. if e \<in> set T then saturating_inc (undo_count_of ?m e) else undo_count_of ?m e)"
      "bf_lamport_clock b1 = snd (tick (bf_lamport_clock b'))"
    using undo_or_redo_ok [OF b'(1,2) r1 ids] unfolding t b'(4) by blast
  let ?m1 = "sn_undo_map (bf_snapshot b1)"
  have c1: "lv (bf_lamport_clock b1) = lv (bf_lamport_clock b') + 1" using r tick_lv [of "bf_lamport_clock b'"] by (simp add: b1(6) room_def)
  have r2: "room 1 b1" using r c1 by (simp add: room_def)
  have ids1: "\<forall>e \<in> set (tr_edit_ids t). e \<in> E \<union> set T \<and> lv e < lv (bf_lamport_clock b1)" using ids c1 by auto
  obtain op' b2 where b2: "undo_or_redo t b1 = Some (op', b2)" "buffer_ok (E \<union> set T) b2" "texts_ok ct' (bf_snapshot b2)"
      "list_all2 same_piece (sn_fragments (bf_snapshot b2)) (sn_fragments (bf_snapshot b1))"
      "undo_count_of (sn_undo_map (bf_snapshot b2)) = (\<lambda>e. if e \<in> set T then saturating_inc (undo_count_of ?m1 e) else undo_count_of ?m1 e)"
    using undo_or_redo_ok [OF b1(2,3) r2 ids1] unfolding t by blast
  let ?m2 = "sn_undo_map (bf_snapshot b2)"
  have u1: "undone_in ?m1 = (\<lambda>e. if e \<in> set T then True else undone_in ?m e)"
    using undone_after [OF b1(5)] zero by (auto simp: undone_in_def)
  have "undone_in ?m2 = (\<lambda>e. if e \<in> set T then \<not> undone_in ?m1 e else undone_in ?m1 e)"
    using undone_after [OF b2(5)] zero fun_cong [OF b1(5)] by (simp add: saturating_inc_def)
  then have u2: "undone_in ?m2 = undone_in ?m" using zero by (auto simp: u1 undone_in_def)
  have "sn_visible_text (bf_snapshot b1) = seen_text ct' (undone_in ?m1) (sn_fragments (bf_snapshot b'))"
    using snapshot_text [OF b1(3)] b1(2) seen_text_same [OF b1(4)] by (simp add: buffer_ok_def snapshot_ok_def)
  also have "\<dots> = seen_text ct (undone_in ?m1) (sn_fragments (bf_snapshot b))" using b'(3) by (simp add: u1)
  also have "\<dots> = seen_text ct (undone_in ?m) (sn_fragments (bf_snapshot b))"
    using b'(5) by (intro seen_text_agree [OF below]) (auto simp: u1)
  also have "\<dots> = sn_visible_text (bf_snapshot b)" using snapshot_text [OF ct vis(1)] by simp
  finally have undone: "sn_visible_text (bf_snapshot b1) = sn_visible_text (bf_snapshot b)" .
  have "sn_visible_text (bf_snapshot b2) = seen_text ct' (undone_in ?m) (sn_fragments (bf_snapshot b'))"
    using snapshot_text [OF b2(3)] b2(2) seen_text_same [OF b2(4)] seen_text_same [OF b1(4)] u2
    by (simp add: buffer_ok_def snapshot_ok_def)
  also have "\<dots> = sn_visible_text (bf_snapshot b')" using snapshot_text [OF b'(2) vis(2)] b'(4) by simp
  finally show ?thesis using b1(1) undone b2(1) by blast
qed

section \<open>Sessions\<close>

text \<open>A new buffer satisfies the invariant; the base text's own insertion cannot be undone.\<close>

lemma new_buffer_ok:
  assumes "char_runs 0 s"
  shows "\<exists>b. new_normalized r i le s = Some b \<and> sn_visible_text (bf_snapshot b) = s \<and> buffer_ok (- {lamport_new LOCAL}) b \<and>
    lv (bf_lamport_clock b) \<le> 2 \<and> hi_transaction_depth (bf_history b) = 0"
proof -
  obtain b where b: "new_normalized r i le s = Some b" "sn_visible_text (bf_snapshot b) = s"
      "snapshot_ok (- {lamport_new LOCAL}) (bf_snapshot b)" "sn_undo_map (bf_snapshot b) = um_new"
      "\<forall>f \<in> set (sn_fragments (bf_snapshot b)). fr_timestamp f = lamport_new LOCAL \<and> fr_deletions f = []"
    using new_normalized_ok [OF assms] by blast
  have h: "bf_history b = history_new s" and c: "bf_lamport_clock b =
      (if s = [] then lamport_new r else lamport_observe (lamport_new r) (lamport_new LOCAL))"
    using b(1) by (auto simp: new_normalized_def Let_def split: bind_splits if_splits)
  have n: "lv (bf_lamport_clock b) = (if s = [] then 1 else 2)"
    by (simp add: c lv_def lamport_new_def lamport_observe_def)
  have frags: "sn_fragments (bf_snapshot b) \<noteq> [] \<longrightarrow> s \<noteq> []" using b(1) by (auto simp: new_normalized_def Let_def)
  have "stamps_below (lv (bf_lamport_clock b)) (bf_snapshot b)"
    using b(4,5) frags n by (auto simp: stamps_below_def um_new_wf lv_def lamport_new_def)
  moreover have "hist_ids (bf_history b) = {}" by (simp add: h hist_ids_def history_new_def)
  moreover have "history_inv (bf_history b)" unfolding h by (rule history_reachable_inv [OF history_reachable.new])
  ultimately have "buffer_ok (- {lamport_new LOCAL}) b" using b(3) n by (simp add: buffer_ok_def hist_ok_def)
  then show ?thesis using b n h by (simp add: history_new_def)
qed

lemma undo_entry_ok:
  assumes b: "buffer_ok E b" and r: "room 1 b" and h: "hist_ok (lv (bf_lamport_clock b)) E h"
    and x: "set (tr_edit_ids t) \<subseteq> hist_ids h"
  shows "\<exists>op b'. undo_or_redo t (b\<lparr>bf_history := h\<rparr>) = Some (op, b') \<and> buffer_ok E b' \<and>
    lv (bf_lamport_clock b') = lv (bf_lamport_clock b) + 1 \<and> hist_ids (bf_history b') = hist_ids h"
proof -
  let ?b = "b\<lparr>bf_history := h\<rparr>"
  have b': "buffer_ok E ?b" by (rule buffer_ok_history [OF b h])
  obtain ct where ct: "texts_ok ct (bf_snapshot ?b)" using b by (auto simp: buffer_ok_def snapshot_ok_def)
  have ids: "\<forall>e \<in> set (tr_edit_ids t). e \<in> E \<and> lv e < lv (bf_lamport_clock ?b)" using h x by (auto simp: hist_ok_def)
  have "room 1 ?b" using r by (simp add: room_def)
  from undo_or_redo_ok [OF b' ct this ids] obtain op b2 ops where
    b2: "undo_or_redo t ?b = Some (Undo op, b2)" "buffer_ok E b2" "bf_history b2 = h\<lparr>hi_operations := ops\<rparr>"
      "bf_lamport_clock b2 = snd (tick (bf_lamport_clock b))"
    by auto
  then show ?thesis using r tick_lv [of "bf_lamport_clock b"] by (simp add: room_def)
qed

lemma undo_all_ok:
  assumes "buffer_ok E b" "room (length ts) b" "\<forall>t \<in> set ts. set (tr_edit_ids t) \<subseteq> hist_ids (bf_history b)"
  shows "\<exists>ops b'. undo_or_redo_all ts b = Some (ops, b') \<and> buffer_ok E b'"
  using assms
proof (induction ts arbitrary: b)
  case (Cons t ts)
  have h: "hist_ok (lv (bf_lamport_clock b)) E (bf_history b)" and r: "room 1 b" and t: "set (tr_edit_ids t) \<subseteq> hist_ids (bf_history b)"
    using Cons.prems by (simp_all add: buffer_ok_def room_def)
  from undo_entry_ok [OF Cons.prems(1) r h t] obtain op b1 where
    b1: "undo_or_redo t b = Some (op, b1)" "buffer_ok E b1" "lv (bf_lamport_clock b1) = lv (bf_lamport_clock b) + 1"
      "hist_ids (bf_history b1) = hist_ids (bf_history b)"
    by auto
  have "room (length ts) b1" using Cons.prems(2) by (simp add: room_def b1(3))
  moreover have "\<forall>t \<in> set ts. set (tr_edit_ids t) \<subseteq> hist_ids (bf_history b1)" using Cons.prems(3) by (simp add: b1(4))
  ultimately show ?case using Cons.IH [OF b1(2)] b1(1) by auto
qed simp

text \<open>Taking an entry off a stack and undoing it.\<close>

lemma buffer_undo_ok:
  assumes b: "buffer_ok E b" and d: "hi_transaction_depth (bf_history b) = 0" and r: "room 1 b"
  shows "\<exists>r b'. buffer_undo b = Some (r, b') \<and> buffer_ok E b'"
    "\<exists>r b'. buffer_redo b = Some (r, b') \<and> buffer_ok E b'"
    "\<exists>r b'. undo_transaction tid b = Some (r, b') \<and> buffer_ok E b'"
proof -
  let ?n = "lv (bf_lamport_clock b)" and ?h = "bf_history b"
  have h: "hist_ok ?n E ?h" using b by (simp add: buffer_ok_def)
  have entry: "(\<exists>op b'. undo_or_redo (he_transaction x) (b\<lparr>bf_history := h'\<rparr>) = Some (op, b') \<and> buffer_ok E b') \<and> buffer_ok E (b\<lparr>bf_history := h'\<rparr>)"
    if "history_step ?h h'" "hist_ids h' = hist_ids ?h \<and> (\<forall>x. e = Some x \<longrightarrow> set (entry_edit_ids x) \<subseteq> hist_ids ?h)" "e = Some x" for e x h'
  proof -
    have h': "hist_ok ?n E h'" using hist_ok_step [OF h that(1)] that(2) by blast
    moreover have "set (tr_edit_ids (he_transaction x)) \<subseteq> hist_ids h'" using that(2,3) by (simp add: entry_edit_ids_def)
    ultimately show ?thesis using undo_entry_ok [OF b r] buffer_ok_history [OF b h'] by blast
  qed
  have none: "buffer_ok E (b\<lparr>bf_history := h'\<rparr>)" if "history_step ?h h'" "hist_ids h' = hist_ids ?h" for h'
    using buffer_ok_history [OF b hist_ok_step [OF h that(1)]] that(2) by blast
  show "\<exists>r b'. buffer_undo b = Some (r, b') \<and> buffer_ok E b'"
  proof -
    have "\<exists>e h'. pop_undo ?h = Some (e, h')" using d by (simp add: pop_undo_def split: option.split)
    then obtain e h' where p: "pop_undo ?h = Some (e, h')" by blast
    then show ?thesis using entry [OF history_step.pop_undo [OF p] pop_ids(1) [OF p]] none [OF history_step.pop_undo [OF p]] pop_ids(1) [OF p]
      by (cases e) (auto simp: buffer_undo_def)
  qed
  show "\<exists>r b'. buffer_redo b = Some (r, b') \<and> buffer_ok E b'"
  proof -
    have "\<exists>e h'. pop_redo ?h = Some (e, h')" using d by (simp add: pop_redo_def split: option.split)
    then obtain e h' where p: "pop_redo ?h = Some (e, h')" by blast
    then show ?thesis using entry [OF history_step.pop_redo [OF p] pop_ids(2) [OF p]] none [OF history_step.pop_redo [OF p]] pop_ids(2) [OF p]
      by (cases e) (auto simp: buffer_redo_def)
  qed
  show "\<exists>r b'. undo_transaction tid b = Some (r, b') \<and> buffer_ok E b'"
  proof -
    have "\<exists>e h'. remove_from_undo tid ?h = Some (e, h')"
    proof (cases "rposition (has_id tid) (hi_undo_stack ?h)")
      case None
      then show ?thesis using d unfolding remove_from_undo_def None by simp
    next
      case (Some i)
      then obtain as x bs where "hi_undo_stack ?h = as @ x # bs" "i = length as" by (rule rposition_Some)
      then show ?thesis using d Some by (simp add: remove_from_undo_def)
    qed
    then obtain e h' where p: "remove_from_undo tid ?h = Some (e, h')" by blast
    then show ?thesis using entry [OF history_step.remove_undo [OF p] remove_ids [OF p]] none [OF history_step.remove_undo [OF p]] remove_ids [OF p]
      by (cases e) (auto simp: undo_transaction_def)
  qed
qed

lemma remove_until_total:
  "hi_transaction_depth h = 0 \<Longrightarrow> \<exists>es h'. remove_from_undo_until tid h = Some (es, h') \<and> length es \<le> length (hi_undo_stack h)"
  "hi_transaction_depth h = 0 \<Longrightarrow> \<exists>es h'. remove_from_redo tid h = Some (es, h') \<and> length es \<le> length (hi_redo_stack h)"
  by (auto simp: remove_from_undo_until_def remove_from_redo_def Let_def split: option.split)

lemma undo_to_ok:
  assumes b: "buffer_ok E b" and d: "hi_transaction_depth (bf_history b) = 0"
  shows "room (length (hi_undo_stack (bf_history b))) b \<Longrightarrow> \<exists>ops b'. undo_to_transaction tid b = Some (ops, b') \<and> buffer_ok E b'"
    "room (length (hi_redo_stack (bf_history b))) b \<Longrightarrow> \<exists>ops b'. redo_to_transaction tid b = Some (ops, b') \<and> buffer_ok E b'"
proof -
  let ?n = "lv (bf_lamport_clock b)" and ?h = "bf_history b"
  have h: "hist_ok ?n E ?h" using b by (simp add: buffer_ok_def)
  have all: "\<exists>ops b'. undo_or_redo_all (map he_transaction es) (b\<lparr>bf_history := h'\<rparr>) = Some (ops, b') \<and> buffer_ok E b'"
    if "history_step ?h h'" "hist_ids h' = hist_ids ?h \<and> (\<forall>x \<in> set es. set (entry_edit_ids x) \<subseteq> hist_ids ?h)"
      "length es \<le> k" "room k b" for es h' k
  proof (rule undo_all_ok)
    show "buffer_ok E (b\<lparr>bf_history := h'\<rparr>)" using buffer_ok_history [OF b hist_ok_step [OF h that(1)]] that(2) by blast
    show "room (length (map he_transaction es)) (b\<lparr>bf_history := h'\<rparr>)" using that(3,4) by (simp add: room_def)
    show "\<forall>t \<in> set (map he_transaction es). set (tr_edit_ids t) \<subseteq> hist_ids (bf_history (b\<lparr>bf_history := h'\<rparr>))"
      using that(2) by (auto simp: entry_edit_ids_def)
  qed
  show "\<exists>ops b'. undo_to_transaction tid b = Some (ops, b') \<and> buffer_ok E b'" if "room (length (hi_undo_stack ?h)) b"
  proof -
    obtain es h' where p: "remove_from_undo_until tid ?h = Some (es, h')" "length es \<le> length (hi_undo_stack ?h)"
      using remove_until_total(1) [OF d] by blast
    then show ?thesis using all [OF history_step.remove_undo_until [OF p(1)] remove_until_ids [OF p(1)] p(2) that]
      by (simp add: undo_to_transaction_def)
  qed
  show "\<exists>ops b'. redo_to_transaction tid b = Some (ops, b') \<and> buffer_ok E b'" if "room (length (hi_redo_stack ?h)) b"
  proof -
    obtain es h' where p: "remove_from_redo tid ?h = Some (es, h')" "length es \<le> length (hi_redo_stack ?h)"
      using remove_until_total(2) [OF d] by blast
    then show ?thesis using all [OF history_step.remove_redo [OF p(1)] remove_redo_ids [OF p(1)] p(2) that]
      by (simp add: redo_to_transaction_def)
  qed
qed

text \<open>
  The steps of a session: what a client of the buffer can call, with the conditions under which it
  may. The clock must not be about to wrap, undo and redo are for outside of transactions, and a
  transaction that is pushed names edits the history already knows.
\<close>

inductive session_step :: "text_buffer \<Rightarrow> text_buffer \<Rightarrow> bool" where
  edit: "es \<noteq> [] \<Longrightarrow> edits_ok (length (sn_visible_text (bf_snapshot b))) 0 es \<Longrightarrow> room 2 b \<Longrightarrow>
    buffer_edit now now' es b = Some (r, b') \<Longrightarrow> session_step b b'"
| start: "room 1 b \<Longrightarrow> start_transaction_at now b = (r, b') \<Longrightarrow> session_step b b'"
| finish: "0 < hi_transaction_depth (bf_history b) \<Longrightarrow> end_transaction_at now b = Some (r, b') \<Longrightarrow> session_step b b'"
| undo: "hi_transaction_depth (bf_history b) = 0 \<Longrightarrow> room 1 b \<Longrightarrow> buffer_undo b = Some (r, b') \<Longrightarrow> session_step b b'"
| redo: "hi_transaction_depth (bf_history b) = 0 \<Longrightarrow> room 1 b \<Longrightarrow> buffer_redo b = Some (r, b') \<Longrightarrow> session_step b b'"
| undo_one: "hi_transaction_depth (bf_history b) = 0 \<Longrightarrow> room 1 b \<Longrightarrow> undo_transaction tid b = Some (r, b') \<Longrightarrow> session_step b b'"
| undo_to: "hi_transaction_depth (bf_history b) = 0 \<Longrightarrow> room (length (hi_undo_stack (bf_history b))) b \<Longrightarrow>
    undo_to_transaction tid b = Some (ops, b') \<Longrightarrow> session_step b b'"
| redo_to: "hi_transaction_depth (bf_history b) = 0 \<Longrightarrow> room (length (hi_redo_stack (bf_history b))) b \<Longrightarrow>
    redo_to_transaction tid b = Some (ops, b') \<Longrightarrow> session_step b b'"
| finalize: "buffer_finalize b = (r, b') \<Longrightarrow> session_step b b'"
| group: "group_until_transaction tid b = Some b' \<Longrightarrow> session_step b b'"
| forget: "forget_transaction tid b = Some (r, b') \<Longrightarrow> session_step b b'"
| merge: "buffer_merge_transactions tid destination b = Some b' \<Longrightarrow> session_step b b'"
| push: "set (tr_edit_ids t) \<subseteq> hist_ids (bf_history b) \<Longrightarrow> buffer_push_transaction t now b = Some b' \<Longrightarrow> session_step b b'"
| push_empty: "room 1 b \<Longrightarrow> buffer_push_empty_transaction now b = Some (tid, b') \<Longrightarrow> session_step b b'"
| line_ending: "session_step b (set_line_ending le b)"

lemma start_transaction_at_ok:
  assumes "buffer_ok E b" "room 1 b" "start_transaction_at now b = (r, b')"
  shows "buffer_ok E b'"
proof -
  obtain c h where s: "start_transaction (sn_version (bf_snapshot b)) now (bf_lamport_clock b) (bf_history b) = (r, c, h)"
      "b' = b\<lparr>bf_history := h, bf_lamport_clock := c\<rparr>"
    using assms(3) by (auto simp: start_transaction_at_def split: prod.splits)
  have c: "lv (bf_lamport_clock b) \<le> lv c"
    using start_transaction_clock [OF s(1)] tick_lv [of "bf_lamport_clock b"] assms(2) by (simp add: room_def split: if_splits)
  have b: "snapshot_ok E (bf_snapshot b)" "stamps_below (lv (bf_lamport_clock b)) (bf_snapshot b)" "hist_ok (lv (bf_lamport_clock b)) E (bf_history b)"
      "0 < lv (bf_lamport_clock b)"
    using assms(1) by (simp_all add: buffer_ok_def)
  have "hist_ok (lv (bf_lamport_clock b)) E h"
    using hist_ok_step [OF b(3)] start_transaction_clock [OF s(1)] start_transaction_ids [OF s(1)] by blast
  then have "hist_ok (lv c) E h" by (rule hist_ok_mono [OF _ c]) simp
  then show ?thesis using b(1,4) stamps_below_mono [OF b(2) c] c by (simp add: buffer_ok_def s(2))
qed

lemma push_entry_ids: "set (tr_edit_ids t) \<subseteq> S \<Longrightarrow> hist_ids h \<subseteq> S \<Longrightarrow> hist_ids (push_entry t now h) \<subseteq> S"
  by (auto simp: push_entry_def hist_ids_def entry_edit_ids_def)

lemma buffer_ok_step:
  assumes "buffer_ok E b" "history_step (bf_history b) h" "hist_ids h \<subseteq> hist_ids (bf_history b)"
  shows "buffer_ok E (b\<lparr>bf_history := h\<rparr>)"
  using assms hist_ok_step buffer_ok_history unfolding buffer_ok_def by blast

lemma push_empty_ok:
  assumes b: "buffer_ok E b" and r: "room 1 b" and p: "buffer_push_empty_transaction now b = Some (tid, b')"
  shows "buffer_ok E b'"
proof -
  obtain c h where s: "push_empty_transaction (sn_version (bf_snapshot b)) now (bf_lamport_clock b) (bf_history b) = Some (tid, c, h)"
      "b' = b\<lparr>bf_history := h, bf_lamport_clock := c\<rparr>"
    using p by (auto simp: buffer_push_empty_transaction_def split: bind_splits)
  have c: "c = snd (tick (bf_lamport_clock b))" and h: "h = push_entry \<lparr>tr_id = tid, tr_edit_ids = [], tr_start = sn_version (bf_snapshot b)\<rparr> now (bf_history b)"
    using s(1) by (auto simp: push_empty_transaction_def tick_def split: if_splits)
  have "hist_ids h \<subseteq> hist_ids (bf_history b)" unfolding h by (rule push_entry_ids) simp_all
  from buffer_ok_step [OF b history_step.push_empty [OF s(1)] this] have "buffer_ok E (b\<lparr>bf_history := h\<rparr>)" .
  moreover have lv: "lv (bf_lamport_clock b) \<le> lv c" using r tick_lv [of "bf_lamport_clock b"] by (simp add: c room_def)
  ultimately show ?thesis unfolding s(2) buffer_ok_def
    using stamps_below_mono [OF _ lv] hist_ok_mono [OF _ lv subset_refl] lv by auto
qed

lemma session_step_ok:
  assumes "session_step b b'" "buffer_ok E b"
  shows "\<exists>E'. buffer_ok E' b'"
  using assms
proof (induction rule: session_step.induct)
  case (edit es b now now' r b')
  obtain ct where "texts_ok ct (bf_snapshot b)" using edit.prems by (auto simp: buffer_ok_def snapshot_ok_def)
  from buffer_edit_ok [OF edit.prems this edit.hyps(3,1,2), of now now'] edit.hyps(4) show ?case by auto
next
  case (start b now r b')
  then show ?case using start_transaction_at_ok by blast
next
  case (finish b now r b')
  then have "hist_ok (lv (bf_lamport_clock b)) E (bf_history b)" by (simp add: buffer_ok_def)
  from end_transaction_at_ok [OF this finish.hyps(1), of now] finish show ?case using buffer_ok_history by fastforce
next
  case (undo b r b')
  from buffer_undo_ok(1) [OF undo.prems undo.hyps(1,2)] undo.hyps(3) show ?case by auto
next
  case (redo b r b')
  from buffer_undo_ok(2) [OF redo.prems redo.hyps(1,2)] redo.hyps(3) show ?case by auto
next
  case (undo_one b tid r b')
  from buffer_undo_ok(3) [OF undo_one.prems undo_one.hyps(1,2), of tid] undo_one.hyps(3) show ?case by auto
next
  case (undo_to b tid ops b')
  from undo_to_ok(1) [OF undo_to.prems undo_to.hyps(1,2), of tid] undo_to.hyps(3) show ?case by auto
next
  case (redo_to b tid ops b')
  from undo_to_ok(2) [OF redo_to.prems redo_to.hyps(1,2), of tid] redo_to.hyps(3) show ?case by auto
next
  case (finalize b r b')
  obtain t h where f: "finalize_last_transaction (bf_history b) = (t, h)" "b' = b\<lparr>bf_history := h\<rparr>"
    using finalize.hyps by (auto simp: buffer_finalize_def split: prod.splits)
  have "hist_ids h \<subseteq> hist_ids (bf_history b)"
    using f(1) by (cases "hi_undo_stack (bf_history b)" rule: rev_cases) (auto simp: finalize_last_transaction_def hist_ids_def)
  then show ?case unfolding f(2) using buffer_ok_step [OF finalize.prems history_step.finalize [OF f(1)]] by blast
next
  case (group tid b b')
  obtain h where g: "group_until tid (bf_history b) = Some h" "b' = b\<lparr>bf_history := h\<rparr>"
    using group.hyps by (auto simp: group_until_transaction_def split: bind_splits)
  have "hist_ids h \<subseteq> hist_ids (bf_history b)" using g(1) by (auto simp: group_until_def split: option.splits dest!: group_trailing_ids)
  then show ?case unfolding g(2) using buffer_ok_step [OF group.prems history_step.group_until [OF g(1)]] by blast
next
  case (forget tid b r b')
  obtain h where f: "forget tid (bf_history b) = Some (r, h)" "b' = b\<lparr>bf_history := h\<rparr>"
    using forget.hyps by (auto simp: forget_transaction_def split: bind_splits)
  then show ?case using buffer_ok_step [OF forget.prems history_step.forget [OF f(1)]] forget_ids [OF f(1)] by blast
next
  case (merge tid destination b b')
  obtain h where m: "merge_transactions tid destination (bf_history b) = Some h" "b' = b\<lparr>bf_history := h\<rparr>"
    using merge.hyps by (auto simp: buffer_merge_transactions_def split: bind_splits)
  then show ?case using buffer_ok_step [OF merge.prems history_step.merge [OF m(1)] merge_ids [OF m(1)]] by blast
next
  case (push t b now b')
  obtain h where h: "push_transaction t now (bf_history b) = Some h" "b' = b\<lparr>bf_history := h\<rparr>"
    using push.hyps by (auto simp: buffer_push_transaction_def split: bind_splits)
  then have "hist_ids h \<subseteq> hist_ids (bf_history b)"
    using push_entry_ids [OF push.hyps(1)] by (auto simp: push_transaction_def split: if_splits)
  then show ?case unfolding h(2) using buffer_ok_step [OF push.prems history_step.push_transaction [OF h(1)]] by blast
next
  case (push_empty b now tid b')
  then show ?case using push_empty_ok by blast
next
  case (line_ending b le)
  then have "buffer_ok E (set_line_ending le b)"
    by (simp add: buffer_ok_def set_line_ending_def snapshot_ok_def texts_ok_def index_ok_def slices_ok_def visible_ok_def stamps_below_def)
  then show ?case by blast
qed

text \<open>The operations that wait are not touched.\<close>

lemma undo_or_redo_deferred: "undo_or_redo t b = Some (op, b') \<Longrightarrow> bf_deferred_ops b' = bf_deferred_ops b"
  by (auto simp: undo_or_redo_def undo_operations_def tick_clock_def observe_version_def buffer_apply_undo_def Let_def
      split: bind_splits prod.splits)

lemma undo_or_redo_all_deferred: "undo_or_redo_all ts b = Some (ops, b') \<Longrightarrow> bf_deferred_ops b' = bf_deferred_ops b"
  by (induction ts arbitrary: b ops) (auto dest!: undo_or_redo_deferred split: bind_splits)

lemma end_transaction_deferred: "end_transaction_at now b = Some (r, b') \<Longrightarrow> bf_deferred_ops b' = bf_deferred_ops b"
  by (auto simp: end_transaction_at_def split: bind_splits option.splits)

lemma session_step_deferred: "session_step b b' \<Longrightarrow> bf_deferred_ops b' = bf_deferred_ops b"
proof (induction rule: session_step.induct)
  case (edit es b now now' r b')
  then show ?case
    by (auto simp: buffer_edit_def start_transaction_at_def tick_clock_def buffer_apply_local_edit_def observe_version_def Let_def
        dest!: end_transaction_deferred split: bind_splits prod.splits)
qed (auto simp: start_transaction_at_def buffer_undo_def buffer_redo_def undo_transaction_def undo_to_transaction_def
    redo_to_transaction_def buffer_finalize_def group_until_transaction_def forget_transaction_def buffer_merge_transactions_def
    buffer_push_transaction_def buffer_push_empty_transaction_def set_line_ending_def Let_def
    dest!: undo_or_redo_deferred undo_or_redo_all_deferred end_transaction_deferred split: bind_splits prod.splits option.splits)

text \<open>None of the operations fails.\<close>

lemma buffer_total:
  assumes b: "buffer_ok E b" and room: "room (2 + length (hi_undo_stack (bf_history b)) + length (hi_redo_stack (bf_history b))) b"
  shows "(\<exists>E. snapshot_ok E (bf_snapshot b)) \<and>
    (es \<noteq> [] \<and> edits_ok (length (sn_visible_text (bf_snapshot b))) 0 es \<longrightarrow> buffer_edit now now' es b \<noteq> None) \<and>
    (if 0 < hi_transaction_depth (bf_history b) then end_transaction_at now b \<noteq> None
     else buffer_undo b \<noteq> None \<and> buffer_redo b \<noteq> None \<and> undo_transaction tid b \<noteq> None \<and>
       undo_to_transaction tid b \<noteq> None \<and> redo_to_transaction tid b \<noteq> None)"
proof -
  have r: "room 1 b" "room 2 b" "room (length (hi_undo_stack (bf_history b))) b" "room (length (hi_redo_stack (bf_history b))) b"
    using room by (simp_all add: room_def)
  obtain ct where ct: "texts_ok ct (bf_snapshot b)" using b by (auto simp: buffer_ok_def snapshot_ok_def)
  have "buffer_edit now now' es b \<noteq> None" if "es \<noteq> []" "edits_ok (length (sn_visible_text (bf_snapshot b))) 0 es"
    using buffer_edit_ok [OF b ct r(2) that, of now now'] by auto
  moreover have "end_transaction_at now b \<noteq> None" if "0 < hi_transaction_depth (bf_history b)"
  proof -
    have "hist_ok (lv (bf_lamport_clock b)) E (bf_history b)" using b by (simp add: buffer_ok_def)
    from end_transaction_at_ok [OF this that, of now] show ?thesis by auto
  qed
  moreover have "buffer_undo b \<noteq> None \<and> buffer_redo b \<noteq> None \<and> undo_transaction tid b \<noteq> None \<and>
      undo_to_transaction tid b \<noteq> None \<and> redo_to_transaction tid b \<noteq> None" if "hi_transaction_depth (bf_history b) = 0"
    using buffer_undo_ok(1,2) [OF b that r(1)] buffer_undo_ok(3) [OF b that r(1), of tid]
      undo_to_ok(1) [OF b that r(3), of tid] undo_to_ok(2) [OF b that r(4), of tid] by auto
  ultimately show ?thesis using b by (auto simp: buffer_ok_def)
qed

lemma sample_buffer:
  "\<exists>b. new_normalized 5 1 Unix [97, 98, 99] = Some b \<and> sn_visible_text (bf_snapshot b) = [97, 98, 99] \<and>
    buffer_ok (- {lamport_new LOCAL}) b \<and> lv (bf_lamport_clock b) \<le> 2 \<and> hi_transaction_depth (bf_history b) = 0 \<and>
    hi_undo_stack (bf_history b) = [] \<and> hi_redo_stack (bf_history b) = []"
proof -
  obtain b where b: "new_normalized 5 1 Unix [97, 98, 99] = Some b" "sn_visible_text (bf_snapshot b) = [97, 98, 99]"
      "buffer_ok (- {lamport_new LOCAL}) b" "lv (bf_lamport_clock b) \<le> 2" "hi_transaction_depth (bf_history b) = 0"
    using new_buffer_ok [of "[97, 98, 99]" 5 1 Unix] by (auto simp: is_char_start_def)
  have "bf_history b = history_new [97, 98, 99]" using b(1) by (auto simp: new_normalized_def Let_def split: bind_splits)
  with b show ?thesis by (simp add: history_new_def)
qed

end
