(* ===== verification/RemoteOps.thy ===== *)
theory RemoteOps
  imports RemoteEdit BufferCorrect
begin

text \<open>
  Operations of other replicas (\<open>apply_ops\<close>, \<open>flush_deferred_ops\<close> and \<open>can_apply_op\<close> in
  \<open>crates/text/src/text.rs\<close>): an operation is applied once its version has been observed, and waits in
  the queue until then. The channels of those who wait for an edit or a version are not part of the
  model.
\<close>

section \<open>Definitions\<close>

definition op_version :: "buffer_op \<Rightarrow> global" where
  "op_version op = (case op of Edit edit \<Rightarrow> eo_version edit | Undo undo \<Rightarrow> uo_version undo)"

definition can_apply_op :: "buffer_op \<Rightarrow> text_buffer \<Rightarrow> bool" where
  "can_apply_op op b =
     (if op_replica_id op \<in> bf_deferred_replicas b then False
      else observed_all (sn_version (bf_snapshot b)) (op_version op))"

definition buffer_apply_remote_edit :: "8 word edit_operation \<Rightarrow> text_buffer \<Rightarrow> text_buffer option" where
  "buffer_apply_remote_edit edit b = do {
     (edits_patch, sn) \<leftarrow>
       apply_remote_edit (eo_version edit) (eo_ranges edit) (eo_new_text edit) (eo_timestamp edit) (bf_snapshot b);
     Some (b\<lparr>bf_snapshot := sn,
       bf_subscriptions := (case edits_patch of None \<Rightarrow> bf_subscriptions b | Some p \<Rightarrow> publish p (bf_subscriptions b))\<rparr>)
   }"

definition observe_clock :: "lamport \<Rightarrow> text_buffer \<Rightarrow> text_buffer" where
  "observe_clock timestamp b = b\<lparr>bf_lamport_clock := lamport_observe (bf_lamport_clock b) timestamp\<rparr>"

definition apply_op :: "buffer_op \<Rightarrow> text_buffer \<Rightarrow> text_buffer option" where
  "apply_op op b =
     (case op of
       Edit edit \<Rightarrow>
         (if \<not> observed (sn_version (bf_snapshot b)) (eo_timestamp edit) then do {
            b \<leftarrow> buffer_apply_remote_edit edit b;
            Some (observe_clock (eo_timestamp edit) (observe_version (eo_timestamp edit) b))
          }
          else Some b)
     | Undo undo \<Rightarrow>
         (if \<not> observed (sn_version (bf_snapshot b)) (uo_timestamp undo) then do {
            b \<leftarrow> buffer_apply_undo undo b;
            Some (observe_clock (uo_timestamp undo) (observe_version (uo_timestamp undo) b))
          }
          else Some b))"

text \<open>The loops of \<open>apply_ops\<close> and of \<open>flush_deferred_ops\<close>, with the operations deferred so far.\<close>

fun apply_new_ops :: "buffer_op list \<Rightarrow> buffer_op list \<Rightarrow> text_buffer \<Rightarrow> (buffer_op list \<times> text_buffer) option" where
  "apply_new_ops [] deferred b = Some (deferred, b)"
| "apply_new_ops (op # ops) deferred b = do {
     h \<leftarrow> history_push op (bf_history b);
     let b = b\<lparr>bf_history := h\<rparr>;
     (if can_apply_op op b then do {
        b \<leftarrow> apply_op op b;
        apply_new_ops ops deferred b
      }
      else apply_new_ops ops (deferred @ [op])
        (b\<lparr>bf_deferred_replicas := insert (op_replica_id op) (bf_deferred_replicas b)\<rparr>))
   }"

fun flush_ops :: "buffer_op list \<Rightarrow> buffer_op list \<Rightarrow> text_buffer \<Rightarrow> (buffer_op list \<times> text_buffer) option" where
  "flush_ops [] deferred b = Some (deferred, b)"
| "flush_ops (op # ops) deferred b =
     (if can_apply_op op b then do {
        b \<leftarrow> apply_op op b;
        flush_ops ops deferred b
      }
      else flush_ops ops (deferred @ [op])
        (b\<lparr>bf_deferred_replicas := insert (op_replica_id op) (bf_deferred_replicas b)\<rparr>))"

definition flush_deferred_ops :: "text_buffer \<Rightarrow> text_buffer option" where
  "flush_deferred_ops b = do {
     let (drained, empty) = oq_drain op_timestamp (bf_deferred_ops b);
     ops \<leftarrow> oq_iter drained;
     (deferred, b) \<leftarrow> flush_ops ops [] (b\<lparr>bf_deferred_replicas := {}, bf_deferred_ops := empty\<rparr>);
     q \<leftarrow> oq_insert op_timestamp deferred (bf_deferred_ops b);
     Some (b\<lparr>bf_deferred_ops := q\<rparr>)
   }"

definition apply_ops :: "buffer_op list \<Rightarrow> text_buffer \<Rightarrow> text_buffer option" where
  "apply_ops ops b = do {
     (deferred, b) \<leftarrow> apply_new_ops ops [] b;
     q \<leftarrow> oq_insert op_timestamp deferred (bf_deferred_ops b);
     flush_deferred_ops (b\<lparr>bf_deferred_ops := q\<rparr>)
   }"

definition has_deferred_ops :: "text_buffer \<Rightarrow> bool" where
  "has_deferred_ops b \<longleftrightarrow> \<not> oq_is_empty (bf_deferred_ops b)"

definition deferred_ops_len :: "text_buffer \<Rightarrow> nat" where
  "deferred_ops_len b = oq_len (bf_deferred_ops b)"

section \<open>Applying one operation\<close>

lemma observe_observed: "observed v t \<Longrightarrow> observe v t = v"
proof -
  assume o: "observed v t"
  show ?thesis
  proof (cases "lamport_value t = 0")
    case False
    let ?i = "unat (lamport_replica t)"
    have i: "?i < length (g_values v)" and le: "lamport_value t \<le> g_values v ! ?i"
      using o False by (auto simp: observed_def global_get_def word_le_0_iff split: if_splits)
    have "(g_values v)[?i := max (g_values v ! ?i) (lamport_value t)] = g_values v" using i le by (simp add: max_def)
    then show ?thesis using i by (simp add: observe_def Let_def)
  qed (simp add: observe_def)
qed

text \<open>What applying does not touch.\<close>

definition delivery :: "text_buffer \<Rightarrow> 8 word history \<Rightarrow> (buffer_op, op_summary) node \<Rightarrow> replica_id set \<Rightarrow> text_buffer" where
  "delivery b h q R = b\<lparr>bf_history := h, bf_deferred_ops := q, bf_deferred_replicas := R\<rparr>"

lemma apply_op_frame: "apply_op op (delivery b h q R) = map_option (\<lambda>b. delivery b h q R) (apply_op op b)"
  by (cases op)
    (auto simp: apply_op_def delivery_def buffer_apply_remote_edit_def buffer_apply_undo_def observe_clock_def observe_version_def
      split: bind_splits option.splits)

lemma apply_op_kept:
  assumes "apply_op op b = Some b'"
  shows "bf_history b' = bf_history b" "bf_deferred_ops b' = bf_deferred_ops b" "bf_deferred_replicas b' = bf_deferred_replicas b"
  using assms
  by (auto simp: apply_op_def buffer_apply_remote_edit_def buffer_apply_undo_def observe_clock_def observe_version_def
      split: bind_splits operation.splits if_splits)

lemma apply_remote_edit_version: "apply_remote_edit v rs us ts sn = Some (p, sn') \<Longrightarrow> sn_version sn' = sn_version sn"
  by (auto simp: apply_remote_edit_def finish_edit_def Let_def split: bind_splits list.splits prod.splits)

lemma apply_undo_version: "apply_undo u sn = Some (p, sn') \<Longrightarrow> sn_version sn' = sn_version sn"
  by (auto simp: apply_undo_def Let_def split: bind_splits prod.splits)

abbreviation version_of :: "text_buffer \<Rightarrow> global" where
  "version_of b \<equiv> sn_version (bf_snapshot b)"

lemma apply_op_version: "apply_op op b = Some b' \<Longrightarrow> version_of b' = observe (version_of b) (op_timestamp op)"
  by (cases op)
    (auto simp: apply_op_def observe_observed buffer_apply_remote_edit_def buffer_apply_undo_def observe_clock_def observe_version_def
      dest: apply_remote_edit_version apply_undo_version split: bind_splits if_splits)

section \<open>Which operations are applied, and when\<close>

text \<open>
  Whether an operation can be applied depends on versions only: \<open>sched v R ops\<close> are those of \<open>ops\<close> that one
  pass applies, in order, and those it defers, when it starts at version \<open>v\<close> with the replicas \<open>R\<close> held back.
\<close>

fun sched :: "global \<Rightarrow> replica_id set \<Rightarrow> buffer_op list \<Rightarrow> buffer_op list \<times> buffer_op list" where
  "sched v R [] = ([], [])"
| "sched v R (op # ops) =
     (if op_replica_id op \<notin> R \<and> observed_all v (op_version op)
      then (let (applied, deferred) = sched (observe v (op_timestamp op)) R ops in (op # applied, deferred))
      else (let (applied, deferred) = sched v (insert (op_replica_id op) R) ops in (applied, op # deferred)))"

fun apply_all :: "buffer_op list \<Rightarrow> text_buffer \<Rightarrow> text_buffer option" where
  "apply_all [] b = Some b"
| "apply_all (op # ops) b = do { b \<leftarrow> apply_op op b; apply_all ops b }"

fun push_all :: "buffer_op list \<Rightarrow> 8 word history \<Rightarrow> 8 word history option" where
  "push_all [] h = Some h"
| "push_all (op # ops) h = do { h \<leftarrow> history_push op h; push_all ops h }"

lemma apply_all_append: "apply_all (xs @ ys) b = do { b \<leftarrow> apply_all xs b; apply_all ys b }"
  by (induction xs arbitrary: b) (auto split: bind_splits)

lemma apply_all_version: "apply_all ops b = Some b' \<Longrightarrow> version_of b' = foldl observe (version_of b) (map op_timestamp ops)"
  by (induction ops arbitrary: b) (auto dest: apply_op_version split: bind_splits)

lemma apply_all_kept: "apply_all ops b = Some b' \<Longrightarrow> bf_history b' = bf_history b"
  by (induction ops arbitrary: b) (auto dest: apply_op_kept(1) split: bind_splits)

lemma delivery_simps [simp]:
  "bf_history (delivery b h q R) = h" "bf_deferred_ops (delivery b h q R) = q" "bf_deferred_replicas (delivery b h q R) = R"
  "bf_snapshot (delivery b h q R) = bf_snapshot b" "bf_lamport_clock (delivery b h q R) = bf_lamport_clock b"
  "delivery (delivery b h q R) h' q' R' = delivery b h' q' R'"
  "(delivery b h q R)\<lparr>bf_history := h'\<rparr> = delivery b h' q R" "(delivery b h q R)\<lparr>bf_deferred_ops := q'\<rparr> = delivery b h q' R"
  "(delivery b h q R)\<lparr>bf_deferred_replicas := R'\<rparr> = delivery b h q R'"
  "delivery b (bf_history b) (bf_deferred_ops b) (bf_deferred_replicas b) = b"
  by (simp_all add: delivery_def)

lemma can_apply_delivery [simp]:
  "can_apply_op op (delivery b h q R) \<longleftrightarrow> op_replica_id op \<notin> R \<and> observed_all (version_of b) (op_version op)"
  by (simp add: can_apply_op_def)

lemma flush_ops_sched:
  "flush_ops ops d (delivery b h q R) = map_option
     (\<lambda>b'. (d @ snd (sched (version_of b) R ops), delivery b' h q (R \<union> op_replica_id ` set (snd (sched (version_of b) R ops)))))
     (apply_all (fst (sched (version_of b) R ops)) b)"
proof (induction ops arbitrary: d b R)
  case (Cons op ops)
  show ?case
  proof (cases "op_replica_id op \<notin> R \<and> observed_all (version_of b) (op_version op)")
    case True
    show ?thesis
    proof (cases "apply_op op b")
      case None
      then show ?thesis using True by (simp add: apply_op_frame split_def Let_def)
    next
      case (Some b1)
      then show ?thesis using True Cons.IH [of d b1 R] apply_op_version [OF Some]
        by (simp add: apply_op_frame split_def Let_def)
    qed
  next
    case False
    then have "\<not> can_apply_op op (delivery b h q R)" by simp
    then show ?thesis using False Cons.IH [of "d @ [op]" b "insert (op_replica_id op) R"]
      by (auto simp: split_def Let_def simp del: can_apply_delivery)
  qed
qed simp

lemma apply_new_ops_sched:
  "apply_new_ops ops d (delivery b h q R) = do {
     h' \<leftarrow> push_all ops h;
     b' \<leftarrow> apply_all (fst (sched (version_of b) R ops)) b;
     Some (d @ snd (sched (version_of b) R ops), delivery b' h' q (R \<union> op_replica_id ` set (snd (sched (version_of b) R ops))))
   }"
proof (induction ops arbitrary: d b h R)
  case (Cons op ops)
  show ?case
  proof (cases "history_push op h")
    case (Some h1)
    show ?thesis
    proof (cases "op_replica_id op \<notin> R \<and> observed_all (version_of b) (op_version op)")
      case True
      show ?thesis
      proof (cases "apply_op op b")
        case None
        then show ?thesis using True Some by (auto simp: apply_op_frame split_def Let_def split: bind_splits)
      next
        case (Some b1)
        then show ?thesis using True \<open>history_push op h = Some h1\<close> Cons.IH [of d b1 h1 R] apply_op_version [OF Some]
          by (simp add: apply_op_frame split_def Let_def)
      qed
    next
      case False
      then have "\<not> can_apply_op op (delivery b h1 q R)" by simp
      then show ?thesis using False Some Cons.IH [of "d @ [op]" b h1 "insert (op_replica_id op) R"]
        by (auto simp: split_def Let_def simp del: can_apply_delivery split: bind_splits)
    qed
  qed simp
qed simp

text \<open>All that \<open>apply_ops\<close> applies, in order, and what it leaves in the queue.\<close>

definition queued :: "buffer_op list \<Rightarrow> (buffer_op, op_summary) node \<Rightarrow> buffer_op list" where
  "queued ops q = (case oq_insert op_timestamp ops q of Some q' \<Rightarrow> to_list q' | None \<Rightarrow> [])"

definition delivered :: "text_buffer \<Rightarrow> buffer_op list \<Rightarrow> buffer_op list" where
  "delivered b ops =
     (let (applied, deferred) = sched (version_of b) (bf_deferred_replicas b) ops;
          v = foldl observe (version_of b) (map op_timestamp applied)
      in applied @ fst (sched v {} (queued deferred (bf_deferred_ops b))))"

definition left_over :: "text_buffer \<Rightarrow> buffer_op list \<Rightarrow> buffer_op list" where
  "left_over b ops =
     (let (applied, deferred) = sched (version_of b) (bf_deferred_replicas b) ops;
          v = foldl observe (version_of b) (map op_timestamp applied)
      in snd (sched v {} (queued deferred (bf_deferred_ops b))))"

lemma apply_ops_run:
  assumes q: "oq_wf op_timestamp (bf_deferred_ops b)" and h: "push_all ops (bf_history b) = Some h"
    and b': "apply_all (delivered b ops) b = Some b'"
  shows "\<exists>q'. apply_ops ops b = Some (delivery b' h q' (op_replica_id ` set (left_over b ops))) \<and>
    oq_insert op_timestamp (left_over b ops) (oq_new op_timestamp) = Some q' \<and> oq_wf op_timestamp q'"
proof -
  let ?v = "version_of b" and ?R = "bf_deferred_replicas b" and ?q = "bf_deferred_ops b"
  obtain a1 d1 where s1: "sched ?v ?R ops = (a1, d1)" by fastforce
  obtain q1 where q1: "oq_insert op_timestamp d1 ?q = Some q1" "oq_wf op_timestamp q1" using oq_insert_ok [OF q, of d1] by blast
  let ?v1 = "foldl observe ?v (map op_timestamp a1)"
  obtain a2 d2 where s2: "sched ?v1 {} (to_list q1) = (a2, d2)" by fastforce
  have d: "delivered b ops = a1 @ a2" "left_over b ops = d2"
    using s1 s2 q1(1) by (simp_all add: delivered_def left_over_def queued_def)
  obtain b1 where b1: "apply_all a1 b = Some b1" "apply_all a2 b1 = Some b'"
    using b' unfolding d apply_all_append by (auto split: bind_splits)
  have v1: "version_of b1 = ?v1" by (rule apply_all_version [OF b1(1)])
  have new: "apply_new_ops ops [] b = Some (d1, delivery b1 h ?q (?R \<union> op_replica_id ` set d1))"
    using apply_new_ops_sched [of ops "[]" b "bf_history b" ?q ?R] h b1(1) s1 by simp
  have iter: "oq_iter q1 = Some (to_list q1)"
    using q1(2) by (simp add: oq_iter_def oq_wf_def tree_iter_ok [of "operation_summary op_timestamp"])
  have flush: "flush_ops (to_list q1) [] (delivery b1 h (oq_new op_timestamp) {}) =
      Some (d2, delivery b' h (oq_new op_timestamp) (op_replica_id ` set d2))"
    using flush_ops_sched [of "to_list q1" "[]" b1 h "oq_new op_timestamp" "{}"] s2 b1(2) by (simp add: v1)
  obtain q2 where q2: "oq_insert op_timestamp d2 (oq_new op_timestamp) = Some q2" "oq_wf op_timestamp q2"
    using oq_insert_ok [OF oq_new_wf(1), of op_timestamp d2] by blast
  have "(delivery b1 h q1 R)\<lparr>bf_deferred_replicas := {}, bf_deferred_ops := q'\<rparr> = delivery b1 h q' {}" for R q'
    by (simp add: delivery_def)
  then show ?thesis using new q1(1) iter flush q2
    by (simp add: apply_ops_def flush_deferred_ops_def oq_drain_def d)
qed

section \<open>Causal delivery\<close>

text \<open>
  An operation of \<open>P\<close> can be delivered to version \<open>v\<close> when all it depends on has been observed or
  can be delivered itself.
\<close>

inductive deliverable :: "global \<Rightarrow> buffer_op set \<Rightarrow> buffer_op \<Rightarrow> bool" for v P where
  deliver: "op \<in> P \<Longrightarrow>
    (\<And>r. global_get (op_version op) r \<le> global_get v r \<or>
      (\<exists>op'. deliverable v P op' \<and> op_replica_id op' = r \<and> global_get (op_version op) r \<le> lamport_value (op_timestamp op'))) \<Longrightarrow>
    deliverable v P op"

text \<open>
  What Lamport clocks and version vectors guarantee of operations: a timestamp belongs to one operation
  and is later than all its operation depends on; an operation depends on the earlier ones of its
  own replica, and so on all of them that anyone else had seen; and \<open>v\<close> has observed what the operations it has
  observed depend on.
\<close>

definition well_versioned :: "global \<Rightarrow> buffer_op set \<Rightarrow> bool" where
  "well_versioned v P \<longleftrightarrow> inj_on op_timestamp P \<and>
     (\<forall>op \<in> P. global_wf (op_version op) \<and> (\<forall>r. global_get (op_version op) r < lamport_value (op_timestamp op)) \<and>
        (observed v (op_timestamp op) \<longrightarrow> observed_all v (op_version op))) \<and>
     (\<forall>op \<in> P. \<forall>op' \<in> P.
        (op_replica_id op = op_replica_id op' \<and> op_timestamp op' < op_timestamp op \<longrightarrow>
           lamport_value (op_timestamp op') \<le> global_get (op_version op) (op_replica_id op')) \<and>
        (global_get (op_version op) (op_replica_id op') < lamport_value (op_timestamp op') \<longrightarrow>
           global_get (op_version op) (op_replica_id op') \<le> global_get (op_version op') (op_replica_id op')))"

lemma foldl_observe_get:
  "n \<le> global_get (foldl observe v (map op_timestamp ops)) r \<longleftrightarrow>
    n \<le> global_get v r \<or> (\<exists>op \<in> set ops. op_replica_id op = r \<and> n \<le> lamport_value (op_timestamp op))"
  by (induction ops arbitrary: v) (auto simp: observe_get op_replica_id_def le_max_iff_disj)

lemma well_versionedD:
  assumes "well_versioned v P" "op \<in> P"
  shows "global_wf (op_version op)" "global_get (op_version op) r < lamport_value (op_timestamp op)"
    "observed v (op_timestamp op) \<Longrightarrow> observed_all v (op_version op)"
  using assms unfolding well_versioned_def by blast+

lemma same_replica_le:
  "op_replica_id op = op_replica_id op' \<Longrightarrow> op_timestamp op \<le> op_timestamp op' \<longleftrightarrow> lamport_value (op_timestamp op) \<le> lamport_value (op_timestamp op')"
  by (auto simp: op_replica_id_def less_eq_lamport_def)

lemma value_less: "lamport_value t < lamport_value t' \<Longrightarrow> t < t'"
  by (simp add: less_lamport_def)

lemma deliverable_in: "deliverable v P op \<Longrightarrow> op \<in> P"
  by (auto elim: deliverable.cases)

text \<open>What a replica did earlier can be delivered too.\<close>

lemma deliverable_earlier:
  assumes "deliverable v P op" and P: "well_versioned v P"
  shows "op' \<in> P \<Longrightarrow> op_replica_id op' = op_replica_id op \<Longrightarrow> op_timestamp op' \<le> op_timestamp op \<Longrightarrow> deliverable v P op'"
  using assms(1)
proof (induction)
  case (deliver op)
  let ?r = "op_replica_id op"
  show ?case
  proof (cases "op_timestamp op' = op_timestamp op")
    case True
    then have "op' = op" using P deliver(1,3) by (auto simp: well_versioned_def inj_on_def)
    moreover have "deliverable v P op" using deliver(1,2) by (intro deliverable.deliver) blast+
    ultimately show ?thesis by simp
  next
    case False
    with deliver.prems have "op_timestamp op' < op_timestamp op" by simp
    then have le: "lamport_value (op_timestamp op') \<le> global_get (op_version op) ?r"
      using P deliver(1,3,4) unfolding well_versioned_def by metis
    from deliver(2) [of ?r] show ?thesis
    proof
      assume "global_get (op_version op) ?r \<le> global_get v ?r"
      then have "observed v (op_timestamp op')" using le deliver(4) by (simp add: observed_def op_replica_id_def)
      then have "observed_all v (op_version op')" by (rule well_versionedD(3) [OF P deliver(3)])
      then show ?thesis using deliver(3) by (intro deliverable.deliver) (simp_all add: observed_all_get [OF well_versionedD(1) [OF P deliver(3)]])
    next
      assume "\<exists>x. (deliverable v P x \<and> (op' \<in> P \<longrightarrow> op_replica_id op' = op_replica_id x \<longrightarrow> op_timestamp op' \<le> op_timestamp x \<longrightarrow> deliverable v P op')) \<and>
        op_replica_id x = ?r \<and> global_get (op_version op) ?r \<le> lamport_value (op_timestamp x)"
      then obtain x :: buffer_op where x: "op' \<in> P \<longrightarrow> op_replica_id op' = op_replica_id x \<longrightarrow> op_timestamp op' \<le> op_timestamp x \<longrightarrow> deliverable v P op'"
          "op_replica_id x = ?r" "global_get (op_version op) ?r \<le> lamport_value (op_timestamp x)" by (elim exE conjE)
      have "op_timestamp op' \<le> op_timestamp x" using le x(2,3) deliver(4) same_replica_le [of op' x] by simp
      then show ?thesis using x(1,2) deliver(3,4) by simp
    qed
  qed
qed

text \<open>What an operation depends on is an operation that can be delivered, not just a later one of the same replica.\<close>

lemma deliverable_exact:
  assumes "deliverable v P op'" and P: "well_versioned v P"
  shows "op \<in> P \<Longrightarrow> global_get (op_version op) (op_replica_id op') \<le> lamport_value (op_timestamp op') \<Longrightarrow>
    global_get (op_version op) (op_replica_id op') \<le> global_get v (op_replica_id op') \<or>
    (\<exists>x. deliverable v P x \<and> op_replica_id x = op_replica_id op' \<and> lamport_value (op_timestamp x) = global_get (op_version op) (op_replica_id op'))"
  using assms(1)
proof (induction)
  case (deliver op')
  let ?r = "op_replica_id op'" and ?n = "global_get (op_version op) (op_replica_id op')"
  show ?case
  proof (cases "?n = lamport_value (op_timestamp op')")
    case True
    have "deliverable v P op'" using deliver(1,2) by (intro deliverable.deliver) blast+
    then show ?thesis using True by auto
  next
    case False
    then have "?n < lamport_value (op_timestamp op')" using deliver(4) by simp
    then have n: "?n \<le> global_get (op_version op') ?r" using P deliver(1,3) unfolding well_versioned_def by blast
    from deliver(2) [of ?r] show ?thesis
    proof
      assume "global_get (op_version op') ?r \<le> global_get v ?r"
      then show ?thesis using n by (intro disjI1) (rule order_trans)
    next
      assume "\<exists>x. (deliverable v P x \<and> (op \<in> P \<longrightarrow> global_get (op_version op) (op_replica_id x) \<le> lamport_value (op_timestamp x) \<longrightarrow>
          global_get (op_version op) (op_replica_id x) \<le> global_get v (op_replica_id x) \<or>
          (\<exists>y. deliverable v P y \<and> op_replica_id y = op_replica_id x \<and> lamport_value (op_timestamp y) = global_get (op_version op) (op_replica_id x)))) \<and>
        op_replica_id x = ?r \<and> global_get (op_version op') ?r \<le> lamport_value (op_timestamp x)"
      then obtain x :: buffer_op where x: "op \<in> P \<longrightarrow> global_get (op_version op) (op_replica_id x) \<le> lamport_value (op_timestamp x) \<longrightarrow>
          global_get (op_version op) (op_replica_id x) \<le> global_get v (op_replica_id x) \<or>
          (\<exists>y. deliverable v P y \<and> op_replica_id y = op_replica_id x \<and> lamport_value (op_timestamp y) = global_get (op_version op) (op_replica_id x))"
          "op_replica_id x = ?r" "global_get (op_version op') ?r \<le> lamport_value (op_timestamp x)"
        by (elim exE conjE)
      show ?thesis using x(1) [unfolded x(2)] deliver(3) order_trans [OF n x(3)] by simp
    qed
  qed
qed

lemma sched_set: "set (fst (sched v R ops)) \<union> set (snd (sched v R ops)) = set ops"
  by (induction v R ops rule: sched.induct) (auto simp: split_def Let_def)

lemma deliverable_now:
  assumes P: "well_versioned v P" and A: "\<forall>op \<in> set A. deliverable v P op" and op: "op \<in> P"
    and o: "observed_all (foldl observe v (map op_timestamp A)) (op_version op)"
  shows "deliverable v P op"
proof (rule deliver [OF op])
  fix r
  have "global_get (op_version op) r \<le> global_get (foldl observe v (map op_timestamp A)) r"
    using o observed_all_get [OF well_versionedD(1) [OF P op]] by blast
  then show "global_get (op_version op) r \<le> global_get v r \<or>
      (\<exists>op'. deliverable v P op' \<and> op_replica_id op' = r \<and> global_get (op_version op) r \<le> lamport_value (op_timestamp op'))"
    unfolding foldl_observe_get using A by blast
qed

lemma sched_sound:
  assumes "\<forall>op \<in> set A. deliverable v P op" "set ops \<subseteq> P" and P: "well_versioned v P"
  shows "\<forall>op \<in> set (fst (sched (foldl observe v (map op_timestamp A)) R ops)). deliverable v P op"
  using assms(1,2)
proof (induction ops arbitrary: A R)
  case (Cons op ops)
  show ?case
  proof (cases "op_replica_id op \<notin> R \<and> observed_all (foldl observe v (map op_timestamp A)) (op_version op)")
    case True
    then have d: "deliverable v P op" using deliverable_now [OF P Cons.prems(1)] Cons.prems(2) by simp
    then have "\<forall>x \<in> set (A @ [op]). deliverable v P x" using Cons.prems(1) by auto
    from Cons.IH [OF this, of R] Cons.prems(2) d True show ?thesis by (simp add: split_def Let_def)
  next
    case False
    with Cons.IH [OF Cons.prems(1)] Cons.prems(2) show ?thesis by (auto simp: split_def Let_def)
  qed
qed simp

text \<open>A pass in timestamp order over all that is left applies all that can be delivered.\<close>

lemma sched_complete:
  assumes "\<forall>op \<in> set A. deliverable v P op" "\<forall>op \<in> set D. \<not> deliverable v P op" "P = set A \<union> set D \<union> set ops"
    and "R = op_replica_id ` set D" "\<forall>x \<in> set D. \<forall>y \<in> set ops. op_timestamp x < op_timestamp y"
    and "sorted_wrt (\<lambda>x y. op_timestamp x < op_timestamp y) ops" and P: "well_versioned v P"
  shows "\<forall>op \<in> set (snd (sched (foldl observe v (map op_timestamp A)) R ops)). \<not> deliverable v P op"
  using assms(1-6)
proof (induction ops arbitrary: A D R)
  case (Cons op ops)
  let ?v = "foldl observe v (map op_timestamp A)" and ?r = "op_replica_id op"
  have op: "op \<in> P" using Cons.prems(3) by simp
  show ?case
  proof (cases "?r \<notin> R \<and> observed_all ?v (op_version op)")
    case True
    then have "deliverable v P op" using deliverable_now [OF P Cons.prems(1) op] by simp
    then have "\<forall>x \<in> set (A @ [op]). deliverable v P x" using Cons.prems(1) by auto
    moreover have "P = set (A @ [op]) \<union> set D \<union> set ops" using Cons.prems(3) by auto
    ultimately show ?thesis using Cons.IH [of "A @ [op]" D R] Cons.prems(2,4-6) True by (simp add: split_def Let_def)
  next
    case False
    have "\<not> deliverable v P op"
    proof
      assume d: "deliverable v P op"
      have "?r \<notin> R"
      proof
        assume "?r \<in> R"
        then obtain x where x: "x \<in> set D" "op_replica_id x = ?r" using Cons.prems(4) by auto
        then have "x \<in> P" "op_timestamp x \<le> op_timestamp op" using Cons.prems(3,5) by auto
        then show False using deliverable_earlier [OF d P] x Cons.prems(2) by blast
      qed
      with False have "\<not> observed_all ?v (op_version op)" by simp
      then obtain r where r: "\<not> global_get (op_version op) r \<le> global_get ?v r"
        using observed_all_get [OF well_versionedD(1) [OF P op]] by blast
      have nv: "\<not> global_get (op_version op) r \<le> global_get v r" using r unfolding foldl_observe_get by blast
      then obtain x where "deliverable v P x" "op_replica_id x = r" "global_get (op_version op) r \<le> lamport_value (op_timestamp x)"
        using d by (auto elim: deliverable.cases)
      then obtain y where y: "deliverable v P y" "op_replica_id y = r" "lamport_value (op_timestamp y) = global_get (op_version op) r"
        using deliverable_exact [OF _ P op] nv by blast
      have lt: "op_timestamp y < op_timestamp op" using well_versionedD(2) [OF P op, of r] y(3) by (simp add: value_less)
      have "y \<notin> set A" using r y(2,3) unfolding foldl_observe_get by auto
      moreover have "y \<notin> set D" using Cons.prems(2) y(1) by blast
      moreover have "y \<noteq> op" using lt by auto
      moreover have "y \<notin> set ops" using Cons.prems(6) lt by auto
      ultimately show False using deliverable_in [OF y(1)] Cons.prems(3) by auto
    qed
    then have "\<forall>x \<in> set (D @ [op]). \<not> deliverable v P x" using Cons.prems(2) by auto
    moreover have "P = set A \<union> set (D @ [op]) \<union> set ops" "insert ?r R = op_replica_id ` set (D @ [op])" using Cons.prems(3,4) by auto
    moreover have "\<forall>x \<in> set (D @ [op]). \<forall>y \<in> set ops. op_timestamp x < op_timestamp y" "sorted_wrt (\<lambda>x y. op_timestamp x < op_timestamp y) ops"
      using Cons.prems(5,6) by auto
    ultimately have "\<forall>x \<in> set (snd (sched ?v (insert ?r R) ops)). \<not> deliverable v P x"
      using Cons.IH [OF Cons.prems(1)] by blast
    then show ?thesis using False \<open>\<not> deliverable v P op\<close> by (auto simp: split_def Let_def)
  qed
qed simp

lemma queue_set:
  assumes q: "oq_wf ts q" and inj: "inj_on ts (set ops \<union> set (to_list q))"
  shows "\<exists>q'. oq_insert ts ops q = Some q' \<and> oq_wf ts q' \<and> set (to_list q') = set ops \<union> set (to_list q)"
proof -
  obtain q' where q': "oq_insert ts ops q = Some q'" "oq_wf ts q'"
      "\<And>t. lookup_key ts t (to_list q') = (case List.find (\<lambda>x. ts x = t) ops of Some x \<Rightarrow> Some x | None \<Rightarrow> lookup_key ts t (to_list q))"
    using oq_insert_ok [OF q, of ops] by blast
  have mem: "x \<in> set (to_list p) \<longleftrightarrow> lookup_key ts (ts x) (to_list p) = Some x" if "oq_wf ts p" for p and x
    using that by (intro lookup_key_mem) (simp add: oq_wf_def)
  have "x \<in> set (to_list q') \<longleftrightarrow> x \<in> set ops \<union> set (to_list q)" for x
  proof (cases "List.find (\<lambda>y. ts y = ts x) ops")
    case None
    then have "x \<notin> set ops" by (auto simp: find_None_iff)
    then show ?thesis using mem [OF q'(2)] mem [OF q] q'(3) [of "ts x"] None by simp
  next
    case (Some y)
    then have y: "y \<in> set ops" "ts y = ts x" by (auto simp: find_Some_iff)
    have "x \<in> set (to_list q') \<longleftrightarrow> y = x" using mem [OF q'(2)] q'(3) [of "ts x"] Some by simp
    moreover have "x \<in> set ops \<union> set (to_list q) \<longleftrightarrow> y = x" using y inj by (auto simp: inj_on_def)
    ultimately show ?thesis by simp
  qed
  with q' show ?thesis by blast
qed

text \<open>What \<open>apply_ops\<close> applies is just what can be delivered.\<close>

lemma delivered_ok:
  assumes q: "oq_wf op_timestamp (bf_deferred_ops b)" and P: "P = set ops \<union> set (to_list (bf_deferred_ops b))"
    and wv: "well_versioned (version_of b) P"
  shows "set (delivered b ops) = {op \<in> P. deliverable (version_of b) P op}" "set (left_over b ops) = {op \<in> P. \<not> deliverable (version_of b) P op}"
proof -
  let ?v = "version_of b" and ?q = "bf_deferred_ops b"
  obtain a1 d1 where s1: "sched ?v (bf_deferred_replicas b) ops = (a1, d1)" by fastforce
  have ad: "set a1 \<union> set d1 = set ops" using sched_set [of ?v "bf_deferred_replicas b" ops] s1 by simp
  have inj: "inj_on op_timestamp P" using wv by (simp add: well_versioned_def)
  then have "inj_on op_timestamp (set d1 \<union> set (to_list ?q))" by (rule inj_on_subset) (use P ad in blast)
  from queue_set [OF q this] obtain q1 where q1: "oq_insert op_timestamp d1 ?q = Some q1" "oq_wf op_timestamp q1"
      "set (to_list q1) = set d1 \<union> set (to_list ?q)" by blast
  let ?v1 = "foldl observe ?v (map op_timestamp a1)"
  obtain a2 d2 where s2: "sched ?v1 {} (to_list q1) = (a2, d2)" by fastforce
  have d: "delivered b ops = a1 @ a2" "left_over b ops = d2"
    using s1 s2 q1(1) by (simp_all add: delivered_def left_over_def queued_def)
  have P': "P = set a1 \<union> set (to_list q1)" using P ad q1(3) by blast
  have sound1: "\<forall>op \<in> set a1. deliverable ?v P op"
    using sched_sound [of "[]" ?v P ops "bf_deferred_replicas b"] wv s1 P by simp
  have sound2: "\<forall>op \<in> set a2. deliverable ?v P op"
    using sched_sound [OF sound1 _ wv, of "to_list q1" "{}"] P' s2 by simp
  have "sorted_wrt (\<lambda>x y. op_timestamp x < op_timestamp y) (to_list q1)"
    using q1(2) by (simp add: oq_wf_def sorted_keys_def sorted_wrt_map)
  then have complete: "\<forall>op \<in> set d2. \<not> deliverable ?v P op"
    using sched_complete [OF sound1, of "[]" "to_list q1" "{}"] P' wv s2 by simp
  have "set a2 \<union> set d2 = set (to_list q1)" using sched_set [of ?v1 "{}" "to_list q1"] s2 by simp
  then show "set (delivered b ops) = {op \<in> P. deliverable ?v P op}" "set (left_over b ops) = {op \<in> P. \<not> deliverable ?v P op}"
    unfolding d using P' sound1 sound2 complete by auto
qed

section \<open>Operations that fit the buffer\<close>

text \<open>
  What an operation must satisfy when it is applied, as one that an honest replica has made does: its
  timestamp is new and later than what its version knows; the ranges of an edit are ordered,
  disjoint and inside the text its version sees; an undo counts edits that undo can find.
\<close>

fun acceptable :: "lamport set \<Rightarrow> text_buffer \<Rightarrow> buffer_op \<Rightarrow> bool" where
  "acceptable E b (Edit e) \<longleftrightarrow>
     observed (version_of b) (eo_timestamp e) \<or>
     fresh_in (eo_timestamp e) (bf_snapshot b) \<and>
     (\<forall>f \<in> set (sn_fragments (bf_snapshot b)). observed (eo_version e) (fr_timestamp f) \<longrightarrow> fr_timestamp f < eo_timestamp e) \<and>
     length (eo_new_text e) = length (eo_ranges e) \<and>
     edits_ok (length (view (version_mark (eo_version e) (sn_undo_map (bf_snapshot b)) (eo_timestamp e)) (bf_snapshot b))) 0
       (zip (eo_ranges e) (eo_new_text e))"
| "acceptable E b (Undo u) \<longleftrightarrow>
     observed (version_of b) (uo_timestamp u) \<or>
     op_wf u \<and> fresh_op u (sn_undo_map (bf_snapshot b)) \<and> fst ` set (uo_counts u) \<subseteq> E \<and>
     (\<forall>e \<in> fst ` set (uo_counts u). lv e < lv (uo_timestamp u))"

text \<open>The clock does not wrap.\<close>

definition clock_room :: "text_buffer \<Rightarrow> lamport \<Rightarrow> bool" where
  "clock_room b t \<longleftrightarrow> max (lv (bf_lamport_clock b)) (lv t) + 1 < 2 ^ 32"

fun known_after :: "lamport set \<Rightarrow> text_buffer \<Rightarrow> buffer_op \<Rightarrow> lamport set" where
  "known_after E b (Edit e) = (if observed (version_of b) (eo_timestamp e) then E else insert (eo_timestamp e) E)"
| "known_after E b (Undo u) = E"

fun acceptable_run :: "lamport set \<Rightarrow> text_buffer \<Rightarrow> buffer_op list \<Rightarrow> bool" where
  "acceptable_run E b [] \<longleftrightarrow> True"
| "acceptable_run E b (op # ops) \<longleftrightarrow> acceptable E b op \<and> clock_room b (op_timestamp op) \<and>
     (case apply_op op b of None \<Rightarrow> True | Some b' \<Rightarrow> acceptable_run (known_after E b op) b' ops)"

lemma lamport_observe_lv: "max (lv c) (lv t) + 1 < 2 ^ 32 \<Longrightarrow> lv (lamport_observe c t) = max (lv c) (lv t) + 1"
  by (simp add: lv_def lamport_observe_def unat_word_ariths max_def word_le_nat_alt split: if_splits)

lemma snapshot_ok_mono:
  assumes "snapshot_ok E sn" "fresh_in t sn"
  shows "snapshot_ok (insert t E) sn"
proof -
  have "insert t E \<inter> insert (fr_timestamp f) (set (fr_deletions f)) = E \<inter> insert (fr_timestamp f) (set (fr_deletions f))"
    if "f \<in> set (sn_fragments sn)" for f
    using assms(2) that by (auto simp: fresh_in_def)
  then have "slices_ok (insert t E) sn = slices_ok E sn" by (auto simp: slices_ok_def)
  then show ?thesis using assms(1) by (simp add: snapshot_ok_def)
qed

text \<open>The new snapshot of an edit from elsewhere, with or without ranges.\<close>

lemma remote_edit_ok:
  assumes b: "snapshot_ok E sn" "stamps_below n sn" and fresh: "fresh_in ts sn"
    and causal: "\<forall>f \<in> set (sn_fragments sn). observed v (fr_timestamp f) \<longrightarrow> fr_timestamp f < ts"
    and len: "length texts = length ranges"
    and ok: "edits_ok (length (view (version_mark v (sn_undo_map sn) ts) sn)) 0 (zip ranges texts)"
    and m: "n \<le> m" "lv ts < m"
  shows "\<exists>p sn'. apply_remote_edit v ranges texts ts sn = Some (p, sn') \<and> snapshot_ok (insert ts E) sn' \<and> stamps_below m sn'"
proof (cases "ranges = []")
  case True
  then show ?thesis using snapshot_ok_mono [OF b(1) fresh] stamps_below_mono [OF b(2) m(1)] by (simp add: apply_remote_edit_def)
next
  case False
  obtain ct where "texts_ok ct sn" "index_ok sn" "um_wf (sn_undo_map sn)" using b(1) by (auto simp: snapshot_ok_def visible_ok_def)
  moreover have "\<forall>f \<in> set (sn_fragments sn). fr_timestamp f \<noteq> ts" using fresh by (simp add: fresh_in_def)
  ultimately obtain p sn' where r: "apply_remote_edit v ranges texts ts sn = Some (Some p, sn')"
      "edit_result (extended ct ts (concat texts)) ts sn p sn'"
    using apply_remote_edit_ok [OF _ _ _ _ causal False len ok] by blast
  then show ?thesis using edit_result_ok [OF r(2) b(1) fresh] stamps_after_edit [OF r(2) b(2) m] by blast
qed

lemma apply_op_ok:
  assumes b: "buffer_ok E b" and op: "acceptable E b op" "clock_room b (op_timestamp op)"
  shows "\<exists>b'. apply_op op b = Some b' \<and> buffer_ok (known_after E b op) b'"
proof (cases "observed (version_of b) (op_timestamp op)")
  case True
  then show ?thesis using b by (cases op) (simp_all add: apply_op_def)
next
  case False
  let ?sn = "bf_snapshot b" and ?t = "op_timestamp op"
  let ?n = "lv (lamport_observe (bf_lamport_clock b) ?t)"
  have n: "lv (bf_lamport_clock b) \<le> ?n" "lv ?t < ?n" "0 < ?n"
    using lamport_observe_lv [of "bf_lamport_clock b" ?t] op(2) by (simp_all add: clock_room_def)
  have bb: "snapshot_ok E ?sn" "stamps_below (lv (bf_lamport_clock b)) ?sn" "hist_ok (lv (bf_lamport_clock b)) E (bf_history b)"
    using b by (simp_all add: buffer_ok_def)
  show ?thesis
  proof (cases op)
    case (Edit e)
    then have e: "fresh_in ?t ?sn" "\<forall>f \<in> set (sn_fragments ?sn). observed (eo_version e) (fr_timestamp f) \<longrightarrow> fr_timestamp f < ?t"
        "length (eo_new_text e) = length (eo_ranges e)"
        "edits_ok (length (view (version_mark (eo_version e) (sn_undo_map ?sn) ?t) ?sn)) 0 (zip (eo_ranges e) (eo_new_text e))"
      using op(1) False by auto
    obtain p sn' where r: "apply_remote_edit (eo_version e) (eo_ranges e) (eo_new_text e) ?t ?sn = Some (p, sn')"
        "snapshot_ok (insert ?t E) sn'" "stamps_below ?n sn'"
      using remote_edit_ok [OF bb(1,2) e n(1,2)] by blast
    moreover have "hist_ok ?n (insert ?t E) (bf_history b)" by (rule hist_ok_mono [OF bb(3) n(1)]) blast
    ultimately show ?thesis using Edit False n(3) r(1)
      by (simp add: apply_op_def buffer_apply_remote_edit_def observe_version_def observe_clock_def buffer_ok_def)
  next
    case (Undo u)
    then have u: "op_wf u" "fresh_op u (sn_undo_map ?sn)" "fst ` set (uo_counts u) \<subseteq> E" "\<forall>e \<in> fst ` set (uo_counts u). lv e < lv ?t"
      using op(1) False by auto
    obtain ct where s: "texts_ok ct ?sn" "index_ok ?sn" "slices_ok E ?sn" "visible_ok ?sn" using bb(1) by (auto simp: snapshot_ok_def)
    from apply_undo_ok [OF s u(1-3)] obtain p sn' where r: "apply_undo u ?sn = Some (p, sn')"
        "um_insert u (sn_undo_map ?sn) = Some (sn_undo_map sn')" "texts_ok ct sn'" "index_ok sn'" "slices_ok E sn'" "visible_ok sn'"
        "list_all2 same_piece (sn_fragments sn') (sn_fragments ?sn)"
      by blast
    have "um_wf (sn_undo_map ?sn)" using s(4) by (simp add: visible_ok_def)
    moreover have "lv (uo_timestamp u) < ?n" "\<forall>e \<in> fst ` set (uo_counts u). lv e < ?n" using n(2) u(4) Undo by auto
    ultimately have "stamps_below ?n sn'" using stamps_after_undo [OF r(2) _ u(1) r(7) bb(2) n(1)] by blast
    moreover have "snapshot_ok E sn'" using r(3-6) unfolding snapshot_ok_def by blast
    moreover have "hist_ok ?n E (bf_history b)" by (rule hist_ok_mono [OF bb(3) n(1)]) blast
    ultimately show ?thesis using Undo False r(1) n(3)
      by (simp add: apply_op_def buffer_apply_undo_def observe_version_def observe_clock_def buffer_ok_def)
  qed
qed

lemma apply_all_ok:
  assumes "buffer_ok E b" "acceptable_run E b ops"
  shows "\<exists>b' E'. apply_all ops b = Some b' \<and> buffer_ok E' b'"
  using assms
proof (induction ops arbitrary: b E)
  case (Cons op ops)
  then have "acceptable E b op" "clock_room b (op_timestamp op)" by simp_all
  then obtain b1 where b1: "apply_op op b = Some b1" "buffer_ok (known_after E b op) b1"
    using apply_op_ok [OF Cons.prems(1)] by blast
  then have "acceptable_run (known_after E b op) b1 ops" using Cons.prems(2) by simp
  from Cons.IH [OF b1(2) this] show ?case using b1(1) by simp
qed auto

lemma push_all_ok:
  assumes "history_inv h"
  shows "\<exists>ops'. push_all ops h = Some (h\<lparr>hi_operations := ops'\<rparr>) \<and> history_inv (h\<lparr>hi_operations := ops'\<rparr>)"
  using assms
proof (induction ops arbitrary: h)
  case Nil
  then show ?case by (intro exI [of _ "hi_operations h"]) simp
next
  case (Cons op ops)
  have "tm_wf (hi_operations h)" using Cons.prems by (simp add: history_inv_def)
  then obtain o1 where o1: "history_push op h = Some (h\<lparr>hi_operations := o1\<rparr>)" using history_push_ok [of h op] by blast
  have "history_inv (h\<lparr>hi_operations := o1\<rparr>)" using history_step_inv [OF history_step.push [OF o1] Cons.prems] .
  from Cons.IH [OF this] show ?case using o1 by auto
qed

lemma apply_ops_ok:
  assumes b: "buffer_ok E b" "oq_wf op_timestamp (bf_deferred_ops b)" and run: "acceptable_run E b (delivered b ops)"
  shows "\<exists>b' E' q'. apply_ops ops b = Some b' \<and> buffer_ok E' b' \<and> bf_deferred_ops b' = q' \<and> oq_wf op_timestamp q' \<and>
    oq_insert op_timestamp (left_over b ops) (oq_new op_timestamp) = Some q' \<and>
    bf_deferred_replicas b' = op_replica_id ` set (left_over b ops) \<and>
    version_of b' = foldl observe (version_of b) (map op_timestamp (delivered b ops))"
proof -
  obtain b1 E' where b1: "apply_all (delivered b ops) b = Some b1" "buffer_ok E' b1" using apply_all_ok [OF b(1) run] by blast
  obtain os where h: "push_all ops (bf_history b) = Some ((bf_history b)\<lparr>hi_operations := os\<rparr>)" "history_inv ((bf_history b)\<lparr>hi_operations := os\<rparr>)"
    using push_all_ok [of "bf_history b" ops] b(1) unfolding buffer_ok_def hist_ok_def by blast
  let ?h = "(bf_history b)\<lparr>hi_operations := os\<rparr>"
  obtain q' where q': "apply_ops ops b = Some (delivery b1 ?h q' (op_replica_id ` set (left_over b ops)))"
      "oq_insert op_timestamp (left_over b ops) (oq_new op_timestamp) = Some q'" "oq_wf op_timestamp q'"
    using apply_ops_run [OF b(2) h(1) b1(1)] by blast
  have kept: "bf_history b1 = bf_history b" by (rule apply_all_kept [OF b1(1)])
  have "buffer_ok E' (delivery b1 ?h q' R)" for R
    using b1(2) h(2) kept by (auto simp: buffer_ok_def hist_ok_def)
  then show ?thesis using q' apply_all_version [OF b1(1)] by auto
qed

end
