(* ===== verification/Replica.thy ===== *)
theory Replica
  imports RemoteOps
begin

text \<open>
  A replica of a buffer: the states that its own operations and those it receives lead to, and what
  holds in all of them.
\<close>

inductive replica_reachable :: "text_buffer \<Rightarrow> bool" where
  new: "char_runs 0 s \<Longrightarrow> new_normalized r i le s = Some b \<Longrightarrow> replica_reachable b"
| own: "replica_reachable b \<Longrightarrow> session_step b b' \<Longrightarrow> replica_reachable b'"
| receive: "replica_reachable b \<Longrightarrow> buffer_ok E b \<Longrightarrow> acceptable_run E b (delivered b ops) \<Longrightarrow>
    apply_ops ops b = Some b' \<Longrightarrow> replica_reachable b'"

lemma replica_reachable_ok: "replica_reachable b \<Longrightarrow> (\<exists>E. buffer_ok E b) \<and> oq_wf op_timestamp (bf_deferred_ops b)"
proof (induction rule: replica_reachable.induct)
  case (new s r i le b)
  have "bf_deferred_ops b = oq_new op_timestamp" using new(2) by (auto simp: new_normalized_def Let_def split: bind_splits)
  then show ?case using new new_buffer_ok [OF new(1), of r i le] oq_new_wf(1) by auto
next
  case (own b b')
  then show ?case using session_step_ok session_step_deferred by metis
next
  case (receive b E ops b')
  then have "oq_wf op_timestamp (bf_deferred_ops b)" by simp
  from apply_ops_ok [OF receive.hyps(2) this receive.hyps(3)] receive.hyps(4) show ?case by auto
qed






text \<open>An edit that can be applied at once, and one that depends on an operation that has not arrived.\<close>

definition sample_ready :: buffer_op where
  "sample_ready = Edit \<lparr>eo_timestamp = Lamport 9 8, eo_version = observe global_new (Lamport 1 0),
     eo_ranges = [(1, 2)], eo_new_text = [[120]]\<rparr>"

definition sample_waiting :: buffer_op where
  "sample_waiting = Edit \<lparr>eo_timestamp = Lamport 12 9, eo_version = observe (observe global_new (Lamport 1 0)) (Lamport 11 10),
     eo_ranges = [(0, 1)], eo_new_text = [[]]\<rparr>"

lemma get_new [simp]: "global_get global_new r = 0"
  by (simp add: global_get_eq)

lemma sample_ops:
  "op_version sample_waiting = observe (observe global_new (Lamport 1 0)) (Lamport 11 10)" "op_version sample_ready = observe global_new (Lamport 1 0)"
  "op_timestamp sample_waiting = Lamport 12 9" "op_timestamp sample_ready = Lamport 9 8"
  by (simp_all add: sample_waiting_def sample_ready_def op_version_def)

lemma sample_wf: "global_wf (observe global_new (Lamport 1 0))" "global_wf (observe (observe global_new (Lamport 1 0)) (Lamport 11 10))"
  by (intro wf_intros)+

lemma sample_versioned: "well_versioned (observe global_new (Lamport 1 0)) {sample_waiting, sample_ready}"
  using sample_wf
  by (simp add: well_versioned_def sample_ops op_replica_id_def observe_get observed_def inj_on_def)

lemma sample_sched:
  "sched (observe global_new (Lamport 1 0)) {} [sample_waiting, sample_ready] = ([sample_ready], [sample_waiting])"
  "sched (observe (observe global_new (Lamport 1 0)) (Lamport 9 8)) {} [sample_waiting] = ([], [sample_waiting])"
proof -
  have "\<not> observed_all v (op_version sample_waiting)" if "global_get v 10 < 11" for v
    using that by (auto simp: sample_ops observed_all_get [OF sample_wf(2)] observe_get intro!: exI [of _ 10])
  moreover have "observed_all (observe global_new (Lamport 1 0)) (op_version sample_ready)"
    by (simp add: sample_ops observed_all_get [OF sample_wf(1)])
  ultimately show "sched (observe global_new (Lamport 1 0)) {} [sample_waiting, sample_ready] = ([sample_ready], [sample_waiting])"
    "sched (observe (observe global_new (Lamport 1 0)) (Lamport 9 8)) {} [sample_waiting] = ([], [sample_waiting])"
    by (simp_all add: op_replica_id_def sample_ops observe_get)
qed

lemma queued_single: "queued [op] (oq_new op_timestamp) = [op]"
proof -
  obtain q where q: "oq_insert op_timestamp [op] (oq_new op_timestamp) = Some q" "oq_wf op_timestamp q" "set (to_list q) = {op}"
    using queue_set [OF oq_new_wf(1) [of op_timestamp], of "[op]"] by (auto simp: oq_new_wf)
  have "sorted_wrt (\<lambda>x y. op_timestamp x < op_timestamp y) (to_list q)"
    using q(2) by (simp add: oq_wf_def sorted_keys_def sorted_wrt_map)
  with q(3) have "to_list q = [op]"
    by (cases "to_list q"; cases "tl (to_list q)") auto
  with q(1) show ?thesis by (simp add: queued_def)
qed


end
