(* ===== verification/Bitmap.thy ===== *)
theory Bitmap
  imports Prelude
begin

unbundle bit_operations_syntax

text \<open>
  The bit operations of a chunk of a rope (\<open>crates/rope/src/chunk.rs\<close>): the bit counts of the
  standard library, the masks, and the branchless search for the \<open>n\<close>-th set bit. A bitmap is
  described by the list of its bits, the lowest first.
\<close>

section \<open>Counting bits\<close>

text \<open>\<open>count_ones\<close>, \<open>trailing_zeros\<close> and \<open>leading_zeros\<close>.\<close>

definition count_ones :: "'a::len word \<Rightarrow> nat" where
  "count_ones w = length (filter (bit w) [0..<LENGTH('a)])"

definition trailing_zeros :: "'a::len word \<Rightarrow> nat" where
  "trailing_zeros w = length (takeWhile (\<lambda>i. \<not> bit w i) [0..<LENGTH('a)])"

definition leading_zeros :: "'a::len word \<Rightarrow> nat" where
  "leading_zeros w = length (takeWhile (\<lambda>i. \<not> bit w i) (rev [0..<LENGTH('a)]))"

text \<open>The set bits in a range.\<close>

definition ones_in :: "'a::len word \<Rightarrow> nat \<Rightarrow> nat \<Rightarrow> nat" where
  "ones_in v i j = length (filter (bit v) [i..<j])"

lemma ones_in_split: "i \<le> j \<Longrightarrow> j \<le> k \<Longrightarrow> ones_in v i k = ones_in v i j + ones_in v j k"
  using upt_add_eq_append [of i j "k - j"] by (simp add: ones_in_def)

lemma ones_in_Suc: "i \<le> j \<Longrightarrow> ones_in v i (Suc j) = ones_in v i j + of_bool (bit v j)"
  by (simp add: ones_in_def)

lemma ones_in_same [simp]: "ones_in v i i = 0"
  by (simp add: ones_in_def)

lemma ones_in_le: "ones_in v i j \<le> j - i"
  using length_filter_le [of "bit v" "[i..<j]"] by (simp add: ones_in_def)

lemma ones_in_width: "ones_in v i (i + w) \<le> w"
  using ones_in_le [of v i "i + w"] by simp

section \<open>The fields of a word\<close>

text \<open>The \<open>k\<close>-th field of \<open>w\<close> bits.\<close>

definition field :: "nat \<Rightarrow> 64 word \<Rightarrow> nat \<Rightarrow> nat" where
  "field w x k = unat x div 2 ^ (w * k) mod 2 ^ w"

lemma field_take_drop: "field w x k = unat (take_bit w (drop_bit (w * k) x))"
  by (simp add: field_def unsigned_take_bit_eq unat_drop_bit_eq) (simp add: take_bit_eq_mod drop_bit_eq_div)

lemma field_less: "field w x k < 2 ^ w"
  by (simp add: field_def)

lemma sum_fields:
  "(\<Sum>k<m. (x div B ^ k mod B) * B ^ k) = x mod B ^ m" for x B :: nat
proof (induction m)
  case (Suc m)
  then show ?case by (simp add: mod_mult2_eq mult.commute [of B])
qed simp

lemma div_sum_fields:
  assumes "\<forall>k < m. f k < B" "j < m"
  shows "(\<Sum>k<m. f k * B ^ k) div B ^ j mod B = (f j :: nat)"
  using assms
proof (induction m arbitrary: f j)
  case (Suc m)
  have B: "0 < B" using Suc.prems by (auto intro: gr_zeroI)
  have split: "(\<Sum>k<Suc m. f k * B ^ k) = f 0 + B * (\<Sum>k<m. f (Suc k) * B ^ k)"
    by (subst sum.lessThan_Suc_shift) (simp add: sum_distrib_left mult.left_commute mult.assoc)
  show ?case
  proof (cases j)
    case 0
    with Suc.prems split show ?thesis by simp
  next
    case (Suc i)
    have "(f 0 + B * x) div B ^ Suc i = x div B ^ i" for x
      using Suc.prems(1) B by (simp add: div_mult2_eq)
    with Suc Suc.IH [of "\<lambda>k. f (Suc k)" i] \<open>\<forall>k < Suc m. f k < B\<close> \<open>j < Suc m\<close> split show ?thesis by simp
  qed
qed simp

lemma sum_less_power: "\<forall>k < m. f k < B \<Longrightarrow> (\<Sum>k<m. f k * B ^ k) < (B ^ m :: nat)"
proof (induction m)
  case (Suc m)
  then have "Suc (f m) * B ^ m \<le> B * B ^ m" by (intro mult_le_mono1) auto
  with Suc show ?case by simp
qed simp

lemma unat_fields:
  fixes x :: "64 word"
  assumes "w * m = 64"
  shows "unat x = (\<Sum>k<m. field w x k * 2 ^ (w * k))"
proof -
  have "unat x < 2 ^ 64" by (rule order_less_le_trans [OF unsigned_less]) simp
  then show ?thesis
    using sum_fields [of "unat x" "2 ^ w" m] assms by (simp add: field_def flip: power_mult)
qed

lemma field_of_sum:
  assumes "unat x = (\<Sum>k<m. f k * 2 ^ (w * k))" "\<forall>k < m. f k < 2 ^ w" "k < m"
  shows "field w x k = f k"
  using div_sum_fields [of m f "2 ^ w" k] assms by (simp add: field_def power_mult)

text \<open>Fields that have room are added and subtracted one by one.\<close>

lemma unat_of_fields:
  assumes "w * m = 64" "\<forall>k < m. f k < 2 ^ w"
  shows "(\<Sum>k<m. f k * 2 ^ (w * k)) < (2 ^ 64 :: nat)"
  using sum_less_power [of m f "2 ^ w"] assms by (simp flip: power_mult)

lemma field_add:
  assumes "w * m = 64" "\<forall>k < m. field w x k + field w y k < 2 ^ w" "k < m"
  shows "field w (x + y) k = field w x k + field w y k"
proof (rule field_of_sum [OF _ assms(2,3)])
  let ?s = "\<Sum>k<m. (field w x k + field w y k) * 2 ^ (w * k)"
  have s: "?s = unat x + unat y"
    by (simp add: unat_fields [OF assms(1)] sum.distrib add_mult_distrib)
  with unat_of_fields [OF assms(1,2)] show "unat (x + y) = ?s" by (simp add: unat_word_ariths)
qed

lemma field_sub:
  assumes "w * m = 64" "\<forall>k < m. field w y k \<le> field w x k" "k < m"
  shows "field w (x - y) k = field w x k - field w y k"
proof (rule field_of_sum [OF _ _ assms(3)])
  let ?s = "\<Sum>k<m. (field w x k - field w y k) * 2 ^ (w * k)"
  have less: "\<forall>k < m. field w x k - field w y k < 2 ^ w"
    by (auto intro: le_less_trans [OF diff_le_self field_less])
  then show "\<forall>k < m. field w x k - field w y k < 2 ^ w" .
  have "?s + unat y = unat x"
    unfolding unat_fields [OF assms(1)] sum.distrib [symmetric] add_mult_distrib [symmetric]
    using assms(2) by simp
  moreover have "y \<le> x" using calculation by (simp add: word_le_nat_alt)
  ultimately show "unat (x - y) = ?s" by (simp add: unat_sub_if')
qed

text \<open>The bits of a sum of fields under a mask, and a shift by fields.\<close>

lemma bits_mask:
  "bit (0x5555555555555555 :: 64 word) i \<longleftrightarrow> i < 64 \<and> i mod 2 < 1"
  "bit (0x3333333333333333 :: 64 word) i \<longleftrightarrow> i < 64 \<and> i mod 4 < 2"
  "bit (0x0F0F0F0F0F0F0F0F :: 64 word) i \<longleftrightarrow> i < 64 \<and> i mod 8 < 4"
  "bit (0x00FF00FF00FF00FF :: 64 word) i \<longleftrightarrow> i < 64 \<and> i mod 16 < 8"
proof -
  have "\<forall>i \<in> set [0..<64]. (bit (0x5555555555555555 :: 64 word) i \<longleftrightarrow> i mod 2 < 1) \<and>
     (bit (0x3333333333333333 :: 64 word) i \<longleftrightarrow> i mod 4 < 2) \<and>
     (bit (0x0F0F0F0F0F0F0F0F :: 64 word) i \<longleftrightarrow> i mod 8 < 4) \<and>
     (bit (0x00FF00FF00FF00FF :: 64 word) i \<longleftrightarrow> i mod 16 < 8)"
    by code_simp
  moreover have "bit (u :: 64 word) i \<Longrightarrow> i < 64" for u
    using bit_imp_le_length [of u i] by simp
  ultimately show "bit (0x5555555555555555 :: 64 word) i \<longleftrightarrow> i < 64 \<and> i mod 2 < 1"
    "bit (0x3333333333333333 :: 64 word) i \<longleftrightarrow> i < 64 \<and> i mod 4 < 2"
    "bit (0x0F0F0F0F0F0F0F0F :: 64 word) i \<longleftrightarrow> i < 64 \<and> i mod 8 < 4"
    "bit (0x00FF00FF00FF00FF :: 64 word) i \<longleftrightarrow> i < 64 \<and> i mod 16 < 8"
    by fastforce+
qed

lemma masks:
  "(- 1 div 3 :: 64 word) = 0x5555555555555555" "(- 1 div 5 :: 64 word) = 0x3333333333333333"
  "(- 1 div 0x11 :: 64 word) = 0x0F0F0F0F0F0F0F0F" "(- 1 div 0x101 :: 64 word) = 0x00FF00FF00FF00FF"
  by code_simp+

lemma field_shift: "field w (drop_bit w x) k = field w x (Suc k)"
  unfolding field_def unat_drop_bit_eq by (simp add: drop_bit_eq_div power_add div_mult2_eq)

lemma field_masked:
  assumes "\<And>i. bit M i \<longleftrightarrow> i < 64 \<and> i mod w < h" "w * k + w \<le> 64" "h \<le> w"
  shows "field w (drop_bit s x AND M) k = unat (take_bit h (drop_bit (w * k + s) x))"
  unfolding field_take_drop
proof (rule arg_cong [where f = unat], rule bit_word_eqI)
  fix i assume "i < LENGTH(64)"
  show "bit (take_bit w (drop_bit (w * k) (drop_bit s x AND M))) i \<longleftrightarrow> bit (take_bit h (drop_bit (w * k + s) x)) i"
  proof (cases "i < w")
    case True
    then have "bit M (w * k + i) \<longleftrightarrow> i < h" using assms by simp
    moreover have "s + (w * k + i) = w * k + s + i" by simp
    ultimately show ?thesis using True by (simp add: bit_take_bit_iff bit_drop_bit_eq bit_and_iff) blast
  next
    case False
    with assms(3) show ?thesis by (simp add: bit_take_bit_iff bit_and_iff)
  qed
qed

section \<open>Selecting a bit\<close>

text \<open>\<open>nth_set_bit_u64\<close>: the counts of bits in fields, then a binary search without branches.\<close>

definition bit_counts :: "64 word \<Rightarrow> 64 word \<times> 64 word \<times> 64 word \<times> 64 word" where
  "bit_counts v =
     (let a = v - (drop_bit 1 v AND (- 1 div 3));
          b = (a AND (- 1 div 5)) + (drop_bit 2 a AND (- 1 div 5));
          c = (b + drop_bit 4 b) AND (- 1 div 0x11);
          d = (c + drop_bit 8 c) AND (- 1 div 0x101)
      in (a, b, c, d))"

definition select_step :: "nat \<Rightarrow> 64 word \<Rightarrow> 64 word \<times> 64 word \<Rightarrow> 64 word \<times> 64 word" where
  "select_step k t st = (case st of (s, n) \<Rightarrow> (s - drop_bit k ((t - n) AND 256), n - (t AND drop_bit 8 (t - n))))"

definition nth_set_bit_u64 :: "64 word \<Rightarrow> 64 word \<Rightarrow> 64 word" where
  "nth_set_bit_u64 v n =
     (let v = word_reverse v;
          (a, b, c, d) = bit_counts v;
          (s, n) = select_step 3 (drop_bit 32 d + drop_bit 48 d) (64, n);
          (s, n) = select_step 4 (drop_bit (unat (s - 16)) d AND 0xff) (s, n);
          (s, n) = select_step 5 (drop_bit (unat (s - 8)) c AND 0xf) (s, n);
          (s, n) = select_step 6 (drop_bit (unat (s - 4)) b AND 0x7) (s, n);
          (s, n) = select_step 7 (drop_bit (unat (s - 2)) a AND 0x3) (s, n);
          t = drop_bit (unat (s - 1)) v AND 0x1;
          s = s - drop_bit 8 ((t - n) AND 256)
      in 65 - s - 1)"

definition nth_set_bit :: "128 word \<Rightarrow> nat \<Rightarrow> nat" where
  "nth_set_bit v n =
     (let low = ucast v :: 64 word;
          high = ucast (drop_bit 64 v) :: 64 word;
          low_count = count_ones low
      in if n > low_count then 64 + unat (nth_set_bit_u64 high (of_nat (n - low_count)))
         else unat (nth_set_bit_u64 low (of_nat n)))"

definition counts_fields :: "nat \<Rightarrow> 64 word \<Rightarrow> 64 word \<Rightarrow> bool" where
  "counts_fields w v x \<longleftrightarrow> (\<forall>k. w * k + w \<le> 64 \<longrightarrow> field w x k = ones_in v (w * k) (w * k + w))"

lemma counts_fields_1: "counts_fields 1 v v"
proof -
  have "field 1 v k = of_bool (bit v k)" for k
    using bit_iff_odd [of "unat v" k] bit_imp_le_length [of v k]
    by (auto simp: field_def mod_2_eq_odd bit_unsigned_iff)
  then show ?thesis by (simp add: counts_fields_def ones_in_Suc)
qed

lemma counts_pair:
  assumes "counts_fields h v x" "2 * h * k + 2 * h \<le> 64"
  shows "field h x (2 * k) + field h x (2 * k + 1) = ones_in v (2 * h * k) (2 * h * k + 2 * h)"
  using assms ones_in_split [of "2 * h * k" "2 * h * k + h" "2 * h * k + 2 * h" v]
  by (simp add: counts_fields_def algebra_simps)

lemma field_half:
  assumes "\<And>i. bit M i \<longleftrightarrow> i < 64 \<and> i mod w < h" "w = 2 * h" "w * k + w \<le> 64"
  shows "field w (x AND M) k = field h x (2 * k)"
    "field w (drop_bit h x AND M) k = field h x (2 * k + 1)"
  using field_masked [of M w h k 0 x] field_masked [of M w h k h x] assms
  by (simp_all add: field_take_drop algebra_simps)

lemma field_split: "field (2 * h) x k = field h x (2 * k) + 2 ^ h * field h x (2 * k + 1)"
proof -
  let ?X = "unat x div 2 ^ (2 * h * k)"
  have "?X mod 2 ^ (2 * h) = 2 ^ h * (?X div 2 ^ h mod 2 ^ h) + ?X mod 2 ^ h"
    by (simp add: power_add mult_2 mod_mult2_eq)
  moreover have "?X div 2 ^ h = unat x div 2 ^ (h * (2 * k + 1))"
    by (simp add: algebra_simps power_add flip: div_mult2_eq)
  ultimately show ?thesis by (simp add: field_def mult.commute mult.left_commute)
qed

text \<open>Each count is the sum of the two below it.\<close>

lemma counts_a: "counts_fields 2 v (v - (drop_bit 1 v AND (- 1 div 3)))"
  unfolding counts_fields_def
proof (intro allI impI)
  fix k assume k: "2 * k + 2 \<le> (64::nat)"
  let ?H = "drop_bit 1 v AND 0x5555555555555555 :: 64 word"
  have H: "field 2 ?H j = field 1 v (2 * j + 1)" if "j < 32" for j
    using field_half(2) [OF bits_mask(1), of j v] that by simp
  have "field 2 (v - ?H) k = field 2 v k - field 2 ?H k"
    using k H field_split [of 1 v] by (intro field_sub [of 2 32]) auto
  also have "\<dots> = field 1 v (2 * k) + field 1 v (2 * k + 1)"
    using H [of k] k field_split [of 1 v k] by simp
  also have "\<dots> = ones_in v (2 * k) (2 * k + 2)"
    using counts_pair [OF counts_fields_1, of k v] k by simp
  finally show "field 2 (v - (drop_bit 1 v AND (- 1 div 3))) k = ones_in v (2 * k) (2 * k + 2)"
    by (simp only: masks)
qed

lemma counts_b:
  assumes "counts_fields 2 v a"
  shows "counts_fields 4 v ((a AND (- 1 div 5)) + (drop_bit 2 a AND (- 1 div 5)))"
  unfolding counts_fields_def
proof (intro allI impI)
  fix k assume k: "4 * k + 4 \<le> (64::nat)"
  let ?M = "0x3333333333333333 :: 64 word"
  have sum: "field 4 (a AND ?M) j + field 4 (drop_bit 2 a AND ?M) j = ones_in v (4 * j) (4 * j + 4)" if "j < 16" for j
    using field_half [OF bits_mask(2), of j a] counts_pair [OF assms, of j] that by simp
  have "field 4 ((a AND ?M) + (drop_bit 2 a AND ?M)) k = field 4 (a AND ?M) k + field 4 (drop_bit 2 a AND ?M) k"
    using k sum by (intro field_add [of 4 16]) (auto intro: le_less_trans [OF ones_in_width])
  then show "field 4 ((a AND (- 1 div 5)) + (drop_bit 2 a AND (- 1 div 5))) k = ones_in v (4 * k) (4 * k + 4)"
    using sum [of k] k by (simp only: masks)
qed

lemma counts_fold:
  assumes "counts_fields h v x" "w = 2 * h" "w * m = 64" "w < 2 ^ h" "\<And>i. bit M i \<longleftrightarrow> i < 64 \<and> i mod w < h"
  shows "counts_fields w v ((x + drop_bit h x) AND M)"
  unfolding counts_fields_def
proof (intro allI impI)
  fix k assume k: "w * k + w \<le> 64"
  have small: "field h x j \<le> h" if "j < 2 * m" for j
  proof -
    have "h * Suc j \<le> h * (2 * m)" using that by (intro mult_le_mono2) simp
    then have "h * j + h \<le> 64" using assms(2,3) by (simp add: ac_simps)
    then show ?thesis using assms(1) ones_in_width [of v "h * j" h] by (simp add: counts_fields_def)
  qed
  have "unat x < 2 ^ 64" by (rule order_less_le_trans [OF unsigned_less]) simp
  moreover have "h * (2 * m) = 64" using assms(2,3) by (simp add: ac_simps)
  ultimately have "unat x div 2 ^ (h * (2 * m)) = 0" by (simp only: div_less)
  then have "field h x (2 * m) = 0" by (simp add: field_def)
  then have top: "field h x (Suc j) \<le> h" if "j < 2 * m" for j
    using small [of "Suc j"] that by (cases "Suc j = 2 * m") auto
  have "field w ((x + drop_bit h x) AND M) k = field h (x + drop_bit h x) (2 * k)"
    using field_half(1) [OF assms(5,2) k] .
  also have "\<dots> = field h x (2 * k) + field h x (2 * k + 1)"
  proof -
    have "w * Suc k \<le> w * m" "0 < w" using k assms(3) by (auto intro: gr_zeroI)
    then have "Suc k \<le> m" by (simp only: mult_le_cancel1)
    then have "h * (2 * m) = 64" "2 * k < 2 * m" using assms(2,3) by (auto simp: ac_simps)
    moreover have "field h x j + field h (drop_bit h x) j < 2 ^ h" if "j < 2 * m" for j
      using small [OF that] top [OF that] assms(2,4) by (simp add: field_shift)
    ultimately show ?thesis using field_add [of h "2 * m" x "drop_bit h x" "2 * k"] by (simp add: field_shift)
  qed
  also have "\<dots> = ones_in v (w * k) (w * k + w)"
    using counts_pair [OF assms(1), of k] k assms(2) by simp
  finally show "field w ((x + drop_bit h x) AND M) k = ones_in v (w * k) (w * k + w)" .
qed

lemma bit_counts_ok:
  assumes "bit_counts v = (a, b, c, d)"
  shows "counts_fields 2 v a" "counts_fields 4 v b" "counts_fields 8 v c" "counts_fields 16 v d"
proof -
  show a: "counts_fields 2 v a" using assms counts_a [of v] by (auto simp: bit_counts_def Let_def)
  show b: "counts_fields 4 v b" using assms counts_b [OF a] by (auto simp: bit_counts_def Let_def)
  have "c = (b + drop_bit 4 b) AND 0x0F0F0F0F0F0F0F0F" "d = (c + drop_bit 8 c) AND 0x00FF00FF00FF00FF"
    using assms by (auto simp: bit_counts_def Let_def masks)
  note cd = this
  show c: "counts_fields 8 v c"
    using counts_fold [OF b, of 8 8, OF _ _ _ bits_mask(3)] cd by simp
  show "counts_fields 16 v d"
    using counts_fold [OF c, of 16 4, OF _ _ _ bits_mask(4)] cd by simp
qed

text \<open>
  The comparison of a count with the rank sought: the borrow of \<open>t - n\<close> shows in its bits. The
  first count carries a copy of a half of it sixteen bits higher, which does not matter.
\<close>

lemma bit_256: "bit (256 :: 64 word) i \<longleftrightarrow> i = 8"
proof -
  have "(256 :: 64 word) = 2 ^ 8" by simp
  then show ?thesis by (simp only: bit_exp_iff) auto
qed

lemma borrow_bits:
  fixes t n :: "64 word"
  assumes t: "t = of_nat t0 + push_bit 16 (of_nat f)" and le: "t0 \<le> 64" "f \<le> 64" "n0 \<le> 64" and n: "n = of_nat n0"
  shows "(t - n) AND 256 = (if t0 < n0 then 256 else 0)"
    "t AND drop_bit 8 (t - n) = (if t0 < n0 then of_nat t0 else 0)"
proof -
  have ut: "unat t = t0 + 65536 * f" "unat n = n0"
    using le by (simp_all add: t n push_bit_eq_mult unat_word_ariths unat_of_nat)
  define g where "g = f - 1"
  define Y where "Y = (if n0 \<le> t0 then 256 * f else if f = 0 then 2 ^ 56 - 1 else 256 * g + 255)"
  have "unat (t - n) div 256 = Y"
  proof (cases "n0 \<le> t0")
    case True
    then have "unat (t - n) = 256 * (256 * f) + (t0 - n0)" using ut by (simp add: unat_sub_if')
    with True le show ?thesis by (simp add: Y_def del: add_diff_assoc)
  next
    case below: False
    show ?thesis
    proof (cases "f = 0")
      case True
      with below ut le have "unat (t - n) = 256 * (2 ^ 56 - 1) + (256 + t0 - n0)" by (simp add: unat_sub_if')
      with below le True show ?thesis by (simp only: Y_def div_mult_self4 div_less) simp
    next
      case False
      with below ut le have "unat (t - n) = 256 * (256 * (f - 1) + 255) + (256 + t0 - n0)"
        by (simp add: unat_sub_if' algebra_simps diff_mult_distrib2)
      with below le False show ?thesis by (simp only: Y_def g_def div_mult_self4 div_less) simp
    qed
  qed
  then have uY: "unat (t - n) div 2 ^ 8 = Y" by simp
  then have "unat (drop_bit 8 (t - n)) = Y" by (simp only: unat_drop_bit_eq drop_bit_eq_div [of 8 "unat (t - n)"])
  moreover have "of_nat (unat (drop_bit 8 (t - n))) = drop_bit 8 (t - n)" by simp
  ultimately have Y: "drop_bit 8 (t - n) = of_nat Y" by (simp only:)
  have "bit (unat (t - n)) 8 \<longleftrightarrow> odd Y"
    unfolding bit_iff_odd uY ..
  then have "bit (t - n) 8 \<longleftrightarrow> odd Y" by (simp add: bit_unsigned_iff)
  then have "bit (t - n) 8 \<longleftrightarrow> t0 < n0" by (auto simp: Y_def)
  then show "(t - n) AND 256 = (if t0 < n0 then 256 else 0)"
    by (intro bit_word_eqI) (auto simp only: bit_and_iff bit_256 bit_0_eq bot_apply bot_bool_def split: if_splits)
  have T: "take_bit 8 (of_nat t0 :: 64 word) = of_nat t0" "take_bit 8 (of_nat f :: 64 word) = of_nat f"
    "take_bit 8 (of_nat g :: 64 word) = of_nat g"
    using le by (simp_all add: word_unat_eq_iff unsigned_take_bit_eq unat_of_nat take_bit_nat_eq_self g_def)
  have t': "t = take_bit 8 (of_nat t0) OR push_bit 16 (take_bit 8 (of_nat f))"
    unfolding t T
  proof (rule disjunctive_add_eq_or)
    have "take_bit 8 (of_nat t0 :: 64 word) AND push_bit 16 (of_nat f) = 0"
      by (rule bit_word_eqI) (auto simp: bit_simps)
    then show "of_nat t0 AND push_bit 16 (of_nat f :: 64 word) = 0" by (simp only: T)
  qed
  have Y': "drop_bit 8 (t - n) = (if n0 \<le> t0 then push_bit 8 (take_bit 8 (of_nat f))
     else if f = 0 then mask 56 else push_bit 8 (take_bit 8 (of_nat g)) OR mask 8)"
  proof -
    have "push_bit 8 (take_bit 8 (of_nat g :: 64 word)) AND mask 8 = 0"
      by (rule bit_word_eqI) (auto simp: bit_simps)
    then have "push_bit 8 (take_bit 8 (of_nat g)) OR mask 8 = push_bit 8 (take_bit 8 (of_nat g :: 64 word)) + mask 8"
      by (rule disjunctive_add_eq_or [symmetric])
    then show ?thesis
      unfolding Y Y_def T by (simp add: push_bit_eq_mult mask_eq_exp_minus_1)
  qed
  have "t AND drop_bit 8 (t - n) = (if t0 < n0 then take_bit 8 (of_nat t0) else 0)"
    unfolding arg_cong2 [where f = "(AND)", OF t' Y'] by (rule bit_word_eqI) (auto simp: bit_simps)
  then show "t AND drop_bit 8 (t - n) = (if t0 < n0 then of_nat t0 else 0)" by (simp only: T)
qed

definition selecting :: "64 word \<Rightarrow> nat \<Rightarrow> nat \<Rightarrow> 64 word \<times> 64 word \<Rightarrow> bool" where
  "selecting v rank w st \<longleftrightarrow> (case st of (s, n) \<Rightarrow> w dvd unat s \<and> w \<le> unat s \<and> unat s \<le> 64 \<and> 1 \<le> unat n \<and>
     unat n \<le> ones_in v (unat s - w) (unat s) \<and> unat n + ones_in v (unat s) 64 = rank)"

lemma select_step_ok:
  assumes "selecting v rank (2 * h) (s, n)" "0 < h" "h \<le> 32" "drop_bit k (256 :: 64 word) = of_nat h"
    and "t = of_nat (ones_in v (unat s - h) (unat s)) + push_bit 16 (of_nat f)" "f \<le> 64"
  shows "selecting v rank h (select_step k t (s, n))"
proof -
  define t0 where "t0 = ones_in v (unat s - h) (unat s)"
  have s: "2 * h dvd unat s" "2 * h \<le> unat s" "unat s \<le> 64" and n: "1 \<le> unat n" "unat n \<le> ones_in v (unat s - 2 * h) (unat s)"
    and rank: "unat n + ones_in v (unat s) 64 = rank"
    using assms(1) by (auto simp: selecting_def)
  have le: "t0 \<le> 64" "unat n \<le> 64"
    using ones_in_le [of v "unat s - h" "unat s"] ones_in_le [of v "unat s - 2 * h" "unat s"] n s by (auto simp: t0_def)
  note borrow = borrow_bits [OF assms(5) [folded t0_def] le(1) assms(6) le(2), of n, simplified]
  have split: "ones_in v (unat s - 2 * h) (unat s) = ones_in v (unat s - 2 * h) (unat s - h) + t0"
    using ones_in_split [of "unat s - 2 * h" "unat s - h" "unat s" v] by (simp add: t0_def)
  show ?thesis
  proof (cases "t0 < unat n")
    case True
    have "unat (s - of_nat h) = unat s - h" "unat (n - of_nat t0) = unat n - t0"
      using s assms(2,3) True le by (simp_all add: unat_sub_if' unat_of_nat)
    moreover have "ones_in v (unat s - h) 64 = t0 + ones_in v (unat s) 64"
      using ones_in_split [of "unat s - h" "unat s" 64 v] s by (simp add: t0_def)
    moreover have "h dvd unat s - h" using s(1) by (metis dvd_diff_nat dvd_mult_right dvd_refl mult.commute dvd_trans dvd_triv_left)
    moreover have "select_step k t (s, n) = (s - of_nat h, n - of_nat t0)"
      by (simp only: select_step_def prod.case borrow True if_True assms(4))
    ultimately show ?thesis
      using True s n rank split by (auto simp: selecting_def mult_2)
  next
    case False
    then have "select_step k t (s, n) = (s, n)"
      by (simp only: select_step_def prod.case borrow if_False drop_bit_of_0 diff_zero)
    then show ?thesis
      using False s n rank by (auto simp: selecting_def t0_def elim: dvd_mult_right)
  qed
qed

lemma count_field:
  assumes "counts_fields w v x" "w dvd unat s" "w \<le> unat s" "unat s \<le> 64"
  shows "unat (take_bit w (drop_bit (unat s - w) x)) = ones_in v (unat s - w) (unat s)"
proof -
  from assms(2,3) obtain k where k: "unat s = w * k + w"
    by (metis dvd_diff_nat dvd_refl dvd_def le_add_diff_inverse2)
  with assms show ?thesis
    by (simp add: counts_fields_def flip: field_take_drop)
qed

lemma reversed_ones: "i \<le> 64 \<Longrightarrow> ones_in (word_reverse v) i 64 = ones_in (v :: 64 word) 0 (64 - i)"
proof (induction "64 - i" arbitrary: i)
  case (Suc k)
  then have i: "i < 64" "64 - i = Suc (64 - Suc i)" by auto
  have "ones_in (word_reverse v) i 64 = ones_in (word_reverse v) i (Suc i) + ones_in (word_reverse v) (Suc i) 64"
    using i by (intro ones_in_split) auto
  then show ?case
    using Suc.hyps(1) [of "Suc i"] Suc.hyps(2) i
    by (simp add: ones_in_Suc i(2) bit_word_reverse_iff)
qed simp

lemma selecting_one:
  assumes "selecting v rank 1 (s, n)"
  shows "bit v (unat s - 1)" "ones_in v (unat s) 64 = rank - 1" "1 \<le> unat s" "unat s \<le> 64" "unat n = 1"
proof -
  have s: "1 \<le> unat s" "unat s \<le> 64" "1 \<le> unat n" "unat n \<le> ones_in v (unat s - 1) (unat s)"
    "unat n + ones_in v (unat s) 64 = rank"
    using assms by (auto simp: selecting_def)
  moreover have "ones_in v (unat s - 1) (unat s) = of_bool (bit v (unat s - 1))"
    using ones_in_Suc [of "unat s - 1" "unat s - 1" v] s(1) by simp
  ultimately show "bit v (unat s - 1)" "ones_in v (unat s) 64 = rank - 1" "1 \<le> unat s" "unat s \<le> 64" "unat n = 1"
    by (auto split: if_splits simp: of_bool_def)
qed

text \<open>A step whose count is a field.\<close>

lemma select_field:
  assumes sel: "selecting v rank w (s, n)" and "counts_fields h v x" "w = 2 * h" "0 < h" "h \<le> 32"
    and k: "drop_bit k (256 :: 64 word) = of_nat h" and M: "M = mask j" "j \<le> h" "h < 2 ^ j"
  shows "selecting v rank h (select_step k (drop_bit (unat (s - of_nat h)) x AND M) (s, n))"
proof -
  let ?t0 = "ones_in v (unat s - h) (unat s)"
  have s: "h dvd unat s" "h \<le> unat s" "unat s \<le> 64"
    using sel assms(3) by (auto simp: selecting_def elim: dvd_mult_right)
  then have "unat (s - of_nat h) = unat s - h"
    using assms(4,5) by (simp add: unat_sub_if' unat_of_nat)
  moreover have "take_bit h (drop_bit (unat s - h) x) = of_nat ?t0"
    using of_nat_unat [of "take_bit h (drop_bit (unat s - h) x)", where 'a = "64 word"] count_field [OF assms(2) s]
    by simp
  moreover have "drop_bit (unat s - h) x AND M = take_bit j (take_bit h (drop_bit (unat s - h) x))"
    using M(2) unfolding M(1) take_bit_eq_mask [symmetric] by simp
  moreover have "take_bit j (of_nat ?t0 :: 64 word) = of_nat ?t0"
  proof -
    have "?t0 < 2 ^ j" using ones_in_le [of v "unat s - h" "unat s"] s M(3) by simp
    then show ?thesis by (simp add: take_bit_of_nat take_bit_nat_eq_self)
  qed
  ultimately have "drop_bit (unat (s - of_nat h)) x AND M = of_nat ?t0 + push_bit 16 (of_nat 0)" by simp
  with select_step_ok [OF sel [unfolded assms(3)] assms(4,5) k, of _ 0] show ?thesis by simp
qed

lemma top_counts:
  assumes "counts_fields 16 v d"
  shows "drop_bit 32 d + drop_bit 48 d =
    of_nat (ones_in v 32 64) + push_bit 16 (of_nat (ones_in v 48 64))"
proof -
  have "unat d < 2 ^ 64" by (rule order_less_le_trans [OF unsigned_less]) simp
  then have 3: "unat d div 2 ^ 48 = field 16 d 3" by (simp add: field_def)
  have "unat d div 2 ^ 32 = field 16 d 2 + 2 ^ 16 * (unat d div 2 ^ 32 div 2 ^ 16)"
    by (simp add: field_def)
  also have "unat d div 2 ^ 32 div 2 ^ 16 = field 16 d 3" using 3 by (simp flip: div_mult2_eq)
  finally have 2: "unat d div 2 ^ 32 = field 16 d 2 + 2 ^ 16 * field 16 d 3" .
  have d: "drop_bit k d = of_nat (unat d div 2 ^ k)" for k
    using of_nat_unat [of "drop_bit k d", where 'a = "64 word"]
    unfolding unat_drop_bit_eq drop_bit_eq_div [of k "unat d"] by simp
  have "field 16 d 2 + field 16 d 3 = ones_in v 32 64" "field 16 d 3 = ones_in v 48 64"
    using assms ones_in_split [of 32 48 64 v] by (simp_all add: counts_fields_def)
  then have "field 16 d 2 + 2 ^ 16 * field 16 d 3 + field 16 d 3 = ones_in v 32 64 + 2 ^ 16 * ones_in v 48 64" by simp
  then show ?thesis
    unfolding d 2 3 push_bit_eq_mult by (simp only: flip: of_nat_add) simp
qed

theorem nth_set_bit_u64_selects:
  fixes v :: "64 word"
  assumes "1 \<le> n" "n \<le> count_ones v"
  shows "\<exists>i < 64. unat (nth_set_bit_u64 v (of_nat n)) = i \<and> bit v i \<and> ones_in v 0 i = n - 1"
proof -
  define u where "u = word_reverse v"
  obtain a b c d where counts: "bit_counts u = (a, b, c, d)" by (metis prod_cases4)
  note fields = bit_counts_ok [OF counts]
  have "count_ones v = ones_in v 0 64" by (simp add: count_ones_def ones_in_def)
  then have n: "n \<le> ones_in u 0 64" "n \<le> 64"
    using assms(2) reversed_ones [of 0 v] ones_in_le [of v 0 64] by (auto simp: u_def)
  have s0: "selecting u n 64 (64, of_nat n)"
    using n assms(1) by (simp add: selecting_def unat_of_nat)
  obtain s1 n1 where st1: "select_step 3 (drop_bit 32 d + drop_bit 48 d) (64, of_nat n) = (s1, n1)" by force
  have s1: "selecting u n 32 (s1, n1)"
  proof -
    have "drop_bit 32 d + drop_bit 48 d = of_nat (ones_in u (unat (64 :: 64 word) - 32) (unat (64 :: 64 word))) +
        push_bit 16 (of_nat (ones_in u 48 64))"
      using top_counts [OF fields(4)] by simp
    from select_step_ok [of u n 32 64 "of_nat n" 3, OF _ _ _ _ this] show ?thesis
      using s0 st1 ones_in_le [of u 48 64] by simp
  qed
  obtain s2 n2 where st2: "select_step 4 (drop_bit (unat (s1 - 16)) d AND 0xff) (s1, n1) = (s2, n2)" by force
  have s2: "selecting u n 16 (s2, n2)"
    using select_field [OF s1 fields(4), of 4 "0xff" 8] st2 by (simp add: mask_eq_exp_minus_1)
  obtain s3 n3 where st3: "select_step 5 (drop_bit (unat (s2 - 8)) c AND 0xf) (s2, n2) = (s3, n3)" by force
  have s3: "selecting u n 8 (s3, n3)"
    using select_field [OF s2 fields(3), of 5 "0xf" 4] st3 by (simp add: mask_eq_exp_minus_1)
  obtain s4 n4 where st4: "select_step 6 (drop_bit (unat (s3 - 4)) b AND 0x7) (s3, n3) = (s4, n4)" by force
  have s4: "selecting u n 4 (s4, n4)"
    using select_field [OF s3 fields(2), of 6 "0x7" 3] st4 by (simp add: mask_eq_exp_minus_1)
  obtain s5 n5 where st5: "select_step 7 (drop_bit (unat (s4 - 2)) a AND 0x3) (s4, n4) = (s5, n5)" by force
  have s5: "selecting u n 2 (s5, n5)"
    using select_field [OF s4 fields(1), of 7 "0x3" 2] st5 by (simp add: mask_eq_exp_minus_1)
  obtain s6 n6 where st6: "select_step 8 (drop_bit (unat (s5 - 1)) u AND 0x1) (s5, n5) = (s6, n6)" by force
  have s6: "selecting u n 1 (s6, n6)"
    using select_field [OF s5 counts_fields_1, of 8 "0x1" 1] st6 by (simp add: mask_eq_exp_minus_1)
  have "s6 = s5 - drop_bit 8 (((drop_bit (unat (s5 - 1)) u AND 0x1) - n5) AND 256)"
    using st6 unfolding select_step_def by simp
  then have "nth_set_bit_u64 v (of_nat n) = 65 - s6 - 1"
    by (simp only: nth_set_bit_u64_def u_def [symmetric] Let_def prod.case counts st1 st2 st3 st4 st5)
  then have i: "unat (nth_set_bit_u64 v (of_nat n)) = 64 - unat s6"
    using selecting_one(3,4) [OF s6] by (simp add: unat_sub_if')
  have "bit v (64 - unat s6)"
    using selecting_one(1,3,4) [OF s6] by (simp add: u_def bit_word_reverse_iff)
  moreover have "ones_in v 0 (64 - unat s6) = n - 1"
    using selecting_one(2,4) [OF s6] reversed_ones [of "unat s6" v] by (simp add: u_def)
  ultimately show ?thesis using i selecting_one(3) [OF s6] by auto
qed

lemma ones_in_ucast: "j \<le> 64 \<Longrightarrow> ones_in (ucast v :: 64 word) i j = ones_in (v :: 128 word) i j"
  unfolding ones_in_def by (intro arg_cong [where f = length] filter_cong) (auto simp: bit_simps)

lemma ones_in_drop: "i \<le> j \<Longrightarrow> ones_in (drop_bit k v) i j = ones_in v (k + i) (k + j)"
proof (induction "j - i" arbitrary: j)
  case (Suc n)
  then obtain j' where "j = Suc j'" "i \<le> j'" by (cases j) auto
  with Suc show ?case by (simp add: ones_in_Suc bit_drop_bit_eq)
qed simp

text \<open>The \<open>n\<close>-th set bit, and no other.\<close>

lemma nth_set_bit_ok:
  assumes "1 \<le> n" "n \<le> count_ones v"
  shows "bit v (nth_set_bit v n)" "ones_in v 0 (nth_set_bit v n) = n - 1" "nth_set_bit v n < 128"
proof -
  let ?low = "ucast v :: 64 word" and ?high = "ucast (drop_bit 64 v) :: 64 word"
  have low: "count_ones ?low = ones_in v 0 64" by (simp add: count_ones_def flip: ones_in_def) (simp add: ones_in_ucast)
  have high: "ones_in ?high 0 j = ones_in v 64 (64 + j)" if "j \<le> 64" for j
    using that by (simp add: ones_in_ucast ones_in_drop)
  have all: "count_ones v = ones_in v 0 64 + ones_in v 64 128"
    using ones_in_split [of 0 64 128 v] by (simp add: count_ones_def ones_in_def)
  have "bit v (nth_set_bit v n) \<and> ones_in v 0 (nth_set_bit v n) = n - 1 \<and> nth_set_bit v n < 128"
  proof (cases "n > count_ones ?low")
    case True
    then have "1 \<le> n - count_ones ?low" "n - count_ones ?low \<le> count_ones ?high"
      using assms all low high [of 64] by (auto simp: count_ones_def ones_in_def)
    from nth_set_bit_u64_selects [OF this] obtain i
      where i: "i < 64" "unat (nth_set_bit_u64 ?high (of_nat (n - count_ones ?low))) = i" "bit ?high i"
        "ones_in ?high 0 i = n - count_ones ?low - 1" by blast
    moreover have "ones_in v 0 (64 + i) = ones_in v 0 64 + ones_in v 64 (64 + i)" by (intro ones_in_split) auto
    ultimately show ?thesis
      using True low high [of i] by (auto simp: nth_set_bit_def Let_def bit_simps)
  next
    case False
    then have "n \<le> count_ones ?low" by simp
    from nth_set_bit_u64_selects [OF assms(1) this] obtain i
      where "i < 64" "unat (nth_set_bit_u64 ?low (of_nat n)) = i" "bit ?low i" "ones_in ?low 0 i = n - 1" by blast
    with False show ?thesis by (auto simp: nth_set_bit_def Let_def ones_in_ucast bit_simps)
  qed
  then show "bit v (nth_set_bit v n)" "ones_in v 0 (nth_set_bit v n) = n - 1" "nth_set_bit v n < 128" by auto
qed

section \<open>Bitmaps as lists\<close>

definition of_bits :: "bool list \<Rightarrow> 'a::len word" where
  "of_bits bs = horner_sum of_bool 2 bs"

lemma bit_of_bits: "bit (of_bits bs :: 'a::len word) n \<longleftrightarrow> n < LENGTH('a) \<and> n < length bs \<and> bs ! n"
  by (auto simp: of_bits_def bit_horner_sum_bit_word_iff)

lemma of_bits_eqI:
  "(\<And>n. n < LENGTH('a) \<Longrightarrow> bit w n \<longleftrightarrow> n < length bs \<and> bs ! n) \<Longrightarrow> w = (of_bits bs :: 'a::len word)"
  by (rule bit_word_eqI) (simp add: bit_of_bits)

lemma of_bits_Nil [simp]: "of_bits [] = 0"
  by (simp add: of_bits_def)

lemma of_bits_append: "of_bits as OR push_bit (length as) (of_bits bs) = of_bits (as @ bs)"
  by (rule of_bits_eqI) (auto simp: bit_simps bit_of_bits nth_append)

lemma of_bits_mask: "of_bits bs AND mask n = of_bits (take n bs)"
  by (rule of_bits_eqI) (auto simp: bit_simps bit_of_bits)

lemma drop_of_bits: "length bs \<le> LENGTH('a) \<Longrightarrow> drop_bit n (of_bits bs :: 'a::len word) = of_bits (drop n bs)"
  by (rule of_bits_eqI) (auto simp: bit_simps bit_of_bits)

lemma shl_mask: "push_bit n 1 - 1 = (mask n :: 'a::len word)"
  by (simp add: mask_eq_exp_minus_1)

lemma map_bit_of_bits:
  "length bs \<le> LENGTH('a) \<Longrightarrow>
   map (bit (of_bits bs :: 'a::len word)) [0..<LENGTH('a)] = bs @ replicate (LENGTH('a) - length bs) False"
  by (rule nth_equalityI) (auto simp: bit_of_bits nth_append)

lemma count_of_bits: "length bs \<le> LENGTH('a) \<Longrightarrow> count_ones (of_bits bs :: 'a::len word) = length (filter id bs)"
  using arg_cong [OF map_bit_of_bits [of bs], where f = "\<lambda>bs. length (filter id bs)"]
  by (simp add: count_ones_def filter_map comp_def)

lemma ones_of_bits:
  "length bs \<le> LENGTH('a) \<Longrightarrow> j \<le> length bs \<Longrightarrow>
   ones_in (of_bits bs :: 'a::len word) 0 j = length (filter id (take j bs))"
proof (induction j)
  case (Suc j)
  then show ?case by (auto simp: ones_in_Suc bit_of_bits take_Suc_conv_app_nth)
qed simp

lemma takeWhile_replicate_False: "takeWhile Not (replicate n False @ bs) = replicate n False @ takeWhile Not bs"
  by (induction n) auto

lemma takeWhile_no_True: "True \<notin> set bs \<Longrightarrow> takeWhile Not (bs @ replicate n False) = bs @ replicate n False"
  by (rule takeWhile_eq_all_conv [THEN iffD2]) auto

lemma trailing_zeros_of_bits:
  assumes "length bs \<le> LENGTH('a)"
  shows "trailing_zeros (of_bits bs :: 'a::len word) =
    (if True \<in> set bs then length (takeWhile Not bs) else LENGTH('a))"
proof -
  have "trailing_zeros (of_bits bs :: 'a word) = length (takeWhile Not (bs @ replicate (LENGTH('a) - length bs) False))"
    unfolding map_bit_of_bits [OF assms, symmetric] by (simp add: trailing_zeros_def takeWhile_map comp_def)
  also have "\<dots> = (if True \<in> set bs then length (takeWhile Not bs) else LENGTH('a))"
    using assms by (auto simp: takeWhile_append1 takeWhile_no_True)
  finally show ?thesis .
qed

lemma leading_zeros_of_bits:
  assumes "length bs \<le> LENGTH('a)"
  shows "leading_zeros (of_bits bs :: 'a::len word) = LENGTH('a) - length bs + length (takeWhile Not (rev bs))"
proof -
  have "leading_zeros (of_bits bs :: 'a word) = length (takeWhile Not (rev (bs @ replicate (LENGTH('a) - length bs) False)))"
    unfolding map_bit_of_bits [OF assms, symmetric] by (simp add: leading_zeros_def takeWhile_map comp_def rev_map)
  then show ?thesis by (simp add: takeWhile_replicate_False)
qed

lemma bit_test: "push_bit n 1 AND w \<noteq> 0 \<longleftrightarrow> bit (w :: 'a::len word) n"
proof -
  have bit: "bit (push_bit n 1 AND w) i \<longleftrightarrow> i = n \<and> bit w n" for i
    using bit_imp_le_length [of w n] by (auto simp: bit_and_iff bit_exp_iff)
  show ?thesis
  proof (cases "bit w n")
    case True
    then have "bit (push_bit n 1 AND w) n" by (simp only: bit)
    with True show ?thesis by auto
  next
    case False
    then have "push_bit n 1 AND w = 0" by (intro bit_word_eqI) (simp only: bit bit_0_eq bot_apply bot_bool_def simp_thms)
    with False show ?thesis by simp
  qed
qed

end
