(* ===== verification/TextSummary.thy ===== *)
theory TextSummary
  imports Utf8 SumTreeCorrect
begin

unbundle bit_operations_syntax

text \<open>
  Positions and summaries of text: \<open>Point\<close> and \<open>PointUtf16\<close> (\<open>crates/rope/src/point.rs\<close> and
  \<open>point_utf16.rs\<close>, the same code over two types), \<open>OffsetUtf16\<close>, and the \<open>TextSummary\<close> of
  \<open>crates/rope/src/rope.rs\<close>: lengths in bytes, characters and UTF-16 units, the extent in lines, and
  the longest line. The numbers, \<open>u32\<close> or \<open>usize\<close> in the code, are natural numbers, so that sums
  are exact: the text is assumed shorter than \<open>2 ^ 32\<close>. A subtraction that would underflow is
  \<open>None\<close>.
\<close>

section \<open>Points\<close>

record point =
  pt_row :: nat
  pt_column :: nat

type_synonym point_utf16 = point
type_synonym offset_utf16 = nat

definition point_new :: "nat \<Rightarrow> nat \<Rightarrow> point" where
  "point_new row column = \<lparr>pt_row = row, pt_column = column\<rparr>"

definition point_zero :: point where
  "point_zero = point_new 0 0"

definition point_is_zero :: "point \<Rightarrow> bool" where
  "point_is_zero p \<longleftrightarrow> pt_row p = 0 \<and> pt_column p = 0"

text \<open>\<open>Ord::cmp\<close> where pointers have 64 bits: the row in the upper half of a word.\<close>

definition point_key :: "point \<Rightarrow> nat" where
  "point_key p = (push_bit 32 (pt_row p) OR pt_column p)"

definition point_cmp :: "point \<Rightarrow> point \<Rightarrow> ordering" where
  "point_cmp a b = ord_cmp (point_key a) (point_key b)"

definition point_add :: "point \<Rightarrow> point \<Rightarrow> point" where
  "point_add p other =
     (if pt_row other = 0 then point_new (pt_row p) (pt_column p + pt_column other)
      else point_new (pt_row p + pt_row other) (pt_column other))"

definition sub_usize :: "nat \<Rightarrow> nat \<Rightarrow> nat option" where
  "sub_usize a b = (if b \<le> a then Some (a - b) else None)"

definition point_sub :: "point \<Rightarrow> point \<Rightarrow> point option" where
  "point_sub p other =
     (if pt_row p = pt_row other then map_option (point_new 0) (sub_usize (pt_column p) (pt_column other))
      else map_option (\<lambda>row. point_new row (pt_column p)) (sub_usize (pt_row p) (pt_row other)))"

definition point_saturating_sub :: "point \<Rightarrow> point \<Rightarrow> point option" where
  "point_saturating_sub p other = (if point_cmp p other = Less then Some point_zero else point_sub p other)"

text \<open>\<open>Point::parse_str\<close>: the extent of a text, line by line.\<close>

fun str_split :: "8 word \<Rightarrow> bytes \<Rightarrow> bytes list" where
  "str_split sep [] = [[]]"
| "str_split sep (b # s) =
     (if b = sep then [] # str_split sep s
      else case str_split sep s of l # ls \<Rightarrow> (b # l) # ls | [] \<Rightarrow> [[b]])"

definition parse_str :: "bytes \<Rightarrow> point" where
  "parse_str s = foldl (\<lambda>p (row, line). point_new row (length line)) point_zero (enumerate 0 (str_split 10 s))"

lemma point_new_simps [simp]:
  "pt_row (point_new r c) = r" "pt_column (point_new r c) = c"
  "point_new r c = point_new r' c' \<longleftrightarrow> r = r' \<and> c = c'"
  by (simp_all add: point_new_def)

lemma point_eq_iff: "p = q \<longleftrightarrow> pt_row p = pt_row q \<and> pt_column p = pt_column (q :: point)"
  by (cases p; cases q) simp

lemma point_zero_simps [simp]: "pt_row point_zero = 0" "pt_column point_zero = 0"
  by (simp_all add: point_zero_def)

lemma point_new_collapse [simp]: "point_new (pt_row p) (pt_column p) = p"
  by (simp add: point_eq_iff)

lemma point_add_simps [simp]:
  "pt_row (point_add p q) = pt_row p + pt_row q"
  "pt_column (point_add p q) = (if pt_row q = 0 then pt_column p + pt_column q else pt_column q)"
  by (simp_all add: point_add_def)

lemma point_add_assoc: "point_add (point_add p q) r = point_add p (point_add q r)"
  by (simp add: point_eq_iff)

lemma point_add_zero [simp]: "point_add point_zero p = p" "point_add p point_zero = p"
  by (simp_all add: point_eq_iff)

lemma point_sub_add [simp]: "point_sub (point_add p q) p = Some q"
  by (auto simp: point_sub_def sub_usize_def point_eq_iff)

text \<open>For columns of 32 bits the comparison is the lexicographic one.\<close>

definition point_less :: "point \<Rightarrow> point \<Rightarrow> bool" where
  "point_less a b \<longleftrightarrow> pt_row a < pt_row b \<or> pt_row a = pt_row b \<and> pt_column a < pt_column b"

lemma point_key_eq: "pt_column p < 2 ^ 32 \<Longrightarrow> point_key p = pt_row p * 2 ^ 32 + pt_column p"
proof -
  assume "pt_column p < 2 ^ 32"
  then have "take_bit 32 (pt_column p) = pt_column p" by (simp add: take_bit_nat_eq_self)
  moreover have "push_bit 32 (pt_row p) AND take_bit 32 (pt_column p) = 0"
    by (rule bit_eqI) (auto simp: bit_simps)
  ultimately show ?thesis
    by (simp add: point_key_def push_bit_eq_mult flip: disjunctive_add_eq_or)
qed

lemma point_cmp_iff:
  assumes "pt_column a < 2 ^ 32" "pt_column b < 2 ^ 32"
  shows "point_cmp a b = Less \<longleftrightarrow> point_less a b" "point_cmp a b = Equal \<longleftrightarrow> a = b"
    "point_cmp a b = Greater \<longleftrightarrow> point_less b a"
proof -
  have order: "r * n + c < r' * n + c' \<longleftrightarrow> r < r' \<or> r = r' \<and> c < c'" if "c < n" "c' < n" for r c r' c' n :: nat
  proof (cases r r' rule: linorder_cases)
    case less
    then have "Suc r * n \<le> r' * n" by (simp only: mult_le_mono1 Suc_le_eq)
    with that less show ?thesis by auto
  next
    case greater
    then have "Suc r' * n \<le> r * n" by (simp only: mult_le_mono1 Suc_le_eq)
    with that greater show ?thesis by auto
  qed simp
  note keys = point_key_eq [OF assms(1)] point_key_eq [OF assms(2)] order [OF assms] order [OF assms(2,1)]
  have less: "point_key a < point_key b \<longleftrightarrow> point_less a b" "point_key b < point_key a \<longleftrightarrow> point_less b a"
    by (simp_all only: keys point_less_def)
  have "point_key a = point_key b \<longleftrightarrow> \<not> point_less a b \<and> \<not> point_less b a"
    unfolding less [symmetric] by auto
  also have "\<dots> \<longleftrightarrow> a = b" by (auto simp: point_less_def point_eq_iff)
  finally have same: "point_key a = point_key b \<longleftrightarrow> a = b" .
  show "point_cmp a b = Less \<longleftrightarrow> point_less a b" "point_cmp a b = Greater \<longleftrightarrow> point_less b a"
    "point_cmp a b = Equal \<longleftrightarrow> a = b"
    using less same by (auto simp: point_cmp_def ord_cmp_def)
qed

section \<open>Summaries\<close>

record text_summary =
  ts_len :: nat
  ts_chars :: nat
  ts_len_utf16 :: offset_utf16
  ts_lines :: point
  ts_first_line_chars :: nat
  ts_last_line_chars :: nat
  ts_last_line_len_utf16 :: nat
  ts_longest_row :: nat
  ts_longest_row_chars :: nat

definition ts_zero :: text_summary where
  "ts_zero = \<lparr>ts_len = 0, ts_chars = 0, ts_len_utf16 = 0, ts_lines = point_zero, ts_first_line_chars = 0,
     ts_last_line_chars = 0, ts_last_line_len_utf16 = 0, ts_longest_row = 0, ts_longest_row_chars = 0\<rparr>"

definition lines_utf16 :: "text_summary \<Rightarrow> point_utf16" where
  "lines_utf16 s = point_new (pt_row (ts_lines s)) (ts_last_line_len_utf16 s)"

definition newline :: text_summary where
  "newline = \<lparr>ts_len = 1, ts_chars = 1, ts_len_utf16 = 1, ts_lines = point_new 1 0, ts_first_line_chars = 0,
     ts_last_line_chars = 0, ts_last_line_len_utf16 = 0, ts_longest_row = 0, ts_longest_row_chars = 0\<rparr>"

definition add_newline :: "text_summary \<Rightarrow> text_summary" where
  "add_newline s = s\<lparr>ts_len := ts_len s + 1, ts_len_utf16 := ts_len_utf16 s + (ts_len_utf16 s + 1),
     ts_last_line_chars := 0, ts_last_line_len_utf16 := 0, ts_lines := point_add (ts_lines s) (point_new 1 0)\<rparr>"

text \<open>\<open>AddAssign\<close>.\<close>

definition ts_add :: "text_summary \<Rightarrow> text_summary \<Rightarrow> text_summary" where
  "ts_add s other =
     (let joined_chars = ts_last_line_chars s + ts_first_line_chars other;
          s = (if joined_chars > ts_longest_row_chars s
               then s\<lparr>ts_longest_row := pt_row (ts_lines s), ts_longest_row_chars := joined_chars\<rparr> else s);
          s = (if ts_longest_row_chars other > ts_longest_row_chars s
               then s\<lparr>ts_longest_row := pt_row (ts_lines s) + ts_longest_row other,
                      ts_longest_row_chars := ts_longest_row_chars other\<rparr> else s);
          s = (if pt_row (ts_lines s) = 0
               then s\<lparr>ts_first_line_chars := ts_first_line_chars s + ts_first_line_chars other\<rparr> else s);
          s = (if pt_row (ts_lines other) = 0
               then s\<lparr>ts_last_line_chars := ts_last_line_chars s + ts_first_line_chars other,
                      ts_last_line_len_utf16 := ts_last_line_len_utf16 s + ts_last_line_len_utf16 other\<rparr>
               else s\<lparr>ts_last_line_chars := ts_last_line_chars other,
                      ts_last_line_len_utf16 := ts_last_line_len_utf16 other\<rparr>)
      in s\<lparr>ts_chars := ts_chars s + ts_chars other, ts_len := ts_len s + ts_len other,
           ts_len_utf16 := ts_len_utf16 s + ts_len_utf16 other, ts_lines := point_add (ts_lines s) (ts_lines other)\<rparr>)"

text \<open>\<open>From<&str>\<close>: the body of the loop over the characters, and the loop.\<close>

definition summarize_char :: "text_summary \<Rightarrow> bytes \<Rightarrow> text_summary" where
  "summarize_char s c =
     (let s = s\<lparr>ts_chars := ts_chars s + 1, ts_len_utf16 := ts_len_utf16 s + utf16_len c\<rparr>;
          s = (if c = [10]
               then s\<lparr>ts_lines := point_add (ts_lines s) (point_new 1 0), ts_last_line_len_utf16 := 0,
                      ts_last_line_chars := 0\<rparr>
               else s\<lparr>ts_lines := (ts_lines s)\<lparr>pt_column := pt_column (ts_lines s) + length c\<rparr>,
                      ts_last_line_len_utf16 := ts_last_line_len_utf16 s + utf16_len c,
                      ts_last_line_chars := ts_last_line_chars s + 1\<rparr>);
          s = (if pt_row (ts_lines s) = 0 then s\<lparr>ts_first_line_chars := ts_last_line_chars s\<rparr> else s)
      in if ts_last_line_chars s > ts_longest_row_chars s
         then s\<lparr>ts_longest_row := pt_row (ts_lines s), ts_longest_row_chars := ts_last_line_chars s\<rparr> else s)"

definition text_summary_from :: "bytes \<Rightarrow> text_summary" where
  "text_summary_from s = (foldl summarize_char ts_zero (str_chars s))\<lparr>ts_len := length s\<rparr>"

section \<open>The laws of text summaries\<close>

text \<open>
  What the sum of two summaries relies on, and what every summary of a text satisfies; both are
  kept by sums.
\<close>

definition ts_law :: "text_summary \<Rightarrow> bool" where
  "ts_law s \<longleftrightarrow> ts_first_line_chars s \<le> ts_longest_row_chars s \<and>
     (ts_longest_row_chars s = ts_first_line_chars s \<longrightarrow> ts_longest_row s = 0) \<and>
     (pt_row (ts_lines s) = 0 \<longrightarrow> ts_first_line_chars s = ts_last_line_chars s \<and>
        ts_longest_row_chars s = ts_first_line_chars s)"

definition ts_ok :: "text_summary \<Rightarrow> bool" where
  "ts_ok s \<longleftrightarrow> ts_last_line_chars s \<le> ts_longest_row_chars s \<and> ts_law s"

lemma ts_eq_iff:
  "s = t \<longleftrightarrow> ts_len s = ts_len t \<and> ts_chars s = ts_chars t \<and> ts_len_utf16 s = ts_len_utf16 t \<and>
    ts_lines s = ts_lines t \<and> ts_first_line_chars s = ts_first_line_chars t \<and>
    ts_last_line_chars s = ts_last_line_chars t \<and> ts_last_line_len_utf16 s = ts_last_line_len_utf16 t \<and>
    ts_longest_row s = ts_longest_row t \<and> ts_longest_row_chars s = ts_longest_row_chars (t :: text_summary)"
  by (cases s; cases t) simp

lemma ts_add_simps [simp]:
  "ts_len (ts_add s t) = ts_len s + ts_len t"
  "ts_chars (ts_add s t) = ts_chars s + ts_chars t"
  "ts_len_utf16 (ts_add s t) = ts_len_utf16 s + ts_len_utf16 t"
  "ts_lines (ts_add s t) = point_add (ts_lines s) (ts_lines t)"
  "ts_first_line_chars (ts_add s t) = (if pt_row (ts_lines s) = 0
     then ts_first_line_chars s + ts_first_line_chars t else ts_first_line_chars s)"
  "ts_last_line_chars (ts_add s t) = (if pt_row (ts_lines t) = 0
     then ts_last_line_chars s + ts_first_line_chars t else ts_last_line_chars t)"
  "ts_last_line_len_utf16 (ts_add s t) = (if pt_row (ts_lines t) = 0
     then ts_last_line_len_utf16 s + ts_last_line_len_utf16 t else ts_last_line_len_utf16 t)"
  "ts_longest_row_chars (ts_add s t) =
     max (max (ts_longest_row_chars s) (ts_last_line_chars s + ts_first_line_chars t)) (ts_longest_row_chars t)"
  "ts_longest_row (ts_add s t) =
     (if ts_longest_row_chars t > max (ts_longest_row_chars s) (ts_last_line_chars s + ts_first_line_chars t)
      then pt_row (ts_lines s) + ts_longest_row t
      else if ts_last_line_chars s + ts_first_line_chars t > ts_longest_row_chars s then pt_row (ts_lines s)
      else ts_longest_row s)"
  by (simp_all add: ts_add_def Let_def max_def)

lemma ts_zero_simps [simp]:
  "ts_len ts_zero = 0" "ts_chars ts_zero = 0" "ts_len_utf16 ts_zero = 0" "ts_lines ts_zero = point_zero"
  "ts_first_line_chars ts_zero = 0" "ts_last_line_chars ts_zero = 0" "ts_last_line_len_utf16 ts_zero = 0"
  "ts_longest_row ts_zero = 0" "ts_longest_row_chars ts_zero = 0"
  by (simp_all add: ts_zero_def)

lemma ts_ok_zero [simp]: "ts_ok ts_zero"
  by (simp add: ts_ok_def ts_law_def)

lemma ts_ok_add: "ts_ok s \<Longrightarrow> ts_ok t \<Longrightarrow> ts_ok (ts_add s t)"
  by (auto simp: ts_ok_def ts_law_def max_def)

lemma ts_ok_law [simp]: "ts_ok s \<Longrightarrow> ts_law s"
  by (simp add: ts_ok_def)

lemma ts_law_zero [simp]: "ts_law ts_zero"
  by (simp add: ts_law_def)

lemma ts_law_add: "ts_law s \<Longrightarrow> ts_law t \<Longrightarrow> ts_law (ts_add s t)"
  by (auto simp: ts_law_def max_def)

lemma ts_add_zero_left: "ts_law s \<Longrightarrow> ts_add ts_zero s = s"
  by (auto simp: ts_eq_iff ts_law_def)

lemma ts_add_assoc:
  assumes "ts_law b"
  shows "ts_add (ts_add a b) c = ts_add a (ts_add b c)"
proof (cases "pt_row (ts_lines b) = 0")
  case True
  then have "ts_last_line_chars b = ts_first_line_chars b" "ts_longest_row_chars b = ts_first_line_chars b"
    using assms by (simp_all add: ts_law_def)
  with True show ?thesis
    unfolding ts_eq_iff by (intro conjI) (simp_all add: point_add_assoc max_def)
next
  case False
  then show ?thesis
    unfolding ts_eq_iff by (intro conjI) (simp_all add: point_add_assoc max_def)
qed

section \<open>The summary of a text\<close>

text \<open>The extent of a text in lines, byte by byte.\<close>

definition point_of :: "bytes \<Rightarrow> point" where
  "point_of s = foldl (\<lambda>p b. if b = 10 then point_new (pt_row p + 1) 0 else point_new (pt_row p) (pt_column p + 1)) point_zero s"

lemma point_of_Nil [simp]: "point_of [] = point_zero"
  by (simp add: point_of_def)

lemma point_of_snoc [simp]:
  "point_of (s @ [b]) = (if b = 10 then point_new (pt_row (point_of s) + 1) 0
     else point_new (pt_row (point_of s)) (pt_column (point_of s) + 1))"
  by (simp add: point_of_def)

lemma point_of_append: "point_of (a @ b) = point_add (point_of a) (point_of b)"
proof (induction b rule: rev_induct)
  case (snoc x b)
  then show ?case by (simp add: point_eq_iff flip: append_assoc)
qed simp

lemma point_of_no_newline: "10 \<notin> set s \<Longrightarrow> point_of s = point_new 0 (length s)"
  by (induction s rule: rev_induct) (simp_all add: point_eq_iff)

lemma utf8_char_newline: "utf8_char c \<Longrightarrow> c \<noteq> [10] \<Longrightarrow> 10 \<notin> set c"
  by (cases c) (auto simp: utf8_char_def is_char_start_def utf8_len_def)

text \<open>One more character.\<close>

lemma summarize_char_simps:
  "ts_len (summarize_char s c) = ts_len s"
  "ts_chars (summarize_char s c) = ts_chars s + 1"
  "ts_len_utf16 (summarize_char s c) = ts_len_utf16 s + utf16_len c"
  "ts_lines (summarize_char s c) = (if c = [10] then point_add (ts_lines s) (point_new 1 0)
     else point_add (ts_lines s) (point_new 0 (length c)))"
  "ts_last_line_chars (summarize_char s c) = (if c = [10] then 0 else ts_last_line_chars s + 1)"
  "ts_last_line_len_utf16 (summarize_char s c) = (if c = [10] then 0 else ts_last_line_len_utf16 s + utf16_len c)"
  "ts_first_line_chars (summarize_char s c) =
     (if c \<noteq> [10] \<and> pt_row (ts_lines s) = 0 then ts_last_line_chars s + 1 else ts_first_line_chars s)"
  "ts_longest_row_chars (summarize_char s c) =
     (if c = [10] then ts_longest_row_chars s else max (ts_longest_row_chars s) (ts_last_line_chars s + 1))"
  "ts_longest_row (summarize_char s c) =
     (if c \<noteq> [10] \<and> ts_last_line_chars s + 1 > ts_longest_row_chars s then pt_row (ts_lines s) else ts_longest_row s)"
  by (auto simp: summarize_char_def Let_def point_eq_iff)

lemma ts_ok_char: "ts_ok s \<Longrightarrow> ts_ok (summarize_char s c)"
  by (auto simp: ts_ok_def ts_law_def summarize_char_simps max_def)

lemma summarize_char_add:
  assumes "ts_ok s" "ts_ok t"
  shows "summarize_char (ts_add s t) c = ts_add s (summarize_char t c)"
proof (cases "pt_row (ts_lines t) = 0")
  case True
  then have "ts_last_line_chars t = ts_first_line_chars t" "ts_longest_row_chars t = ts_first_line_chars t"
    "pt_row (ts_lines s) = 0 \<longrightarrow> ts_first_line_chars s = ts_last_line_chars s"
    using assms by (simp_all add: ts_ok_def ts_law_def)
  with True show ?thesis
    unfolding ts_eq_iff by (intro conjI) (simp_all add: summarize_char_simps point_eq_iff max_def)
next
  case False
  then show ?thesis
    unfolding ts_eq_iff by (intro conjI) (simp_all add: summarize_char_simps point_eq_iff max_def)
qed

lemma foldl_summarize_ok: "ts_ok s \<Longrightarrow> ts_ok (foldl summarize_char s cs)"
  by (induction cs arbitrary: s) (simp_all add: ts_ok_char)

lemma foldl_summarize_add:
  assumes "ts_ok s" "ts_ok t"
  shows "foldl summarize_char (ts_add s t) cs = ts_add s (foldl summarize_char t cs)"
  using assms(2)
proof (induction cs arbitrary: t)
  case (Cons c cs)
  then show ?case using assms(1) by (simp add: summarize_char_add ts_ok_char)
qed simp

lemma ts_add_zero_right: "ts_ok s \<Longrightarrow> ts_add s ts_zero = s"
  by (simp add: ts_eq_iff ts_ok_def ts_law_def)

lemma text_summary_from_append:
  assumes "utf8 a"
  shows "text_summary_from (a @ b) = ts_add (text_summary_from a) (text_summary_from b)"
proof -
  let ?f = "foldl summarize_char"
  have "?f ts_zero (str_chars a @ str_chars b) = ?f (ts_add (?f ts_zero (str_chars a)) ts_zero) (str_chars b)"
    by (simp add: ts_add_zero_right foldl_summarize_ok)
  also have "\<dots> = ts_add (?f ts_zero (str_chars a)) (?f ts_zero (str_chars b))"
    by (rule foldl_summarize_add) (simp_all add: foldl_summarize_ok)
  finally show ?thesis
    using assms by (simp add: text_summary_from_def ts_eq_iff)
qed

lemma ts_ok_from: "ts_ok (text_summary_from s)"
  using foldl_summarize_ok [of ts_zero "str_chars s"] by (simp add: text_summary_from_def ts_ok_def ts_law_def)

lemma text_summary_from_Nil [simp]: "text_summary_from [] = ts_zero"
  by (simp add: text_summary_from_def ts_eq_iff)

lemma text_summary_from_char:
  "utf8_char c \<Longrightarrow> text_summary_from c = (summarize_char ts_zero c)\<lparr>ts_len := length c\<rparr>"
  by (simp add: text_summary_from_def)

text \<open>What the fields mean.\<close>

lemma lines_from: "utf8 s \<Longrightarrow> ts_lines (text_summary_from s) = point_of s"
proof (induction s rule: utf8_induct)
  case (Char c s)
  have "ts_lines (text_summary_from c) = point_of c"
  proof (cases "c = [10]")
    case True
    then show ?thesis using Char.hyps
      by (simp add: text_summary_from_char summarize_char_simps point_of_def point_eq_iff)
  next
    case False
    with utf8_char_newline [OF Char.hyps(1)] show ?thesis using Char.hyps
      by (simp add: text_summary_from_char summarize_char_simps point_of_no_newline point_eq_iff)
  qed
  with Char show ?case by (simp add: text_summary_from_append point_of_append)
qed simp

lemma len_from [simp]: "ts_len (text_summary_from s) = length s"
  by (simp add: text_summary_from_def)

lemma chars_from: "ts_chars (text_summary_from s) = length (str_chars s)"
proof -
  have "ts_chars (foldl summarize_char t cs) = ts_chars t + length cs" for t cs
    by (induction cs arbitrary: t) (simp_all add: summarize_char_simps)
  then show ?thesis by (simp add: text_summary_from_def)
qed

definition utf16_units :: "bytes \<Rightarrow> nat" where
  "utf16_units s = sum_list (map utf16_len (str_chars s))"

lemma len_utf16_from: "ts_len_utf16 (text_summary_from s) = utf16_units s"
proof -
  have "ts_len_utf16 (foldl summarize_char t cs) = ts_len_utf16 t + sum_list (map utf16_len cs)" for t cs
    by (induction cs arbitrary: t) (simp_all add: summarize_char_simps)
  then show ?thesis by (simp add: text_summary_from_def utf16_units_def)
qed

text \<open>A newline appended: \<open>newline\<close> is the summary of a newline, but \<open>add_newline\<close> does not add it.\<close>

lemma newline_from: "newline = text_summary_from [10]"
proof -
  have "utf8_char [10]" by (simp add: utf8_char_def is_char_start_def utf8_len_def)
  then show ?thesis
    by (simp add: text_summary_from_char newline_def ts_eq_iff summarize_char_simps utf16_len_def point_eq_iff)
qed

lemma add_newline_wrong: "add_newline (text_summary_from [97]) \<noteq> ts_add (text_summary_from [97]) newline"
proof -
  have "utf8_char [97]" by (simp add: utf8_char_def is_char_start_def utf8_len_def)
  then show ?thesis
    by (simp add: text_summary_from_char newline_def add_newline_def ts_eq_iff summarize_char_simps utf16_len_def)
qed

end
