(* ===== verification/Chunk.thy ===== *)
theory Chunk
  imports Bitmap TextSummary SumTree "HOL-Library.Monad_Syntax"
begin

unbundle bit_operations_syntax

text \<open>
  The chunk of a rope (\<open>crates/rope/src/chunk.rs\<close>): at most 128 bytes of text with four bitmaps over
  them: where characters start, how many UTF-16 units they take, where the newlines and the tabs
  are. \<open>Chunk\<close> and \<open>ChunkSlice\<close> have the same fields and are one record. A panic is \<open>None\<close>;
  \<open>debug_panic!\<close>, which only logs in a release build, is taken as in a release build.
\<close>

section \<open>Chunks\<close>

definition MAX_BASE :: nat where "MAX_BASE = 128"
definition MIN_BASE :: nat where "MIN_BASE = MAX_BASE div 2"

lemma MAX_BASE_eq [simp]: "MAX_BASE = 128" and MIN_BASE_eq [simp]: "MIN_BASE = 64"
  by (simp_all add: MAX_BASE_def MIN_BASE_def)

record chunk =
  ck_chars :: "128 word"
  ck_chars_utf16 :: "128 word"
  ck_newlines :: "128 word"
  ck_tabs :: "128 word"
  ck_text :: bytes

definition saturating_shl_mask :: "nat \<Rightarrow> 128 word" where
  "saturating_shl_mask offset = push_bit offset 1 - 1"

definition saturating_shr_mask :: "nat \<Rightarrow> 128 word" where
  "saturating_shr_mask offset = NOT (drop_bit offset (- 1))"

text \<open>The loop of \<open>Chunk::new\<close>: eight bytes of text give a byte of each bitmap.\<close>

definition flag_byte :: "(8 word \<Rightarrow> bool) \<Rightarrow> bytes \<Rightarrow> 8 word" where
  "flag_byte p bs = foldl (\<lambda>acc (ix, b). acc OR push_bit ix (of_bool (p b))) 0 (enumerate 0 bs)"

definition from_le_bytes :: "bytes \<Rightarrow> 128 word" where
  "from_le_bytes bs = foldr (\<lambda>b acc. ucast b OR push_bit 8 acc) bs 0"

definition flag_bitmap :: "(8 word \<Rightarrow> bool) \<Rightarrow> bytes \<Rightarrow> 128 word" where
  "flag_bitmap p s = from_le_bytes (resize (MAX_BASE div 8) 0 (map (flag_byte p) (chunks 8 s)))"

definition chunk_new :: "bytes \<Rightarrow> chunk option" where
  "chunk_new s =
     (if length s > MAX_BASE then None
      else let chars = flag_bitmap is_utf8_char_boundary s
           in Some \<lparr>ck_chars = chars, ck_chars_utf16 = push_bit 1 (flag_bitmap (\<lambda>b. b \<ge> 240) s) OR chars,
                ck_newlines = flag_bitmap (\<lambda>b. b = 10) s, ck_tabs = flag_bitmap (\<lambda>b. b = 9) s, ck_text = s\<rparr>)"

definition empty_chunk :: chunk where
  "empty_chunk = \<lparr>ck_chars = 0, ck_chars_utf16 = 0, ck_newlines = 0, ck_tabs = 0, ck_text = []\<rparr>"

definition chunk_len :: "chunk \<Rightarrow> nat" where
  "chunk_len c = length (ck_text c)"

text \<open>A shift by the width of the bitmap panics, as does pushing text beyond the capacity.\<close>

definition chunk_append :: "chunk \<Rightarrow> chunk \<Rightarrow> chunk option" where
  "chunk_append other c =
     (if ck_text other = [] then Some c
      else let base_ix = chunk_len c
           in if base_ix \<ge> MAX_BASE \<or> base_ix + chunk_len other > MAX_BASE then None
              else Some \<lparr>ck_chars = ck_chars c OR push_bit base_ix (ck_chars other),
                ck_chars_utf16 = ck_chars_utf16 c OR push_bit base_ix (ck_chars_utf16 other),
                ck_newlines = ck_newlines c OR push_bit base_ix (ck_newlines other),
                ck_tabs = ck_tabs c OR push_bit base_ix (ck_tabs other), ck_text = ck_text c @ ck_text other\<rparr>)"

definition chunk_prepend :: "chunk \<Rightarrow> chunk \<Rightarrow> chunk option" where
  "chunk_prepend other c =
     (if ck_text other = [] then Some c
      else if ck_text c = [] then chunk_new (ck_text other)
      else let shift = chunk_len other
           in if shift \<ge> MAX_BASE \<or> shift + chunk_len c > MAX_BASE then None
              else Some \<lparr>ck_chars = ck_chars other OR push_bit shift (ck_chars c),
                ck_chars_utf16 = ck_chars_utf16 other OR push_bit shift (ck_chars_utf16 c),
                ck_newlines = ck_newlines other OR push_bit shift (ck_newlines c),
                ck_tabs = ck_tabs other OR push_bit shift (ck_tabs c), ck_text = ck_text other @ ck_text c\<rparr>)"

definition chunk_push_str :: "bytes \<Rightarrow> chunk \<Rightarrow> chunk option" where
  "chunk_push_str s c = Option.bind (chunk_new s) (\<lambda>other. chunk_append other c)"

definition chunk_prepend_str :: "bytes \<Rightarrow> chunk \<Rightarrow> chunk option" where
  "chunk_prepend_str s c = Option.bind (chunk_new s) (\<lambda>other. chunk_prepend other c)"

definition chunk_is_char_boundary :: "nat \<Rightarrow> chunk \<Rightarrow> bool" where
  "chunk_is_char_boundary offset c \<longleftrightarrow> push_bit offset 1 AND ck_chars c \<noteq> 0 \<or> offset = chunk_len c"

section \<open>Slices\<close>

definition split_at :: "nat \<Rightarrow> chunk \<Rightarrow> (chunk \<times> chunk) option" where
  "split_at mid c =
     (if mid = MAX_BASE then Some (c, empty_chunk)
      else if mid > MAX_BASE then None
      else let mask = push_bit mid 1 - 1
           in map_option (\<lambda>(left_text, right_text).
                (\<lparr>ck_chars = ck_chars c AND mask, ck_chars_utf16 = ck_chars_utf16 c AND mask,
                  ck_newlines = ck_newlines c AND mask, ck_tabs = ck_tabs c AND mask, ck_text = left_text\<rparr>,
                 \<lparr>ck_chars = drop_bit mid (ck_chars c), ck_chars_utf16 = drop_bit mid (ck_chars_utf16 c),
                  ck_newlines = drop_bit mid (ck_newlines c), ck_tabs = drop_bit mid (ck_tabs c), ck_text = right_text\<rparr>))
              (str_split_at (ck_text c) mid))"

text \<open>\<open>&s[start..end]\<close>.\<close>

definition str_slice :: "bytes \<Rightarrow> nat \<Rightarrow> nat \<Rightarrow> bytes option" where
  "str_slice s i j =
     (if i \<le> j \<and> str_is_char_boundary s i \<and> str_is_char_boundary s j then Some (take (j - i) (drop i s)) else None)"

definition chunk_slice :: "nat \<Rightarrow> nat \<Rightarrow> chunk \<Rightarrow> chunk option" where
  "chunk_slice i j c =
     (if i = MAX_BASE then Some empty_chunk
      else let i = (if chunk_is_char_boundary i c then i else ceil_char_boundary (ck_text c) i);
               j = (if chunk_is_char_boundary j c then j
                    else if j < i then i else floor_char_boundary (ck_text c) j);
               mask = push_bit j 1 - 1
           in if i \<ge> MAX_BASE then None
              else map_option (\<lambda>s.
                \<lparr>ck_chars = drop_bit i (ck_chars c AND mask), ck_chars_utf16 = drop_bit i (ck_chars_utf16 c AND mask),
                 ck_newlines = drop_bit i (ck_newlines c AND mask), ck_tabs = drop_bit i (ck_tabs c AND mask), ck_text = s\<rparr>)
              (str_slice (ck_text c) i j))"

section \<open>Summaries\<close>

definition chunk_len_utf16 :: "chunk \<Rightarrow> offset_utf16" where
  "chunk_len_utf16 c = count_ones (ck_chars_utf16 c)"

definition chunk_lines :: "chunk \<Rightarrow> point" where
  "chunk_lines c = point_new (count_ones (ck_newlines c)) (leading_zeros (ck_newlines c) - (MAX_BASE - chunk_len c))"

definition first_line_chars :: "chunk \<Rightarrow> nat" where
  "first_line_chars c = count_ones (ck_chars c AND saturating_shl_mask (trailing_zeros (ck_newlines c)))"

definition last_line_chars :: "chunk \<Rightarrow> nat" where
  "last_line_chars c = count_ones (ck_chars c AND saturating_shr_mask (leading_zeros (ck_newlines c)))"

definition last_line_len_utf16 :: "chunk \<Rightarrow> nat" where
  "last_line_len_utf16 c = count_ones (ck_chars_utf16 c AND saturating_shr_mask (leading_zeros (ck_newlines c)))"

text \<open>\<open>longest_row\<close>: the state of the loop is what is left of the bitmaps, the row, the longest row so
  far and the characters seen. It counts in bytes, which suffices for a chunk.\<close>

lemma trailing_zeros_less:
  fixes w :: "'a::len word"
  assumes "w \<noteq> 0"
  shows "trailing_zeros w < LENGTH('a)" "bit w (trailing_zeros w)"
proof -
  obtain n where n: "bit w n" "n < LENGTH('a)"
    using assms bit_word_eqI [of w 0] by auto
  have *: "length (takeWhile (\<lambda>i. \<not> bit w i) [0..<LENGTH('a)]) < length [0..<LENGTH('a)]"
  proof (rule ccontr)
    assume "\<not> ?thesis"
    then have "takeWhile (\<lambda>i. \<not> bit w i) [0..<LENGTH('a)] = [0..<LENGTH('a)]"
      by (metis le_neq_implies_less length_takeWhile_le order_refl take_all takeWhile_eq_take)
    then show False using n by (simp add: takeWhile_eq_all_conv)
  qed
  then show "trailing_zeros w < LENGTH('a)" by (simp add: trailing_zeros_def)
  show "bit w (trailing_zeros w)"
    using nth_length_takeWhile [OF *] * by (simp add: trailing_zeros_def)
qed

lemma drop_bit_decreases:
  assumes "w > (0 :: 128 word)"
  shows "unat (drop_bit 1 (drop_bit n w)) < unat w"
proof -
  have "unat (drop_bit 1 (drop_bit n w)) = unat w div 2 ^ n div 2"
    unfolding unat_drop_bit_eq by (simp add: drop_bit_eq_div)
  also have "\<dots> \<le> unat w div 2" by (intro div_le_mono div_le_dividend)
  also have "\<dots> < unat w" using assms by (simp add: word_less_nat_alt)
  finally show ?thesis .
qed

function longest_row_loop ::
  "128 word \<Rightarrow> 128 word \<Rightarrow> nat \<Rightarrow> nat \<Rightarrow> nat \<Rightarrow> nat \<Rightarrow> (nat \<times> nat) \<times> nat" where
  "longest_row_loop chars newlines row longest_row longest_row_chars total_chars =
     (if newlines > 0 then
        let newline_ix = trailing_zeros newlines;
            row_chars = count_ones (chars AND (push_bit newline_ix 1 - 1));
            total_chars = total_chars + row_chars;
            (longest_row, longest_row_chars) =
              (if row_chars > longest_row_chars then (row, row_chars) else (longest_row, longest_row_chars))
        in longest_row_loop (drop_bit 1 (drop_bit newline_ix chars)) (drop_bit 1 (drop_bit newline_ix newlines))
             (row + 1) longest_row longest_row_chars (total_chars + 1)
      else
        let row_chars = count_ones chars
        in (if row_chars > longest_row_chars then (row, row_chars) else (longest_row, longest_row_chars),
            total_chars + row_chars))"
  by pat_completeness auto
termination
  by (relation "measure (\<lambda>(_, newlines, _). unat newlines)") (simp_all add: drop_bit_decreases [simplified One_nat_def] del: drop_bit_drop_bit)

declare longest_row_loop.simps [simp del]

definition chunk_text_summary :: "chunk \<Rightarrow> text_summary" where
  "chunk_text_summary c =
     (let ((longest_row, longest_row_chars), chars) = longest_row_loop (ck_chars c) (ck_newlines c) 0 0 0 0
      in \<lparr>ts_len = chunk_len c, ts_chars = chars, ts_len_utf16 = chunk_len_utf16 c, ts_lines = chunk_lines c,
           ts_first_line_chars = first_line_chars c, ts_last_line_chars = last_line_chars c,
           ts_last_line_len_utf16 = last_line_len_utf16 c, ts_longest_row = longest_row,
           ts_longest_row_chars = longest_row_chars\<rparr>)"

section \<open>Positions\<close>

definition chunk_offset_to_point :: "nat \<Rightarrow> chunk \<Rightarrow> point" where
  "chunk_offset_to_point offset c =
     (let mask = push_bit offset 1 - 1;
          row = count_ones (ck_newlines c AND mask);
          newline_ix = MAX_BASE - leading_zeros (ck_newlines c AND mask)
      in point_new row (offset - newline_ix))"

definition offset_range_for_row :: "nat \<Rightarrow> chunk \<Rightarrow> nat \<times> nat" where
  "offset_range_for_row row c =
     (let row_start = (if row > 0 then nth_set_bit (ck_newlines c) row + 1 else 0);
          row_len = (if row_start = MAX_BASE then 0
                     else min (trailing_zeros (drop_bit row_start (ck_newlines c))) (chunk_len c - row_start))
      in (row_start, row_start + row_len))"

definition chunk_point_to_offset :: "point \<Rightarrow> chunk \<Rightarrow> nat" where
  "chunk_point_to_offset p c =
     (if pt_row p > pt_row (chunk_lines c) then chunk_len c
      else let (i, j) = offset_range_for_row (pt_row p) c
           in if pt_column p > j - i then j else i + pt_column p)"

definition chunk_offset_to_offset_utf16 :: "nat \<Rightarrow> chunk \<Rightarrow> offset_utf16" where
  "chunk_offset_to_offset_utf16 offset c = count_ones (ck_chars_utf16 c AND (push_bit offset 1 - 1))"

definition chunk_offset_utf16_to_offset :: "offset_utf16 \<Rightarrow> chunk \<Rightarrow> nat" where
  "chunk_offset_utf16_to_offset target c =
     (if target = 0 then 0
      else let ix = nth_set_bit (ck_chars_utf16 c) target + 1
           in if ix = MAX_BASE then MAX_BASE
              else ix + min (trailing_zeros (drop_bit ix (ck_chars_utf16 c))) (chunk_len c - ix))"

definition chunk_point_to_offset_utf16 :: "point \<Rightarrow> chunk \<Rightarrow> offset_utf16" where
  "chunk_point_to_offset_utf16 p c =
     (if pt_row p > pt_row (chunk_lines c) then chunk_len_utf16 c
      else chunk_offset_to_offset_utf16 (chunk_point_to_offset p c) c)"

definition chunk_offset_to_point_utf16 :: "nat \<Rightarrow> chunk \<Rightarrow> point_utf16" where
  "chunk_offset_to_point_utf16 offset c =
     (let mask = saturating_shl_mask offset;
          row = count_ones (ck_newlines c AND saturating_shl_mask offset);
          newline_ix = MAX_BASE - leading_zeros (ck_newlines c AND mask);
          column = (if newline_ix = MAX_BASE then 0
                    else count_ones (drop_bit newline_ix (ck_chars_utf16 c AND mask)))
      in point_new row column)"

definition chunk_point_to_point_utf16 :: "point \<Rightarrow> chunk \<Rightarrow> point_utf16" where
  "chunk_point_to_point_utf16 p c = chunk_offset_to_point_utf16 (chunk_point_to_offset p c) c"

text \<open>The loop \<open>while !is_char_boundary(offset) { offset -= 1 }\<close>; offset 0 is always a boundary.\<close>

fun back_to_boundary :: "bytes \<Rightarrow> nat \<Rightarrow> nat" where
  "back_to_boundary s 0 = 0"
| "back_to_boundary s (Suc n) = (if str_is_char_boundary s (Suc n) then Suc n else back_to_boundary s n)"

definition chunk_point_utf16_to_offset :: "point_utf16 \<Rightarrow> chunk \<Rightarrow> nat option" where
  "chunk_point_utf16_to_offset p c =
     (if pt_row p > pt_row (chunk_lines c) then Some (chunk_len c)
      else let (i, j) = offset_range_for_row (pt_row p) c
           in map_option (\<lambda>line.
                if pt_column p > last_line_len_utf16 line then j
                else if pt_column p > 0
                then back_to_boundary (ck_text c) (i + chunk_offset_utf16_to_offset (pt_column p) line)
                else i) (chunk_slice i j c))"

definition chunk_unclipped_point_utf16_to_point :: "point_utf16 \<Rightarrow> chunk \<Rightarrow> point option" where
  "chunk_unclipped_point_utf16_to_point p c =
     (let max_point = chunk_lines c
      in if pt_row p > pt_row max_point then Some max_point
         else let (i, j) = offset_range_for_row (pt_row p) c
              in map_option (\<lambda>line.
                   if pt_column p = 0 then point_new (pt_row p) 0
                   else if pt_column p \<ge> chunk_len_utf16 line then point_new (pt_row p) (chunk_len line)
                   else point_new (pt_row p) (back_to_boundary (ck_text line) (chunk_offset_utf16_to_offset (pt_column p) line)))
                 (chunk_slice i j c))"

text \<open>The loop that moves to a boundary, to the left or to the right.\<close>

partial_function (option) move_to_boundary :: "bias \<Rightarrow> bytes \<Rightarrow> nat \<Rightarrow> nat option" where
  "move_to_boundary b s offset =
     (if str_is_char_boundary s offset then Some offset
      else if b = Left then Option.bind (sub_usize offset 1) (move_to_boundary b s)
      else move_to_boundary b s (offset + 1))"

definition chunk_clip_offset_utf16 :: "offset_utf16 \<Rightarrow> bias \<Rightarrow> chunk \<Rightarrow> offset_utf16 option" where
  "chunk_clip_offset_utf16 target b c =
     (if target = 0 then Some 0
      else if target \<ge> chunk_len_utf16 c then Some (chunk_len_utf16 c)
      else map_option (\<lambda>offset. chunk_offset_to_offset_utf16 offset c)
             (move_to_boundary b (ck_text c) (chunk_offset_utf16_to_offset target c)))"

definition chunk_clip_point_utf16 :: "point_utf16 \<Rightarrow> bias \<Rightarrow> chunk \<Rightarrow> point_utf16 option" where
  "chunk_clip_point_utf16 p b c =
     (let max_point = chunk_lines c
      in if pt_row p > pt_row max_point then Some (point_new (pt_row max_point) (last_line_len_utf16 c))
         else let (i, j) = offset_range_for_row (pt_row p) c
              in do {
                   line \<leftarrow> chunk_slice i j c;
                   column \<leftarrow> chunk_clip_offset_utf16 (pt_column p) b line;
                   Some (point_new (pt_row p) column)
                 })"

text \<open>
  \<open>clip_point\<close>. The grapheme boundaries come from the crate \<open>unicode-segmentation\<close>: they are the
  parameter \<open>is_grapheme_boundary\<close>, of the text of the line and an offset in it.
\<close>

partial_function (option) move_to_grapheme ::
  "(bytes \<Rightarrow> nat \<Rightarrow> bool) \<Rightarrow> bias \<Rightarrow> chunk \<Rightarrow> nat \<Rightarrow> nat option" where
  "move_to_grapheme is_grapheme_boundary b line column =
     (if chunk_is_char_boundary column line \<and> is_grapheme_boundary (ck_text line) column then Some column
      else if b = Left then Option.bind (sub_usize column 1) (move_to_grapheme is_grapheme_boundary b line)
      else move_to_grapheme is_grapheme_boundary b line (column + 1))"

definition chunk_clip_point :: "(bytes \<Rightarrow> nat \<Rightarrow> bool) \<Rightarrow> point \<Rightarrow> bias \<Rightarrow> chunk \<Rightarrow> point option" where
  "chunk_clip_point is_grapheme_boundary p b c =
     (let max_point = chunk_lines c
      in if pt_row p > pt_row max_point then Some max_point
         else let (i, j) = offset_range_for_row (pt_row p) c
              in do {
                   line \<leftarrow> chunk_slice i j c;
                   if pt_column p = 0 then Some p
                   else if pt_column p \<ge> chunk_len line then Some (point_new (pt_row p) (chunk_len line))
                   else if ck_text line ! (pt_column p - 1) < 128 \<and> ck_text line ! pt_column p < 128 then Some p
                   else map_option (point_new (pt_row p)) (move_to_grapheme is_grapheme_boundary b line (pt_column p))
                 })"

section \<open>Tabs\<close>

record tab_position =
  tab_byte_offset :: nat
  tab_char_offset :: nat

text \<open>One step of the iterator \<open>Tabs\<close>: the tabs left and the characters, which do not change.\<close>

definition tabs_next :: "128 word \<Rightarrow> 128 word \<Rightarrow> (tab_position \<times> 128 word) option" where
  "tabs_next chars tabs =
     (if tabs = 0 then None
      else let tab_offset = trailing_zeros tabs;
               char_offset = count_ones (chars AND (push_bit tab_offset 1 - 1))
           in Some (\<lparr>tab_byte_offset = tab_offset, tab_char_offset = char_offset\<rparr>, tabs XOR push_bit tab_offset 1))"

end
