(* ===== verification/Rope.thy ===== *)
theory Rope
  imports Chunk CursorOps
begin

text \<open>
  The rope (\<open>crates/rope/src/rope.rs\<close>): a tree of chunks, summarized by the text summary of the text.
  A panic is \<open>None\<close>; the assertions of \<open>check_invariants\<close>, which run in tests only, are the predicate
  \<open>chunks_full\<close> of \<open>RopeCorrect\<close>. A loop over offsets that the code does not bound is a
  \<open>partial_function\<close>, and \<open>RopeCorrect\<close> shows that it ends.
\<close>

section \<open>The tree and its dimensions\<close>

type_synonym rope = "(chunk, text_summary) node"

definition chunk_ops :: "(chunk, text_summary) item_ops" where
  "chunk_ops = \<lparr>zero = ts_zero, add_summary = ts_add, summary_of = chunk_text_summary\<rparr>"

text \<open>The dimension \<open>()\<close>, of a cursor that is not seeked.\<close>

definition unit_dim :: "(unit, text_summary) dim_ops" where
  "unit_dim = \<lparr>d_zero = (), d_add = (\<lambda>_ _. ())\<rparr>"

definition len_dim :: "(nat, text_summary) dim_ops" where
  "len_dim = \<lparr>d_zero = 0, d_add = (\<lambda>n s. n + ts_len s)\<rparr>"

definition utf16_dim :: "(offset_utf16, text_summary) dim_ops" where
  "utf16_dim = \<lparr>d_zero = 0, d_add = (\<lambda>n s. n + ts_len_utf16 s)\<rparr>"

definition point_dim :: "(point, text_summary) dim_ops" where
  "point_dim = \<lparr>d_zero = point_zero, d_add = (\<lambda>p s. point_add p (ts_lines s))\<rparr>"

definition point_utf16_dim :: "(point_utf16, text_summary) dim_ops" where
  "point_utf16_dim = \<lparr>d_zero = point_zero, d_add = (\<lambda>p s. point_add p (lines_utf16 s))\<rparr>"

definition summary_dim :: "(text_summary, text_summary) dim_ops" where
  "summary_dim = \<lparr>d_zero = ts_zero, d_add = ts_add\<rparr>"

text \<open>\<open>TextDimension\<close>: a dimension that a chunk has too.\<close>

record 'd text_dimension =
  td_dim :: "('d, text_summary) dim_ops"
  td_from_text_summary :: "text_summary \<Rightarrow> 'd"
  td_from_chunk :: "chunk \<Rightarrow> 'd"
  td_add_assign :: "'d \<Rightarrow> 'd \<Rightarrow> 'd"

definition len_text_dim :: "nat text_dimension" where
  "len_text_dim = \<lparr>td_dim = len_dim, td_from_text_summary = ts_len, td_from_chunk = chunk_len, td_add_assign = (+)\<rparr>"

definition utf16_text_dim :: "offset_utf16 text_dimension" where
  "utf16_text_dim = \<lparr>td_dim = utf16_dim, td_from_text_summary = ts_len_utf16, td_from_chunk = chunk_len_utf16,
     td_add_assign = (+)\<rparr>"

definition point_text_dim :: "point text_dimension" where
  "point_text_dim = \<lparr>td_dim = point_dim, td_from_text_summary = ts_lines, td_from_chunk = chunk_lines,
     td_add_assign = point_add\<rparr>"

definition point_utf16_text_dim :: "point_utf16 text_dimension" where
  "point_utf16_text_dim = \<lparr>td_dim = point_utf16_dim, td_from_text_summary = lines_utf16,
     td_from_chunk = (\<lambda>c. point_new (pt_row (chunk_lines c)) (last_line_len_utf16 c)), td_add_assign = point_add\<rparr>"

definition summary_text_dim :: "text_summary text_dimension" where
  "summary_text_dim = \<lparr>td_dim = summary_dim, td_from_text_summary = (\<lambda>s. s), td_from_chunk = chunk_text_summary,
     td_add_assign = ts_add\<rparr>"

definition pair_text_dim :: "'d text_dimension \<Rightarrow> 'e text_dimension \<Rightarrow> ('d \<times> 'e) text_dimension" where
  "pair_text_dim A B = \<lparr>td_dim = dims2 (td_dim A) (td_dim B),
     td_from_text_summary = (\<lambda>s. (td_from_text_summary A s, td_from_text_summary B s)),
     td_from_chunk = (\<lambda>c. (td_from_chunk A c, td_from_chunk B c)),
     td_add_assign = (\<lambda>(p, q) (p', q'). (td_add_assign A p p', td_add_assign B q q'))\<rparr>"

text \<open>\<open>DimensionPair\<close>: the second component may be missing, and only the first is compared.\<close>

definition dimension_pair ::
  "'d text_dimension \<Rightarrow> 'e text_dimension \<Rightarrow> ('d \<times> 'e option) text_dimension" where
  "dimension_pair A B =
     \<lparr>td_dim = \<lparr>d_zero = (d_zero (td_dim A), Some (d_zero (td_dim B))),
        d_add = (\<lambda>(key, value) s. (d_add (td_dim A) key s, map_option (\<lambda>v. d_add (td_dim B) v s) value))\<rparr>,
      td_from_text_summary = (\<lambda>s. (td_from_text_summary A s, Some (td_from_text_summary B s))),
      td_from_chunk = (\<lambda>c. (td_from_chunk A c, Some (td_from_chunk B c))),
      td_add_assign = (\<lambda>(key, value) (key', value'). (td_add_assign A key key',
        case value of None \<Rightarrow> None | Some v \<Rightarrow> map_option (td_add_assign B v) value'))\<rparr>"

definition rope_new :: rope where
  "rope_new = tree_new chunk_ops"

definition rope_summary :: "rope \<Rightarrow> text_summary" where
  "rope_summary r = node_summary r"

definition rope_len :: "rope \<Rightarrow> nat" where
  "rope_len r = extent len_dim r"

definition rope_is_empty :: "rope \<Rightarrow> bool" where
  "rope_is_empty r \<longleftrightarrow> rope_len r = 0"

definition rope_max_point :: "rope \<Rightarrow> point" where
  "rope_max_point r = extent point_dim r"

definition rope_max_point_utf16 :: "rope \<Rightarrow> point_utf16" where
  "rope_max_point_utf16 r = extent point_utf16_dim r"

section \<open>Building\<close>

text \<open>The loops \<open>while !is_char_boundary(ix) { ix += 1 }\<close> and \<open>ix -= 1\<close>.\<close>

partial_function (option) up_to_boundary :: "(nat \<Rightarrow> bool) \<Rightarrow> nat \<Rightarrow> nat option" where
  "up_to_boundary is_boundary ix = (if is_boundary ix then Some ix else up_to_boundary is_boundary (ix + 1))"

partial_function (option) down_to_boundary :: "(nat \<Rightarrow> bool) \<Rightarrow> nat \<Rightarrow> nat option" where
  "down_to_boundary is_boundary ix =
     (if is_boundary ix then Some ix else Option.bind (sub_usize ix 1) (down_to_boundary is_boundary))"

text \<open>
  \<open>update_last\<close> with a closure that may panic and that sets a variable of its environment: its
  effect on the last chunk is computed first.
\<close>

definition rope_update_last :: "(chunk \<Rightarrow> (chunk \<times> 'x) option) \<Rightarrow> 'x \<Rightarrow> rope \<Rightarrow> (rope \<times> 'x) option" where
  "rope_update_last f x r = do {
     last_chunk \<leftarrow> tree_last r;
     (case last_chunk of
       None \<Rightarrow> Some (r, x)
     | Some c \<Rightarrow> do {
         (c', x') \<leftarrow> f c;
         r' \<leftarrow> update_last chunk_ops (\<lambda>_. c') r;
         Some (r', x')
       })
   }"

definition push_chunk :: "chunk \<Rightarrow> rope \<Rightarrow> rope option" where
  "push_chunk chunk r = do {
     (r, chunk) \<leftarrow> rope_update_last (\<lambda>last_chunk. do {
       split_ix \<leftarrow> (if chunk_len last_chunk + chunk_len chunk \<le> MAX_BASE then Some (chunk_len chunk)
         else up_to_boundary (\<lambda>ix. chunk_is_char_boundary ix chunk)
                (min (MIN_BASE - chunk_len last_chunk) (chunk_len chunk)));
       (suffix, remainder) \<leftarrow> split_at split_ix chunk;
       last_chunk \<leftarrow> chunk_append suffix last_chunk;
       Some (last_chunk, remainder)
     }) chunk r;
     (if ck_text chunk \<noteq> [] then tree_push chunk_ops r chunk else Some r)
   }"

definition rope_append :: "rope \<Rightarrow> rope \<Rightarrow> rope option" where
  "rope_append r other = do {
     first \<leftarrow> tree_first other;
     last_chunk \<leftarrow> tree_last r;
     (case first of
       Some chunk \<Rightarrow>
         if (case last_chunk of Some c \<Rightarrow> chunk_len c < MIN_BASE | None \<Rightarrow> False) \<or> chunk_len chunk < MIN_BASE
         then do {
           r \<leftarrow> push_chunk chunk r;
           c \<leftarrow> cursor_next unit_dim (cursor_new unit_dim other);
           c \<leftarrow> cursor_next unit_dim c;
           (rest, _) \<leftarrow> cursor_suffix chunk_ops unit_dim c;
           tree_append chunk_ops r rest
         }
         else tree_append chunk_ops r other
     | None \<Rightarrow> tree_append chunk_ops r other)
   }"

text \<open>The chunks of a text: the loops of \<open>push\<close> and \<open>push_large\<close>.\<close>

partial_function (option) cut_chunks :: "bytes \<Rightarrow> bytes list option" where
  "cut_chunks s =
     (if s = [] then Some []
      else do {
        split_ix \<leftarrow> down_to_boundary (str_is_char_boundary s) (min MAX_BASE (length s));
        (chunk, remainder) \<leftarrow> str_split_at s split_ix;
        chunks \<leftarrow> cut_chunks remainder;
        Some (chunk # chunks)
      })"

definition NUM_CHUNKS :: nat where "NUM_CHUNKS = 4"
definition PARALLEL_THRESHOLD :: nat where "PARALLEL_THRESHOLD = 84 * (2 * TREE_BASE)"

definition push_large :: "bytes \<Rightarrow> rope \<Rightarrow> rope option" where
  "push_large s r = do {
     new_chunks \<leftarrow> cut_chunks s;
     chunks \<leftarrow> those (map chunk_new new_chunks);
     (if length new_chunks \<ge> PARALLEL_THRESHOLD then par_extend chunk_ops r chunks else SumTree.extend chunk_ops r chunks)
   }"

text \<open>In \<open>push\<close> the new chunks go to an array of \<open>NUM_CHUNKS\<close> elements; one more would panic.\<close>

definition rope_push :: "bytes \<Rightarrow> rope \<Rightarrow> rope option" where
  "rope_push s r = do {
     (r, s) \<leftarrow> rope_update_last (\<lambda>last_chunk. do {
       split_ix \<leftarrow> (if chunk_len last_chunk + length s \<le> MAX_BASE then Some (length s)
         else up_to_boundary (str_is_char_boundary s) (min (MIN_BASE - chunk_len last_chunk) (length s)));
       (suffix, remainder) \<leftarrow> str_split_at s split_ix;
       last_chunk \<leftarrow> chunk_push_str suffix last_chunk;
       Some (last_chunk, remainder)
     }) s r;
     (if s = [] then Some r
      else if length s > NUM_CHUNKS * MAX_BASE - NUM_CHUNKS * 4 then push_large s r
      else do {
        new_chunks \<leftarrow> cut_chunks s;
        (if length new_chunks > NUM_CHUNKS then None
         else do { chunks \<leftarrow> those (map chunk_new new_chunks); SumTree.extend chunk_ops r chunks })
      })
   }"

text \<open>\<open>From<&str>\<close> and \<open>FromIterator<&str>\<close>.\<close>

definition rope_from :: "bytes \<Rightarrow> rope option" where
  "rope_from s = rope_push s rope_new"

fun rope_push_all :: "bytes list \<Rightarrow> rope \<Rightarrow> rope option" where
  "rope_push_all [] r = Some r"
| "rope_push_all (s # ss) r = do { r \<leftarrow> rope_push s r; rope_push_all ss r }"

definition rope_from_iter :: "bytes list \<Rightarrow> rope option" where
  "rope_from_iter ss = rope_push_all ss rope_new"

definition rope_push_front :: "bytes \<Rightarrow> rope \<Rightarrow> rope option" where
  "rope_push_front s r =
     (if s = [] then Some r
      else if rope_is_empty r then rope_push s r
      else do {
        first \<leftarrow> tree_first r;
        (case first of
          Some c \<Rightarrow>
            if chunk_len c + length s \<le> MAX_BASE
            then do { c' \<leftarrow> chunk_prepend_str s c; update_first chunk_ops (\<lambda>_. c') r }
            else do { new \<leftarrow> rope_from s; rope_append new r }
        | None \<Rightarrow> do { new \<leftarrow> rope_from s; rope_append new r })
      })"

section \<open>The cursor of a rope\<close>

record rope_cursor =
  rc_rope :: rope
  rc_chunks :: "(chunk, text_summary, nat) cursor"
  rc_offset :: nat

definition rope_cursor_new :: "rope \<Rightarrow> nat \<Rightarrow> rope_cursor option" where
  "rope_cursor_new r offset = do {
     (_, chunks) \<leftarrow> cursor_seek len_dim (ord_cmp offset) Right (cursor_new len_dim r);
     Some \<lparr>rc_rope = r, rc_chunks = chunks, rc_offset = offset\<rparr>
   }"

definition rope_seek_forward :: "nat \<Rightarrow> rope_cursor \<Rightarrow> rope_cursor option" where
  "rope_seek_forward end_offset c =
     (if end_offset < rc_offset c \<or> end_offset > rope_len (rc_rope c) then None
      else do {
        (_, chunks) \<leftarrow> cursor_seek_forward len_dim (ord_cmp end_offset) Right (rc_chunks c);
        Some (c\<lparr>rc_chunks := chunks, rc_offset := end_offset\<rparr>)
      })"

definition rope_cursor_slice :: "nat \<Rightarrow> rope_cursor \<Rightarrow> (rope \<times> rope_cursor) option" where
  "rope_cursor_slice end_offset c =
     (if end_offset < rc_offset c \<or> end_offset > rope_len (rc_rope c) then None
      else do {
        start_item \<leftarrow> cursor_item (rc_chunks c);
        chunks_end \<leftarrow> cursor_end len_dim (rc_chunks c);
        slice \<leftarrow> (case start_item of
          Some start_chunk \<Rightarrow> do {
            start_ix \<leftarrow> sub_usize (rc_offset c) (c_position (rc_chunks c));
            end_ix \<leftarrow> sub_usize (min end_offset chunks_end) (c_position (rc_chunks c));
            piece \<leftarrow> chunk_slice start_ix end_ix start_chunk;
            push_chunk piece rope_new
          }
        | None \<Rightarrow> Some rope_new);
        (slice, chunks) \<leftarrow> (if end_offset > chunks_end then do {
            chunks \<leftarrow> cursor_next len_dim (rc_chunks c);
            (middle, chunks) \<leftarrow> cursor_slice chunk_ops len_dim (ord_cmp end_offset) Right chunks;
            slice \<leftarrow> rope_append slice middle;
            end_item \<leftarrow> cursor_item chunks;
            slice \<leftarrow> (case end_item of
              Some end_chunk \<Rightarrow> do {
                end_ix \<leftarrow> sub_usize end_offset (c_position chunks);
                piece \<leftarrow> chunk_slice 0 end_ix end_chunk;
                push_chunk piece slice
              }
            | None \<Rightarrow> Some slice);
            Some (slice, chunks)
          } else Some (slice, rc_chunks c));
        Some (slice, c\<lparr>rc_chunks := chunks, rc_offset := end_offset\<rparr>)
      })"

definition rope_cursor_summary ::
  "'d text_dimension \<Rightarrow> nat \<Rightarrow> rope_cursor \<Rightarrow> ('d \<times> rope_cursor) option" where
  "rope_cursor_summary T end_offset c =
     (if end_offset < rc_offset c \<or> end_offset > rope_len (rc_rope c) then None
      else do {
        start_item \<leftarrow> cursor_item (rc_chunks c);
        chunks_end \<leftarrow> cursor_end len_dim (rc_chunks c);
        summary \<leftarrow> (case start_item of
          Some start_chunk \<Rightarrow> do {
            start_ix \<leftarrow> sub_usize (rc_offset c) (c_position (rc_chunks c));
            end_ix \<leftarrow> sub_usize (min end_offset chunks_end) (c_position (rc_chunks c));
            piece \<leftarrow> chunk_slice start_ix end_ix start_chunk;
            Some (td_add_assign T (d_zero (td_dim T)) (td_from_chunk T piece))
          }
        | None \<Rightarrow> Some (d_zero (td_dim T)));
        (summary, chunks) \<leftarrow> (if end_offset > chunks_end then do {
            chunks \<leftarrow> cursor_next len_dim (rc_chunks c);
            (middle, chunks) \<leftarrow> cursor_summary len_dim (td_dim T) (ord_cmp end_offset) Right chunks;
            end_item \<leftarrow> cursor_item chunks;
            summary \<leftarrow> (case end_item of
              Some end_chunk \<Rightarrow> do {
                end_ix \<leftarrow> sub_usize end_offset (c_position chunks);
                piece \<leftarrow> chunk_slice 0 end_ix end_chunk;
                Some (td_add_assign T (td_add_assign T summary middle) (td_from_chunk T piece))
              }
            | None \<Rightarrow> Some (td_add_assign T summary middle));
            Some (summary, chunks)
          } else Some (summary, rc_chunks c));
        Some (summary, c\<lparr>rc_chunks := chunks, rc_offset := end_offset\<rparr>)
      })"

definition rope_suffix :: "rope_cursor \<Rightarrow> rope option" where
  "rope_suffix c = map_option fst (rope_cursor_slice (extent len_dim (rc_rope c)) c)"

definition rope_replace :: "nat \<Rightarrow> nat \<Rightarrow> bytes \<Rightarrow> rope \<Rightarrow> rope option" where
  "rope_replace range_start range_end s r = do {
     cursor \<leftarrow> rope_cursor_new r 0;
     (prefix, cursor) \<leftarrow> rope_cursor_slice range_start cursor;
     new_rope \<leftarrow> rope_append rope_new prefix;
     cursor \<leftarrow> rope_seek_forward range_end cursor;
     new_rope \<leftarrow> rope_push s new_rope;
     rest \<leftarrow> rope_suffix cursor;
     rope_append new_rope rest
   }"

definition rope_slice :: "nat \<Rightarrow> nat \<Rightarrow> rope \<Rightarrow> rope option" where
  "rope_slice range_start range_end r = do {
     cursor \<leftarrow> rope_cursor_new r 0;
     cursor \<leftarrow> rope_seek_forward range_start cursor;
     (slice, _) \<leftarrow> rope_cursor_slice range_end cursor;
     Some slice
   }"

section \<open>Positions\<close>

text \<open>\<open>find::<Dimensions<M, N>, _>((), target, Bias::Left)\<close>, and the same by a cursor.\<close>

definition find_by ::
  "('d, text_summary) dim_ops \<Rightarrow> ('e, text_summary) dim_ops \<Rightarrow> ('d \<Rightarrow> ordering) \<Rightarrow> rope \<Rightarrow> ('d \<times> 'e) \<times> chunk option" where
  "find_by M N target r =
     (let (start, _, item) = tree_find chunk_ops (dims2 M N) (\<lambda>location. target (fst location)) Left r
      in (start, item))"

definition seek_by ::
  "('d, text_summary) dim_ops \<Rightarrow> ('e, text_summary) dim_ops \<Rightarrow> ('d \<Rightarrow> ordering) \<Rightarrow> rope
   \<Rightarrow> (('d \<times> 'e) \<times> chunk option) option" where
  "seek_by M N target r = do {
     (_, cursor) \<leftarrow> cursor_seek (dims2 M N) (\<lambda>location. target (fst location)) Left (cursor_new (dims2 M N) r);
     item \<leftarrow> cursor_item cursor;
     Some (c_position cursor, item)
   }"

text \<open>\<open>item.map_or(zero, f)\<close> for an \<open>f\<close> that may panic.\<close>

definition map_or :: "'y \<Rightarrow> ('x \<Rightarrow> 'y option) \<Rightarrow> 'x option \<Rightarrow> 'y option" where
  "map_or z f item = (case item of None \<Rightarrow> Some z | Some x \<Rightarrow> f x)"

definition rope_offset_to_offset_utf16 :: "nat \<Rightarrow> rope \<Rightarrow> offset_utf16 option" where
  "rope_offset_to_offset_utf16 offset r =
     (if offset \<ge> ts_len (rope_summary r) then Some (ts_len_utf16 (rope_summary r))
      else let ((start, start_utf16), item) = find_by len_dim utf16_dim (ord_cmp offset) r
           in do {
             overshoot \<leftarrow> sub_usize offset start;
             n \<leftarrow> map_or 0 (\<lambda>chunk. Some (chunk_offset_to_offset_utf16 overshoot chunk)) item;
             Some (start_utf16 + n)
           })"

definition rope_offset_utf16_to_offset :: "offset_utf16 \<Rightarrow> rope \<Rightarrow> nat option" where
  "rope_offset_utf16_to_offset offset r =
     (if offset \<ge> ts_len_utf16 (rope_summary r) then Some (ts_len (rope_summary r))
      else let ((start_utf16, start), item) = find_by utf16_dim len_dim (ord_cmp offset) r
           in do {
             overshoot \<leftarrow> sub_usize offset start_utf16;
             n \<leftarrow> map_or 0 (\<lambda>chunk. Some (chunk_offset_utf16_to_offset overshoot chunk)) item;
             Some (start + n)
           })"

definition rope_offset_to_point :: "nat \<Rightarrow> rope \<Rightarrow> point option" where
  "rope_offset_to_point offset r =
     (if offset \<ge> ts_len (rope_summary r) then Some (ts_lines (rope_summary r))
      else let ((start, start_point), item) = find_by len_dim point_dim (ord_cmp offset) r
           in do {
             overshoot \<leftarrow> sub_usize offset start;
             p \<leftarrow> map_or point_zero (\<lambda>chunk. Some (chunk_offset_to_point overshoot chunk)) item;
             Some (point_add start_point p)
           })"

definition rope_offset_to_point_utf16 :: "nat \<Rightarrow> rope \<Rightarrow> point_utf16 option" where
  "rope_offset_to_point_utf16 offset r =
     (if offset \<ge> ts_len (rope_summary r) then Some (lines_utf16 (rope_summary r))
      else let ((start, start_point), item) = find_by len_dim point_utf16_dim (ord_cmp offset) r
           in do {
             overshoot \<leftarrow> sub_usize offset start;
             p \<leftarrow> map_or point_zero (\<lambda>chunk. Some (chunk_offset_to_point_utf16 overshoot chunk)) item;
             Some (point_add start_point p)
           })"

definition rope_point_to_point_utf16 :: "point \<Rightarrow> rope \<Rightarrow> point_utf16 option" where
  "rope_point_to_point_utf16 p r =
     (if point_cmp p (ts_lines (rope_summary r)) \<noteq> Less then Some (lines_utf16 (rope_summary r))
      else let ((start, start_utf16), item) = find_by point_dim point_utf16_dim (point_cmp p) r
           in do {
             overshoot \<leftarrow> point_sub p start;
             q \<leftarrow> map_or point_zero (\<lambda>chunk. Some (chunk_point_to_point_utf16 overshoot chunk)) item;
             Some (point_add start_utf16 q)
           })"

definition rope_point_utf16_to_point :: "point_utf16 \<Rightarrow> rope \<Rightarrow> point option" where
  "rope_point_utf16_to_point p r =
     (if point_cmp p (lines_utf16 (rope_summary r)) \<noteq> Less then Some (ts_lines (rope_summary r))
      else do {
        ((start_utf16, start), item) \<leftarrow> seek_by point_utf16_dim point_dim (point_cmp p) r;
        overshoot \<leftarrow> point_sub p start_utf16;
        q \<leftarrow> map_or point_zero (\<lambda>chunk. map_option (\<lambda>offset. chunk_offset_to_point offset chunk)
               (chunk_point_utf16_to_offset overshoot chunk)) item;
        Some (point_add start q)
      })"

definition rope_point_to_offset :: "point \<Rightarrow> rope \<Rightarrow> nat option" where
  "rope_point_to_offset p r =
     (if point_cmp p (ts_lines (rope_summary r)) \<noteq> Less then Some (ts_len (rope_summary r))
      else let ((start_point, start), item) = find_by point_dim len_dim (point_cmp p) r
           in do {
             overshoot \<leftarrow> point_sub p start_point;
             n \<leftarrow> map_or 0 (\<lambda>chunk. Some (chunk_point_to_offset overshoot chunk)) item;
             Some (start + n)
           })"

definition rope_point_to_offset_utf16 :: "point \<Rightarrow> rope \<Rightarrow> offset_utf16 option" where
  "rope_point_to_offset_utf16 p r =
     (if point_cmp p (ts_lines (rope_summary r)) \<noteq> Less then Some (ts_len_utf16 (rope_summary r))
      else do {
        ((start_point, start), item) \<leftarrow> seek_by point_dim utf16_dim (point_cmp p) r;
        overshoot \<leftarrow> point_sub p start_point;
        n \<leftarrow> map_or 0 (\<lambda>chunk. Some (chunk_point_to_offset_utf16 overshoot chunk)) item;
        Some (start + n)
      })"

text \<open>\<open>point_utf16_to_offset_impl\<close>: the flag \<open>clip\<close> only chooses whether a debug build panics.\<close>

definition rope_point_utf16_to_offset :: "point_utf16 \<Rightarrow> rope \<Rightarrow> nat option" where
  "rope_point_utf16_to_offset p r =
     (if point_cmp p (lines_utf16 (rope_summary r)) \<noteq> Less then Some (ts_len (rope_summary r))
      else let ((start_point, start), item) = find_by point_utf16_dim len_dim (point_cmp p) r
           in do {
             overshoot \<leftarrow> point_sub p start_point;
             n \<leftarrow> map_or 0 (chunk_point_utf16_to_offset overshoot) item;
             Some (start + n)
           })"

definition rope_point_utf16_to_offset_utf16 :: "point_utf16 \<Rightarrow> rope \<Rightarrow> offset_utf16 option" where
  "rope_point_utf16_to_offset_utf16 p r =
     (if point_cmp p (lines_utf16 (rope_summary r)) \<noteq> Less then Some (ts_len_utf16 (rope_summary r))
      else do {
        ((start_point, start), item) \<leftarrow> seek_by point_utf16_dim utf16_dim (point_cmp p) r;
        overshoot \<leftarrow> point_sub p start_point;
        n \<leftarrow> map_or 0 (\<lambda>chunk. map_option (\<lambda>offset. chunk_offset_to_offset_utf16 offset chunk)
               (chunk_point_utf16_to_offset overshoot chunk)) item;
        Some (start + n)
      })"

definition rope_unclipped_point_utf16_to_point :: "point_utf16 \<Rightarrow> rope \<Rightarrow> point option" where
  "rope_unclipped_point_utf16_to_point p r =
     (if point_cmp p (lines_utf16 (rope_summary r)) \<noteq> Less then Some (ts_lines (rope_summary r))
      else let ((start_utf16, start), item) = find_by point_utf16_dim point_dim (point_cmp p) r
           in do {
             overshoot \<leftarrow> point_sub p start_utf16;
             q \<leftarrow> map_or point_zero (chunk_unclipped_point_utf16_to_point overshoot) item;
             Some (point_add start q)
           })"

definition rope_slice_rows :: "nat \<Rightarrow> nat \<Rightarrow> rope \<Rightarrow> rope option" where
  "rope_slice_rows start_row end_row r = do {
     range_start \<leftarrow> rope_point_to_offset (point_new start_row 0) r;
     range_end \<leftarrow> rope_point_to_offset (point_new end_row 0) r;
     rope_slice range_start range_end r
   }"

section \<open>Boundaries and clipping\<close>

definition rope_is_char_boundary :: "nat \<Rightarrow> rope \<Rightarrow> bool option" where
  "rope_is_char_boundary offset r =
     (if is_empty r then Some (offset = 0)
      else let (start, _, item) = tree_find chunk_ops len_dim (ord_cmp offset) Left r
           in do {
             chunk_offset \<leftarrow> sub_usize offset start;
             Some (case item of Some chunk \<Rightarrow> chunk_is_char_boundary chunk_offset chunk | None \<Rightarrow> False)
           })"

text \<open>\<open>assert_char_boundary\<close>: the flag says whether it panics or logs.\<close>

definition rope_assert_char_boundary :: "bool \<Rightarrow> nat \<Rightarrow> rope \<Rightarrow> bool option" where
  "rope_assert_char_boundary PANIC offset r =
     (if is_empty r \<and> offset = 0 then Some True
      else let (start, _, item) = tree_find chunk_ops len_dim (ord_cmp offset) Left r
           in case item of
             Some chunk \<Rightarrow> do {
               chunk_offset \<leftarrow> sub_usize offset start;
               (if chunk_is_char_boundary chunk_offset chunk then Some True else if PANIC then None else Some False)
             }
           | None \<Rightarrow> if PANIC then None else Some False)"

definition rope_floor_char_boundary :: "nat \<Rightarrow> rope \<Rightarrow> nat option" where
  "rope_floor_char_boundary index r =
     (if index \<ge> rope_len r then Some (rope_len r)
      else let (start, _, item) = tree_find chunk_ops len_dim (ord_cmp index) Left r
           in do {
             chunk_offset \<leftarrow> sub_usize index start;
             Some (case item of Some chunk \<Rightarrow> start + floor_char_boundary (ck_text chunk) chunk_offset
                   | None \<Rightarrow> rope_len r)
           })"

definition rope_ceil_char_boundary :: "nat \<Rightarrow> rope \<Rightarrow> nat option" where
  "rope_ceil_char_boundary index r =
     (if index > rope_len r then Some (rope_len r)
      else let (start, _, item) = tree_find chunk_ops len_dim (ord_cmp index) Left r
           in do {
             chunk_offset \<leftarrow> sub_usize index start;
             Some (case item of Some chunk \<Rightarrow> start + ceil_char_boundary (ck_text chunk) chunk_offset
                   | None \<Rightarrow> rope_len r)
           })"

definition rope_clip_offset :: "nat \<Rightarrow> bias \<Rightarrow> rope \<Rightarrow> nat option" where
  "rope_clip_offset offset b r =
     (case b of Left \<Rightarrow> rope_floor_char_boundary offset r | Right \<Rightarrow> rope_ceil_char_boundary offset r)"

definition rope_clip_offset_utf16 :: "offset_utf16 \<Rightarrow> bias \<Rightarrow> rope \<Rightarrow> offset_utf16 option" where
  "rope_clip_offset_utf16 offset b r =
     (let (start, _, item) = tree_find chunk_ops utf16_dim (ord_cmp offset) Right r
      in case item of
        Some chunk \<Rightarrow> do {
          overshoot \<leftarrow> sub_usize offset start;
          n \<leftarrow> chunk_clip_offset_utf16 overshoot b chunk;
          Some (start + n)
        }
      | None \<Rightarrow> Some (ts_len_utf16 (rope_summary r)))"

definition rope_clip_point ::
  "(bytes \<Rightarrow> nat \<Rightarrow> bool) \<Rightarrow> point \<Rightarrow> bias \<Rightarrow> rope \<Rightarrow> point option" where
  "rope_clip_point is_grapheme_boundary p b r =
     (let (start, _, item) = tree_find chunk_ops point_dim (point_cmp p) Right r
      in case item of
        Some chunk \<Rightarrow> do {
          overshoot \<leftarrow> point_sub p start;
          q \<leftarrow> chunk_clip_point is_grapheme_boundary overshoot b chunk;
          Some (point_add start q)
        }
      | None \<Rightarrow> Some (ts_lines (rope_summary r)))"

definition rope_clip_point_utf16 :: "point_utf16 \<Rightarrow> bias \<Rightarrow> rope \<Rightarrow> point_utf16 option" where
  "rope_clip_point_utf16 p b r =
     (let (start, _, item) = tree_find chunk_ops point_utf16_dim (point_cmp p) Right r
      in case item of
        Some chunk \<Rightarrow> do {
          overshoot \<leftarrow> point_sub p start;
          q \<leftarrow> chunk_clip_point_utf16 overshoot b chunk;
          Some (point_add start q)
        }
      | None \<Rightarrow> Some (lines_utf16 (rope_summary r)))"

definition rope_line_len :: "(bytes \<Rightarrow> nat \<Rightarrow> bool) \<Rightarrow> nat \<Rightarrow> rope \<Rightarrow> nat option" where
  "rope_line_len is_grapheme_boundary row r =
     map_option pt_column (rope_clip_point is_grapheme_boundary (point_new row (2 ^ 32 - 1)) Left r)"

end
