(* ===== verification/ChunkCorrect.thy ===== *)
theory ChunkCorrect
  imports Chunk
begin

unbundle bit_operations_syntax

text \<open>
  Correctness of chunks: the bitmaps are functions of the text (\<open>chunk_of\<close>), every operation on a
  chunk is the operation on its text, and the summary and the positions computed from the bitmaps
  are those of the text.
\<close>

section \<open>The bitmaps of a text\<close>

definition u16_flags :: "bytes \<Rightarrow> bool list" where
  "u16_flags s = map (\<lambda>i. is_char_start (s ! i) \<or> 0 < i \<and> s ! (i - 1) \<ge> 240) [0..<length s]"

definition chunk_of :: "bytes \<Rightarrow> chunk" where
  "chunk_of s = \<lparr>ck_chars = of_bits (map is_char_start s), ck_chars_utf16 = of_bits (u16_flags s),
     ck_newlines = of_bits (map (\<lambda>b. b = 10) s), ck_tabs = of_bits (map (\<lambda>b. b = 9) s), ck_text = s\<rparr>"

lemma chunk_of_simps [simp]:
  "ck_text (chunk_of s) = s" "ck_chars (chunk_of s) = of_bits (map is_char_start s)"
  "ck_chars_utf16 (chunk_of s) = of_bits (u16_flags s)" "ck_newlines (chunk_of s) = of_bits (map (\<lambda>b. b = 10) s)"
  "ck_tabs (chunk_of s) = of_bits (map (\<lambda>b. b = 9) s)" "chunk_len (chunk_of s) = length s"
  by (simp_all add: chunk_of_def chunk_len_def)

lemma chunk_of_Nil [simp]: "empty_chunk = chunk_of []"
  by (simp add: chunk_of_def empty_chunk_def u16_flags_def)

lemma length_u16_flags [simp]: "length (u16_flags s) = length s"
  by (simp add: u16_flags_def)

lemma bit_foldl_flags:
  "length bs \<le> 8 \<Longrightarrow> i < 8 \<Longrightarrow> bit (flag_byte p bs) i \<longleftrightarrow> i < length bs \<and> p (bs ! i)"
proof (induction bs rule: rev_induct)
  case (snoc b bs)
  have "flag_byte p (bs @ [b]) = flag_byte p bs OR push_bit (length bs) (of_bool (p b))"
    by (simp add: flag_byte_def enumerate_append_eq)
  then show ?case using snoc by (auto simp: bit_simps nth_append)
qed (simp add: flag_byte_def)

lemma bit_from_le_bytes:
  "n < 128 \<Longrightarrow> bit (from_le_bytes bs) n \<longleftrightarrow> n div 8 < length bs \<and> bit (bs ! (n div 8)) (n mod 8)"
proof (induction bs arbitrary: n)
  case (Cons b bs)
  show ?case
  proof (cases "n < 8")
    case True
    then show ?thesis by (simp add: from_le_bytes_def bit_simps)
  next
    case False
    then have "n div 8 = Suc ((n - 8) div 8)" "n mod 8 = (n - 8) mod 8"
      by (simp_all add: le_div_geq le_mod_geq)
    moreover have "\<not> bit b n" using False bit_imp_le_length [of b n] by auto
    ultimately show ?thesis using False Cons by (simp add: from_le_bytes_def bit_simps)
  qed
qed (simp add: from_le_bytes_def)

lemma nth_chunks: "0 < n \<Longrightarrow> n * k < length xs \<Longrightarrow> k < length (chunks n xs) \<and> chunks n xs ! k = take n (drop (n * k) xs)"
proof (induction k arbitrary: xs)
  case 0
  then show ?case by (subst (1 2) chunks_step) auto
next
  case (Suc k)
  then have "n * k < length (drop n xs)" by simp
  with Suc show ?case by (subst (1 2) chunks_step) (auto simp: add.commute)
qed

lemma length_chunks: "0 < n \<Longrightarrow> k < length (chunks n xs) \<Longrightarrow> n * k < length xs"
proof (induction n xs arbitrary: k rule: chunks.induct)
  case (1 n xs)
  then have "xs \<noteq> []" by auto
  with 1 show ?case by (cases k) (fastforce simp: chunks_step)+
qed

lemma flag_bitmap_eq:
  assumes "length s \<le> 128"
  shows "flag_bitmap p s = of_bits (map p s)"
proof (rule of_bits_eqI)
  fix n assume "n < LENGTH(128)"
  then have n: "n < 128" by simp
  let ?k = "n div 8"
  have k: "?k < length (chunks 8 s) \<longleftrightarrow> 8 * ?k < length s"
    using nth_chunks [of 8 ?k s] length_chunks [of 8 ?k s] by auto
  have len: "length (chunks 8 s) \<le> 16"
  proof (rule ccontr)
    assume "\<not> ?thesis"
    then show False using length_chunks [of 8 16 s] assms by simp
  qed
  have in_block: "n mod 8 < length s - 8 * ?k \<longleftrightarrow> n < length s" "8 * ?k + n mod 8 = n"
    "n < length s \<Longrightarrow> 8 * ?k < length s"
    using mult_div_mod_eq [of 8 n] by linarith+
  have "bit (flag_bitmap p s) n \<longleftrightarrow> ?k < 16 \<and> bit (resize 16 0 (map (flag_byte p) (chunks 8 s)) ! ?k) (n mod 8)"
    using n by (simp add: flag_bitmap_def bit_from_le_bytes)
  also have "\<dots> \<longleftrightarrow> ?k < length (chunks 8 s) \<and> bit (flag_byte p (chunks 8 s ! ?k)) (n mod 8)"
    using len n by (auto simp: nth_resize nth_default_def)
  also have "\<dots> \<longleftrightarrow> n < length s \<and> p (s ! n)"
    using nth_chunks [of 8 ?k s] k in_block by (auto simp: bit_foldl_flags)
  finally show "bit (flag_bitmap p s) n \<longleftrightarrow> n < length (map p s) \<and> map p s ! n" by (auto simp: nth_map)
qed

lemma utf8_last: "utf8 s \<Longrightarrow> s \<noteq> [] \<Longrightarrow> last s < 240"
proof (induction s rule: utf8_induct)
  case (Char c s)
  have "last c < 240"
  proof (cases "length c = 1")
    case True
    with Char.hyps(1) obtain a where "c = [a]" "a < 128"
      by (cases c) (auto simp: utf8_char_def utf8_len_def split: if_splits)
    then show ?thesis by (auto intro: less_trans)
  next
    case False
    then have "last c \<in> set (tl c)" using Char.hyps(1) by (cases c) (auto simp: utf8_char_def)
    then have "\<not> is_char_start (last c)" using Char.hyps(1) by (auto simp: utf8_char_def)
    then have "last c < 192" by (simp add: is_char_start_def not_le)
    also have "(192 :: 8 word) < 240" by simp
    finally show ?thesis .
  qed
  with Char show ?case by (cases "s = []") auto
qed simp

lemma u16_flags_append: "utf8 a \<Longrightarrow> utf8 b \<Longrightarrow> u16_flags (a @ b) = u16_flags a @ u16_flags b"
proof (rule nth_equalityI)
  fix i assume ab: "utf8 a" "utf8 b" and i: "i < length (u16_flags (a @ b))"
  consider "i < length a" | "i = length a" | "length a < i" by linarith
  then show "u16_flags (a @ b) ! i = (u16_flags a @ u16_flags b) ! i"
  proof cases
    case 2
    then have "b \<noteq> []" using i by auto
    then have "is_char_start (b ! 0)" using utf8_hd [OF ab(2)] by (simp add: hd_conv_nth)
    then show ?thesis using 2 i by (simp add: u16_flags_def nth_append)
  next
    case 3
    then have "\<not> i - 1 < length a" "i - 1 - length a = i - length a - 1" by auto
    then show ?thesis using 3 i by (auto simp: u16_flags_def nth_append)
  qed (use i in \<open>auto simp: u16_flags_def nth_append\<close>)
qed simp

definition chunk_ok :: "chunk \<Rightarrow> bool" where
  "chunk_ok c \<longleftrightarrow> utf8 (ck_text c) \<and> length (ck_text c) \<le> MAX_BASE \<and> c = chunk_of (ck_text c)"

lemma chunk_ok_of [simp]: "chunk_ok (chunk_of s) \<longleftrightarrow> utf8 s \<and> length s \<le> 128"
  by (simp add: chunk_ok_def)

lemma chunk_ok_text: "chunk_ok c \<Longrightarrow> utf8 (ck_text c)" "chunk_ok c \<Longrightarrow> length (ck_text c) \<le> 128"
  "chunk_ok c \<Longrightarrow> chunk_of (ck_text c) = c"
  by (simp_all add: chunk_ok_def)

section \<open>The operations\<close>

lemma u16_bitmap:
  assumes "utf8 s" "length s \<le> 128"
  shows "push_bit 1 (of_bits (map (\<lambda>b. b \<ge> 240) s)) OR of_bits (map is_char_start s) = (of_bits (u16_flags s) :: 128 word)"
proof (rule of_bits_eqI)
  fix n assume n: "n < LENGTH(128)"
  have last: "n - 1 < length s \<Longrightarrow> 240 \<le> s ! (n - 1) \<Longrightarrow> 0 < n \<Longrightarrow> n < length s"
    using utf8_last [OF assms(1)] by (cases "n = length s") (auto simp: last_conv_nth)
  have "bit (push_bit 1 (of_bits (map (\<lambda>b. b \<ge> 240) s)) OR of_bits (map is_char_start s) :: 128 word) n \<longleftrightarrow>
      0 < n \<and> n - 1 < length s \<and> 240 \<le> s ! (n - 1) \<or> n < length s \<and> is_char_start (s ! n)"
    unfolding bit_or_iff bit_push_bit_iff bit_of_bits using n by auto
  also have "\<dots> \<longleftrightarrow> n < length (u16_flags s) \<and> u16_flags s ! n"
    using last by (auto simp: u16_flags_def)
  finally show "bit (push_bit 1 (of_bits (map (\<lambda>b. b \<ge> 240) s)) OR of_bits (map is_char_start s) :: 128 word) n \<longleftrightarrow>
      n < length (u16_flags s) \<and> u16_flags s ! n" .
qed

lemma chunk_new_ok: "utf8 s \<Longrightarrow> chunk_new s = (if length s \<le> 128 then Some (chunk_of s) else None)"
proof -
  assume s: "utf8 s"
  have "flag_bitmap is_utf8_char_boundary s = flag_bitmap is_char_start s"
    by (simp add: is_utf8_char_boundary_iff [abs_def])
  then show ?thesis
    using u16_bitmap [OF s] unfolding chunk_new_def Let_def by (simp add: flag_bitmap_eq chunk_of_def)
qed

lemma of_bits_append_at: "length as = n \<Longrightarrow> of_bits as OR push_bit n (of_bits bs) = of_bits (as @ bs)"
  using of_bits_append [of as bs] by simp

lemma chunk_append_ok:
  assumes "utf8 a" "utf8 b" "length a + length b \<le> 128"
  shows "chunk_append (chunk_of b) (chunk_of a) = Some (chunk_of (a @ b))"
  using assms
  by (cases b) (auto simp: chunk_append_def Let_def u16_flags_append chunk_of_def chunk_len_def of_bits_append_at)

lemma chunk_prepend_ok:
  assumes "utf8 a" "utf8 b" "length a + length b \<le> 128"
  shows "chunk_prepend (chunk_of a) (chunk_of b) = Some (chunk_of (a @ b))"
proof -
  consider "a = []" | "a \<noteq> []" "b = []" | "0 < length a" "0 < length b" "a \<noteq> []" "b \<noteq> []" by auto
  then show ?thesis
  proof cases
    case 3
    with assms have "\<not> 128 \<le> length a" by linarith
    with 3 assms show ?thesis
      by (simp add: chunk_prepend_def Let_def u16_flags_append chunk_of_def chunk_len_def of_bits_append_at)
  qed (use assms in \<open>auto simp: chunk_prepend_def chunk_new_ok\<close>)
qed

lemma chunk_boundary_ok:
  "utf8 s \<Longrightarrow> length s \<le> 128 \<Longrightarrow> chunk_is_char_boundary n (chunk_of s) \<longleftrightarrow> str_is_char_boundary s n"
  unfolding chunk_is_char_boundary_def bit_test
  using utf8_hd [of s] by (cases "n < length s") (auto simp: bit_of_bits boundary_iff str_is_char_boundary_def hd_conv_nth)

lemma u16_flags_take: "utf8 s \<Longrightarrow> str_is_char_boundary s n \<Longrightarrow> take n (u16_flags s) = u16_flags (take n s)"
  and u16_flags_drop: "utf8 s \<Longrightarrow> str_is_char_boundary s n \<Longrightarrow> drop n (u16_flags s) = u16_flags (drop n s)"
proof -
  assume s: "utf8 s" "str_is_char_boundary s n"
  then have "u16_flags s = u16_flags (take n s) @ u16_flags (drop n s)"
    using u16_flags_append [OF utf8_take [OF s] utf8_drop [OF s]] by simp
  then show "take n (u16_flags s) = u16_flags (take n s)" "drop n (u16_flags s) = u16_flags (drop n s)"
    using boundary_le [OF s(2)] by simp_all
qed

lemma split_at_ok:
  assumes "utf8 s" "length s \<le> 128" "str_is_char_boundary s n"
  shows "split_at n (chunk_of s) = Some (chunk_of (take n s), chunk_of (drop n s))"
proof (cases "n = 128")
  case True
  then show ?thesis using assms boundary_le [OF assms(3)] by (simp add: split_at_def)
next
  case False
  with assms boundary_le [OF assms(3)] show ?thesis
    by (simp add: split_at_def Let_def str_split_at_def shl_mask of_bits_mask drop_of_bits u16_flags_take u16_flags_drop
      take_map drop_map chunk_of_def del: push_bit_of_1 flip: mask_eq_exp_minus_1)
qed

lemma chunk_slice_ok:
  assumes "utf8 s" "length s \<le> 128" "str_is_char_boundary s i" "str_is_char_boundary s j" "i \<le> j"
  shows "chunk_slice i j (chunk_of s) = Some (chunk_of (take (j - i) (drop i s)))"
proof (cases "i = 128")
  case True
  with assms boundary_le [OF assms(4)] show ?thesis by (simp add: chunk_slice_def)
next
  case False
  have i: "i < 128" and j: "str_is_char_boundary (take j s) i" "utf8 (take j s)"
    using False assms boundary_le [OF assms(3)] boundary_append [of "drop j s" "take j s" i] utf8_cut [OF assms(1,4)]
      boundary_le [OF assms(4)] by auto
  have flags: "u16_flags (take (j - i) (drop i s)) = drop i (take j (u16_flags s))"
    using assms j by (simp add: u16_flags_take u16_flags_drop flip: drop_take)
  have b: "chunk_is_char_boundary i (chunk_of s)" "chunk_is_char_boundary j (chunk_of s)" "\<not> 128 \<le> i"
    "str_slice s i j = Some (take (j - i) (drop i s))"
    using assms i by (simp_all add: chunk_boundary_ok str_slice_def)
  show ?thesis
    unfolding chunk_slice_def Let_def shl_mask
    using assms False by (simp add: b of_bits_mask drop_of_bits) (simp add: chunk_of_def flags take_map drop_map drop_take)
qed

section \<open>Lines\<close>

lemma utf8_newline: "utf8 (a @ 10 # b) \<longleftrightarrow> utf8 a \<and> utf8 b"
proof
  have 10: "utf8 [10]" by (simp add: utf8_char_utf8 utf8_char_def is_char_start_def utf8_len_def)
  {
    assume s: "utf8 (a @ 10 # b)"
    have "is_char_start 10" by (simp add: is_char_start_def)
    then have "str_is_char_boundary (a @ 10 # b) (length a)" by (simp add: str_is_char_boundary_def nth_append)
    then have "utf8 a" "utf8 (10 # b)" using utf8_cut [OF s, of "length a"] by auto
    then show "utf8 a \<and> utf8 b" using utf8_append [OF 10, of b] by simp
  }
  assume "utf8 a \<and> utf8 b"
  then show "utf8 (a @ 10 # b)" using utf8_append [OF 10, of b] by simp
qed

lemma text_summary_newline:
  "utf8 a \<Longrightarrow> text_summary_from (a @ 10 # b) = ts_add (ts_add (text_summary_from a) newline) (text_summary_from b)"
proof -
  assume a: "utf8 a"
  have 10: "utf8 [10]" by (simp add: utf8_char_utf8 utf8_char_def is_char_start_def utf8_len_def)
  then have "text_summary_from ((a @ [10]) @ b) = ts_add (text_summary_from (a @ [10])) (text_summary_from b)"
    using a by (intro text_summary_from_append) simp
  also have "text_summary_from (a @ [10]) = ts_add (text_summary_from a) newline"
    using a by (simp add: text_summary_from_append newline_from)
  finally show ?thesis by simp
qed

text \<open>The characters of a text are the bytes that start one.\<close>

lemma count_starts: "utf8 s \<Longrightarrow> length (filter is_char_start s) = length (str_chars s)"
proof (induction s rule: utf8_induct)
  case (Char c s)
  then have "filter is_char_start c = [hd c]"
    by (cases c) (auto simp: utf8_char_def filter_empty_conv)
  with Char show ?case by (simp add: str_chars_append_char)
qed simp

lemma u16_flags_char:
  assumes "utf8_char c"
  shows "length (filter id (u16_flags c)) = utf16_len c"
proof -
  have cont: "b < 240" if "b \<in> set (tl c)" for b
  proof -
    have "b < 192" using assms that by (auto simp: utf8_char_def is_char_start_def not_le)
    also have "(192 :: 8 word) < 240" by simp
    finally show ?thesis .
  qed
  have start: "is_char_start (hd c)" using assms by (simp add: utf8_char_def)
  show ?thesis
  proof (cases c)
    case (Cons a as)
    show ?thesis
    proof (cases as)
      case Nil
      then have "a < 128" using assms Cons by (auto simp: utf8_char_def utf8_len_def split: if_splits)
      also have "(128 :: 8 word) < 240" by simp
      finally show ?thesis using Nil Cons start by (simp add: u16_flags_def utf16_len_def)
    next
      case as: (Cons b bs)
      have rest: "\<not> is_char_start (c ! i) \<and> \<not> 240 \<le> c ! (i - 1)" if "i \<in> set [2..<length c]" for i
      proof -
        from that have "c ! i \<in> set (tl c)" "c ! (i - 1) \<in> set (tl c)" using Cons as by (auto simp: nth_Cons')
        then show ?thesis using assms cont by (auto simp: utf8_char_def not_le)
      qed
      have "2 \<le> length c" "0 < length c" using Cons as by simp_all
      then have "[0..<length c] = 0 # 1 # [2..<length c]"
        using upt_conv_Cons [of 0 "length c"] upt_conv_Cons [of 1 "length c"] by (simp add: numeral_2_eq_2)
      moreover have "filter id (map (\<lambda>i. is_char_start (c ! i) \<or> 0 < i \<and> 240 \<le> c ! (i - 1)) [2..<length c]) = []"
        using rest by (auto simp: filter_empty_conv)
      moreover have "\<not> is_char_start (c ! 1)" using assms Cons as by (auto simp: utf8_char_def)
      ultimately show ?thesis
        using start Cons by (simp add: u16_flags_def utf16_len_def)
    qed
  qed (use assms in \<open>simp add: utf8_char_def\<close>)
qed

lemma count_units: "utf8 s \<Longrightarrow> length (filter id (u16_flags s)) = utf16_units s"
proof (induction s rule: utf8_induct)
  case (Char c s)
  then show ?case by (simp add: u16_flags_append u16_flags_char utf16_units_def del: id_apply)
qed (simp add: u16_flags_def utf16_units_def)

lemma line_summary:
  assumes "utf8 s" "10 \<notin> set s"
  shows "ts_first_line_chars (text_summary_from s) = length (str_chars s)"
    "ts_last_line_chars (text_summary_from s) = length (str_chars s)"
    "ts_longest_row_chars (text_summary_from s) = length (str_chars s)"
    "ts_longest_row (text_summary_from s) = 0"
    "ts_last_line_len_utf16 (text_summary_from s) = utf16_units s"
    "pt_row (ts_lines (text_summary_from s)) = 0"
proof -
  let ?ok = "\<lambda>s. let T = text_summary_from s in ts_first_line_chars T = length (str_chars s) \<and>
    ts_last_line_chars T = length (str_chars s) \<and> ts_longest_row_chars T = length (str_chars s) \<and>
    ts_longest_row T = 0 \<and> ts_last_line_len_utf16 T = utf16_units s \<and> pt_row (ts_lines T) = 0"
  have char: "?ok c" if "utf8_char c" "c \<noteq> [10]" for c
    using that by (simp add: text_summary_from_char summarize_char_simps utf16_units_def point_add_simps)
  have "?ok s"
    using assms
  proof (induction s rule: utf8_induct)
    case (Char c s)
    then have "c \<noteq> [10]" by auto
    with char [of c] Char show ?case
      by (simp add: Let_def text_summary_from_append utf16_units_def)
  qed (simp add: utf16_units_def)
  then show "ts_first_line_chars (text_summary_from s) = length (str_chars s)"
    "ts_last_line_chars (text_summary_from s) = length (str_chars s)"
    "ts_longest_row_chars (text_summary_from s) = length (str_chars s)"
    "ts_longest_row (text_summary_from s) = 0"
    "ts_last_line_len_utf16 (text_summary_from s) = utf16_units s"
    "pt_row (ts_lines (text_summary_from s)) = 0" by (simp_all add: Let_def)
qed

text \<open>The bitmaps count lines from the front and from the back.\<close>

lemma split_first_newline: "10 \<in> set s \<Longrightarrow> \<exists>l r. s = l @ 10 # r \<and> 10 \<notin> set l" for s :: bytes
  using split_list_first [of 10 s] by blast

lemma split_last_newline: "10 \<in> set s \<Longrightarrow> \<exists>l r. s = l @ 10 # r \<and> 10 \<notin> set r" for s :: bytes
  using split_list_last [of 10 s] by blast

lemma takeWhile_not_newline: "takeWhile Not (map (\<lambda>b. b = 10) s) = map (\<lambda>b. b = 10) (takeWhile (\<lambda>b. b \<noteq> 10) s)" for s :: bytes
  by (induction s) auto

lemma trailing_zeros_newline:
  fixes l r :: bytes
  assumes "length (l @ 10 # r) \<le> 128" "10 \<notin> set l"
  shows "trailing_zeros (of_bits (map (\<lambda>b. b = 10) (l @ 10 # r)) :: 128 word) = length l"
proof -
  have "takeWhile (\<lambda>b. b \<noteq> 10) (l @ 10 # r) = l" using assms(2) by (auto simp: takeWhile_append2 takeWhile_tail)
  then show ?thesis using assms by (simp add: trailing_zeros_of_bits takeWhile_not_newline del: map_append takeWhile_append)
qed

lemma no_newline_zero: "10 \<notin> set (s :: bytes) \<Longrightarrow> of_bits (map (\<lambda>b. b = 10) s) = (0 :: 128 word)"
  by (rule bit_word_eqI) (auto simp: bit_of_bits dest: nth_mem)

lemma newline_not_zero:
  fixes s :: bytes
  assumes "10 \<in> set s" "length s \<le> 128"
  shows "0 < (of_bits (map (\<lambda>b. b = 10) s) :: 128 word)"
proof -
  obtain i where i: "i < length s" "s ! i = 10" using assms(1) by (auto simp: in_set_conv_nth)
  have "bit (of_bits (map (\<lambda>b. b = 10) s) :: 128 word) i" using i assms(2) by (simp add: bit_of_bits)
  then have "of_bits (map (\<lambda>b. b = 10) s) \<noteq> (0 :: 128 word)" by (metis bit_0_eq bot_apply bot_bool_def)
  then show ?thesis by (simp add: word_neq_0_conv)
qed

lemma longest_row_loop_ok:
  assumes "utf8 s" "length s \<le> 128"
  shows "longest_row_loop (of_bits (map is_char_start s)) (of_bits (map (\<lambda>b. b = 10) s)) row lr lc n =
    ((if ts_longest_row_chars (text_summary_from s) > lc
      then (row + ts_longest_row (text_summary_from s), ts_longest_row_chars (text_summary_from s)) else (lr, lc)),
     n + ts_chars (text_summary_from s))"
  using assms
proof (induction "length s" arbitrary: s row lr lc n rule: less_induct)
  case less
  show ?case
  proof (cases "10 \<in> set s")
    case False
    then show ?thesis
      using less.prems line_summary [OF less.prems(1) False]
      by (subst longest_row_loop.simps) (simp add: no_newline_zero count_of_bits filter_map comp_def count_starts chars_from Let_def)
  next
    case True
    then obtain l r where s: "s = l @ 10 # r" "10 \<notin> set l" using split_first_newline by blast
    have u: "utf8 l" "utf8 r" using less.prems(1) s(1) utf8_newline by auto
    let ?L = "text_summary_from l" and ?R = "text_summary_from r"
    have tz: "trailing_zeros (of_bits (map (\<lambda>b. b = 10) s) :: 128 word) = length l"
      using trailing_zeros_newline [of l r] less.prems(2) s by simp
    have "of_bits (map is_char_start s) AND (push_bit (length l) 1 - 1) = (of_bits (map is_char_start l) :: 128 word)"
      unfolding shl_mask of_bits_mask by (simp add: s take_map)
    then have row: "count_ones (of_bits (map is_char_start s) AND (push_bit (length l) 1 - 1) :: 128 word) = length (str_chars l)"
      using less.prems(2) s by (simp add: count_of_bits filter_map comp_def count_starts u del: push_bit_of_1)
    have drop: "drop_bit 1 (drop_bit (length l) (of_bits (map p s))) = (of_bits (map p r) :: 128 word)" for p
      using less.prems(2) by (simp add: s drop_of_bits)
    have sum: "text_summary_from s = ts_add (ts_add ?L newline) ?R"
      unfolding s(1) by (rule text_summary_newline [OF u(1)])
    note L = line_summary [OF u(1) s(2)]
    have IH: "longest_row_loop (of_bits (map is_char_start r)) (of_bits (map (\<lambda>b. b = 10) r)) row' lr' lc' n' =
        ((if ts_longest_row_chars ?R > lc' then (row' + ts_longest_row ?R, ts_longest_row_chars ?R) else (lr', lc')),
         n' + ts_chars ?R)" for row' lr' lc' n'
      using less.hyps [of r] less.prems(2) s u by simp
    have "ts_ok ?R" by (rule ts_ok_from)
    moreover have "longest_row_loop (of_bits (map is_char_start s)) (of_bits (map (\<lambda>b. b = 10) s)) row lr lc n =
        (let (lr', lc') = (if length (str_chars l) > lc then (row, length (str_chars l)) else (lr, lc))
         in ((if ts_longest_row_chars ?R > lc' then (row + 1 + ts_longest_row ?R, ts_longest_row_chars ?R) else (lr', lc')),
             n + length (str_chars l) + 1 + ts_chars ?R))"
      using newline_not_zero [OF True less.prems(2)]
      by (subst longest_row_loop.simps) (simp only: tz row drop IH Let_def if_True split: prod.split)
    ultimately show ?thesis
      unfolding sum using L by (auto simp: newline_def ts_ok_def ts_law_def max_def chars_from Let_def)
  qed
qed

lemma point_of_eq: "point_of s = point_new (length (filter (\<lambda>b. b = 10) s)) (length (takeWhile (\<lambda>b. b \<noteq> 10) (rev s)))"
  by (induction s rule: rev_induct) (simp_all add: point_eq_iff)

lemma leading_zeros_newline:
  fixes s :: bytes
  shows "length s \<le> 128 \<Longrightarrow> leading_zeros (of_bits (map (\<lambda>b. b = 10) s) :: 128 word) =
    128 - length s + length (takeWhile (\<lambda>b. b \<noteq> 10) (rev s))"
  by (simp add: leading_zeros_of_bits rev_map takeWhile_not_newline)

lemma chunk_lines_ok: "length s \<le> 128 \<Longrightarrow> chunk_lines (chunk_of s) = point_of s"
  by (simp add: chunk_lines_def leading_zeros_newline count_of_bits filter_map comp_def point_of_eq)

lemma chunk_len_utf16_ok: "utf8 s \<Longrightarrow> length s \<le> 128 \<Longrightarrow> chunk_len_utf16 (chunk_of s) = utf16_units s"
  using count_units [of s] by (simp add: chunk_len_utf16_def count_of_bits)

lemma count_from:
  assumes "length bs \<le> 128" "k \<le> length bs"
  shows "count_ones (of_bits bs AND saturating_shr_mask (128 - k)) = length (filter id (drop k bs))"
proof -
  have "of_bits bs AND saturating_shr_mask (128 - k) = of_bits (replicate k False @ drop k bs)"
    using assms by (intro of_bits_eqI)
      (auto simp: saturating_shr_mask_def bit_and_iff bit_not_iff bit_drop_bit_eq bit_of_bits nth_append bit_mask_iff)
  moreover have "filter id (replicate k False) = []" by (simp add: filter_empty_conv)
  ultimately show ?thesis using assms by (simp add: count_of_bits)
qed

lemma saturating_shl: "saturating_shl_mask n = mask n"
  by (simp add: saturating_shl_mask_def mask_eq_exp_minus_1)

lemma first_line_chars_ok:
  assumes "utf8 s" "length s \<le> 128"
  shows "first_line_chars (chunk_of s) = ts_first_line_chars (text_summary_from s)"
proof (cases "10 \<in> set s")
  case False
  have "trailing_zeros (0 :: 128 word) = 128" by (simp add: trailing_zeros_def takeWhile_eq_all_conv [THEN iffD2])
  then show ?thesis
    using assms line_summary [OF assms(1) False]
    by (simp add: first_line_chars_def no_newline_zero [OF False] saturating_shl of_bits_mask count_of_bits filter_map
      comp_def count_starts del: mask_numeral)
next
  case True
  then obtain l r where s: "s = l @ 10 # r" "10 \<notin> set l" using split_first_newline by blast
  have u: "utf8 l" "utf8 r" using assms(1) s(1) utf8_newline by auto
  have "first_line_chars (chunk_of s) = length (str_chars l)"
    using assms(2) trailing_zeros_newline [of l r] s
    by (simp add: first_line_chars_def saturating_shl of_bits_mask count_of_bits filter_map comp_def count_starts u take_map)
  then show ?thesis
    unfolding s(1) text_summary_newline [OF u(1)] using line_summary [OF u(1) s(2)] by (simp add: newline_def)
qed

lemma last_line_ok:
  assumes "utf8 s" "length s \<le> 128"
  shows "last_line_chars (chunk_of s) = ts_last_line_chars (text_summary_from s)"
    "last_line_len_utf16 (chunk_of s) = ts_last_line_len_utf16 (text_summary_from s)"
proof -
  have "\<exists>l r. s = l @ r \<and> 10 \<notin> set r \<and> (l = [] \<or> (\<exists>l'. l = l' @ [10]))"
  proof (cases "10 \<in> set s")
    case True
    then obtain l r where "s = (l @ [10]) @ r" "10 \<notin> set r" using split_last_newline by force
    then show ?thesis by blast
  next
    case False
    then have "s = [] @ s \<and> 10 \<notin> set s" by simp
    then show ?thesis by blast
  qed
  then obtain l r where s: "s = l @ r" "10 \<notin> set r" "l = [] \<or> (\<exists>l'. l = l' @ [10])" by blast
  have u: "utf8 l" "utf8 r"
  proof -
    have "utf8 l \<and> utf8 r"
      using s(3)
    proof
      assume "\<exists>l'. l = l' @ [10]"
      then obtain l' where l': "l = l' @ 10 # []" "s = l' @ 10 # r" using s(1) by auto
      then have "utf8 l'" "utf8 r" using assms(1) utf8_newline by auto
      then show ?thesis using l'(1) utf8_newline [of l' "[]"] by simp
    qed (use s(1) assms(1) in simp)
    then show "utf8 l" "utf8 r" by auto
  qed
  have "takeWhile (\<lambda>b. b \<noteq> 10) (rev r @ rev l) = rev r @ takeWhile (\<lambda>b. b \<noteq> 10) (rev l)"
    using s(2) by (intro takeWhile_append2) auto
  then have "takeWhile (\<lambda>b. b \<noteq> 10) (rev s) = rev r" using s(1,3) by auto
  moreover have len: "length s = length l + length r" by (simp add: s(1))
  ultimately have lz: "leading_zeros (of_bits (map (\<lambda>b. b = 10) s) :: 128 word) = 128 - length l"
    using assms(2) by (simp add: leading_zeros_newline)
  have parts: "drop (length l) (map is_char_start s) = map is_char_start r" "drop (length l) (u16_flags s) = u16_flags r"
    by (simp_all add: s(1) u16_flags_append u)
  have "last_line_chars (chunk_of s) = length (str_chars r)"
    using assms(2) len count_from [of "map is_char_start s" "length l"]
    by (simp add: last_line_chars_def lz parts filter_map comp_def count_starts u)
  moreover have "last_line_len_utf16 (chunk_of s) = utf16_units r"
    using assms(2) len count_from [of "u16_flags s" "length l"] count_units [OF u(2)]
    by (simp add: last_line_len_utf16_def lz parts)
  moreover have "ts_last_line_chars (text_summary_from s) = length (str_chars r) \<and>
      ts_last_line_len_utf16 (text_summary_from s) = utf16_units r"
    using s(3)
  proof
    assume "\<exists>l'. l = l' @ [10]"
    then obtain l' where l': "s = l' @ 10 # r" "utf8 l'" using s(1) assms(1) utf8_newline by auto
    show ?thesis
      unfolding l'(1) text_summary_newline [OF l'(2)] using line_summary [OF u(2) s(2)] by (simp add: newline_def)
  qed (use s line_summary [OF u(2) s(2)] in simp)
  ultimately show "last_line_chars (chunk_of s) = ts_last_line_chars (text_summary_from s)"
    "last_line_len_utf16 (chunk_of s) = ts_last_line_len_utf16 (text_summary_from s)" by auto
qed

lemma chunk_text_summary_ok:
  assumes "utf8 s" "length s \<le> 128"
  shows "chunk_text_summary (chunk_of s) = text_summary_from s"
  using longest_row_loop_ok [OF assms, of 0 0 0 0] ts_ok_from [of s] assms
  by (auto simp: chunk_text_summary_def ts_eq_iff chunk_len_utf16_ok len_utf16_from chunk_lines_ok lines_from
    first_line_chars_ok last_line_ok ts_ok_def ts_law_def)

end
