(* ===== verification/ChunkPoints.thy ===== *)
theory ChunkPoints
  imports ChunkCorrect
begin

unbundle bit_operations_syntax

text \<open>
  Positions in a chunk against positions in its text: a point is the extent of the text before an
  offset, and the offset of a point is the greatest one whose extent does not exceed it.
\<close>

section \<open>Points of a text\<close>

definition offset_for :: "bytes \<Rightarrow> point \<Rightarrow> nat" where
  "offset_for s p = length (takeWhile (\<lambda>n. \<not> point_less p (point_of (take (Suc n) s))) [0..<length s])"

lemma point_less_trans: "point_less a b \<Longrightarrow> point_less b c \<Longrightarrow> point_less a c"
  by (auto simp: point_less_def)

lemma point_not_less_trans: "\<not> point_less b a \<Longrightarrow> \<not> point_less c b \<Longrightarrow> \<not> point_less c a"
  by (auto simp: point_less_def)

lemma point_less_irrefl [simp]: "\<not> point_less a a"
  by (simp add: point_less_def)

lemma point_less_add [simp]: "\<not> point_less (point_add a b) a"
  by (auto simp: point_less_def)

lemma point_less_asym: "point_less p q \<Longrightarrow> \<not> point_less q p"
  by (auto simp: point_less_def)

lemma point_less_add_cancel [simp]: "point_less (point_add a b) (point_add a c) \<longleftrightarrow> point_less b c"
  by (auto simp: point_less_def)

lemma point_less_add_pos: "point_less point_zero q \<Longrightarrow> point_less p (point_add p q)"
  using point_less_add_cancel [of p point_zero q] by simp

lemma point_of_take_mono: "i \<le> j \<Longrightarrow> \<not> point_less (point_of (take j s)) (point_of (take i s))"
  by (metis le_add_diff_inverse point_less_add point_of_append take_add)

lemma point_of_Suc_less: "i < length s \<Longrightarrow> point_less (point_of (take i s)) (point_of (take (Suc i) s))"
  by (auto simp: take_Suc_conv_app_nth point_less_def)

lemma point_of_take_less: "i < j \<Longrightarrow> j \<le> length s \<Longrightarrow> point_less (point_of (take i s)) (point_of (take j s))"
  using point_of_Suc_less [of i s] point_of_take_mono [of "Suc i" j s] by (auto simp: point_less_def)

lemma offset_for_eqI:
  assumes "n \<le> length s" "\<not> point_less p (point_of (take n s))"
    and "n < length s \<Longrightarrow> point_less p (point_of (take (Suc n) s))"
  shows "offset_for s p = n"
proof -
  have before: "\<not> point_less p (point_of (take (Suc m) s))" if "m < n" for m
    using point_of_take_mono [of "Suc m" n s] that assms(2) by (auto simp: point_less_def)
  have "takeWhile (\<lambda>n. \<not> point_less p (point_of (take (Suc n) s))) [0..<length s] = take n [0..<length s]"
    using assms before by (intro takeWhile_eq_take_P_nth) auto
  then show ?thesis using assms(1) by (simp add: offset_for_def)
qed

lemma offset_for_le: "offset_for s p \<le> length s"
  using length_takeWhile_le [of _ "[0..<length s]"] by (simp add: offset_for_def)

lemma offset_for_passed: "\<not> point_less p (point_of (take (offset_for s p) s))"
proof (cases "offset_for s p")
  case 0
  then show ?thesis by (simp add: point_less_def)
next
  case (Suc m)
  let ?P = "\<lambda>n. \<not> point_less p (point_of (take (Suc n) s))"
  have m: "m < length (takeWhile ?P [0..<length s])" using Suc by (simp add: offset_for_def)
  then have "m < length s" using length_takeWhile_le [of ?P "[0..<length s]"] by simp
  then have "?P m" using nth_mem [OF m] takeWhile_nth [OF m] by (auto dest: set_takeWhileD)
  then show ?thesis by (simp add: Suc)
qed

lemma offset_for_stops: "offset_for s p < length s \<Longrightarrow> point_less p (point_of (take (Suc (offset_for s p)) s))"
  using nth_length_takeWhile [of "\<lambda>n. \<not> point_less p (point_of (take (Suc n) s))" "[0..<length s]"]
  by (simp add: offset_for_def)

lemma offset_for_point: "n \<le> length s \<Longrightarrow> offset_for s (point_of (take n s)) = n"
  by (intro offset_for_eqI) (auto intro: point_of_Suc_less)

section \<open>Rows of a chunk\<close>

lemma chunk_offset_to_point_ok:
  assumes "length s \<le> 128" "n \<le> length s"
  shows "chunk_offset_to_point n (chunk_of s) = point_of (take n s)"
proof -
  have bits: "of_bits (map (\<lambda>b. b = 10) s) AND (push_bit n 1 - 1) = (of_bits (map (\<lambda>b. b = 10) (take n s)) :: 128 word)"
    unfolding shl_mask of_bits_mask by (simp add: take_map)
  have "length (takeWhile (\<lambda>b. b \<noteq> 10) (rev (take n s))) \<le> n"
    using length_takeWhile_le [of _ "rev (take n s)"] assms by simp
  then show ?thesis
    using assms leading_zeros_newline [of "take n s"]
    by (simp add: chunk_offset_to_point_def Let_def bits count_of_bits filter_map comp_def point_of_eq del: push_bit_of_1)
qed

lemma row_start_ok:
  assumes "length s \<le> 128" "0 < row" "row \<le> pt_row (point_of s)"
  defines "k \<equiv> nth_set_bit (of_bits (map (\<lambda>b. b = 10) s)) row"
  shows "k < length s" "s ! k = 10" "point_of (take (Suc k) s) = point_new row 0"
proof -
  let ?w = "of_bits (map (\<lambda>b. b = 10) s) :: 128 word"
  have count: "count_ones ?w = pt_row (point_of s)"
    using assms(1) by (simp add: count_of_bits filter_map comp_def point_of_eq)
  have k: "bit ?w k" "ones_in ?w 0 k = row - 1"
    using nth_set_bit_ok [of row ?w] assms count by (auto simp: k_def)
  then show less: "k < length s" and nl: "s ! k = 10" by (auto simp: bit_of_bits)
  have "length (filter (\<lambda>b. b = 10) (take k s)) = row - 1"
    using k(2) ones_of_bits [of "map (\<lambda>b. b = 10) s" k, where 'a = 128] assms(1) less by (simp add: take_map filter_map comp_def)
  then have "pt_row (point_of (take k s)) = row - 1" by (simp add: point_of_eq)
  then show "point_of (take (Suc k) s) = point_new row 0"
    using less nl assms(2) by (simp add: take_Suc_conv_app_nth)
qed

lemma offset_range_ok:
  assumes "length s \<le> 128" "row \<le> pt_row (point_of s)"
  shows "\<exists>i j. offset_range_for_row row (chunk_of s) = (i, j) \<and> i \<le> j \<and> j \<le> length s \<and>
    point_of (take i s) = point_new row 0 \<and> 10 \<notin> set (take (j - i) (drop i s)) \<and> (j < length s \<longrightarrow> s ! j = 10)"
proof -
  define i where "i = (if row > 0 then nth_set_bit (of_bits (map (\<lambda>b. b = 10) s)) row + 1 else 0)"
  have i: "i \<le> length s" "point_of (take i s) = point_new row 0"
    using row_start_ok [OF assms(1) _ assms(2)] by (auto simp: i_def point_eq_iff)
  define n where "n = (if i = 128 then 0 else min (trailing_zeros (drop_bit i (of_bits (map (\<lambda>b. b = 10) s)) :: 128 word)) (length s - i))"
  have n: "n = length (takeWhile (\<lambda>b. b \<noteq> 10) (drop i s))"
  proof (cases "i = 128")
    case True
    then show ?thesis using assms(1) by (simp add: n_def)
  next
    case False
    have "length (takeWhile (\<lambda>b. b \<noteq> 10) (drop i s)) \<le> length s - i"
      using length_takeWhile_le [of _ "drop i s"] by simp
    moreover have "10 \<notin> set (drop i s) \<Longrightarrow> length (takeWhile (\<lambda>b. b \<noteq> 10) (drop i s)) = length s - i"
      by (subst takeWhile_eq_all_conv [THEN iffD2]) auto
    ultimately show ?thesis using False assms(1)
      by (auto simp: n_def drop_of_bits drop_map trailing_zeros_of_bits takeWhile_not_newline)
  qed
  have "take n (drop i s) = takeWhile (\<lambda>b. b \<noteq> 10) (drop i s)" unfolding n by (metis takeWhile_eq_take)
  then have no: "10 \<notin> set (take n (drop i s))" by (auto dest: set_takeWhileD)
  have "i + n < length s \<Longrightarrow> s ! (i + n) = 10"
    using nth_length_takeWhile [of "\<lambda>b. b \<noteq> 10" "drop i s"] by (auto simp: n)
  moreover have "i + n \<le> length s" using length_takeWhile_le [of "\<lambda>b. b \<noteq> 10" "drop i s"] i n by simp
  moreover have "offset_range_for_row row (chunk_of s) = (i, i + n)"
    by (simp add: offset_range_for_row_def Let_def i_def n_def)
  ultimately show ?thesis using i no by (intro exI [of _ i] exI [of _ "i + n"]) simp
qed

lemma point_in_row:
  assumes "point_of (take i s) = point_new row 0" "10 \<notin> set (take (j - i) (drop i s))" "i \<le> j" "j \<le> length s" "k \<le> j - i"
  shows "point_of (take (i + k) s) = point_new row k"
proof -
  have "10 \<notin> set (take k (drop i s))" using assms(2,5) set_take_subset_set_take [of k "j - i" "drop i s"] by auto
  then have "point_of (take k (drop i s)) = point_new 0 k" using assms(3-5) by (simp add: point_of_no_newline)
  then show ?thesis by (simp add: take_add point_of_append assms(1) point_eq_iff)
qed

lemma chunk_point_to_offset_ok:
  assumes "length s \<le> 128"
  shows "chunk_point_to_offset p (chunk_of s) = offset_for s p"
proof (cases "pt_row p > pt_row (point_of s)")
  case True
  then show ?thesis
    using assms offset_for_eqI [of "length s" s p] by (auto simp: chunk_point_to_offset_def chunk_lines_ok point_less_def)
next
  case False
  then obtain i j where r: "offset_range_for_row (pt_row p) (chunk_of s) = (i, j)" "i \<le> j" "j \<le> length s"
    "point_of (take i s) = point_new (pt_row p) 0" "10 \<notin> set (take (j - i) (drop i s))" "j < length s \<longrightarrow> s ! j = 10"
    using offset_range_ok [OF assms, of "pt_row p"] by auto
  note row = point_in_row [OF r(4,5,2,3)]
  define n where "n = i + min (pt_column p) (j - i)"
  have "offset_for s p = n"
  proof (rule offset_for_eqI)
    show "n \<le> length s" "\<not> point_less p (point_of (take n s))"
      using r(2,3) row [of "min (pt_column p) (j - i)"] by (auto simp: n_def point_less_def)
    assume n: "n < length s"
    show "point_less p (point_of (take (Suc n) s))"
    proof (cases "n < j")
      case True
      then show ?thesis using row [of "Suc (min (pt_column p) (j - i))"] by (auto simp: n_def point_less_def min_def split: if_splits)
    next
      case False
      then have "n = j" using r(2) by (auto simp: n_def)
      then show ?thesis using n r(2,6) row [of "j - i"] by (simp add: take_Suc_conv_app_nth point_less_def)
    qed
  qed
  moreover have "chunk_point_to_offset p (chunk_of s) = n"
    using False r(2) assms by (auto simp: chunk_point_to_offset_def chunk_lines_ok r(1) n_def)
  ultimately show ?thesis by simp
qed

section \<open>UTF-16 positions\<close>

lemma u16_mask:
  assumes "utf8 s" "str_is_char_boundary s n"
  shows "of_bits (u16_flags s) AND (push_bit n 1 - 1) = (of_bits (u16_flags (take n s)) :: 128 word)"
  unfolding shl_mask of_bits_mask by (simp add: u16_flags_take assms)

lemma chunk_offset_to_offset_utf16_ok:
  assumes "utf8 s" "length s \<le> 128" "str_is_char_boundary s n"
  shows "chunk_offset_to_offset_utf16 n (chunk_of s) = utf16_units (take n s)"
  using assms u16_mask [OF assms(1,3)] count_units [OF utf8_take [OF assms(1,3)]]
  by (simp add: chunk_offset_to_offset_utf16_def count_of_bits del: push_bit_of_1)

lemma utf16_len_pos [simp]: "0 < utf16_len c"
  by (simp add: utf16_len_def)

lemma utf16_units_0 [simp]: "utf8 s \<Longrightarrow> utf16_units s = 0 \<longleftrightarrow> s = []"
proof (induction s rule: utf8_induct)
  case (Char c s)
  have "c \<noteq> []" using Char.hyps by (auto simp: utf8_char_def)
  with Char.hyps show ?case by (simp add: utf16_units_def utf16_len_def)
qed (simp add: utf16_units_def)

lemma utf16_units_append: "utf8 a \<Longrightarrow> utf16_units (a @ b) = utf16_units a + utf16_units b"
  by (simp add: utf16_units_def)

text \<open>Behind a set flag, the bits up to the next one are skipped.\<close>

lemma next_flag:
  assumes bs: "length bs \<le> 128" "i \<le> n" "n \<le> length bs" "\<And>k. i \<le> k \<Longrightarrow> k < n \<Longrightarrow> \<not> bs ! k"
    and stop: "n < length bs \<Longrightarrow> bs ! n"
  shows "i + min (trailing_zeros (drop_bit i (of_bits bs :: 128 word))) (length bs - i) = n"
proof (cases "n < length bs")
  case True
  have "takeWhile Not (drop i bs) = take (n - i) (drop i bs)"
    using bs True stop by (intro takeWhile_eq_take_P_nth) auto
  moreover have "True \<in> set (drop i bs)"
    using True stop bs(2) by (auto simp: in_set_conv_nth intro!: exI [of _ "n - i"])
  ultimately show ?thesis using bs True by (simp add: drop_of_bits trailing_zeros_of_bits)
next
  case False
  then have "True \<notin> set (drop i bs)" using bs by (auto simp: in_set_conv_nth)
  then show ?thesis using bs False by (simp add: drop_of_bits trailing_zeros_of_bits)
qed

lemma chunk_offset_utf16_to_offset_ok:
  assumes "utf8 s" "length s \<le> 128" "str_is_char_boundary s n"
  shows "chunk_offset_utf16_to_offset (utf16_units (take n s)) (chunk_of s) = n"
proof (cases "n = 0")
  case False
  let ?w = "of_bits (u16_flags s) :: 128 word" and ?t = "utf16_units (take n s)"
  have n: "n \<le> length s" using boundary_le [OF assms(3)] .
  have pos: "0 < ?t" using utf16_units_0 [OF utf8_take [OF assms(1,3)]] False n by (cases "?t = 0") auto
  have ones: "ones_in ?w 0 n = ?t"
    using ones_of_bits [of "u16_flags s" n, where 'a = 128] assms n u16_flags_take [OF assms(1,3)]
      count_units [OF utf8_take [OF assms(1,3)]] by simp
  then have "?t \<le> count_ones ?w"
    using ones_in_split [of 0 n 128 ?w] n assms(2) by (simp add: count_ones_def ones_in_def)
  from nth_set_bit_ok [OF _ this] pos obtain k where k: "nth_set_bit ?w ?t = k" "bit ?w k" "ones_in ?w 0 k = ?t - 1"
    by auto
  have kn: "k < n"
  proof (rule ccontr)
    assume "\<not> k < n"
    then have "ones_in ?w 0 n \<le> ones_in ?w 0 k" using ones_in_split [of 0 n k ?w] by simp
    then show False using ones k(3) pos by simp
  qed
  have none: "ones_in ?w (Suc k) n = 0"
    using ones_in_split [of 0 "Suc k" n ?w] kn ones k(2,3) pos by (simp add: ones_in_Suc)
  have "\<not> u16_flags s ! m" if "Suc k \<le> m" "m < n" for m
  proof -
    have "ones_in ?w (Suc k) n = ones_in ?w (Suc k) m + (of_bool (bit ?w m) + ones_in ?w (Suc m) n)"
      using ones_in_split [of "Suc k" m n ?w] ones_in_split [of m "Suc m" n ?w] that by (simp add: ones_in_Suc)
    then show ?thesis using none that n assms(2) by (auto simp: bit_of_bits)
  qed
  moreover have "n < length s \<Longrightarrow> u16_flags s ! n"
    using assms(1,3) by (simp add: u16_flags_def boundary_iff)
  ultimately have "Suc k + min (trailing_zeros (drop_bit (Suc k) ?w)) (length s - Suc k) = n"
    using next_flag [of "u16_flags s" "Suc k" n] assms(2) kn n by simp
  then show ?thesis
    using pos k(1) kn n assms(2) by (auto simp: chunk_offset_utf16_to_offset_def Let_def)
qed (simp add: chunk_offset_utf16_to_offset_def utf16_units_def)

lemma chunk_offset_to_point_utf16_ok:
  assumes "utf8 s" "length s \<le> 128" "str_is_char_boundary s n"
  shows "chunk_offset_to_point_utf16 n (chunk_of s) = lines_utf16 (text_summary_from (take n s))"
proof -
  let ?t = "take n s"
  have t: "utf8 ?t" "length ?t \<le> 128" using assms by auto
  have nl: "of_bits (map (\<lambda>b. b = 10) s) AND saturating_shl_mask n = (of_bits (map (\<lambda>b. b = 10) ?t) :: 128 word)"
    unfolding saturating_shl of_bits_mask by (simp add: take_map)
  have u16: "of_bits (u16_flags s) AND saturating_shl_mask n = (of_bits (u16_flags ?t) :: 128 word)"
    using u16_mask [OF assms(1,3)] by (simp only: saturating_shl shl_mask)
  define k where "k = length ?t - length (takeWhile (\<lambda>b. b \<noteq> 10) (rev ?t))"
  have k: "k \<le> length ?t" unfolding k_def by (rule diff_le_self)
  have lz: "leading_zeros (of_bits (map (\<lambda>b. b = 10) ?t) :: 128 word) = 128 - k"
    using leading_zeros_newline [OF t(2)] t(2) length_takeWhile_le [of "\<lambda>b. b \<noteq> 10" "rev ?t"] by (simp add: k_def)
  have "last_line_len_utf16 (chunk_of ?t) = length (filter id (drop k (u16_flags ?t)))"
    using count_from [of "u16_flags ?t" k] k t(2) by (simp add: last_line_len_utf16_def lz)
  moreover have "count_ones (drop_bit k (of_bits (u16_flags ?t)) :: 128 word) = length (filter id (drop k (u16_flags ?t)))"
    using t(2) by (simp add: drop_of_bits count_of_bits)
  moreover have "k = 128 \<Longrightarrow> drop k (u16_flags ?t) = []" using t(2) by simp
  ultimately show ?thesis
    using k t last_line_ok(2) [OF t]
    by (simp add: chunk_offset_to_point_utf16_def Let_def nl u16 lz count_of_bits filter_map comp_def lines_utf16_def
      lines_from point_of_eq)
qed

section \<open>Points in UTF-16\<close>

definition point_utf16_of :: "bytes \<Rightarrow> point_utf16" where
  "point_utf16_of s = lines_utf16 (text_summary_from s)"

lemma point_utf16_of_append: "utf8 a \<Longrightarrow> point_utf16_of (a @ b) = point_add (point_utf16_of a) (point_utf16_of b)"
  by (simp add: point_utf16_of_def text_summary_from_append lines_utf16_def point_eq_iff)

lemma point_of_pos: "t \<noteq> [] \<Longrightarrow> point_less point_zero (point_of t)"
  using point_of_take_less [of 0 "length t" t] by simp

lemma point_utf16_of_row [simp]: "utf8 t \<Longrightarrow> pt_row (point_utf16_of t) = pt_row (point_of t)"
  by (simp add: point_utf16_of_def lines_utf16_def lines_from)

lemma point_utf16_of_no_newline: "utf8 t \<Longrightarrow> 10 \<notin> set t \<Longrightarrow> point_utf16_of t = point_new 0 (utf16_units t)"
  using line_summary [of t] by (simp add: point_utf16_of_def lines_utf16_def lines_from point_of_no_newline)

lemma point_utf16_of_pos:
  assumes "utf8 t" "t \<noteq> []"
  shows "point_less point_zero (point_utf16_of t)"
proof (cases "10 \<in> set t")
  case True
  then have "0 < pt_row (point_of t)" by (auto simp: point_of_eq filter_empty_conv)
  then show ?thesis using assms by (simp add: point_less_def)
next
  case False
  moreover have "0 < utf16_units t" using assms utf16_units_0 [of t] gr0I by blast
  ultimately show ?thesis using assms by (simp add: point_utf16_of_no_newline point_less_def)
qed

lemma newline_boundary: "utf8 s \<Longrightarrow> m < length s \<Longrightarrow> s ! m = 10 \<Longrightarrow> str_is_char_boundary s m \<and> str_is_char_boundary s (Suc m)"
proof -
  assume s: "utf8 s" "m < length s" "s ! m = 10"
  then have eq: "take m s @ 10 # drop (Suc m) s = s" using id_take_nth_drop [of m s] by simp
  have "utf8 (take m s)" "utf8 (drop (Suc m) s)" using s(1) utf8_newline [of "take m s" "drop (Suc m) s"] by (simp_all add: eq)
  moreover have ten: "utf8 [10]" by (simp add: utf8_char_utf8 utf8_char_def is_char_start_def utf8_len_def)
  ultimately have "utf8 (take m s @ [10])" "utf8 (10 # drop (Suc m) s)" using utf8_append [OF ten, of "drop (Suc m) s"] by simp_all
  then show ?thesis
    using boundary_prefix [of "take m s" "10 # drop (Suc m) s"] boundary_prefix [of "take m s @ [10]" "drop (Suc m) s"]
      \<open>utf8 (take m s)\<close> \<open>utf8 (drop (Suc m) s)\<close> s(2) by (simp add: eq)
qed

text \<open>The line of a row starts and ends at boundaries.\<close>

lemma row_bounds:
  assumes s: "utf8 s" "length s \<le> 128" and row: "row \<le> pt_row (point_of s)"
  obtains i j where "offset_range_for_row row (chunk_of s) = (i, j)" "i \<le> j" "j \<le> length s"
    "point_of (take i s) = point_new row 0" "point_utf16_of (take i s) = point_new row 0"
    "str_is_char_boundary s i" "str_is_char_boundary s j" "j < length s \<longrightarrow> s ! j = 10"
    "chunk_slice i j (chunk_of s) = Some (chunk_of (take (j - i) (drop i s)))"
    "utf8 (take (j - i) (drop i s))" "10 \<notin> set (take (j - i) (drop i s))"
proof -
  from offset_range_ok [OF s(2) row] obtain i j where r: "offset_range_for_row row (chunk_of s) = (i, j)" "i \<le> j" "j \<le> length s"
    "point_of (take i s) = point_new row 0" "10 \<notin> set (take (j - i) (drop i s))" "j < length s \<longrightarrow> s ! j = 10" by auto
  have bj: "str_is_char_boundary s j" using r(3,6) newline_boundary [OF s(1)] by (cases "j < length s") auto
  have bi: "str_is_char_boundary s i \<and> point_utf16_of (take i s) = point_new row 0"
  proof (cases i)
    case 0
    then show ?thesis using r(4) by (simp add: point_utf16_of_def lines_utf16_def point_eq_iff)
  next
    case (Suc m)
    then have m: "m < length s" "take i s = take m s @ [s ! m]" using r(2,3) by (auto simp: take_Suc_conv_app_nth)
    then have nl: "s ! m = 10" using r(4) by (auto split: if_splits)
    have "utf8 (take m s)" using newline_boundary [OF s(1) m(1) nl] s(1) by blast
    moreover have "point_utf16_of [10] = point_new 1 0"
      by (simp add: point_utf16_of_def lines_utf16_def newline_def flip: newline_from)
    ultimately show ?thesis using newline_boundary [OF s(1) m(1) nl] Suc m(2) nl r(4)
      by (simp add: point_utf16_of_append point_eq_iff)
  qed
  have "utf8 (take (j - i) (drop i s))"
    using utf8_take [OF utf8_drop [OF s(1)] boundary_drop [OF s(1)]] bi bj r(2) by blast
  then show thesis
    using r bi bj chunk_slice_ok [OF s _ bj r(2)] by (intro that) auto
qed

text \<open>A boundary of the line is one of the text, and conversely.\<close>

lemma line_boundary:
  assumes "utf8 s" "str_is_char_boundary s i" "str_is_char_boundary s j" "i \<le> j" "k \<le> j - i"
  shows "str_is_char_boundary (take (j - i) (drop i s)) k \<longleftrightarrow> str_is_char_boundary s (i + k)"
proof -
  have u: "utf8 (drop i s)" "str_is_char_boundary (drop i s) (j - i)"
    using assms utf8_drop boundary_drop by auto
  have "str_is_char_boundary (take (j - i) (drop i s)) k \<longleftrightarrow> str_is_char_boundary (drop i s) k"
    using boundary_append [OF utf8_drop [OF u], of "take (j - i) (drop i s)" k] assms(5) boundary_le [OF u(2)]
    by (simp only: append_take_drop_id length_take min_absorb2 if_True)
  also have "\<dots> \<longleftrightarrow> str_is_char_boundary s (i + k)"
    using boundary_append [OF u(1), of "take i s" "i + k"] boundary_le [OF assms(2)] assms(2) by (cases "k = 0") simp_all
  finally show ?thesis .
qed

text \<open>The line of a boundary.\<close>

lemma row_of_boundary:
  assumes s: "utf8 s" "length s \<le> 128" and k: "str_is_char_boundary s k"
  obtains i j where "offset_range_for_row (pt_row (point_of (take k s))) (chunk_of s) = (i, j)" "i \<le> k" "k \<le> j" "j \<le> length s"
    "chunk_slice i j (chunk_of s) = Some (chunk_of (take (j - i) (drop i s)))"
    "utf8 (take (j - i) (drop i s))" "10 \<notin> set (take (j - i) (drop i s))" "str_is_char_boundary (take (j - i) (drop i s)) (k - i)"
    "point_utf16_of (take k s) = point_new (pt_row (point_of (take k s))) (utf16_units (take (k - i) (drop i s)))"
    "point_of (take i s) = point_new (pt_row (point_of (take k s))) 0"
proof -
  let ?row = "pt_row (point_of (take k s))"
  have kl: "k \<le> length s" using boundary_le [OF k] .
  have "\<not> point_less (point_of s) (point_of (take k s))" using point_of_take_mono [of k "length s" s] kl by simp
  then have "?row \<le> pt_row (point_of s)" by (auto simp: point_less_def)
  from row_bounds [OF s this] obtain i j where r: "offset_range_for_row ?row (chunk_of s) = (i, j)" "i \<le> j" "j \<le> length s"
    "point_of (take i s) = point_new ?row 0" "point_utf16_of (take i s) = point_new ?row 0"
    "str_is_char_boundary s i" "str_is_char_boundary s j" "j < length s \<longrightarrow> s ! j = 10"
    "chunk_slice i j (chunk_of s) = Some (chunk_of (take (j - i) (drop i s)))"
    "utf8 (take (j - i) (drop i s))" "10 \<notin> set (take (j - i) (drop i s))" by metis
  have ik: "i \<le> k"
  proof (rule ccontr)
    assume "\<not> i \<le> k"
    then have "point_less (point_of (take k s)) (point_of (take i s))" using r(2,3) by (intro point_of_take_less) auto
    then show False by (simp add: r(4) point_less_def)
  qed
  have kj: "k \<le> j"
  proof (rule ccontr)
    assume j: "\<not> k \<le> j"
    then have "pt_row (point_of (take (Suc j) s)) = ?row + 1"
      using r(8) kl point_in_row [OF r(4,11,2,3), of "j - i"] r(2) by (simp add: take_Suc_conv_app_nth)
    then show False using point_of_take_mono [of "Suc j" k s] j by (auto simp: point_less_def)
  qed
  let ?l = "take (j - i) (drop i s)"
  have b: "str_is_char_boundary ?l (k - i)" using line_boundary [OF s(1) r(6,7,2), of "k - i"] k ik kj by simp
  have seg: "take k s = take i s @ take (k - i) (drop i s)" "take (k - i) ?l = take (k - i) (drop i s)"
    using ik kj take_add [of i "k - i" s] by (simp_all add: min_absorb1)
  have u: "utf8 (take (k - i) (drop i s))" "10 \<notin> set (take (k - i) (drop i s))"
    using utf8_take [OF r(10) b] r(11) seg(2) set_take_subset [of "k - i" ?l] by auto
  have "point_utf16_of (take i s @ take (k - i) (drop i s)) = point_new ?row (utf16_units (take (k - i) (drop i s)))"
    using r(5) utf8_take [OF s(1) r(6)] u by (simp add: point_utf16_of_append point_utf16_of_no_newline point_eq_iff)
  then have "point_utf16_of (take k s) = point_new ?row (utf16_units (take (k - i) (drop i s)))"
    by (simp only: seg(1) [symmetric])
  then show thesis using r ik kj b by (intro that [of i j]) auto
qed

lemma back_to_boundary_id [simp]: "str_is_char_boundary s n \<Longrightarrow> back_to_boundary s n = n"
  by (cases n) simp_all

lemma chunk_point_utf16_to_offset_eval:
  assumes "\<not> pt_row (chunk_lines c) < pt_row p" "offset_range_for_row (pt_row p) c = (i, j)" "chunk_slice i j c = Some l"
    and "\<not> last_line_len_utf16 l < pt_column p" "chunk_offset_utf16_to_offset (pt_column p) l = k - i"
    and "pt_column p = 0 \<Longrightarrow> k = i" "i \<le> k" "str_is_char_boundary (ck_text c) k"
  shows "chunk_point_utf16_to_offset p c = Some k"
  using assms by (simp add: chunk_point_utf16_to_offset_def)

lemma chunk_unclipped_point_utf16_to_point_eval:
  assumes "\<not> pt_row (chunk_lines c) < pt_row p" "offset_range_for_row (pt_row p) c = (i, j)" "chunk_slice i j c = Some l"
    and "chunk_offset_utf16_to_offset (pt_column p) l = n" "str_is_char_boundary (ck_text l) n"
    and "pt_column p = 0 \<Longrightarrow> n = 0" "pt_column p \<ge> chunk_len_utf16 l \<Longrightarrow> n = chunk_len l"
  shows "chunk_unclipped_point_utf16_to_point p c = Some (point_new (pt_row p) n)"
  using assms by (simp add: chunk_unclipped_point_utf16_to_point_def Let_def)

lemma chunk_point_utf16_to_offset_ok:
  assumes s: "utf8 s" "length s \<le> 128" and k: "str_is_char_boundary s k"
  shows "chunk_point_utf16_to_offset (point_utf16_of (take k s)) (chunk_of s) = Some k"
proof -
  obtain i j where r: "offset_range_for_row (pt_row (point_of (take k s))) (chunk_of s) = (i, j)" "i \<le> k" "k \<le> j" "j \<le> length s"
    "chunk_slice i j (chunk_of s) = Some (chunk_of (take (j - i) (drop i s)))"
    "utf8 (take (j - i) (drop i s))" "10 \<notin> set (take (j - i) (drop i s))" "str_is_char_boundary (take (j - i) (drop i s)) (k - i)"
    "point_utf16_of (take k s) = point_new (pt_row (point_of (take k s))) (utf16_units (take (k - i) (drop i s)))"
    using row_of_boundary [OF s k] by metis
  let ?l = "take (j - i) (drop i s)" and ?t = "take (k - i) (drop i s)"
  have l: "length ?l \<le> 128" "take (k - i) ?l = ?t" using s(2) r(3) by (simp_all add: min_absorb1)
  have t: "utf8 ?t" "utf16_units ?l = utf16_units ?t + utf16_units (drop (k - i) ?l)"
    using utf8_take [OF r(6,8)] utf16_units_append [of ?t "drop (k - i) ?l"] append_take_drop_id [of "k - i" ?l] l(2) by metis+
  have "\<not> pt_row (point_of s) < pt_row (point_of (take k s))"
    using point_of_take_mono [of k "length s" s] boundary_le [OF k] by (auto simp: point_less_def)
  moreover have "\<not> last_line_len_utf16 (chunk_of ?l) < utf16_units ?t"
    using last_line_ok(2) [OF r(6) l(1)] line_summary(5) [OF r(6,7)] t(2) by simp
  moreover have "chunk_offset_utf16_to_offset (utf16_units ?t) (chunk_of ?l) = k - i"
    using chunk_offset_utf16_to_offset_ok [OF r(6) l(1) r(8)] l(2) by simp
  moreover have "utf16_units ?t = 0 \<Longrightarrow> k = i" using utf16_units_0 [OF t(1)] r(2-4) by auto
  ultimately show ?thesis
    using r(1,2,5,9) k chunk_lines_ok [OF s(2)]
    by (intro chunk_point_utf16_to_offset_eval [where l = "chunk_of ?l"]) (simp_all only: point_new_simps chunk_of_simps not_False_eq_True)
qed

lemma chunk_unclipped_point_utf16_to_point_ok:
  assumes s: "utf8 s" "length s \<le> 128" and k: "str_is_char_boundary s k"
  shows "chunk_unclipped_point_utf16_to_point (point_utf16_of (take k s)) (chunk_of s) = Some (point_of (take k s))"
proof -
  obtain i j where r: "offset_range_for_row (pt_row (point_of (take k s))) (chunk_of s) = (i, j)" "i \<le> k" "k \<le> j" "j \<le> length s"
    "chunk_slice i j (chunk_of s) = Some (chunk_of (take (j - i) (drop i s)))"
    "utf8 (take (j - i) (drop i s))" "10 \<notin> set (take (j - i) (drop i s))" "str_is_char_boundary (take (j - i) (drop i s)) (k - i)"
    "point_utf16_of (take k s) = point_new (pt_row (point_of (take k s))) (utf16_units (take (k - i) (drop i s)))"
    "point_of (take i s) = point_new (pt_row (point_of (take k s))) 0"
    using row_of_boundary [OF s k] by metis
  let ?l = "take (j - i) (drop i s)" and ?t = "take (k - i) (drop i s)"
  have l: "length ?l \<le> 128" "take (k - i) ?l = ?t" using s(2) r(3) by (simp_all add: min_absorb1)
  have row: "point_of (take k s) = point_new (pt_row (point_of (take k s))) (k - i)"
    using point_in_row [OF r(10,7) _ r(4), of "k - i"] r(2,3) by simp
  have t: "utf8 ?t" "utf16_units ?l = utf16_units ?t + utf16_units (drop (k - i) ?l)" "utf8 (drop (k - i) ?l)"
    using utf8_take [OF r(6,8)] utf8_drop [OF r(6,8)] utf16_units_append [of ?t "drop (k - i) ?l"]
      append_take_drop_id [of "k - i" ?l] l(2) by metis+
  have "utf16_units ?t \<ge> utf16_units ?l \<Longrightarrow> k = j" using t(2) utf16_units_0 [OF t(3)] r(2-4) by auto
  moreover have "utf16_units ?t = 0 \<Longrightarrow> k = i" using utf16_units_0 [OF t(1)] r(2-4) by auto
  moreover have "\<not> pt_row (point_of s) < pt_row (point_of (take k s))"
    using point_of_take_mono [of k "length s" s] boundary_le [OF k] by (auto simp: point_less_def)
  moreover have "chunk_offset_utf16_to_offset (utf16_units ?t) (chunk_of ?l) = k - i"
    using chunk_offset_utf16_to_offset_ok [OF r(6) l(1) r(8)] l(2) by simp
  moreover have "length ?l = j - i" using r(4) by simp
  ultimately have "chunk_unclipped_point_utf16_to_point (point_utf16_of (take k s)) (chunk_of s) =
      Some (point_new (pt_row (point_utf16_of (take k s))) (k - i))"
    using r(1,5,8,9) k chunk_lines_ok [OF s(2)] chunk_len_utf16_ok [OF r(6) l(1)]
    by (intro chunk_unclipped_point_utf16_to_point_eval [where l = "chunk_of ?l"])
       (simp_all only: point_new_simps chunk_of_simps diff_self_eq_0 not_False_eq_True)
  then show ?thesis using row r(9) by (simp only: point_new_simps)
qed

end
