(* ===== verification/RopeCorrect.thy ===== *)
theory RopeCorrect
  imports Rope ChunkPoints
begin

text \<open>
  Correctness of the rope against the text it holds. A rope is well formed when its tree is, and its
  chunks are non-empty pieces of UTF-8 with the bitmaps of their text; \<open>chunks_full\<close> is the invariant
  that \<open>check_invariants\<close> asserts. Every operation that builds a rope keeps both and has the text
  expected; the cached summary is the summary of the text.
\<close>

section \<open>The laws of chunk summaries\<close>

lemma chunk_ops_simps [simp]:
  "zero chunk_ops = ts_zero" "add_summary chunk_ops = ts_add" "summary_of chunk_ops = chunk_text_summary"
  by (simp_all add: chunk_ops_def)

lemma longest_row_loop_keeps:
  "longest_row_loop chars newlines row lr lc n = ((lr', lc'), n') \<Longrightarrow> lc \<le> lc' \<and> (lc' = lc \<longrightarrow> lr' = lr)"
proof (induction chars newlines row lr lc n arbitrary: lr' lc' n' rule: longest_row_loop.induct)
  case (1 chars newlines row lr lc n)
  show ?case
  proof (cases "newlines > 0")
    case True
    let ?rc = "count_ones (chars AND (push_bit (trailing_zeros newlines) 1 - 1))"
    obtain lr2 lc2 where step: "(if ?rc > lc then (row, ?rc) else (lr, lc)) = (lr2, lc2)" by force
    have "longest_row_loop (drop_bit 1 (drop_bit (trailing_zeros newlines) chars))
        (drop_bit 1 (drop_bit (trailing_zeros newlines) newlines)) (row + 1) lr2 lc2 (n + ?rc + 1) = ((lr', lc'), n')"
      using "1.prems" True step by (subst (asm) longest_row_loop.simps) (simp only: Let_def if_True prod.case)
    then have "lc2 \<le> lc' \<and> (lc' = lc2 \<longrightarrow> lr' = lr2)"
      by (rule "1.IH" [OF True refl refl refl step [symmetric] refl])
    with step show ?thesis by (auto split: if_splits)
  next
    case False
    then show ?thesis using "1.prems" by (subst (asm) longest_row_loop.simps) (auto simp: Let_def split: if_splits)
  qed
qed

unbundle bit_operations_syntax

lemma bitmap_zero:
  fixes w :: "128 word"
  assumes "w = 0"
  shows "count_ones w = 0" "trailing_zeros w = 128" "leading_zeros w = 128"
proof -
  have all: "takeWhile (\<lambda>_. True) xs = xs" for xs :: "nat list" by (simp add: takeWhile_eq_all_conv)
  from assms show "count_ones w = 0" "trailing_zeros w = 128" "leading_zeros w = 128"
    by (simp_all add: count_ones_def trailing_zeros_def leading_zeros_def all)
qed

lemma count_ones_0: "count_ones w = 0 \<Longrightarrow> w = (0 :: 128 word)"
  by (rule bit_word_eqI) (simp add: count_ones_def filter_empty_conv)

lemma and_mask_128: "w AND mask 128 = (w :: 128 word)"
  by (rule bit_word_eqI) (simp add: bit_simps)

lemma chunk_ts_law: "ts_law (chunk_text_summary c)"
proof (cases "ck_newlines c = 0")
  case True
  then show ?thesis
    using bitmap_zero [OF True]
    by (subst chunk_text_summary_def, subst longest_row_loop.simps)
       (simp add: ts_law_def first_line_chars_def last_line_chars_def chunk_lines_def saturating_shl and_mask_128
         saturating_shr_mask_def Let_def)
next
  case False
  let ?nl = "trailing_zeros (ck_newlines c)" and ?first = "first_line_chars c"
  have first: "count_ones (ck_chars c AND (push_bit ?nl 1 - 1)) = ?first"
    by (simp only: first_line_chars_def saturating_shl_mask_def)
  have step: "(if ?first > 0 then (0, ?first) else (0, 0)) = (0, ?first)" by simp
  obtain lr lc n where loop: "longest_row_loop (drop_bit 1 (drop_bit ?nl (ck_chars c)))
      (drop_bit 1 (drop_bit ?nl (ck_newlines c))) (0 + 1) 0 ?first (0 + ?first + 1) = ((lr, lc), n)"
    by (metis prod.collapse)
  have "longest_row_loop (ck_chars c) (ck_newlines c) 0 0 0 0 = ((lr, lc), n)"
    using False loop by (subst longest_row_loop.simps) (simp only: Let_def first step if_True prod.case word_neq_0_conv)
  moreover have "?first \<le> lc \<and> (lc = ?first \<longrightarrow> lr = 0)" by (rule longest_row_loop_keeps [OF loop])
  moreover have "count_ones (ck_newlines c) \<noteq> 0" using False count_ones_0 by blast
  ultimately show ?thesis by (simp add: chunk_text_summary_def ts_law_def chunk_lines_def)
qed

interpretation chunks: summary_laws chunk_ops
proof -
  have "is_summary chunk_ops s \<Longrightarrow> ts_law s" for s
    by (induction rule: is_summary.induct) (simp_all add: chunk_ts_law ts_law_add)
  then show "summary_laws chunk_ops" by unfold_locales (simp_all add: ts_add_assoc ts_add_zero_left)
qed

interpretation unit_seek: seek_laws chunk_ops unit_dim
  by unfold_locales simp

interpretation len_seek: seek_laws chunk_ops len_dim
  by unfold_locales (simp add: len_dim_def)

interpretation utf16_seek: seek_laws chunk_ops utf16_dim
  by unfold_locales (simp add: utf16_dim_def)

interpretation point_seek: seek_laws chunk_ops point_dim
  by unfold_locales (simp add: point_dim_def point_add_assoc)

interpretation point_utf16_seek: seek_laws chunk_ops point_utf16_dim
  by unfold_locales (simp add: point_utf16_dim_def lines_utf16_def point_eq_iff)

lemma seek_laws_dims2: "seek_laws D M \<Longrightarrow> seek_laws D N \<Longrightarrow> seek_laws D (dims2 M N)"
  by (auto simp: seek_laws_def seek_laws_axioms_def dims2_def)

text \<open>The end of a sum in two dimensions at once: what \<open>Cursor::summary\<close> rests on.\<close>

interpretation len_point: two_dimensions chunk_ops len_dim point_dim
  by unfold_locales

section \<open>Well-formed ropes and their text\<close>

definition rope_text :: "rope \<Rightarrow> bytes" where
  "rope_text r = concat (map ck_text (to_list r))"

definition good_chunk :: "chunk \<Rightarrow> bool" where
  "good_chunk c \<longleftrightarrow> chunk_ok c \<and> ck_text c \<noteq> []"

definition rope_ok :: "rope \<Rightarrow> bool" where
  "rope_ok r \<longleftrightarrow> wf_tree chunk_ops r \<and> (\<forall>c \<in> set (to_list r). good_chunk c)"

text \<open>\<open>check_invariants\<close>: all chunks but the last are at least half full, up to a character.\<close>

definition chunks_full :: "chunk list \<Rightarrow> bool" where
  "chunks_full cs \<longleftrightarrow> (\<forall>c \<in> set (butlast cs). chunk_len c + 3 \<ge> MIN_BASE)"

abbreviation texts :: "chunk list \<Rightarrow> bytes" where
  "texts cs \<equiv> concat (map ck_text cs)"

lemma utf8_texts: "\<forall>c \<in> set cs. good_chunk c \<Longrightarrow> utf8 (texts cs)"
  by (induction cs) (auto simp: good_chunk_def chunk_ok_text)

lemma rope_text_utf8: "rope_ok r \<Longrightarrow> utf8 (rope_text r)"
  by (simp add: rope_ok_def rope_text_def utf8_texts)

lemma texts_Nil: "\<forall>c \<in> set cs. good_chunk c \<Longrightarrow> texts cs = [] \<longleftrightarrow> cs = []"
  by (cases cs) (auto simp: good_chunk_def)

lemma chunk_summary: "chunk_ok c \<Longrightarrow> chunk_text_summary c = text_summary_from (ck_text c)"
  using chunk_text_summary_ok [of "ck_text c"] by (simp add: chunk_ok_text)

lemma sum_of_chunks: "\<forall>c \<in> set cs. good_chunk c \<Longrightarrow> sum_of chunk_ops (map chunk_text_summary cs) = text_summary_from (texts cs)"
proof (induction cs rule: rev_induct)
  case (snoc c cs)
  then show ?case
    by (simp add: sum_of_def text_summary_from_append utf8_texts good_chunk_def chunk_summary)
qed (simp add: sum_of_def)

lemma rope_summary_ok: "rope_ok r \<Longrightarrow> rope_summary r = text_summary_from (rope_text r)"
proof -
  assume r: "rope_ok r"
  then have "wf_tree chunk_ops r" by (simp add: rope_ok_def)
  then show ?thesis
  proof (cases rule: chunks.wf_tree_cases)
    case node
    then show ?thesis using r chunks.node_summary_items [OF node] sum_of_chunks [of "to_list r"]
      by (simp add: rope_summary_def rope_text_def rope_ok_def)
  qed (simp add: rope_summary_def rope_text_def)
qed

lemma rope_len_ok [simp]: "rope_ok r \<Longrightarrow> rope_len r = length (rope_text r)"
  using rope_summary_ok [of r] by (simp add: rope_len_def extent_def len_dim_def rope_summary_def)

lemma rope_is_empty_ok [simp]: "rope_ok r \<Longrightarrow> rope_is_empty r \<longleftrightarrow> rope_text r = []"
  by (simp add: rope_is_empty_def)

lemma rope_empty_iff: "rope_ok r \<Longrightarrow> rope_text r = [] \<longleftrightarrow> to_list r = []"
  unfolding rope_ok_def rope_text_def using texts_Nil by blast

lemma rope_node: "rope_ok r \<Longrightarrow> rope_text r \<noteq> [] \<Longrightarrow> wf_node chunk_ops r"
  using rope_empty_iff [of r] by (auto simp: rope_ok_def wf_tree_node)

lemma rope_max_points:
  assumes "rope_ok r"
  shows "rope_max_point r = point_of (rope_text r)" "rope_max_point_utf16 r = lines_utf16 (text_summary_from (rope_text r))"
  using rope_summary_ok [OF assms] rope_text_utf8 [OF assms]
  by (simp_all add: rope_max_point_def rope_max_point_utf16_def extent_def point_dim_def point_utf16_dim_def
    rope_summary_def lines_from)

lemma rope_new_ok [simp]: "rope_ok rope_new" "rope_text rope_new = []" "to_list rope_new = []"
  by (simp_all add: rope_new_def rope_ok_def rope_text_def)

section \<open>Positions by a dimension\<close>

lemma ends_nth: "i < length xs \<Longrightarrow> ends D M pos xs ! i = after D M pos (take (Suc i) xs)"
  by (induction xs arbitrary: pos i) (auto simp: nth_Cons' take_Cons' Let_def split: if_splits)

text \<open>
  A dimension of a rope with an order in which it grows along the text. A seek target stands for a
  position when it compares as the position does with every end of a chunk.
\<close>

locale text_position = seek_laws chunk_ops M for M :: "('d, text_summary) dim_ops" +
  fixes less :: "'d \<Rightarrow> 'd \<Rightarrow> bool"
  assumes d_add_zero: "d_add M p ts_zero = p"
    and not_less_trans: "\<not> less b a \<Longrightarrow> \<not> less c b \<Longrightarrow> \<not> less c a"
    and not_less_add: "\<not> less (d_add M p s) p"
begin

definition at :: "bytes \<Rightarrow> 'd" where
  "at s = d_add M (d_zero M) (text_summary_from s)"

definition targets :: "('d \<Rightarrow> ordering) \<Rightarrow> 'd \<Rightarrow> bytes \<Rightarrow> bool" where
  "targets target x s \<longleftrightarrow> (\<forall>n \<le> length s. utf8 (take n s) \<longrightarrow>
     (target (at (take n s)) = Greater \<longleftrightarrow> less (at (take n s)) x) \<and>
     (target (at (take n s)) = Less \<longleftrightarrow> less x (at (take n s))))"

lemma at_Nil [simp]: "at [] = d_zero M"
  by (simp add: at_def d_add_zero)

lemma is_summary_text: "\<forall>c \<in> set cs. good_chunk c \<Longrightarrow> is_summary chunk_ops (text_summary_from (texts cs))"
  using is_summary_sum_of [of "map chunk_text_summary cs" chunk_ops] is_summary_item [of chunk_ops]
  by (simp add: sum_of_chunks)

lemma after_at: "\<forall>c \<in> set cs. good_chunk c \<Longrightarrow> after chunk_ops M (d_zero M) cs = at (texts cs)"
proof (induction cs rule: rev_induct)
  case (snoc c cs)
  then have c: "good_chunk c" "\<forall>c \<in> set cs. good_chunk c" by auto
  then have s: "chunk_text_summary c = text_summary_from (ck_text c)" by (simp add: good_chunk_def chunk_summary)
  have "d_add M (at (texts cs)) (chunk_text_summary c) = at (texts (cs @ [c]))"
    using d_add_hom [OF is_summary_text [OF c(2)] is_summary_item, of "d_zero M" c] utf8_texts [OF c(2)]
    by (simp add: at_def s text_summary_from_append)
  then show ?case using snoc.IH c by simp
qed simp

lemma at_mono: "\<forall>c \<in> set cs. good_chunk c \<Longrightarrow> \<forall>c \<in> set ds. good_chunk c \<Longrightarrow>
    \<not> less (at (texts (cs @ ds))) (at (texts cs))"
proof (induction ds rule: rev_induct)
  case Nil
  then show ?case using not_less_add [of "at (texts cs)" ts_zero] by (simp add: d_add_zero)
next
  case (snoc d ds)
  have "at (texts (cs @ ds @ [d])) = d_add M (at (texts (cs @ ds))) (chunk_text_summary d)"
    using after_at [of "(cs @ ds) @ [d]"] after_at [of "cs @ ds"] snoc.prems by (simp add: ball_Un)
  then show ?case using snoc not_less_trans [OF snoc.IH not_less_add] by simp
qed

text \<open>What a seek compares: with bias left it passes the ends before the position, with bias right also it.\<close>

definition before :: "bias \<Rightarrow> 'd \<Rightarrow> 'd \<Rightarrow> bool" where
  "before b e x \<longleftrightarrow> (if b = Left then less e x else \<not> less x e)"

lemma passes_before:
  assumes "\<forall>c \<in> set (us @ vs). good_chunk c" "targets target x (texts (us @ vs))"
  shows "passes target b (at (texts us)) \<longleftrightarrow> before b (at (texts us)) x"
proof -
  have "utf8 (take (length (texts us)) (texts (us @ vs)))" using assms(1) by (simp add: utf8_texts)
  moreover have "length (texts us) \<le> length (texts (us @ vs))" "take (length (texts us)) (texts (us @ vs)) = texts us" by simp_all
  ultimately have "target (at (texts us)) = Greater \<longleftrightarrow> less (at (texts us)) x" "target (at (texts us)) = Less \<longleftrightarrow> less x (at (texts us))"
    using assms(2) unfolding targets_def by metis+
  then show ?thesis by (cases "target (at (texts us))"; cases b) (auto simp: passes_def before_def)
qed

lemma before_mono:
  assumes "before b e x" "\<not> less e e'"
  shows "before b e' x"
  using assms not_less_trans [of e' x e] not_less_trans [of e e' x] by (auto simp: before_def split: if_splits)

lemma passes_mono:
  assumes good: "\<forall>c \<in> set cs. good_chunk c" and t: "targets target x (texts cs)"
  shows "pass_mono chunk_ops M (passes target b) (d_zero M) cs"
  unfolding pass_mono_def sorted_wrt_iff_nth_less
proof (intro allI impI)
  fix i j assume ij: "i < j" "j < length (ends chunk_ops M (d_zero M) cs)"
    and pass: "passes target b (ends chunk_ops M (d_zero M) cs ! j)"
  define us vs ws where "us = take (Suc i) cs" and "vs = take (j - i) (drop (Suc i) cs)" and "ws = drop (Suc j) cs"
  have uv: "us @ vs = take (Suc j) cs" using ij by (simp add: us_def vs_def flip: take_add)
  then have cs: "cs = us @ vs @ ws" by (simp add: ws_def flip: append_assoc)
  have g: "\<forall>c \<in> set us. good_chunk c" "\<forall>c \<in> set vs. good_chunk c" "\<forall>c \<in> set (us @ vs). good_chunk c" using good cs by auto
  have e: "ends chunk_ops M (d_zero M) cs ! j = at (texts (us @ vs))" "ends chunk_ops M (d_zero M) cs ! i = at (texts us)"
    using ij after_at [OF g(3)] after_at [OF g(1)] by (simp_all add: ends_nth flip: uv us_def)
  have gt: "\<forall>c \<in> set (us @ vs @ ws). good_chunk c" "targets target x (texts (us @ vs @ ws))"
    using good t by (simp_all only: cs [symmetric])
  have "before b (at (texts (us @ vs))) x"
    using pass passes_before [of "us @ vs" ws target x b] gt unfolding e(1) by simp
  then have "before b (at (texts us)) x" by (rule before_mono [OF _ at_mono [OF g(1,2)]])
  then show "passes target b (ends chunk_ops M (d_zero M) cs ! i)"
    using passes_before [of us "vs @ ws" target x b] gt unfolding e(2) by simp
qed

lemma advance_split:
  assumes good: "\<forall>c \<in> set cs. good_chunk c" and t: "targets target x (texts cs)"
  obtains us vs where "advance chunk_ops M (passes target b) (d_zero M) cs = (us, vs)" "cs = us @ vs"
    "us \<noteq> [] \<Longrightarrow> before b (at (texts us)) x" "vs \<noteq> [] \<Longrightarrow> \<not> before b (at (texts (us @ [hd vs]))) x"
proof -
  obtain us vs where a: "advance chunk_ops M (passes target b) (d_zero M) cs = (us, vs)" by force
  have cs: "cs = us @ vs" using advance_append [of chunk_ops M "passes target b" "d_zero M" cs] a by simp
  have gu: "\<forall>c \<in> set us. good_chunk c" using good cs by simp
  have "before b (at (texts us)) x" if "us \<noteq> []"
  proof -
    have "at (texts us) \<in> set (ends chunk_ops M (d_zero M) us)"
      using last_ends [OF that, of chunk_ops M "d_zero M"] last_in_set [of "ends chunk_ops M (d_zero M) us"] that after_at [OF gu] by simp
    then have "passes target b (at (texts us))"
      using advance_fst_passes [of chunk_ops M "d_zero M" "passes target b" cs] a by simp
    then show ?thesis using passes_before [of us vs target x b] good t cs by simp
  qed
  moreover have "\<not> before b (at (texts (us @ [hd vs]))) x" if ne: "vs \<noteq> []"
  proof -
    obtain v ws where v: "vs = v # ws" using ne by (cases vs) auto
    have "\<forall>c \<in> set (us @ [v]). good_chunk c" using good cs v by simp
    from after_at [OF this] have "\<not> passes target b (at (texts (us @ [v])))"
      using advance_snd_stops [of chunk_ops M "passes target b" "d_zero M" cs v ws] a v by simp
    then show ?thesis using passes_before [of "us @ [v]" ws target x b] good t cs v by simp
  qed
  ultimately show thesis by (rule that [OF a cs])
qed

lemma find_left:
  assumes r: "rope_ok r" "rope_text r \<noteq> []" and M: "seek_laws chunk_ops K"
    and t: "targets target x (rope_text r)" and le: "\<not> less (at (rope_text r)) x"
    and a: "advance chunk_ops K (passes target' Left) (d_zero K) (to_list r) = advance chunk_ops M (passes target Left) (d_zero M) (to_list r)"
    and m: "pass_mono chunk_ops K (passes target' Left) (d_zero K) (to_list r) = pass_mono chunk_ops M (passes target Left) (d_zero M) (to_list r)"
  obtains us c vs where "to_list r = us @ c # vs"
    "tree_find chunk_ops K target' Left r =
      (after chunk_ops K (d_zero K) us, after chunk_ops K (d_zero K) (us @ [c]), Some c)"
    "us \<noteq> [] \<Longrightarrow> less (at (texts us)) x" "\<not> less (at (texts us @ ck_text c)) x"
proof -
  have good: "\<forall>c \<in> set (to_list r). good_chunk c" and t': "targets target x (texts (to_list r))"
    using r t by (simp_all add: rope_ok_def rope_text_def)
  obtain us vs where s: "advance chunk_ops M (passes target Left) (d_zero M) (to_list r) = (us, vs)" "to_list r = us @ vs"
    "us \<noteq> [] \<Longrightarrow> before Left (at (texts us)) x" "vs \<noteq> [] \<Longrightarrow> \<not> before Left (at (texts (us @ [hd vs]))) x"
    using advance_split [OF good t'] by metis
  have "vs \<noteq> []"
  proof
    assume "vs = []"
    then have "us \<noteq> []" "texts us = rope_text r" using s(2) rope_empty_iff [OF r(1)] r(2) by (auto simp: rope_text_def)
    then show False using s(3) le by (simp add: before_def)
  qed
  then obtain c ws where v: "vs = c # ws" by (cases vs) auto
  have "tree_find chunk_ops K target' Left r =
      (after chunk_ops K (d_zero K) us, after chunk_ops K (d_zero K) (us @ take 1 vs), list_first vs)"
    using seek_laws.tree_find_ok [OF M rope_node [OF r], of target' Left us vs] passes_mono [OF good t', of Left] s(1) a m by simp
  then show thesis using s v by (intro that [of us c ws]) (auto simp: before_def)
qed

lemma find_by_ok:
  assumes "rope_ok r" "rope_text r \<noteq> []" "seek_laws chunk_ops N" "targets target x (rope_text r)" "\<not> less (at (rope_text r)) x"
  obtains us c vs where "to_list r = us @ c # vs"
    "find_by M N target r = ((at (texts us), after chunk_ops N (d_zero N) us), Some c)"
    "us \<noteq> [] \<Longrightarrow> less (at (texts us)) x" "\<not> less (at (texts us @ ck_text c)) x"
proof -
  let ?K = "dims2 M N" and ?t = "\<lambda>location. target (fst location)"
  have "seek_laws chunk_ops ?K" using seek_laws_axioms assms(3) by (rule seek_laws_dims2)
  from find_left [OF assms(1,2) this assms(4,5), of ?t] obtain us c vs where f: "to_list r = us @ c # vs"
    "tree_find chunk_ops ?K ?t Left r = (after chunk_ops ?K (d_zero ?K) us, after chunk_ops ?K (d_zero ?K) (us @ [c]), Some c)"
    "us \<noteq> [] \<Longrightarrow> less (at (texts us)) x" "\<not> less (at (texts us @ ck_text c)) x"
    by (auto simp: passes_fst advance_dims2 pass_mono_dims2)
  have "\<forall>c \<in> set us. good_chunk c" using assms(1) f(1) by (auto simp: rope_ok_def)
  with f show thesis by (intro that) (simp_all add: find_by_def after_dims2 after_at)
qed

text \<open>The same from a cursor in the middle, whose position the target does not lie before.\<close>

lemma advance_from:
  assumes good: "\<forall>c \<in> set (xs @ ys). good_chunk c" and t: "targets target x (texts (xs @ ys))"
    and xs: "xs \<noteq> [] \<Longrightarrow> before b (at (texts xs)) x"
  obtains us vs where "advance chunk_ops M (passes target b) (after chunk_ops M (d_zero M) xs) ys = (us, vs)" "ys = us @ vs"
    "pass_mono chunk_ops M (passes target b) (after chunk_ops M (d_zero M) xs) ys"
    "us \<noteq> [] \<Longrightarrow> before b (at (texts (xs @ us))) x" "vs \<noteq> [] \<Longrightarrow> \<not> before b (at (texts (xs @ us @ [hd vs]))) x"
proof -
  have mono: "pass_mono chunk_ops M (passes target b) (d_zero M) (xs @ ys)" by (rule passes_mono [OF good t])
  have gx: "\<forall>c \<in> set xs. good_chunk c" using good by auto
  have "\<forall>e \<in> set (ends chunk_ops M (d_zero M) xs). passes target b e"
  proof (cases "xs = []")
    case False
    then have "passes target b (after chunk_ops M (d_zero M) xs)"
      using passes_before [of xs ys target x b] good t xs after_at [OF gx] by simp
    then show ?thesis using pass_mono_prefix_passes [OF pass_mono_append [OF mono, THEN conjunct1] False] by blast
  qed simp
  note past = advance_passes [OF this, of ys]
  obtain us vs where a: "advance chunk_ops M (passes target b) (after chunk_ops M (d_zero M) xs) ys = (us, vs)" by force
  obtain us' vs' where s: "advance chunk_ops M (passes target b) (d_zero M) (xs @ ys) = (us', vs')" "xs @ ys = us' @ vs'"
    "us' \<noteq> [] \<Longrightarrow> before b (at (texts us')) x" "vs' \<noteq> [] \<Longrightarrow> \<not> before b (at (texts (us' @ [hd vs']))) x"
    using advance_split [OF good t] by metis
  have "us' = xs @ us" "vs' = vs" using past s(1) a by auto
  then show thesis using s a pass_mono_append [OF mono] by (intro that [of us vs]) auto
qed

text \<open>With either bias a position past the end of the text finds nothing; with bias right the end does too.\<close>

lemma passes_end:
  assumes "rope_ok r" "targets target x (rope_text r)"
  shows "passes target b (extent M r) \<longleftrightarrow> before b (at (rope_text r)) x" "extent M r = at (rope_text r)"
proof -
  have e: "extent M r = at (rope_text r)" using rope_summary_ok [OF assms(1)] by (simp add: extent_def at_def rope_summary_def)
  then show "extent M r = at (rope_text r)" .
  show "passes target b (extent M r) \<longleftrightarrow> before b (at (rope_text r)) x"
    using assms passes_before [of "to_list r" "[]" target x b] unfolding e by (simp add: rope_ok_def rope_text_def)
qed

lemma find_none:
  assumes "rope_ok r" "targets target x (rope_text r)" "before b (at (rope_text r)) x"
  shows "tree_find chunk_ops M target b r = (at (rope_text r), at (rope_text r), None)"
  using assms passes_end [OF assms(1,2)] by (simp add: tree_find_def find_gen_def Let_def flip: extent_def)

lemma find_right:
  assumes r: "rope_ok r" "rope_text r \<noteq> []" and t: "targets target x (rope_text r)" and lt: "less x (at (rope_text r))"
  obtains us c vs where "to_list r = us @ c # vs" "tree_find chunk_ops M target Right r = (at (texts us), at (texts us @ ck_text c), Some c)"
    "us \<noteq> [] \<Longrightarrow> \<not> less x (at (texts us))" "less x (at (texts us @ ck_text c))"
proof -
  have good: "\<forall>c \<in> set (to_list r). good_chunk c" and t': "targets target x (texts (to_list r))"
    using r t by (simp_all add: rope_ok_def rope_text_def)
  obtain us vs where s: "advance chunk_ops M (passes target Right) (d_zero M) (to_list r) = (us, vs)" "to_list r = us @ vs"
    "us \<noteq> [] \<Longrightarrow> before Right (at (texts us)) x" "vs \<noteq> [] \<Longrightarrow> \<not> before Right (at (texts (us @ [hd vs]))) x"
    using advance_split [OF good t'] by metis
  have "vs \<noteq> []"
  proof
    assume "vs = []"
    then have "us \<noteq> []" "texts us = rope_text r" using s(2) rope_empty_iff [OF r(1)] r(2) by (auto simp: rope_text_def)
    then show False using s(3) lt by (simp add: before_def)
  qed
  then obtain c ws where v: "vs = c # ws" by (cases vs) auto
  have g: "\<forall>c \<in> set us. good_chunk c" "\<forall>c \<in> set (us @ [c]). good_chunk c" using good s(2) v by auto
  have "tree_find chunk_ops M target Right r =
      (after chunk_ops M (d_zero M) us, after chunk_ops M (d_zero M) (us @ [c]), Some c)"
    using tree_find_ok [OF rope_node [OF r] passes_mono [OF good t', of Right] s(1)] v by simp
  then have "tree_find chunk_ops M target Right r = (at (texts us), at (texts us @ ck_text c), Some c)"
    unfolding after_at [OF g(1)] after_at [OF g(2)] by simp
  then show thesis using s v by (intro that [of us c ws]) (auto simp: before_def)
qed

text \<open>A cursor sought to a position finds the same.\<close>

lemma seek_by_find:
  assumes r: "rope_ok r" "rope_text r \<noteq> []" and N: "seek_laws chunk_ops N" and t: "targets target x (rope_text r)"
    and x: "\<not> less (at (rope_text r)) x" "\<not> less x (d_zero M)"
  shows "seek_by M N target r = Some (find_by M N target r)"
proof -
  let ?K = "dims2 M N" and ?t = "\<lambda>location. target (fst location)"
  have K: "seek_laws chunk_ops ?K" using seek_laws_axioms N by (rule seek_laws_dims2)
  have good: "\<forall>c \<in> set (to_list r). good_chunk c" and t': "targets target x (texts (to_list r))" and wf: "wf_tree chunk_ops r"
    using r t by (simp_all add: rope_ok_def rope_text_def)
  obtain us' vs' where s: "advance chunk_ops M (passes target Left) (d_zero M) (to_list r) = (us', vs')" "to_list r = us' @ vs'"
    using advance_split [OF good t'] by metis
  have z: "target (d_zero M) \<noteq> Less"
    using t x(2) unfolding targets_def by (auto dest!: spec [of _ 0])
  obtain cu where cu: "cursor_seek ?K ?t Left (cursor_new ?K r) = Some (?t (seek_end chunk_ops ?K Left us' vs') = Equal, cu)"
    "cursor_at chunk_ops ?K cu us' vs'" "c_did_seek cu"
    using seek_laws.cursor_seek_ok [OF K cursor_at_new [OF wf], of ?t Left us' vs'] z s passes_mono [OF good t', of Left]
    by (auto simp: passes_fst advance_dims2 pass_mono_dims2)
  have f: "tree_find chunk_ops ?K ?t Left r =
      (after chunk_ops ?K (d_zero ?K) us', after chunk_ops ?K (d_zero ?K) (us' @ take 1 vs'), list_first vs')"
    using seek_laws.tree_find_ok [OF K rope_node [OF r], of ?t Left us' vs'] passes_mono [OF good t', of Left] s(1)
    by (auto simp: passes_fst advance_dims2 pass_mono_dims2)
  moreover have "c_position cu = after chunk_ops ?K (d_zero ?K) us'" using cu(2) by (simp add: cursor_at_def)
  moreover have "cursor_item cu = Some (list_first vs')" by (rule cursor_item_ok [OF cu(2,3)])
  ultimately show ?thesis using cu(1) by (simp add: seek_by_def find_by_def)
qed

end

interpretation len_pos: text_position len_dim "(<)"
  by unfold_locales (auto simp: len_dim_def)

interpretation utf16_pos: text_position utf16_dim "(<)"
  by unfold_locales (auto simp: utf16_dim_def)

interpretation point_pos: text_position point_dim point_less
  by unfold_locales (auto simp: point_dim_def point_less_def)

interpretation point_utf16_pos: text_position point_utf16_dim point_less
  by unfold_locales (auto simp: point_utf16_dim_def lines_utf16_def point_eq_iff point_less_def)

lemma len_at [simp]: "len_pos.at s = length s"
  unfolding len_pos.at_def by (simp add: len_dim_def)

lemma utf16_at [simp]: "utf16_pos.at s = utf16_units s"
  unfolding utf16_pos.at_def by (simp add: utf16_dim_def len_utf16_from)

lemma point_at [simp]: "utf8 s \<Longrightarrow> point_pos.at s = point_of s"
  unfolding point_pos.at_def by (simp add: point_dim_def lines_from)

lemma point_utf16_at [simp]: "point_utf16_pos.at s = point_utf16_of s"
  unfolding point_utf16_pos.at_def by (simp add: point_utf16_dim_def point_utf16_of_def)

lemma len_targets [simp]: "len_pos.targets (ord_cmp n) n s"
  by (auto simp: len_pos.targets_def ord_cmp_def)

lemma utf16_targets [simp]: "utf16_pos.targets (ord_cmp n) n s"
  by (auto simp: utf16_pos.targets_def ord_cmp_def)

lemma point_of_column: "pt_column (point_of s) \<le> length s"
  using length_takeWhile_le [of _ "rev s"] by (simp add: point_of_eq)

lemma point_targets: "pt_column p < 2 ^ 32 \<Longrightarrow> length s < 2 ^ 32 \<Longrightarrow> point_pos.targets (point_cmp p) p s"
  unfolding point_pos.targets_def
proof (intro allI impI)
  fix n assume p: "pt_column p < 2 ^ 32" "length s < 2 ^ 32" and n: "n \<le> length s" "utf8 (take n s)"
  have "pt_column (point_of (take n s)) < 2 ^ 32" using point_of_column [of "take n s"] p n by simp
  with p n show "(point_cmp p (point_pos.at (take n s)) = Greater) = point_less (point_pos.at (take n s)) p \<and>
      (point_cmp p (point_pos.at (take n s)) = Less) = point_less p (point_pos.at (take n s))"
    by (simp add: point_cmp_iff)
qed

end
