(* ===== verification/RopePoints.thy ===== *)
theory RopePoints
  imports RopeCorrect
begin

text \<open>
  The conversions of a rope between offsets and points, in bytes and in UTF-16 units: each is the
  conversion of its text, whatever the chunks.
\<close>

section \<open>Finding the chunk\<close>

lemma after_positions:
  assumes "\<forall>c \<in> set us. good_chunk c"
  shows "after chunk_ops len_dim (d_zero len_dim) us = length (texts us)"
    "after chunk_ops utf16_dim (d_zero utf16_dim) us = utf16_units (texts us)"
    "after chunk_ops point_dim (d_zero point_dim) us = point_of (texts us)"
    "after chunk_ops point_utf16_dim (d_zero point_utf16_dim) us = point_utf16_of (texts us)"
  using len_pos.after_at [OF assms] utf16_pos.after_at [OF assms] point_pos.after_at [OF assms]
    point_utf16_pos.after_at [OF assms] utf8_texts [OF assms] by simp_all

text \<open>A rope cut at a chunk: what the proofs below know of it.\<close>

lemma rope_cut:
  assumes "rope_ok r" "to_list r = us @ c # vs"
  shows "rope_text r = texts us @ ck_text c @ texts vs" "\<forall>c \<in> set us. good_chunk c" "utf8 (texts us)" "utf8 (ck_text c)"
    "utf8 (texts vs)" "length (ck_text c) \<le> 128" "chunk_of (ck_text c) = c" "ck_text c \<noteq> []"
  using assms utf8_texts [of us] utf8_texts [of vs]
  by (auto simp: rope_ok_def rope_text_def good_chunk_def chunk_ok_text)

lemma find_len:
  assumes r: "rope_ok r" "n < length (rope_text r)" and N: "seek_laws chunk_ops N"
  obtains us c vs where "to_list r = us @ c # vs"
    "find_by len_dim N (ord_cmp n) r = ((length (texts us), after chunk_ops N (d_zero N) us), Some c)"
    "length (texts us) \<le> n" "n - length (texts us) \<le> length (ck_text c)"
proof -
  have ne: "rope_text r \<noteq> []" using r(2) by auto
  obtain us c vs where f: "to_list r = us @ c # vs"
    "find_by len_dim N (ord_cmp n) r = ((length (texts us), after chunk_ops N (d_zero N) us), Some c)"
    "us \<noteq> [] \<Longrightarrow> length (texts us) < n" "\<not> length (texts us @ ck_text c) < n"
    using len_pos.find_by_ok [OF r(1) ne N, of "ord_cmp n" n] r(2) by auto
  then show thesis by (intro that) (cases "us = []"; auto)+
qed

section \<open>Offsets and points\<close>

lemma rope_offset_to_point_ok:
  assumes "rope_ok r"
  shows "rope_offset_to_point n r = Some (point_of (take n (rope_text r)))"
proof (cases "n < length (rope_text r)")
  case True
  obtain us c vs where f: "to_list r = us @ c # vs"
    "find_by len_dim point_dim (ord_cmp n) r = ((length (texts us), after chunk_ops point_dim (d_zero point_dim) us), Some c)"
    "length (texts us) \<le> n" "n - length (texts us) \<le> length (ck_text c)"
    using find_len [OF assms True point_seek.seek_laws_axioms] by metis
  note cut = rope_cut [OF assms f(1)]
  have "chunk_offset_to_point (n - length (texts us)) c = point_of (take (n - length (texts us)) (ck_text c))"
    using chunk_offset_to_point_ok [OF cut(6) f(4)] by (simp add: cut(7))
  then show ?thesis
    using True f(2-4) rope_summary_ok [OF assms] after_positions(3) [OF cut(2)] cut(1)
    by (simp add: rope_offset_to_point_def sub_usize_def map_or_def point_of_append)
next
  case False
  then show ?thesis
    using rope_summary_ok [OF assms] rope_text_utf8 [OF assms] by (simp add: rope_offset_to_point_def lines_from)
qed

lemma point_sub_exists: "\<not> point_less p a \<Longrightarrow> \<exists>q. p = point_add a q \<and> point_sub p a = Some q"
  by (rule exI [of _ "if pt_row p = pt_row a then point_new 0 (pt_column p - pt_column a) else point_new (pt_row p - pt_row a) (pt_column p)"])
    (auto simp: point_less_def point_eq_iff point_sub_def sub_usize_def)

lemma find_point:
  assumes r: "rope_ok r" "length (rope_text r) < 2 ^ 32" and N: "seek_laws chunk_ops N"
    and p: "pt_column p < 2 ^ 32" "point_less p (point_of (rope_text r))"
  obtains us c vs q where "to_list r = us @ c # vs"
    "find_by point_dim N (point_cmp p) r = ((point_of (texts us), after chunk_ops N (d_zero N) us), Some c)"
    "p = point_add (point_of (texts us)) q" "point_sub p (point_of (texts us)) = Some q" "\<not> point_less (point_of (ck_text c)) q"
proof -
  have ne: "rope_text r \<noteq> []" using p(2) by (auto simp: point_less_def)
  have lt: "\<not> point_less (point_pos.at (rope_text r)) p"
    using p(2) rope_text_utf8 [OF r(1)] by (auto simp: point_less_def)
  obtain us c vs where f: "to_list r = us @ c # vs"
    "find_by point_dim N (point_cmp p) r = ((point_pos.at (texts us), after chunk_ops N (d_zero N) us), Some c)"
    "us \<noteq> [] \<Longrightarrow> point_less (point_pos.at (texts us)) p" "\<not> point_less (point_pos.at (texts us @ ck_text c)) p"
    using point_pos.find_by_ok [OF r(1) ne N point_targets [OF p(1) r(2)] lt] by metis
  note cut = rope_cut [OF r(1) f(1)]
  have "\<not> point_less p (point_of (texts us))"
    using f(3) cut(3) by (cases "us = []") (auto simp: point_less_def)
  then obtain q where q: "p = point_add (point_of (texts us)) q" "point_sub p (point_of (texts us)) = Some q"
    using point_sub_exists by blast
  then show thesis using f cut(3,4) by (intro that [of us c vs q]) (auto simp: point_of_append)
qed

lemma offset_for_cut:
  assumes "\<not> point_less (point_of c) q"
  shows "offset_for (a @ c @ b) (point_add (point_of a) q) = length a + offset_for c q"
proof (rule offset_for_eqI)
  let ?k = "offset_for c q"
  have le: "?k \<le> length c" by (rule offset_for_le)
  have stop: "?k < length c \<Longrightarrow> point_less q (point_of (take (Suc ?k) c))"
    and at: "\<not> point_less q (point_of (take ?k c))" by (simp_all add: offset_for_stops offset_for_passed)
  show "length a + ?k \<le> length (a @ c @ b)" using le by simp
  show "\<not> point_less (point_add (point_of a) q) (point_of (take (length a + ?k) (a @ c @ b)))"
    using at le by (simp add: point_of_append)
  assume n: "length a + ?k < length (a @ c @ b)"
  show "point_less (point_add (point_of a) q) (point_of (take (Suc (length a + ?k)) (a @ c @ b)))"
  proof (cases "?k < length c")
    case True
    then show ?thesis using stop by (simp add: point_of_append Suc_diff_le)
  next
    case False
    then have k: "?k = length c" "b \<noteq> []" using le n by auto
    then have "q = point_of c" using at assms by (auto simp: point_less_def point_eq_iff)
    then have "point_less q (point_of (c @ take 1 b))" using k(2) point_of_Suc_less [of 0 b] point_less_add_cancel [of "point_of c" point_zero]
      by (simp add: point_of_append)
    then show ?thesis using k by (simp add: point_of_append Suc_diff_le)
  qed
qed

lemma rope_point_to_offset_ok:
  assumes r: "rope_ok r" "length (rope_text r) < 2 ^ 32" and p: "pt_column p < 2 ^ 32"
  shows "rope_point_to_offset p r = Some (offset_for (rope_text r) p)"
proof (cases "point_less p (point_of (rope_text r))")
  case True
  obtain us c vs q where f: "to_list r = us @ c # vs"
    "find_by point_dim len_dim (point_cmp p) r = ((point_of (texts us), after chunk_ops len_dim (d_zero len_dim) us), Some c)"
    "p = point_add (point_of (texts us)) q" "point_sub p (point_of (texts us)) = Some q" "\<not> point_less (point_of (ck_text c)) q"
    using find_point [OF r len_seek.seek_laws_axioms p True] by metis
  note cut = rope_cut [OF r(1) f(1)]
  have "chunk_point_to_offset q c = offset_for (ck_text c) q"
    using chunk_point_to_offset_ok [OF cut(6)] by (simp add: cut(7))
  moreover have "pt_column (point_of (rope_text r)) < 2 ^ 32" using point_of_column [of "rope_text r"] r(2) by simp
  ultimately show ?thesis
    using True f(2,4) p rope_summary_ok [OF r(1)] rope_text_utf8 [OF r(1)] after_positions(1) [OF cut(2)]
      offset_for_cut [OF f(5), of "texts us" "texts vs"]
    by (simp add: rope_point_to_offset_def point_cmp_iff lines_from map_or_def cut(1) flip: f(3))
next
  case False
  moreover have "pt_column (point_of (rope_text r)) < 2 ^ 32" using point_of_column [of "rope_text r"] r(2) by simp
  moreover have "offset_for (rope_text r) p = length (rope_text r)" using False by (intro offset_for_eqI) auto
  ultimately show ?thesis
    using p rope_summary_ok [OF r(1)] rope_text_utf8 [OF r(1)] by (simp add: rope_point_to_offset_def point_cmp_iff lines_from)
qed

section \<open>UTF-16 units\<close>

lemma boundary_in_chunk:
  assumes "utf8 c" "utf8 b" "str_is_char_boundary (a @ c @ b) n" "length a \<le> n" "n - length a \<le> length c"
  shows "str_is_char_boundary c (n - length a)" "take n (a @ c @ b) = a @ take (n - length a) c"
proof -
  have "str_is_char_boundary (c @ b) (n - length a)"
    using assms boundary_append [of "c @ b" a n] by (cases "n = length a") auto
  then show "str_is_char_boundary c (n - length a)" using assms boundary_append [of b c "n - length a"] by simp
  show "take n (a @ c @ b) = a @ take (n - length a) c" using assms by simp
qed

lemma rope_offset_to_offset_utf16_ok:
  assumes r: "rope_ok r" and b: "str_is_char_boundary (rope_text r) n"
  shows "rope_offset_to_offset_utf16 n r = Some (utf16_units (take n (rope_text r)))"
proof (cases "n < length (rope_text r)")
  case True
  obtain us c vs where f: "to_list r = us @ c # vs"
    "find_by len_dim utf16_dim (ord_cmp n) r = ((length (texts us), after chunk_ops utf16_dim (d_zero utf16_dim) us), Some c)"
    "length (texts us) \<le> n" "n - length (texts us) \<le> length (ck_text c)"
    using find_len [OF r True utf16_seek.seek_laws_axioms] by metis
  note cut = rope_cut [OF r f(1)]
  note k = boundary_in_chunk [OF cut(4,5) b [unfolded cut(1)] f(3,4)]
  have "chunk_offset_to_offset_utf16 (n - length (texts us)) c = utf16_units (take (n - length (texts us)) (ck_text c))"
    using chunk_offset_to_offset_utf16_ok [OF cut(4,6) k(1)] by (simp add: cut(7))
  then show ?thesis
    using True f(2,3) rope_summary_ok [OF r] after_positions(2) [OF cut(2)] k(2) cut(3)
    by (simp add: rope_offset_to_offset_utf16_def sub_usize_def map_or_def utf16_units_append cut(1) flip: cut(1))
next
  case False
  then show ?thesis
    using rope_summary_ok [OF r] by (simp add: rope_offset_to_offset_utf16_def len_utf16_from)
qed

lemma rope_offset_to_point_utf16_ok:
  assumes r: "rope_ok r" and b: "str_is_char_boundary (rope_text r) n"
  shows "rope_offset_to_point_utf16 n r = Some (point_utf16_of (take n (rope_text r)))"
proof (cases "n < length (rope_text r)")
  case True
  obtain us c vs where f: "to_list r = us @ c # vs"
    "find_by len_dim point_utf16_dim (ord_cmp n) r = ((length (texts us), after chunk_ops point_utf16_dim (d_zero point_utf16_dim) us), Some c)"
    "length (texts us) \<le> n" "n - length (texts us) \<le> length (ck_text c)"
    using find_len [OF r True point_utf16_seek.seek_laws_axioms] by metis
  note cut = rope_cut [OF r f(1)]
  note k = boundary_in_chunk [OF cut(4,5) b [unfolded cut(1)] f(3,4)]
  have "chunk_offset_to_point_utf16 (n - length (texts us)) c = point_utf16_of (take (n - length (texts us)) (ck_text c))"
    using chunk_offset_to_point_utf16_ok [OF cut(4,6) k(1)] by (simp add: cut(7) point_utf16_of_def)
  then show ?thesis
    using True f(2,3) rope_summary_ok [OF r] after_positions(4) [OF cut(2)] k(2) cut(3)
    by (simp add: rope_offset_to_point_utf16_def sub_usize_def map_or_def point_utf16_of_append cut(1) flip: cut(1))
next
  case False
  then show ?thesis
    using rope_summary_ok [OF r] by (simp add: rope_offset_to_point_utf16_def point_utf16_of_def)
qed

text \<open>
  A position that grows with every character. A seek to the position of a boundary finds the chunk of
  that boundary, by \<open>find\<close> and by a cursor alike.
\<close>

locale strict_position = text_position M less for M :: "('d, text_summary) dim_ops" and less +
  assumes less_add: "utf8 t \<Longrightarrow> t \<noteq> [] \<Longrightarrow> less p (d_add M p (text_summary_from t))"
    and less_asym: "less p q \<Longrightarrow> \<not> less q p"
    and d_add_from: "utf8 a \<Longrightarrow> d_add M (d_add M p (text_summary_from a)) (text_summary_from b) = d_add M p (text_summary_from (a @ b))"
begin

lemma at_strict:
  assumes "utf8 s" "str_is_char_boundary s i" "str_is_char_boundary s j" "i < j"
  shows "less (at (take i s)) (at (take j s))"
proof -
  have ij: "j \<le> length s" using boundary_le [OF assms(3)] .
  have b: "str_is_char_boundary (take j s) i" using boundary_take [OF assms(1-3)] assms(4) by simp
  define d where "d = drop i (take j s)"
  have d: "take j s = take i s @ d" unfolding d_def using append_take_drop_id [of i "take j s"] assms(4) by (simp add: min_absorb1 del: append_take_drop_id)
  have "utf8 d" "d \<noteq> []" unfolding d_def using utf8_drop [OF utf8_take [OF assms(1,3)] b] assms(4) ij by auto
  then show ?thesis
    unfolding at_def d d_add_from [OF utf8_take [OF assms(1,2)], symmetric] by (rule less_add)
qed

lemma boundary_cut:
  assumes r: "rope_ok r" "str_is_char_boundary (rope_text r) n" "n < length (rope_text r)" and N: "seek_laws chunk_ops N"
    and t: "targets target (at (take n (rope_text r))) (rope_text r)"
  obtains us c vs k where "to_list r = us @ c # vs" "n = length (texts us) + k" "str_is_char_boundary (ck_text c) k"
    "take n (rope_text r) = texts us @ take k (ck_text c)"
    "find_by M N target r = ((at (texts us), after chunk_ops N (d_zero N) us), Some c)"
    "seek_by M N target r = Some ((at (texts us), after chunk_ops N (d_zero N) us), Some c)"
    "less (at (take n (rope_text r))) (at (rope_text r))"
proof -
  let ?s = "rope_text r" and ?x = "at (take n (rope_text r))"
  have u: "utf8 ?s" using r(1) by (rule rope_text_utf8)
  have ne: "?s \<noteq> []" using r(3) by auto
  have less_end: "less ?x (at ?s)" using at_strict [OF u r(2) boundary_length r(3)] by simp
  then have le: "\<not> less (at ?s) ?x" by (rule less_asym)
  have z: "\<not> less ?x (d_zero M)" using not_less_add [of "d_zero M" "text_summary_from (take n ?s)"] by (simp add: at_def)
  have in_chunk: "\<exists>k. n = length (texts us) + k \<and> str_is_char_boundary (ck_text c) k \<and> take n ?s = texts us @ take k (ck_text c)"
    if f: "to_list r = us @ c # vs" "us \<noteq> [] \<Longrightarrow> less (at (texts us)) ?x" "\<not> less (at (texts us @ ck_text c)) ?x" for us c vs
  proof -
    note cut = rope_cut [OF r(1) f(1)]
    have bu: "str_is_char_boundary ?s (length (texts us))" "str_is_char_boundary ?s (length (texts us @ ck_text c))"
      using cut(3-5) boundary_prefix [of "texts us" "ck_text c @ texts vs"] boundary_prefix [of "texts us @ ck_text c" "texts vs"]
      by (simp_all add: cut(1))
    have tk: "take (length (texts us)) ?s = texts us" "take (length (texts us @ ck_text c)) ?s = texts us @ ck_text c" by (simp_all add: cut(1))
    have lo: "length (texts us) \<le> n"
    proof (rule ccontr)
      assume "\<not> length (texts us) \<le> n"
      then have "less ?x (at (texts us))" "us \<noteq> []" using at_strict [OF u r(2) bu(1)] tk(1) by auto
      then show False using f(2) less_asym by blast
    qed
    have hi: "n - length (texts us) \<le> length (ck_text c)"
      using f(3) at_strict [OF u bu(2) r(2), unfolded tk] by (cases "length (texts us @ ck_text c) < n") auto
    show ?thesis using boundary_in_chunk [OF cut(4,5) r(2) [unfolded cut(1)] lo hi] lo
      by (intro exI [of _ "n - length (texts us)"]) (simp add: cut(1))
  qed
  obtain us c vs where f: "to_list r = us @ c # vs"
    "find_by M N target r = ((at (texts us), after chunk_ops N (d_zero N) us), Some c)"
    "us \<noteq> [] \<Longrightarrow> less (at (texts us)) ?x" "\<not> less (at (texts us @ ck_text c)) ?x"
    using find_by_ok [OF r(1) ne N t le] by metis
  have "seek_by M N target r = Some (find_by M N target r)" by (rule seek_by_find [OF r(1) ne N t le z])
  then show thesis using in_chunk [OF f(1,3,4)] f(1,2) less_end that by metis
qed

end

interpretation utf16_strict: strict_position utf16_dim "(<)"
  by unfold_locales (simp_all add: utf16_dim_def len_utf16_from utf16_units_append neq0_conv [symmetric] del: neq0_conv)

interpretation point_strict: strict_position point_dim point_less
  by unfold_locales
    (auto simp: point_dim_def lines_from point_of_pos point_less_add_pos text_summary_from_append point_add_assoc
      dest: point_less_asym)

interpretation point_utf16_strict: strict_position point_utf16_dim point_less
  by unfold_locales
    (auto simp: point_utf16_dim_def point_utf16_of_pos point_less_add_pos point_utf16_of_append point_add_assoc
      simp flip: point_utf16_of_def dest: point_less_asym)

section \<open>Round trips at boundaries\<close>

lemma point_bounds:
  assumes "rope_ok r" "length (rope_text r) < 2 ^ 32"
  shows "pt_column (point_of (take n (rope_text r))) < 2 ^ 32" "pt_column (point_of (rope_text r)) < 2 ^ 32"
  using point_of_column [of "take n (rope_text r)"] point_of_column [of "rope_text r"] assms(2) by simp_all

lemma rope_offset_utf16_to_offset_ok:
  assumes r: "rope_ok r" and b: "str_is_char_boundary (rope_text r) n"
  shows "rope_offset_utf16_to_offset (utf16_units (take n (rope_text r))) r = Some n"
proof (cases "n < length (rope_text r)")
  case True
  let ?t = "utf16_units (take n (rope_text r))"
  obtain us c vs k where f: "to_list r = us @ c # vs" "n = length (texts us) + k" "str_is_char_boundary (ck_text c) k"
    "take n (rope_text r) = texts us @ take k (ck_text c)"
    "find_by utf16_dim len_dim (ord_cmp ?t) r = ((utf16_units (texts us), after chunk_ops len_dim (d_zero len_dim) us), Some c)"
    "?t < utf16_units (rope_text r)"
    using utf16_strict.boundary_cut [OF r b True len_seek.seek_laws_axioms, unfolded utf16_at, OF utf16_targets] by metis
  note cut = rope_cut [OF r f(1)]
  have t: "?t = utf16_units (texts us) + utf16_units (take k (ck_text c))"
    using cut(3) by (simp add: f(4) utf16_units_append)
  show ?thesis
    using f(2,5,6) rope_summary_ok [OF r] after_positions(1) [OF cut(2)] chunk_offset_utf16_to_offset_ok [OF cut(4,6) f(3)]
    by (simp add: rope_offset_utf16_to_offset_def sub_usize_def map_or_def len_utf16_from t [unfolded f(2)] cut(7))
next
  case False
  then have "n = length (rope_text r)" using boundary_le [OF b] by simp
  then show ?thesis
    using rope_summary_ok [OF r] by (simp add: rope_offset_utf16_to_offset_def len_utf16_from)
qed

lemma point_utf16_of_column: "utf8 t \<Longrightarrow> pt_column (point_utf16_of t) \<le> length t"
proof (induction t rule: utf8_induct)
  case (Char c t)
  have "utf16_units c \<le> length c"
    using Char.hyps(1) by (auto simp: utf16_units_def utf16_len_def utf8_char_def utf8_len_def word_less_nat_alt word_le_nat_alt)
  moreover have "pt_column (point_utf16_of c) \<le> utf16_units c"
  proof (cases "10 \<in> set c")
    case True
    then have "c = [10]" using utf8_char_newline [OF Char.hyps(1)] by blast
    then show ?thesis by (simp add: point_utf16_of_def lines_utf16_def newline_def flip: newline_from)
  qed (use Char.hyps in \<open>simp add: point_utf16_of_no_newline\<close>)
  ultimately show ?case using Char by (simp add: point_utf16_of_append)
qed (simp add: point_utf16_of_def lines_utf16_def)

lemma point_utf16_targets:
  assumes "utf8 s" "length s < 2 ^ 32" "pt_column p < 2 ^ 32"
  shows "point_utf16_pos.targets (point_cmp p) p s"
  unfolding point_utf16_pos.targets_def point_utf16_at
proof (intro allI impI)
  fix n assume n: "n \<le> length s" "utf8 (take n s)"
  have "pt_column (point_utf16_of (take n s)) < 2 ^ 32" using point_utf16_of_column [OF n(2)] assms n by simp
  then show "(point_cmp p (point_utf16_of (take n s)) = Greater) = point_less (point_utf16_of (take n s)) p \<and>
      (point_cmp p (point_utf16_of (take n s)) = Less) = point_less p (point_utf16_of (take n s))"
    using assms(3) by (simp add: point_cmp_iff)
qed

lemma point_cut:
  assumes r: "rope_ok r" "length (rope_text r) < 2 ^ 32" "str_is_char_boundary (rope_text r) n" "n < length (rope_text r)"
    and N: "seek_laws chunk_ops N"
  defines "p \<equiv> point_of (take n (rope_text r))"
  obtains us c vs k where "to_list r = us @ c # vs" "n = length (texts us) + k" "str_is_char_boundary (ck_text c) k"
    "take n (rope_text r) = texts us @ take k (ck_text c)"
    "find_by point_dim N (point_cmp p) r = ((point_of (texts us), after chunk_ops N (d_zero N) us), Some c)"
    "seek_by point_dim N (point_cmp p) r = Some ((point_of (texts us), after chunk_ops N (d_zero N) us), Some c)"
    "point_cmp p (ts_lines (rope_summary r)) = Less" "point_sub p (point_of (texts us)) = Some (point_of (take k (ck_text c)))"
proof -
  have u: "utf8 (rope_text r)" "utf8 (take n (rope_text r))" using rope_text_utf8 [OF r(1)] r(3) by auto
  have p: "p = point_pos.at (take n (rope_text r))" "pt_column p < 2 ^ 32" "pt_column (point_of (rope_text r)) < 2 ^ 32"
    using u(2) point_bounds [OF r(1,2)] by (simp_all add: p_def)
  from point_strict.boundary_cut [OF r(1,3,4) N, of "point_cmp p"] point_targets [OF p(2) r(2)] obtain us c vs k where
    f: "to_list r = us @ c # vs" "n = length (texts us) + k" "str_is_char_boundary (ck_text c) k"
    "take n (rope_text r) = texts us @ take k (ck_text c)"
    "find_by point_dim N (point_cmp p) r = ((point_pos.at (texts us), after chunk_ops N (d_zero N) us), Some c)"
    "seek_by point_dim N (point_cmp p) r = Some ((point_pos.at (texts us), after chunk_ops N (d_zero N) us), Some c)"
    "point_less p (point_pos.at (rope_text r))"
    unfolding p(1) [symmetric] by metis
  note cut = rope_cut [OF r(1) f(1)]
  have "point_sub p (point_of (texts us)) = Some (point_of (take k (ck_text c)))"
    by (simp add: p_def f(4) point_of_append)
  moreover have "point_cmp p (ts_lines (rope_summary r)) = Less"
    using f(7) u(1) p by (simp add: rope_summary_ok [OF r(1)] lines_from point_cmp_iff)
  ultimately show thesis using f cut(3) by (intro that) simp_all
qed

lemma point_utf16_cut:
  assumes r: "rope_ok r" "length (rope_text r) < 2 ^ 32" "str_is_char_boundary (rope_text r) n" "n < length (rope_text r)"
    and N: "seek_laws chunk_ops N"
  defines "p \<equiv> point_utf16_of (take n (rope_text r))"
  obtains us c vs k where "to_list r = us @ c # vs" "n = length (texts us) + k" "str_is_char_boundary (ck_text c) k"
    "take n (rope_text r) = texts us @ take k (ck_text c)"
    "find_by point_utf16_dim N (point_cmp p) r = ((point_utf16_of (texts us), after chunk_ops N (d_zero N) us), Some c)"
    "seek_by point_utf16_dim N (point_cmp p) r = Some ((point_utf16_of (texts us), after chunk_ops N (d_zero N) us), Some c)"
    "point_cmp p (lines_utf16 (rope_summary r)) = Less"
    "point_sub p (point_utf16_of (texts us)) = Some (point_utf16_of (take k (ck_text c)))"
proof -
  have u: "utf8 (rope_text r)" "utf8 (take n (rope_text r))" using rope_text_utf8 [OF r(1)] r(3) by auto
  have p: "pt_column p < 2 ^ 32" "pt_column (point_utf16_of (rope_text r)) < 2 ^ 32"
    using point_utf16_of_column [OF u(1)] point_utf16_of_column [OF u(2)] r(2) by (simp_all add: p_def)
  from point_utf16_strict.boundary_cut [OF r(1,3,4) N, of "point_cmp p", unfolded point_utf16_at] point_utf16_targets [OF u(1) r(2) p(1)]
  obtain us c vs k where
    f: "to_list r = us @ c # vs" "n = length (texts us) + k" "str_is_char_boundary (ck_text c) k"
    "take n (rope_text r) = texts us @ take k (ck_text c)"
    "find_by point_utf16_dim N (point_cmp p) r = ((point_utf16_of (texts us), after chunk_ops N (d_zero N) us), Some c)"
    "seek_by point_utf16_dim N (point_cmp p) r = Some ((point_utf16_of (texts us), after chunk_ops N (d_zero N) us), Some c)"
    "point_less p (point_utf16_of (rope_text r))"
    unfolding p_def by metis
  note cut = rope_cut [OF r(1) f(1)]
  have "point_sub p (point_utf16_of (texts us)) = Some (point_utf16_of (take k (ck_text c)))"
    using cut(3) by (simp add: p_def f(4) point_utf16_of_append)
  moreover have "point_cmp p (lines_utf16 (rope_summary r)) = Less"
    using f(7) p by (simp add: rope_summary_ok [OF r(1)] point_cmp_iff flip: point_utf16_of_def)
  ultimately show thesis using f by (intro that) simp_all
qed

lemma point_end:
  assumes r: "rope_ok r" "length (rope_text r) < 2 ^ 32" and n: "length (rope_text r) \<le> n"
  shows "ts_lines (rope_summary r) = point_of (take n (rope_text r))"
    "lines_utf16 (rope_summary r) = point_utf16_of (take n (rope_text r))"
    "ts_len_utf16 (rope_summary r) = utf16_units (take n (rope_text r))"
    "point_cmp p p \<noteq> Less"
  using n rope_summary_ok [OF r(1)] rope_text_utf8 [OF r(1)]
  by (simp_all add: lines_from point_utf16_of_def len_utf16_from point_cmp_def ord_cmp_def)

lemma rope_point_to_point_utf16_ok:
  assumes r: "rope_ok r" "length (rope_text r) < 2 ^ 32" and b: "str_is_char_boundary (rope_text r) n"
  shows "rope_point_to_point_utf16 (point_of (take n (rope_text r))) r = Some (point_utf16_of (take n (rope_text r)))"
proof (cases "n < length (rope_text r)")
  case True
  let ?p = "point_of (take n (rope_text r))"
  obtain us c vs k where f: "to_list r = us @ c # vs" "str_is_char_boundary (ck_text c) k" "take n (rope_text r) = texts us @ take k (ck_text c)"
    "find_by point_dim point_utf16_dim (point_cmp ?p) r =
      ((point_of (texts us), after chunk_ops point_utf16_dim (d_zero point_utf16_dim) us), Some c)"
    "point_cmp ?p (ts_lines (rope_summary r)) = Less" "point_sub ?p (point_of (texts us)) = Some (point_of (take k (ck_text c)))"
    using point_cut [OF r b True point_utf16_seek.seek_laws_axioms] by metis
  note cut = rope_cut [OF r(1) f(1)]
  have "chunk_point_to_offset (point_of (take k (ck_text c))) c = k"
    using chunk_point_to_offset_ok [OF cut(6)] offset_for_point [OF boundary_le [OF f(2)]] by (simp add: cut(7))
  then have "chunk_point_to_point_utf16 (point_of (take k (ck_text c))) c = point_utf16_of (take k (ck_text c))"
    using chunk_offset_to_point_utf16_ok [OF cut(4,6) f(2)] by (simp add: chunk_point_to_point_utf16_def point_utf16_of_def cut(7))
  then show ?thesis
    using f(4-6) after_positions(4) [OF cut(2)] point_utf16_of_append [OF cut(3)]
    by (simp add: rope_point_to_point_utf16_def map_or_def f(3))
qed (use point_end [OF r] in \<open>simp add: rope_point_to_point_utf16_def not_less\<close>)

lemma rope_point_to_offset_utf16_ok:
  assumes r: "rope_ok r" "length (rope_text r) < 2 ^ 32" and b: "str_is_char_boundary (rope_text r) n"
  shows "rope_point_to_offset_utf16 (point_of (take n (rope_text r))) r = Some (utf16_units (take n (rope_text r)))"
proof (cases "n < length (rope_text r)")
  case True
  let ?p = "point_of (take n (rope_text r))"
  obtain us c vs k where f: "to_list r = us @ c # vs" "str_is_char_boundary (ck_text c) k" "take n (rope_text r) = texts us @ take k (ck_text c)"
    "seek_by point_dim utf16_dim (point_cmp ?p) r = Some ((point_of (texts us), after chunk_ops utf16_dim (d_zero utf16_dim) us), Some c)"
    "point_cmp ?p (ts_lines (rope_summary r)) = Less" "point_sub ?p (point_of (texts us)) = Some (point_of (take k (ck_text c)))"
    using point_cut [OF r b True utf16_seek.seek_laws_axioms] by metis
  note cut = rope_cut [OF r(1) f(1)]
  have "chunk_point_to_offset (point_of (take k (ck_text c))) c = k"
    using chunk_point_to_offset_ok [OF cut(6)] offset_for_point [OF boundary_le [OF f(2)]] by (simp add: cut(7))
  moreover have "\<not> pt_row (chunk_lines c) < pt_row (point_of (take k (ck_text c)))"
    using point_of_take_mono [of k "length (ck_text c)" "ck_text c"] boundary_le [OF f(2)] chunk_lines_ok [OF cut(6)]
    by (auto simp: cut(7) point_less_def)
  ultimately have "chunk_point_to_offset_utf16 (point_of (take k (ck_text c))) c = utf16_units (take k (ck_text c))"
    using chunk_offset_to_offset_utf16_ok [OF cut(4,6) f(2)] by (simp add: chunk_point_to_offset_utf16_def cut(7))
  then show ?thesis
    using f(4-6) after_positions(2) [OF cut(2)] utf16_units_append [OF cut(3)]
    by (simp add: rope_point_to_offset_utf16_def map_or_def f(3))
qed (use point_end [OF r] in \<open>simp add: rope_point_to_offset_utf16_def not_less\<close>)

text \<open>From a point in UTF-16, by the offset in the chunk that it stands for.\<close>

lemma point_utf16_in_chunk:
  assumes r: "rope_ok r" "length (rope_text r) < 2 ^ 32" "str_is_char_boundary (rope_text r) n" "n < length (rope_text r)"
    and N: "seek_laws chunk_ops N"
  defines "p \<equiv> point_utf16_of (take n (rope_text r))"
  obtains us c t where "\<forall>c \<in> set us. good_chunk c" "utf8 (texts us)" "take n (rope_text r) = texts us @ t"
    "chunk_point_utf16_to_offset (point_utf16_of t) c = Some (length t)"
    "chunk_offset_to_offset_utf16 (length t) c = utf16_units t" "chunk_offset_to_point (length t) c = point_of t"
    "chunk_unclipped_point_utf16_to_point (point_utf16_of t) c = Some (point_of t)"
    "find_by point_utf16_dim N (point_cmp p) r = ((point_utf16_of (texts us), after chunk_ops N (d_zero N) us), Some c)"
    "seek_by point_utf16_dim N (point_cmp p) r = Some ((point_utf16_of (texts us), after chunk_ops N (d_zero N) us), Some c)"
    "point_cmp p (lines_utf16 (rope_summary r)) = Less" "point_sub p (point_utf16_of (texts us)) = Some (point_utf16_of t)"
proof -
  obtain us c vs k where f: "to_list r = us @ c # vs" "n = length (texts us) + k" "str_is_char_boundary (ck_text c) k"
    "take n (rope_text r) = texts us @ take k (ck_text c)"
    "find_by point_utf16_dim N (point_cmp p) r = ((point_utf16_of (texts us), after chunk_ops N (d_zero N) us), Some c)"
    "seek_by point_utf16_dim N (point_cmp p) r = Some ((point_utf16_of (texts us), after chunk_ops N (d_zero N) us), Some c)"
    "point_cmp p (lines_utf16 (rope_summary r)) = Less"
    "point_sub p (point_utf16_of (texts us)) = Some (point_utf16_of (take k (ck_text c)))"
    unfolding p_def using point_utf16_cut [OF r N] by metis
  note cut = rope_cut [OF r(1) f(1)]
  have "length (take k (ck_text c)) = k" using boundary_le [OF f(3)] by simp
  then show thesis
    using f cut(2,3) boundary_le [OF f(3)] chunk_point_utf16_to_offset_ok [OF cut(4,6) f(3)]
      chunk_offset_to_offset_utf16_ok [OF cut(4,6) f(3)] chunk_offset_to_point_ok [OF cut(6), of k]
      chunk_unclipped_point_utf16_to_point_ok [OF cut(4,6) f(3)]
    by (intro that [of us "take k (ck_text c)" c]) (simp_all only: cut(7))
qed

lemma rope_point_utf16_to_offset_ok:
  assumes r: "rope_ok r" "length (rope_text r) < 2 ^ 32" and b: "str_is_char_boundary (rope_text r) n"
  shows "rope_point_utf16_to_offset (point_utf16_of (take n (rope_text r))) r = Some n"
proof (cases "n < length (rope_text r)")
  case True
  from point_utf16_in_chunk [OF r b True len_seek.seek_laws_axioms] obtain us c t where
    f: "\<forall>c \<in> set us. good_chunk c" "take n (rope_text r) = texts us @ t"
    "chunk_point_utf16_to_offset (point_utf16_of t) c = Some (length t)"
    "find_by point_utf16_dim len_dim (point_cmp (point_utf16_of (take n (rope_text r)))) r =
      ((point_utf16_of (texts us), after chunk_ops len_dim (d_zero len_dim) us), Some c)"
    "point_cmp (point_utf16_of (take n (rope_text r))) (lines_utf16 (rope_summary r)) = Less"
    "point_sub (point_utf16_of (take n (rope_text r))) (point_utf16_of (texts us)) = Some (point_utf16_of t)" by metis
  have "length (texts us) + length t = n" using arg_cong [OF f(2), of length] True by simp
  then show ?thesis using f(3-6) after_positions(1) [OF f(1)] by (simp add: rope_point_utf16_to_offset_def map_or_def)
next
  case False
  then have "n = length (rope_text r)" using boundary_le [OF b] by simp
  then show ?thesis using point_end [OF r, of n] rope_summary_ok [OF r(1)] by (simp add: rope_point_utf16_to_offset_def)
qed

lemma rope_point_utf16_to_offset_utf16_ok:
  assumes r: "rope_ok r" "length (rope_text r) < 2 ^ 32" and b: "str_is_char_boundary (rope_text r) n"
  shows "rope_point_utf16_to_offset_utf16 (point_utf16_of (take n (rope_text r))) r = Some (utf16_units (take n (rope_text r)))"
proof (cases "n < length (rope_text r)")
  case True
  from point_utf16_in_chunk [OF r b True utf16_seek.seek_laws_axioms] obtain us c t where
    f: "\<forall>c \<in> set us. good_chunk c" "utf8 (texts us)" "take n (rope_text r) = texts us @ t"
    "chunk_point_utf16_to_offset (point_utf16_of t) c = Some (length t)" "chunk_offset_to_offset_utf16 (length t) c = utf16_units t"
    "seek_by point_utf16_dim utf16_dim (point_cmp (point_utf16_of (take n (rope_text r)))) r =
      Some ((point_utf16_of (texts us), after chunk_ops utf16_dim (d_zero utf16_dim) us), Some c)"
    "point_cmp (point_utf16_of (take n (rope_text r))) (lines_utf16 (rope_summary r)) = Less"
    "point_sub (point_utf16_of (take n (rope_text r))) (point_utf16_of (texts us)) = Some (point_utf16_of t)" by metis
  then show ?thesis using after_positions(2) [OF f(1)]
    by (simp add: rope_point_utf16_to_offset_utf16_def map_or_def utf16_units_append)
qed (use point_end [OF r] in \<open>simp add: rope_point_utf16_to_offset_utf16_def not_less\<close>)

lemma rope_point_utf16_to_point_ok:
  assumes r: "rope_ok r" "length (rope_text r) < 2 ^ 32" and b: "str_is_char_boundary (rope_text r) n"
  defines "p \<equiv> point_utf16_of (take n (rope_text r))"
  shows "rope_point_utf16_to_point p r = Some (point_of (take n (rope_text r)))"
    "rope_unclipped_point_utf16_to_point p r = Some (point_of (take n (rope_text r)))"
proof -
  have "rope_point_utf16_to_point p r = Some (point_of (take n (rope_text r))) \<and>
    rope_unclipped_point_utf16_to_point p r = Some (point_of (take n (rope_text r)))"
  proof (cases "n < length (rope_text r)")
    case True
    from point_utf16_in_chunk [OF r b True point_seek.seek_laws_axioms] obtain us c t where
      f: "\<forall>c \<in> set us. good_chunk c" "take n (rope_text r) = texts us @ t"
      "chunk_point_utf16_to_offset (point_utf16_of t) c = Some (length t)" "chunk_offset_to_point (length t) c = point_of t"
      "chunk_unclipped_point_utf16_to_point (point_utf16_of t) c = Some (point_of t)"
      "find_by point_utf16_dim point_dim (point_cmp p) r =
        ((point_utf16_of (texts us), after chunk_ops point_dim (d_zero point_dim) us), Some c)"
      "seek_by point_utf16_dim point_dim (point_cmp p) r =
        Some ((point_utf16_of (texts us), after chunk_ops point_dim (d_zero point_dim) us), Some c)"
      "point_cmp p (lines_utf16 (rope_summary r)) = Less"
      "point_sub p (point_utf16_of (texts us)) = Some (point_utf16_of t)" unfolding p_def by metis
    then show ?thesis using after_positions(3) [OF f(1)]
      by (simp add: rope_point_utf16_to_point_def rope_unclipped_point_utf16_to_point_def map_or_def point_of_append)
  qed (use point_end [OF r] in \<open>simp add: rope_point_utf16_to_point_def rope_unclipped_point_utf16_to_point_def p_def not_less\<close>)
  then show "rope_point_utf16_to_point p r = Some (point_of (take n (rope_text r)))"
    "rope_unclipped_point_utf16_to_point p r = Some (point_of (take n (rope_text r)))" by auto
qed

end
