(* ===== verification/ChunkClip.thy ===== *)
theory ChunkClip
  imports ChunkPoints
begin

text \<open>
  Clipping in a chunk: a position that lies within a character, or beyond a line or the text, is
  moved to a boundary. Of the grapheme boundaries nothing is assumed but that a text starts and ends
  at one.
\<close>

definition grapheme_ends :: "(bytes \<Rightarrow> nat \<Rightarrow> bool) \<Rightarrow> bool" where
  "grapheme_ends is_grapheme_boundary \<longleftrightarrow>
     (\<forall>s. s \<noteq> [] \<longrightarrow> is_grapheme_boundary s 0 \<and> is_grapheme_boundary s (length s))"

text \<open>A loop that moves to the left stops at 0 at the latest, one to the right at the end of the text.\<close>

lemma move_to_grapheme_ok:
  assumes s: "utf8 s" "length s \<le> 128" "s \<noteq> []" and g: "grapheme_ends g" and n: "n \<le> length s"
  shows "\<exists>m \<le> length s. move_to_grapheme g b (chunk_of s) n = Some m \<and> str_is_char_boundary s m \<and>
    (if b = Left then m \<le> n else n \<le> m)"
proof (cases b)
  case Left
  show ?thesis using n
  proof (induction n)
    case 0
    then show ?case using g s Left by (subst move_to_grapheme.simps) (simp add: chunk_boundary_ok grapheme_ends_def)
  next
    case (Suc n)
    then show ?case using s Left
      by (subst move_to_grapheme.simps) (fastforce simp: chunk_boundary_ok sub_usize_def)
  qed
next
  case Right
  have "\<exists>m \<le> length s. move_to_grapheme g b (chunk_of s) (length s - k) = Some m \<and> str_is_char_boundary s m \<and> length s - k \<le> m"
    if "k \<le> length s" for k
    using that
  proof (induction k)
    case 0
    then show ?case using g s by (subst move_to_grapheme.simps) (simp add: chunk_boundary_ok grapheme_ends_def)
  next
    case (Suc k)
    then have "length s - Suc k + 1 = length s - k" by simp
    with Suc show ?case using s Right
      by (subst move_to_grapheme.simps) (fastforce simp: chunk_boundary_ok)
  qed
  from this [of "length s - n"] n Right show ?thesis by simp
qed

lemma move_to_boundary_ok:
  assumes "n \<le> length s"
  shows "\<exists>m \<le> length s. move_to_boundary b s n = Some m \<and> str_is_char_boundary s m \<and>
    (if b = Left then m \<le> n else n \<le> m)"
proof (cases b)
  case Left
  show ?thesis using assms
  proof (induction n)
    case 0
    then show ?case using Left by (subst move_to_boundary.simps) simp
  next
    case (Suc n)
    then show ?case using Left by (subst move_to_boundary.simps) (fastforce simp: sub_usize_def)
  qed
next
  case Right
  have "\<exists>m \<le> length s. move_to_boundary b s (length s - k) = Some m \<and> str_is_char_boundary s m \<and> length s - k \<le> m"
    if "k \<le> length s" for k
    using that
  proof (induction k)
    case 0
    then show ?case by (subst move_to_boundary.simps) simp
  next
    case (Suc k)
    then have "length s - Suc k + 1 = length s - k" by simp
    with Suc show ?case using Right by (subst move_to_boundary.simps) fastforce
  qed
  from this [of "length s - n"] assms Right show ?thesis by simp
qed

lemma chunk_clip_point_ok:
  assumes s: "utf8 s" "length s \<le> 128" and g: "grapheme_ends g"
  shows "\<exists>m. str_is_char_boundary s m \<and> chunk_clip_point g p b (chunk_of s) = Some (point_of (take m s))"
proof (cases "pt_row p > pt_row (point_of s)")
  case True
  then show ?thesis using s by (intro exI [of _ "length s"]) (simp add: chunk_clip_point_def chunk_lines_ok Let_def)
next
  case False
  then have row: "pt_row p \<le> pt_row (point_of s)" by simp
  from row_bounds [OF s row] obtain i j where r: "offset_range_for_row (pt_row p) (chunk_of s) = (i, j)" "i \<le> j" "j \<le> length s"
    "point_of (take i s) = point_new (pt_row p) 0" "str_is_char_boundary s i" "str_is_char_boundary s j"
    "chunk_slice i j (chunk_of s) = Some (chunk_of (take (j - i) (drop i s)))"
    "utf8 (take (j - i) (drop i s))" "10 \<notin> set (take (j - i) (drop i s))" by metis
  define l where "l = take (j - i) (drop i s)"
  have l: "utf8 l" "length l = j - i" "length l \<le> 128" using r(2,3,8) s(2) by (simp_all add: l_def)
  have col: "\<exists>m. str_is_char_boundary s m \<and> point_new (pt_row p) k = point_of (take m s)" if "str_is_char_boundary l k" for k
    using line_boundary [OF s(1) r(5,6,2), of k] point_in_row [OF r(4,9,2,3), of k] that boundary_le [OF that] l(2)
    by (intro exI [of _ "i + k"]) (simp add: l_def)
  have eval: "chunk_clip_point g p b (chunk_of s) =
      (if pt_column p = 0 then Some p
       else if pt_column p \<ge> length l then Some (point_new (pt_row p) (length l))
       else if l ! (pt_column p - 1) < 128 \<and> l ! pt_column p < 128 then Some p
       else map_option (point_new (pt_row p)) (move_to_grapheme g b (chunk_of l) (pt_column p)))"
    using False s(2) by (simp add: chunk_clip_point_def chunk_lines_ok Let_def r(1,7) flip: l_def)
  consider "pt_column p = 0" | "pt_column p \<ge> length l" "pt_column p \<noteq> 0"
    | "pt_column p < length l" "pt_column p \<noteq> 0" "l ! (pt_column p - 1) < 128 \<and> l ! pt_column p < 128"
    | "pt_column p < length l" "pt_column p \<noteq> 0" "\<not> (l ! (pt_column p - 1) < 128 \<and> l ! pt_column p < 128)" by linarith
  then show ?thesis
  proof cases
    case 1
    then have "p = point_new (pt_row p) 0" by (simp add: point_eq_iff)
    then obtain m where "str_is_char_boundary s m" "p = point_of (take m s)" using col [OF boundary_0] by metis
    moreover have "chunk_clip_point g p b (chunk_of s) = Some p" using 1 by (simp add: eval)
    ultimately show ?thesis by metis
  next
    case 2
    then show ?thesis using col [of "length l"] by (auto simp: eval)
  next
    case 3
    then have "str_is_char_boundary l (pt_column p)" by (simp add: boundary_iff l(1) is_char_start_def)
    from col [OF this] 3 show ?thesis by (auto simp: eval)
  next
    case 4
    then have "l \<noteq> []" by auto
    with 4 obtain m where "move_to_grapheme g b (chunk_of l) (pt_column p) = Some m" "str_is_char_boundary l m"
      using move_to_grapheme_ok [OF l(1,3) _ g, of "pt_column p" b] by auto
    with col [of m] 4 show ?thesis by (auto simp: eval)
  qed
qed

lemma chunk_offset_utf16_to_offset_le:
  assumes "utf8 s" "length s \<le> 128" "target \<le> utf16_units s"
  shows "chunk_offset_utf16_to_offset target (chunk_of s) \<le> length s"
proof (cases "target = 0")
  case False
  let ?w = "of_bits (u16_flags s) :: 128 word"
  have "target \<le> count_ones ?w" using count_units [OF assms(1)] assms(2,3) by (simp add: count_of_bits)
  from nth_set_bit_ok [OF _ this] False have "bit ?w (nth_set_bit ?w target)" by simp
  then have "nth_set_bit ?w target < length s" by (simp add: bit_of_bits)
  then show ?thesis using False by (auto simp: chunk_offset_utf16_to_offset_def Let_def)
qed (simp add: chunk_offset_utf16_to_offset_def)

lemma chunk_clip_offset_utf16_ok:
  assumes s: "utf8 s" "length s \<le> 128"
  shows "\<exists>m. str_is_char_boundary s m \<and> chunk_clip_offset_utf16 target b (chunk_of s) = Some (utf16_units (take m s))"
proof -
  consider "target = 0" | "target \<noteq> 0" "target \<ge> utf16_units s" | "target \<noteq> 0" "target < utf16_units s" by linarith
  then show ?thesis
  proof cases
    case 1
    then show ?thesis by (intro exI [of _ 0]) (simp add: chunk_clip_offset_utf16_def utf16_units_def)
  next
    case 2
    then show ?thesis using s by (intro exI [of _ "length s"]) (simp add: chunk_clip_offset_utf16_def chunk_len_utf16_ok)
  next
    case 3
    then obtain m where "move_to_boundary b s (chunk_offset_utf16_to_offset target (chunk_of s)) = Some m" "str_is_char_boundary s m"
      using move_to_boundary_ok [OF chunk_offset_utf16_to_offset_le [OF s, of target], of b] by auto
    then show ?thesis using 3 s chunk_offset_to_offset_utf16_ok [OF s, of m]
      by (intro exI [of _ m]) (simp add: chunk_clip_offset_utf16_def chunk_len_utf16_ok)
  qed
qed

lemma chunk_clip_point_utf16_ok:
  assumes s: "utf8 s" "length s \<le> 128"
  shows "\<exists>m. str_is_char_boundary s m \<and> chunk_clip_point_utf16 p b (chunk_of s) = Some (point_utf16_of (take m s))"
proof (cases "pt_row p > pt_row (point_of s)")
  case True
  then show ?thesis using s last_line_ok(2) [OF s]
    by (intro exI [of _ "length s"])
       (simp add: chunk_clip_point_utf16_def chunk_lines_ok Let_def point_utf16_of_def lines_utf16_def lines_from)
next
  case False
  then have row: "pt_row p \<le> pt_row (point_of s)" by simp
  from row_bounds [OF s row] obtain i j where r: "offset_range_for_row (pt_row p) (chunk_of s) = (i, j)" "i \<le> j" "j \<le> length s"
    "point_utf16_of (take i s) = point_new (pt_row p) 0" "str_is_char_boundary s i" "str_is_char_boundary s j"
    "chunk_slice i j (chunk_of s) = Some (chunk_of (take (j - i) (drop i s)))"
    "utf8 (take (j - i) (drop i s))" "10 \<notin> set (take (j - i) (drop i s))" by metis
  define l where "l = take (j - i) (drop i s)"
  have l: "utf8 l" "length l = j - i" "length l \<le> 128" "10 \<notin> set l" using r(2,3,8,9) s(2) by (simp_all add: l_def)
  obtain k where k: "str_is_char_boundary l k" "chunk_clip_offset_utf16 (pt_column p) b (chunk_of l) = Some (utf16_units (take k l))"
    using chunk_clip_offset_utf16_ok [OF l(1,3)] by blast
  have t: "utf8 (take k l)" "10 \<notin> set (take k l)" using utf8_take [OF l(1) k(1)] l(4) set_take_subset [of k l] by auto
  have kl: "k \<le> j - i" using boundary_le [OF k(1)] l(2) by simp
  then have "take (i + k) s = take i s @ take k l" by (simp add: l_def take_add min_absorb1)
  then have "point_utf16_of (take (i + k) s) = point_new (pt_row p) (utf16_units (take k l))"
    using r(4) utf8_take [OF s(1) r(5)] t by (simp add: point_utf16_of_append point_utf16_of_no_newline point_eq_iff)
  moreover have "str_is_char_boundary s (i + k)" using line_boundary [OF s(1) r(5,6,2) kl] k(1) by (simp add: l_def)
  moreover have "chunk_clip_point_utf16 p b (chunk_of s) = Some (point_new (pt_row p) (utf16_units (take k l)))"
    using False s(2) k(2) by (simp add: chunk_clip_point_utf16_def chunk_lines_ok Let_def r(1,7) flip: l_def)
  ultimately show ?thesis by (intro exI [of _ "i + k"]) simp
qed

end
