(* ===== verification/RopeClip.thy ===== *)
theory RopeClip
  imports RopePoints ChunkClip
begin

text \<open>
  The boundaries of a rope are those of its text, and clipping moves every position, in whatever
  coordinates, to a boundary: no clip panics or runs forever.
\<close>

section \<open>Boundaries\<close>

lemma find_offset:
  assumes r: "rope_ok r" "n \<le> length (rope_text r)" "rope_text r \<noteq> []"
  obtains us c vs e where "to_list r = us @ c # vs" "tree_find chunk_ops len_dim (ord_cmp n) Left r = (length (texts us), e, Some c)"
    "length (texts us) \<le> n" "n - length (texts us) \<le> length (ck_text c)"
proof -
  obtain us c vs where f: "to_list r = us @ c # vs"
    "tree_find chunk_ops len_dim (ord_cmp n) Left r =
      (after chunk_ops len_dim (d_zero len_dim) us, after chunk_ops len_dim (d_zero len_dim) (us @ [c]), Some c)"
    "us \<noteq> [] \<Longrightarrow> length (texts us) < n" "\<not> length (texts us @ ck_text c) < n"
    using len_pos.find_left [OF r(1,3) len_seek.seek_laws_axioms len_targets, of n "ord_cmp n"] r(2) by auto
  have "\<forall>c \<in> set us. good_chunk c" using r(1) f(1) by (simp add: rope_ok_def)
  with f show thesis using after_positions(1) [of us] by (intro that) (cases "us = []"; auto)+
qed

lemma boundary_split:
  assumes "utf8 c" "utf8 b" "length a \<le> n" "n - length a \<le> length c"
  shows "str_is_char_boundary (a @ c @ b) n \<longleftrightarrow> str_is_char_boundary c (n - length a)"
proof -
  have "str_is_char_boundary (a @ c @ b) n \<longleftrightarrow> str_is_char_boundary (c @ b) (n - length a)"
    using assms boundary_append [of "c @ b" a n] by (cases "n = length a") simp_all
  then show ?thesis using assms boundary_append [of b c "n - length a"] by simp
qed

lemma rope_is_char_boundary_ok:
  assumes r: "rope_ok r"
  shows "rope_is_char_boundary n r = Some (str_is_char_boundary (rope_text r) n)"
proof (cases "rope_text r = []")
  case True
  then have "is_empty r" using rope_empty_iff [OF r] r wf_tree_empty_iff by (auto simp: rope_ok_def)
  then show ?thesis using True by (simp add: rope_is_char_boundary_def str_is_char_boundary_def)
next
  case ne: False
  then have e: "\<not> is_empty r" using rope_empty_iff [OF r] r wf_tree_empty_iff by (auto simp: rope_ok_def)
  show ?thesis
  proof (cases "n \<le> length (rope_text r)")
    case True
    obtain us c vs e where f: "to_list r = us @ c # vs" "tree_find chunk_ops len_dim (ord_cmp n) Left r = (length (texts us), e, Some c)"
      "length (texts us) \<le> n" "n - length (texts us) \<le> length (ck_text c)"
      using find_offset [OF r True ne] by metis
    note cut = rope_cut [OF r f(1)]
    show ?thesis
      using e f(2,3) chunk_boundary_ok [OF cut(4,6)] boundary_split [OF cut(4,5) f(3,4)]
      by (simp add: rope_is_char_boundary_def sub_usize_def cut(1,7))
  next
    case False
    then show ?thesis
      using e len_pos.find_none [OF r len_targets, of Left n] boundary_le [of "rope_text r" n]
      by (auto simp: rope_is_char_boundary_def sub_usize_def len_pos.before_def)
  qed
qed

lemma rope_assert_char_boundary_ok:
  assumes r: "rope_ok r"
  shows "rope_assert_char_boundary PANIC n r =
    (if str_is_char_boundary (rope_text r) n then Some True else if PANIC then None else Some False)"
proof (cases "rope_text r = [] \<and> n = 0")
  case True
  then have "is_empty r" using rope_empty_iff [OF r] r wf_tree_empty_iff by (auto simp: rope_ok_def)
  then show ?thesis using True by (simp add: rope_assert_char_boundary_def)
next
  case ne: False
  then have e: "\<not> (is_empty r \<and> n = 0)" using rope_empty_iff [OF r] r wf_tree_empty_iff by (auto simp: rope_ok_def)
  show ?thesis
  proof (cases "n \<le> length (rope_text r)")
    case True
    then have "rope_text r \<noteq> []" using ne by auto
    then obtain us c vs e' where f: "to_list r = us @ c # vs"
      "tree_find chunk_ops len_dim (ord_cmp n) Left r = (length (texts us), e', Some c)"
      "length (texts us) \<le> n" "n - length (texts us) \<le> length (ck_text c)"
      using find_offset [OF r True] by metis
    note cut = rope_cut [OF r f(1)]
    show ?thesis
      using e f(2,3) chunk_boundary_ok [OF cut(4,6)] boundary_split [OF cut(4,5) f(3,4)]
      by (auto simp: rope_assert_char_boundary_def sub_usize_def cut(1,7))
  next
    case False
    then show ?thesis
      using e len_pos.find_none [OF r len_targets, of Left n] boundary_le [of "rope_text r" n]
      by (auto simp: rope_assert_char_boundary_def len_pos.before_def)
  qed
qed

text \<open>The boundary at or before an offset, and the one at or after it.\<close>

lemma floor_from_eqI: "m \<le> i \<Longrightarrow> m = 0 \<or> is_char_start (s ! m) \<Longrightarrow> \<forall>j. m < j \<and> j \<le> i \<longrightarrow> \<not> is_char_start (s ! j) \<Longrightarrow> floor_from s i = m"
  by (induction i) (auto simp: le_Suc_eq)

lemma floor_from_start: "floor_from s i = 0 \<or> is_char_start (s ! floor_from s i)"
  by (induction i) auto

lemma floor_from_greatest: "floor_from s i < j \<Longrightarrow> j \<le> i \<Longrightarrow> \<not> is_char_start (s ! j)"
  by (induction i) (auto simp: le_Suc_eq split: if_splits)

lemma floor_split:
  assumes u: "utf8 c" "utf8 b" "c \<noteq> []" and n: "length a \<le> n" "n - length a \<le> length c" "n < length (a @ c @ b)"
  shows "floor_char_boundary (a @ c @ b) n = length a + floor_char_boundary c (n - length a)"
proof (cases "n - length a = length c")
  case True
  then obtain x b' where "b = x # b'" "n = length a + length c" using n by (cases b) auto
  then have "b \<noteq> []" "(a @ c @ b) ! n = hd b" by (auto simp: nth_append)
  then have "floor_from (a @ c @ b) n = n" using utf8_hd [OF u(2)] by (intro floor_from_eqI) auto
  then show ?thesis using True n by (simp add: floor_char_boundary_def)
next
  case False
  let ?k = "n - length a"
  have "floor_from (a @ c @ b) n = length a + floor_from c ?k"
  proof (rule floor_from_eqI)
    show "length a + floor_from c ?k \<le> n" using floor_from_le [of c ?k] n by simp
    have "floor_from c ?k < length c" using floor_from_le [of c ?k] n(2) False by simp
    moreover have "is_char_start (c ! floor_from c ?k)"
      using floor_from_start [of c ?k] utf8_hd [OF u(1,3)] u(3) by (auto simp: hd_conv_nth)
    ultimately show "length a + floor_from c ?k = 0 \<or> is_char_start ((a @ c @ b) ! (length a + floor_from c ?k))" by (simp add: nth_append)
    show "\<forall>j. length a + floor_from c ?k < j \<and> j \<le> n \<longrightarrow> \<not> is_char_start ((a @ c @ b) ! j)"
    proof (intro allI impI)
      fix j assume j: "length a + floor_from c ?k < j \<and> j \<le> n"
      then have "\<not> is_char_start (c ! (j - length a))" by (intro floor_from_greatest [of c ?k]) auto
      moreover have "j - length a < length c" using j n(2) False by linarith
      ultimately show "\<not> is_char_start ((a @ c @ b) ! j)" using j by (simp add: nth_append)
    qed
  qed
  then show ?thesis using False n by (simp add: floor_char_boundary_def)
qed

lemma ceil_split:
  assumes u: "utf8 b" and n: "length a \<le> n" "n - length a \<le> length c"
  shows "ceil_char_boundary (a @ c @ b) n = length a + ceil_char_boundary c (n - length a)"
proof -
  have b: "takeWhile (\<lambda>x. \<not> is_char_start x) b = []" using utf8_hd [OF u] by (cases b) auto
  have "length (takeWhile (\<lambda>x. \<not> is_char_start x) (t @ b)) = length (takeWhile (\<lambda>x. \<not> is_char_start x) t)" for t
    using b by (induction t) auto
  moreover have "n < length (a @ c @ b) \<or> n = length (a @ c @ b) \<and> b = []" "n = length a + (n - length a)" using n by (cases b; auto)+
  ultimately show ?thesis using n
    by (cases "n - length a < length c") (auto simp: ceil_char_boundary_def b)
qed

lemma rope_floor_char_boundary_ok:
  assumes r: "rope_ok r"
  shows "rope_floor_char_boundary n r = Some (floor_char_boundary (rope_text r) n)"
proof (cases "n < length (rope_text r)")
  case True
  then have ne: "rope_text r \<noteq> []" by auto
  obtain us c vs e where f: "to_list r = us @ c # vs" "tree_find chunk_ops len_dim (ord_cmp n) Left r = (length (texts us), e, Some c)"
    "length (texts us) \<le> n" "n - length (texts us) \<le> length (ck_text c)"
    using find_offset [OF r less_imp_le [OF True] ne] by metis
  note cut = rope_cut [OF r f(1)]
  show ?thesis using r True f(2,3) floor_split [OF cut(4,5,8) f(3,4)]
    by (simp add: rope_floor_char_boundary_def sub_usize_def flip: cut(1))
qed (use r in \<open>simp add: rope_floor_char_boundary_def floor_char_boundary_def\<close>)

lemma rope_ceil_char_boundary_ok:
  assumes r: "rope_ok r"
  shows "rope_ceil_char_boundary n r = Some (ceil_char_boundary (rope_text r) n)"
proof -
  consider "n \<le> length (rope_text r)" "rope_text r \<noteq> []" | "n > length (rope_text r)" | "rope_text r = []" "n = 0" by fastforce
  then show ?thesis
  proof cases
    case 1
    obtain us c vs e where f: "to_list r = us @ c # vs" "tree_find chunk_ops len_dim (ord_cmp n) Left r = (length (texts us), e, Some c)"
      "length (texts us) \<le> n" "n - length (texts us) \<le> length (ck_text c)"
      using find_offset [OF r 1] by metis
    note cut = rope_cut [OF r f(1)]
    show ?thesis using r 1 f(2,3) ceil_split [OF cut(5) f(3,4)]
      by (simp add: rope_ceil_char_boundary_def sub_usize_def flip: cut(1))
  next
    case 2
    then show ?thesis using r by (simp add: rope_ceil_char_boundary_def ceil_char_boundary_def)
  next
    case 3
    then have "to_list r = []" using rope_empty_iff [OF r] by simp
    then have "r = tree_new chunk_ops" using r wf_node_nonempty by (auto simp: rope_ok_def wf_tree_def tree_new_def)
    then show ?thesis using 3
      by (simp add: rope_ceil_char_boundary_def ceil_char_boundary_def rope_len_def extent_def tree_new_def len_dim_def
        tree_find_def find_gen_def Let_def passes_def ord_cmp_def sub_usize_def)
  qed
qed

section \<open>Clipping\<close>

lemma rope_clip_offset_utf16_ok:
  assumes r: "rope_ok r"
  shows "\<exists>m. str_is_char_boundary (rope_text r) m \<and> rope_clip_offset_utf16 target b r = Some (utf16_units (take m (rope_text r)))"
proof (cases "target < utf16_units (rope_text r)")
  case True
  then have ne: "rope_text r \<noteq> []" by (auto simp: utf16_units_def)
  obtain us c vs where f: "to_list r = us @ c # vs"
    "tree_find chunk_ops utf16_dim (ord_cmp target) Right r = (utf16_units (texts us), utf16_units (texts us @ ck_text c), Some c)"
    "us \<noteq> [] \<Longrightarrow> \<not> target < utf16_units (texts us)"
    using utf16_pos.find_right [OF r ne utf16_targets, unfolded utf16_at, OF True] by metis
  note cut = rope_cut [OF r f(1)]
  obtain k where k: "str_is_char_boundary (ck_text c) k"
    "chunk_clip_offset_utf16 (target - utf16_units (texts us)) b c = Some (utf16_units (take k (ck_text c)))"
    using chunk_clip_offset_utf16_ok [OF cut(4,6)] by (metis cut(7))
  have b: "str_is_char_boundary (rope_text r) (length (texts us) + k)"
    using boundary_split [OF cut(4,5), of "texts us" "length (texts us) + k"] k(1) boundary_le [OF k(1)] by (simp add: cut(1))
  have "utf16_units (texts us) \<le> target" using f(3) by (cases "us = []") (auto simp: utf16_units_def)
  then have "rope_clip_offset_utf16 target b r = Some (utf16_units (texts us) + utf16_units (take k (ck_text c)))"
    using f(2) k(2) by (simp add: rope_clip_offset_utf16_def sub_usize_def)
  then show ?thesis using b cut(3) boundary_le [OF k(1)]
    by (intro exI [of _ "length (texts us) + k"]) (simp add: cut(1) utf16_units_append)
next
  case False
  then show ?thesis using utf16_pos.find_none [OF r utf16_targets, of Right target] rope_summary_ok [OF r]
    by (intro exI [of _ "length (rope_text r)"])
       (simp add: rope_clip_offset_utf16_def utf16_pos.before_def len_utf16_from)
qed

lemma rope_clip_point_ok:
  assumes r: "rope_ok r" "length (rope_text r) < 2 ^ 32" and p: "pt_column p < 2 ^ 32" and g: "grapheme_ends g"
  shows "\<exists>m. str_is_char_boundary (rope_text r) m \<and> rope_clip_point g p b r = Some (point_of (take m (rope_text r)))"
proof (cases "point_less p (point_of (rope_text r))")
  case True
  then have ne: "rope_text r \<noteq> []" by (auto simp: point_less_def)
  have u: "utf8 (rope_text r)" using r(1) by (rule rope_text_utf8)
  obtain us c vs where f: "to_list r = us @ c # vs"
    "tree_find chunk_ops point_dim (point_cmp p) Right r = (point_pos.at (texts us), point_pos.at (texts us @ ck_text c), Some c)"
    "us \<noteq> [] \<Longrightarrow> \<not> point_less p (point_pos.at (texts us))"
    using point_pos.find_right [OF r(1) ne point_targets [OF p r(2)], unfolded point_at [OF u], OF True] by metis
  note cut = rope_cut [OF r(1) f(1)]
  have "\<not> point_less p (point_of (texts us))" using f(3) cut(3) by (cases "us = []") (auto simp: point_less_def)
  then obtain q where q: "point_sub p (point_of (texts us)) = Some q" using point_sub_exists by blast
  obtain k where k: "str_is_char_boundary (ck_text c) k" "chunk_clip_point g q b c = Some (point_of (take k (ck_text c)))"
    using chunk_clip_point_ok [OF cut(4,6) g] by (metis cut(7))
  have b: "str_is_char_boundary (rope_text r) (length (texts us) + k)"
    using boundary_split [OF cut(4,5), of "texts us" "length (texts us) + k"] k(1) boundary_le [OF k(1)] by (simp add: cut(1))
  have "rope_clip_point g p b r = Some (point_add (point_of (texts us)) (point_of (take k (ck_text c))))"
    using f(2) q k(2) cut(3) by (simp add: rope_clip_point_def)
  then show ?thesis using b boundary_le [OF k(1)]
    by (intro exI [of _ "length (texts us) + k"]) (simp add: cut(1) point_of_append)
next
  case False
  then show ?thesis using point_pos.find_none [OF r(1) point_targets [OF p r(2)], of Right] rope_summary_ok [OF r(1)] rope_text_utf8 [OF r(1)]
    by (intro exI [of _ "length (rope_text r)"]) (simp add: rope_clip_point_def point_pos.before_def lines_from)
qed

lemma rope_clip_point_utf16_ok:
  assumes r: "rope_ok r" "length (rope_text r) < 2 ^ 32" and p: "pt_column p < 2 ^ 32"
  shows "\<exists>m. str_is_char_boundary (rope_text r) m \<and> rope_clip_point_utf16 p b r = Some (point_utf16_of (take m (rope_text r)))"
proof (cases "point_less p (point_utf16_of (rope_text r))")
  case True
  have u: "utf8 (rope_text r)" using r(1) by (rule rope_text_utf8)
  have ne: "rope_text r \<noteq> []" using True by (auto simp: point_less_def point_utf16_of_def lines_utf16_def)
  obtain us c vs where f: "to_list r = us @ c # vs"
    "tree_find chunk_ops point_utf16_dim (point_cmp p) Right r = (point_utf16_of (texts us), point_utf16_of (texts us @ ck_text c), Some c)"
    "us \<noteq> [] \<Longrightarrow> \<not> point_less p (point_utf16_of (texts us))"
    using point_utf16_pos.find_right [OF r(1) ne point_utf16_targets [OF u r(2) p], unfolded point_utf16_at, OF True] by metis
  note cut = rope_cut [OF r(1) f(1)]
  have "\<not> point_less p (point_utf16_of (texts us))"
    using f(3) by (cases "us = []") (auto simp: point_less_def point_utf16_of_def lines_utf16_def)
  then obtain q where q: "point_sub p (point_utf16_of (texts us)) = Some q" using point_sub_exists by blast
  obtain k where k: "str_is_char_boundary (ck_text c) k" "chunk_clip_point_utf16 q b c = Some (point_utf16_of (take k (ck_text c)))"
    using chunk_clip_point_utf16_ok [OF cut(4,6)] by (metis cut(7))
  have b: "str_is_char_boundary (rope_text r) (length (texts us) + k)"
    using boundary_split [OF cut(4,5), of "texts us" "length (texts us) + k"] k(1) boundary_le [OF k(1)] by (simp add: cut(1))
  have "rope_clip_point_utf16 p b r = Some (point_add (point_utf16_of (texts us)) (point_utf16_of (take k (ck_text c))))"
    using f(2) q k(2) by (simp add: rope_clip_point_utf16_def)
  then show ?thesis using b boundary_le [OF k(1)] cut(3)
    by (intro exI [of _ "length (texts us) + k"]) (simp add: cut(1) point_utf16_of_append)
next
  case False
  then show ?thesis using point_utf16_pos.find_none [OF r(1) point_utf16_targets [OF rope_text_utf8 [OF r(1)] r(2) p], of Right] rope_summary_ok [OF r(1)]
    by (intro exI [of _ "length (rope_text r)"]) (simp add: rope_clip_point_utf16_def point_utf16_pos.before_def point_utf16_of_def)
qed

end
