(* ===== verification/RopeBuild.thy ===== *)
theory RopeBuild
  imports RopeClip
begin

text \<open>
  The operations that build a rope: none panics, each keeps the rope well formed and its chunks full,
  and the text is the one expected. A loop that looks for a boundary finds one within three bytes.
\<close>

section \<open>The next boundary\<close>

lemma boundary_near:
  assumes "utf8 s" "i \<le> length s"
  shows "\<exists>j. str_is_char_boundary s j \<and> i \<le> j \<and> j \<le> i + 3" "\<exists>j. str_is_char_boundary s j \<and> j \<le> i \<and> i \<le> j + 3"
proof -
  have "(\<exists>j. str_is_char_boundary s j \<and> i \<le> j \<and> j \<le> i + 3) \<and> (\<exists>j. str_is_char_boundary s j \<and> j \<le> i \<and> i \<le> j + 3)"
    using assms
  proof (induction s arbitrary: i rule: utf8_induct)
    case (Char c s)
    have c: "utf8 c" "length c \<le> 4" using Char.hyps(1) utf8_len_le [of "hd c"] by (auto simp: utf8_char_def)
    have b: "str_is_char_boundary (c @ s) (length c)" "\<And>j. str_is_char_boundary s j \<Longrightarrow> str_is_char_boundary (c @ s) (length c + j)"
      using Char.hyps(2) c(1) boundary_prefix [of c s] by (auto simp: boundary_append)
    show ?case
    proof (cases "length c \<le> i")
      case True
      have "i - length c \<le> length s" using Char.prems by simp
      from Char.IH [OF this] obtain j k where
        "str_is_char_boundary s j" "i - length c \<le> j" "j \<le> i - length c + 3"
        "str_is_char_boundary s k" "k \<le> i - length c" "i - length c \<le> k + 3" by auto
      with True b(2) show ?thesis by (intro conjI exI [of _ "length c + j"] exI [of _ "length c + k"]) auto
    next
      case False
      have "\<exists>j. str_is_char_boundary (c @ s) j \<and> i \<le> j \<and> j \<le> i + 3"
      proof (cases i)
        case 0
        then show ?thesis by (intro exI [of _ 0]) simp
      qed (use False b(1) c(2) in \<open>auto intro!: exI [of _ "length c"]\<close>)
      moreover have "str_is_char_boundary (c @ s) 0 \<and> 0 \<le> i \<and> i \<le> 0 + 3" using False c(2) by simp
      ultimately show ?thesis by blast
    qed
  qed (auto intro: exI [of _ 0])
  then show "\<exists>j. str_is_char_boundary s j \<and> i \<le> j \<and> j \<le> i + 3" "\<exists>j. str_is_char_boundary s j \<and> j \<le> i \<and> i \<le> j + 3" by auto
qed

lemma up_to_boundary_ok: "B k \<Longrightarrow> i \<le> k \<Longrightarrow> \<exists>ix. up_to_boundary B i = Some ix \<and> B ix \<and> i \<le> ix \<and> ix \<le> k"
proof (induction "k - i" arbitrary: i)
  case 0
  then show ?case by (subst up_to_boundary.simps) auto
next
  case (Suc n)
  show ?case
  proof (cases "B i")
    case False
    then have "i \<noteq> k" using Suc.prems by auto
    with Suc.hyps(2) Suc.prems have "n = k - (i + 1)" "i + 1 \<le> k" by linarith+
    from Suc.hyps(1) [OF this(1) Suc.prems(1) this(2)] obtain ix where "up_to_boundary B (i + 1) = Some ix" "B ix" "i + 1 \<le> ix" "ix \<le> k" by auto
    then show ?thesis using False by (subst up_to_boundary.simps) auto
  qed (use Suc.prems in \<open>subst up_to_boundary.simps, auto\<close>)
qed

lemma down_to_boundary_ok: "B k \<Longrightarrow> k \<le> i \<Longrightarrow> \<exists>ix. down_to_boundary B i = Some ix \<and> B ix \<and> k \<le> ix \<and> ix \<le> i"
proof (induction "i - k" arbitrary: i)
  case 0
  then show ?case by (subst down_to_boundary.simps) auto
next
  case (Suc n)
  show ?case
  proof (cases "B i")
    case False
    then have "i \<noteq> k" using Suc.prems by auto
    with Suc.hyps(2) Suc.prems have "n = i - 1 - k" "k \<le> i - 1" by linarith+
    from Suc.hyps(1) [OF this(1) Suc.prems(1) this(2)] obtain ix where "down_to_boundary B (i - 1) = Some ix" "B ix" "k \<le> ix" "ix \<le> i - 1" by auto
    then show ?thesis using False Suc.hyps(2) by (subst down_to_boundary.simps) (auto simp: sub_usize_def)
  qed (use Suc.prems in \<open>subst down_to_boundary.simps, auto\<close>)
qed

text \<open>How much of a text goes to a last chunk of \<open>a\<close> bytes.\<close>

definition push_split :: "nat \<Rightarrow> nat \<Rightarrow> (nat \<Rightarrow> bool) \<Rightarrow> nat option" where
  "push_split a n B = (if a + n \<le> MAX_BASE then Some n else up_to_boundary B (min (MIN_BASE - a) n))"

lemma push_split_ok:
  assumes s: "utf8 s" and a: "a \<le> 128"
  shows "\<exists>ix. push_split a (length s) (str_is_char_boundary s) = Some ix \<and> str_is_char_boundary s ix \<and> a + ix \<le> 128 \<and>
    (ix < length s \<longrightarrow> 64 \<le> a + ix \<and> (ix = 0 \<or> 61 \<le> length s - ix))"
proof (cases "a + length s \<le> 128")
  case True
  then show ?thesis by (intro exI [of _ "length s"]) (simp add: push_split_def)
next
  case big: False
  show ?thesis
  proof (cases "a < 64")
    case True
    have "64 - a \<le> length s" using big by linarith
    from boundary_near(1) [OF s this] obtain j where j: "str_is_char_boundary s j" "64 - a \<le> j" "j \<le> 64 - a + 3" by auto
    obtain ix where "up_to_boundary (str_is_char_boundary s) (64 - a) = Some ix" "str_is_char_boundary s ix" "64 - a \<le> ix" "ix \<le> j"
      using up_to_boundary_ok [of "str_is_char_boundary s" j "64 - a"] j by auto
    then show ?thesis using big True j(3) by (intro exI [of _ ix]) (auto simp: push_split_def min_absorb1)
  next
    case False
    have "up_to_boundary (str_is_char_boundary s) 0 = Some 0" by (subst up_to_boundary.simps) simp
    then show ?thesis using big False a by (intro exI [of _ 0]) (auto simp: push_split_def)
  qed
qed

section \<open>Pushing a chunk\<close>

definition full :: "chunk \<Rightarrow> bool" where
  "full c \<longleftrightarrow> chunk_len c + 3 \<ge> MIN_BASE"

lemma chunks_full_simps [simp]:
  "chunks_full []" "chunks_full [c]"
  "chunks_full (cs @ d # ds) \<longleftrightarrow> (\<forall>c \<in> set cs. full c) \<and> chunks_full (d # ds)"
  "chunks_full (c # d # ds) \<longleftrightarrow> full c \<and> chunks_full (d # ds)"
  by (auto simp: chunks_full_def full_def butlast_append)

lemma chunks_full_Cons: "chunks_full (c # cs) \<longleftrightarrow> chunks_full cs \<and> (cs \<noteq> [] \<longrightarrow> full c)"
  by (cases cs) auto

lemma chunks_full_part: "chunks_full (as @ bs @ cs) \<Longrightarrow> chunks_full bs"
proof -
  have "chunks_full (bs @ cs) \<Longrightarrow> chunks_full bs" for bs cs
    by (cases bs rule: rev_cases; cases cs) (auto simp: chunks_full_def butlast_append)
  moreover have "chunks_full (as @ ds) \<Longrightarrow> chunks_full ds" for ds by (cases ds) auto
  ultimately show "chunks_full (as @ bs @ cs) \<Longrightarrow> chunks_full bs" by blast
qed

lemma rope_update_last_Nil: "wf_tree chunk_ops r \<Longrightarrow> to_list r = [] \<Longrightarrow> rope_update_last f x r = Some (r, x)"
  using chunks.tree_last_ok(1) [of r] by (simp add: rope_update_last_def list_last_def)

lemma rope_update_last_ok:
  assumes "wf_tree chunk_ops r" "to_list r = init @ [l]" "f l = Some (l', x')"
  shows "\<exists>r'. rope_update_last f x r = Some (r', x') \<and> wf_tree chunk_ops r' \<and> to_list r' = init @ [l']"
proof -
  have "wf_node chunk_ops r" using assms by (simp add: wf_tree_node)
  from chunks.update_last_recursive_ok [OF this, of "\<lambda>_. l'"] obtain r' where
    "update_last_recursive chunk_ops (\<lambda>_. l') r = Some (r', Some (node_summary r'))" "wf_node chunk_ops r'"
    "to_list r' = butlast (to_list r) @ [l']" by auto
  then show ?thesis
    using assms chunks.tree_last_ok(1) [OF assms(1)]
    by (simp add: rope_update_last_def list_last_def update_last_def wf_node_tree)
qed

text \<open>What a push leaves of the last chunk and of what is pushed.\<close>

definition pushed :: "chunk list \<Rightarrow> bytes \<Rightarrow> chunk list \<Rightarrow> bytes \<Rightarrow> bool" where
  "pushed cs s cs' s' \<longleftrightarrow> (\<forall>c \<in> set cs'. good_chunk c) \<and> texts cs' @ s' = texts cs @ s \<and> utf8 s' \<and>
     (cs = [] \<longrightarrow> cs' = []) \<and> (\<forall>rest. chunks_full cs \<longrightarrow> s' \<noteq> [] \<longrightarrow> chunks_full rest \<longrightarrow> chunks_full (cs' @ rest)) \<and>
     (s' = [] \<longrightarrow> chunks_full cs \<longrightarrow> length s + 3 \<ge> MIN_BASE \<longrightarrow> (\<forall>rest. chunks_full rest \<longrightarrow> chunks_full (cs' @ rest))) \<and>
     (chunks_full cs \<longrightarrow> chunks_full cs') \<and>
     (cs \<noteq> [] \<longrightarrow> s' \<noteq> [] \<longrightarrow> s' = s \<or> 61 \<le> length s') \<and> length s' \<le> length s"

lemma pushed_last:
  assumes g: "\<forall>c \<in> set (init @ [l]). good_chunk c" and s: "utf8 s" "str_is_char_boundary s ix"
    and ix: "chunk_len l + ix \<le> 128" "ix < length s \<longrightarrow> 64 \<le> chunk_len l + ix \<and> (ix = 0 \<or> 61 \<le> length s - ix)"
  shows "pushed (init @ [l]) s (init @ [chunk_of (ck_text l @ take ix s)]) (drop ix s)"
proof -
  let ?l = "chunk_of (ck_text l @ take ix s)"
  have l: "utf8 (ck_text l)" "ck_text l \<noteq> []" using g by (auto simp: good_chunk_def chunk_ok_text)
  have t: "utf8 (take ix s)" "utf8 (drop ix s)" "ix \<le> length s" using s boundary_le by auto
  have "good_chunk ?l" using l t ix by (simp add: good_chunk_def chunk_len_def)
  moreover have "ix < length s \<Longrightarrow> full ?l" using ix l t by (simp add: full_def chunk_len_def)
  moreover have "ix = length s \<Longrightarrow> length s + 3 \<ge> MIN_BASE \<Longrightarrow> full ?l" by (simp add: full_def chunk_len_def)
  moreover have "chunks_full (init @ [c] @ rest) \<longleftrightarrow> (\<forall>c \<in> set init. full c) \<and> chunks_full (c # rest)" for c rest by simp
  ultimately show ?thesis
    using g t ix(2) l by (auto simp: pushed_def chunks_full_Cons chunk_len_def)
qed

lemma pushed_Nil: "utf8 s \<Longrightarrow> pushed [] s [] s"
  by (simp add: pushed_def)

lemma good_chunk_of: "utf8 s \<Longrightarrow> length s \<le> 128 \<Longrightarrow> s \<noteq> [] \<Longrightarrow> good_chunk (chunk_of s)"
  by (simp add: good_chunk_def)

lemma push_chunk_ok:
  assumes r: "rope_ok r" and c: "chunk_ok c"
  shows "\<exists>r'. push_chunk c r = Some r' \<and> rope_ok r' \<and> rope_text r' = rope_text r @ ck_text c \<and>
    (\<forall>rest. chunks_full (to_list r) \<and> chunks_full (c # rest) \<longrightarrow> chunks_full (to_list r' @ rest))"
proof -
  let ?s = "ck_text c"
  have s: "utf8 ?s" "length ?s \<le> 128" "chunk_of ?s = c" using c by (simp_all add: chunk_ok_text)
  have wf: "wf_tree chunk_ops r" and good: "\<forall>c \<in> set (to_list r). good_chunk c" using r by (simp_all add: rope_ok_def)
  define f where "f = (\<lambda>last_chunk. do {
       split_ix \<leftarrow> push_split (chunk_len last_chunk) (chunk_len c) (\<lambda>ix. chunk_is_char_boundary ix c);
       (suffix, remainder) \<leftarrow> split_at split_ix c;
       last_chunk \<leftarrow> chunk_append suffix last_chunk;
       Some (last_chunk, remainder) })"
  have "\<exists>r1 s'. rope_update_last f c r = Some (r1, chunk_of s') \<and> wf_tree chunk_ops r1 \<and> length s' \<le> 128 \<and>
      pushed (to_list r) ?s (to_list r1) s'"
  proof (cases "to_list r" rule: rev_cases)
    case Nil
    then show ?thesis using rope_update_last_Nil [OF wf Nil] s pushed_Nil [OF s(1)] wf by (intro exI [of _ r] exI [of _ ?s]) auto
  next
    case (snoc init l)
    then have l: "chunk_ok l" "utf8 (ck_text l)" "length (ck_text l) \<le> 128" "chunk_of (ck_text l) = l"
      using good by (simp_all add: good_chunk_def chunk_ok_text)
    obtain ix where ix: "push_split (chunk_len l) (length ?s) (str_is_char_boundary ?s) = Some ix" "str_is_char_boundary ?s ix"
      "chunk_len l + ix \<le> 128" "ix < length ?s \<longrightarrow> 64 \<le> chunk_len l + ix \<and> (ix = 0 \<or> 61 \<le> length ?s - ix)"
      using push_split_ok [OF s(1), of "chunk_len l"] l(3) by (auto simp: chunk_len_def)
    have "(\<lambda>ix. chunk_is_char_boundary ix c) = str_is_char_boundary ?s"
      using chunk_boundary_ok [OF s(1,2)] by (simp add: s(3) fun_eq_iff)
    moreover have "split_at ix c = Some (chunk_of (take ix ?s), chunk_of (drop ix ?s))"
      using split_at_ok [OF s(1,2) ix(2)] by (simp add: s(3))
    moreover have "chunk_append (chunk_of (take ix ?s)) l = Some (chunk_of (ck_text l @ take ix ?s))"
      using chunk_append_ok [OF l(2) utf8_take [OF s(1) ix(2)]] ix(3) by (simp add: l(4) chunk_len_def)
    ultimately have "f l = Some (chunk_of (ck_text l @ take ix ?s), chunk_of (drop ix ?s))"
      using ix(1) by (simp add: f_def chunk_len_def)
    from rope_update_last_ok [where f = f and x = c, OF wf snoc this] obtain r1 where
      "rope_update_last f c r = Some (r1, chunk_of (drop ix ?s))" "wf_tree chunk_ops r1"
      "to_list r1 = init @ [chunk_of (ck_text l @ take ix ?s)]" by blast
    moreover have "pushed (to_list r) ?s (init @ [chunk_of (ck_text l @ take ix ?s)]) (drop ix ?s)"
      using good unfolding snoc by (rule pushed_last [OF _ s(1) ix(2-4)])
    ultimately show ?thesis using s(2) by (intro exI [of _ r1] exI [of _ "drop ix ?s"]) simp
  qed
  then obtain r1 s' where u: "rope_update_last f c r = Some (r1, chunk_of s')" "wf_tree chunk_ops r1" "length s' \<le> 128"
    and p: "pushed (to_list r) ?s (to_list r1) s'" by blast
  have eval: "push_chunk c r = (if s' \<noteq> [] then tree_push chunk_ops r1 (chunk_of s') else Some r1)"
    using u(1) by (simp add: push_chunk_def f_def push_split_def)
  show ?thesis
  proof (cases "s' = []")
    case True
    have "chunks_full (to_list r1 @ rest)" if "chunks_full (to_list r)" "chunks_full (c # rest)" for rest
      using p True that by (cases "rest = []") (auto simp: pushed_def chunks_full_Cons full_def chunk_len_def)
    then show ?thesis using eval u(2) p True by (auto simp: pushed_def rope_ok_def rope_text_def)
  next
    case False
    obtain r2 where r2: "tree_push chunk_ops r1 (chunk_of s') = Some r2" "wf_tree chunk_ops r2" "to_list r2 = to_list r1 @ [chunk_of s']"
      using chunks.tree_push_ok [OF u(2)] by blast
    have "chunks_full (to_list r2 @ rest)" if "chunks_full (to_list r)" "chunks_full (c # rest)" for rest
    proof -
      have "full (chunk_of s')" if "rest \<noteq> []"
      proof (cases "s' = ?s")
        case True
        then show ?thesis using \<open>chunks_full (c # rest)\<close> that by (simp add: chunks_full_Cons s(3))
      next
        case False
        then have "61 \<le> length s'" using p \<open>s' \<noteq> []\<close> by (cases "to_list r = []") (auto simp: pushed_def)
        then show ?thesis by (simp add: full_def)
      qed
      then have "chunks_full (chunk_of s' # rest)" using that(2) by (simp add: chunks_full_Cons)
      then have "chunks_full (to_list r1 @ chunk_of s' # rest)" using p False that(1) unfolding pushed_def by blast
      then show ?thesis by (simp add: r2(3))
    qed
    then show ?thesis using eval r2 p False u(3) good_chunk_of [of s'] by (auto simp: pushed_def rope_ok_def rope_text_def)
  qed
qed

section \<open>Appending\<close>

lemma rope_append_ok:
  assumes r: "rope_ok r" and q: "rope_ok q"
  shows "\<exists>r'. rope_append r q = Some r' \<and> rope_ok r' \<and> rope_text r' = rope_text r @ rope_text q \<and>
    (chunks_full (to_list r) \<and> chunks_full (to_list q) \<longrightarrow> chunks_full (to_list r'))"
proof -
  have wf: "wf_tree chunk_ops r" "wf_tree chunk_ops q" using r q by (simp_all add: rope_ok_def)
  have ends: "tree_first q = Some (list_first (to_list q))" "tree_last r = Some (list_last (to_list r))"
    using chunks.tree_first_ok [OF wf(2)] chunks.tree_last_ok(1) [OF wf(1)] by simp_all
  have plain: "\<exists>r'. tree_append chunk_ops r q = Some r' \<and> rope_ok r' \<and> rope_text r' = rope_text r @ rope_text q \<and>
      to_list r' = to_list r @ to_list q"
    using chunks.tree_append_ok [OF wf] r q by (auto simp: rope_ok_def rope_text_def)
  show ?thesis
  proof (cases "to_list q")
    case Nil
    then show ?thesis using plain ends by (auto simp: rope_append_def)
  next
    case (Cons c rest)
    let ?small = "(case list_last (to_list r) of Some l \<Rightarrow> chunk_len l < MIN_BASE | None \<Rightarrow> False) \<or> chunk_len c < MIN_BASE"
    show ?thesis
    proof (cases ?small)
      case False
      have "chunks_full (to_list r @ to_list q)" if "chunks_full (to_list r)" "chunks_full (to_list q)"
      proof (cases "to_list r" rule: rev_cases)
        case (snoc init l)
        then have "full l" using False by (auto simp: list_last_def full_def)
        then show ?thesis using that snoc Cons by (simp add: chunks_full_Cons)
      qed (use that in simp)
      then show ?thesis using plain ends Cons False by (auto simp: rope_append_def)
    next
      case True
      have c: "chunk_ok c" using q Cons by (simp add: rope_ok_def good_chunk_def)
      from push_chunk_ok [OF r c] obtain r1 where r1: "push_chunk c r = Some r1" "rope_ok r1" "rope_text r1 = rope_text r @ ck_text c"
        "\<And>rest. chunks_full (to_list r) \<Longrightarrow> chunks_full (c # rest) \<Longrightarrow> chunks_full (to_list r1 @ rest)" by blast
      obtain c1 where c1: "cursor_next unit_dim (cursor_new unit_dim q) = Some c1" "c_did_seek c1" "cursor_at chunk_ops unit_dim c1 [] (c # rest)"
        using unit_seek.cursor_next_ok [OF cursor_at_new [OF wf(2), where M = unit_dim]] Cons by (auto simp: cursor_new_def)
      obtain c2 where c2: "cursor_next unit_dim c1 = Some c2" "cursor_at chunk_ops unit_dim c2 [c] rest"
        using unit_seek.cursor_next_ok [OF c1(3)] c1(2) by auto
      obtain t c3 where t: "cursor_suffix chunk_ops unit_dim c2 = Some (t, c3)" "wf_tree chunk_ops t" "to_list t = rest"
        using unit_seek.cursor_suffix_ok [OF c2(2)] by blast
      have "wf_tree chunk_ops r1" using r1(2) by (simp add: rope_ok_def)
      from chunks.tree_append_ok [OF this t(2)] obtain r2 where
        r2: "tree_append chunk_ops r1 t = Some r2" "wf_tree chunk_ops r2" "to_list r2 = to_list r1 @ rest" by (auto simp: t(3))
      have "rope_append r q = Some r2"
        using ends Cons True r1(1) c1(1) c2(1) t(1) r2(1) by (simp add: rope_append_def)
      moreover have "rope_ok r2" "rope_text r2 = rope_text r @ rope_text q"
        using r2(2,3) r1(2,3) q Cons by (auto simp: rope_ok_def rope_text_def)
      ultimately show ?thesis using r1(4) r2(3) Cons by auto
    qed
  qed
qed

section \<open>Pushing text\<close>

lemma cut_chunks_ok:
  assumes "utf8 s"
  shows "\<exists>cs. cut_chunks s = Some cs \<and> concat cs = s \<and> (\<forall>c \<in> set cs. utf8 c \<and> c \<noteq> [] \<and> length c \<le> 128) \<and>
    (\<forall>c \<in> set (butlast cs). 125 \<le> length c)"
  using assms
proof (induction "length s" arbitrary: s rule: less_induct)
  case less
  show ?case
  proof (cases "s = []")
    case True
    then show ?thesis by (subst cut_chunks.simps) simp
  next
    case False
    let ?n = "min MAX_BASE (length s)"
    obtain j where "str_is_char_boundary s j" "j \<le> ?n" "?n = length s \<and> j = length s \<or> ?n \<le> j + 3"
      using boundary_near(2) [OF less.prems, of ?n] by auto
    then obtain ix where ix: "down_to_boundary (str_is_char_boundary s) ?n = Some ix" "str_is_char_boundary s ix" "ix \<le> ?n"
      "?n = length s \<and> ix = length s \<or> ?n \<le> ix + 3"
      using down_to_boundary_ok [of "str_is_char_boundary s" j ?n] by auto
    have whole: "ix = length s" if "length s \<le> 128"
    proof -
      have n: "?n = length s" using that by simp
      show ?thesis using ix(1) unfolding n by (subst (asm) down_to_boundary.simps) simp
    qed
    have pos: "0 < ix" using whole ix(4) False by (cases "length s \<le> 128") auto
    have cut: "utf8 (take ix s)" "utf8 (drop ix s)" using less.prems ix(2) by auto
    obtain cs where cs: "cut_chunks (drop ix s) = Some cs" "concat cs = drop ix s"
      "\<forall>c \<in> set cs. utf8 c \<and> c \<noteq> [] \<and> length c \<le> 128" "\<forall>c \<in> set (butlast cs). 125 \<le> length c"
      using less.hyps [OF _ cut(2)] pos False by auto
    have "cut_chunks s = Some (take ix s # cs)"
      using False ix(1,2) cs(1) by (subst cut_chunks.simps) (simp add: str_split_at_def)
    moreover have "125 \<le> length (take ix s)" if "cs \<noteq> []"
    proof -
      have "drop ix s \<noteq> []" using cs(2,3) that by (cases cs) auto
      then show ?thesis using ix(3,4) whole by (cases "length s \<le> 128") auto
    qed
    ultimately show ?thesis using cs cut(1) pos ix(3) False by (intro exI [of _ "take ix s # cs"]) auto
  qed
qed

lemma cut_chunks_few: "\<forall>c \<in> set (butlast cs). 125 \<le> length c \<Longrightarrow> \<forall>c \<in> set cs. c \<noteq> [] \<Longrightarrow> cs \<noteq> [] \<Longrightarrow>
    125 * (length cs - 1) < length (concat cs)"
proof (induction cs)
  case (Cons c cs)
  then show ?case by (cases cs) auto
qed simp

lemma new_chunks_ok:
  assumes "utf8 s"
  shows "\<exists>ss cs. cut_chunks s = Some ss \<and> those (map chunk_new ss) = Some cs \<and> texts cs = s \<and>
    (\<forall>c \<in> set cs. good_chunk c) \<and> chunks_full cs \<and> (length s \<le> 500 \<longrightarrow> length ss \<le> NUM_CHUNKS)"
proof -
  obtain ss where ss: "cut_chunks s = Some ss" "concat ss = s" "\<forall>c \<in> set ss. utf8 c \<and> c \<noteq> [] \<and> length c \<le> 128"
    "\<forall>c \<in> set (butlast ss). 125 \<le> length c" using cut_chunks_ok [OF assms] by blast
  have "those (map chunk_new ss) = Some (map chunk_of ss)" using ss(3) by (intro chunks.those_map_Some) (simp add: chunk_new_ok)
  moreover have "texts (map chunk_of ss) = s" using ss(2) by (simp add: comp_def)
  moreover have "\<forall>c \<in> set (map chunk_of ss). good_chunk c" using ss(3) by (auto simp: good_chunk_of)
  moreover have "chunks_full (map chunk_of ss)" using ss(4) by (auto simp: chunks_full_def simp flip: map_butlast)
  moreover have "length s \<le> 500 \<longrightarrow> length ss \<le> NUM_CHUNKS"
    using cut_chunks_few [OF ss(4)] ss(2,3) by (cases "ss = []") (auto simp: NUM_CHUNKS_def)
  ultimately show ?thesis using ss(1) by blast
qed

lemma extend_rope_ok:
  assumes "wf_tree chunk_ops r"
  shows "\<exists>r'. SumTree.extend chunk_ops r cs = Some r' \<and> par_extend chunk_ops r cs = Some r' \<and> wf_tree chunk_ops r' \<and> to_list r' = to_list r @ cs"
  using chunks.extend_ok [OF assms, of cs] by (auto simp: par_extend_def SumTree.extend_def chunks.from_par_iter_eq)

lemma rope_push_ok:
  assumes r: "rope_ok r" and s: "utf8 s"
  shows "\<exists>r'. rope_push s r = Some r' \<and> rope_ok r' \<and> rope_text r' = rope_text r @ s \<and>
    (chunks_full (to_list r) \<longrightarrow> chunks_full (to_list r'))"
proof -
  have wf: "wf_tree chunk_ops r" and good: "\<forall>c \<in> set (to_list r). good_chunk c" using r by (simp_all add: rope_ok_def)
  define f where "f = (\<lambda>last_chunk. do {
       split_ix \<leftarrow> push_split (chunk_len last_chunk) (length s) (str_is_char_boundary s);
       (suffix, remainder) \<leftarrow> str_split_at s split_ix;
       last_chunk \<leftarrow> chunk_push_str suffix last_chunk;
       Some (last_chunk, remainder) })"
  have "\<exists>r1 s'. rope_update_last f s r = Some (r1, s') \<and> wf_tree chunk_ops r1 \<and> pushed (to_list r) s (to_list r1) s'"
  proof (cases "to_list r" rule: rev_cases)
    case Nil
    then show ?thesis using rope_update_last_Nil [OF wf Nil] pushed_Nil [OF s] wf by (intro exI [of _ r] exI [of _ s]) auto
  next
    case (snoc init l)
    then have l: "chunk_ok l" "utf8 (ck_text l)" "length (ck_text l) \<le> 128" "chunk_of (ck_text l) = l"
      using good by (simp_all add: good_chunk_def chunk_ok_text)
    obtain ix where ix: "push_split (chunk_len l) (length s) (str_is_char_boundary s) = Some ix" "str_is_char_boundary s ix"
      "chunk_len l + ix \<le> 128" "ix < length s \<longrightarrow> 64 \<le> chunk_len l + ix \<and> (ix = 0 \<or> 61 \<le> length s - ix)"
      using push_split_ok [OF s, of "chunk_len l"] l(3) by (auto simp: chunk_len_def)
    have "chunk_push_str (take ix s) l = Some (chunk_of (ck_text l @ take ix s))"
      using chunk_append_ok [OF l(2) utf8_take [OF s ix(2)]] chunk_new_ok [OF utf8_take [OF s ix(2)]] ix(3)
      by (simp add: chunk_push_str_def l(4) chunk_len_def)
    then have "f l = Some (chunk_of (ck_text l @ take ix s), drop ix s)"
      using ix(1,2) by (simp add: f_def chunk_len_def str_split_at_def)
    from rope_update_last_ok [where f = f and x = s, OF wf snoc this] obtain r1 where
      "rope_update_last f s r = Some (r1, drop ix s)" "wf_tree chunk_ops r1"
      "to_list r1 = init @ [chunk_of (ck_text l @ take ix s)]" by blast
    moreover have "pushed (to_list r) s (init @ [chunk_of (ck_text l @ take ix s)]) (drop ix s)"
      using good unfolding snoc by (rule pushed_last [OF _ s ix(2-4)])
    ultimately show ?thesis by (intro exI [of _ r1] exI [of _ "drop ix s"]) simp
  qed
  then obtain r1 s' where u: "rope_update_last f s r = Some (r1, s')" "wf_tree chunk_ops r1"
    and p: "pushed (to_list r) s (to_list r1) s'" by blast
  obtain ss cs where cs: "cut_chunks s' = Some ss" "those (map chunk_new ss) = Some cs" "texts cs = s'"
    "\<forall>c \<in> set cs. good_chunk c" "chunks_full cs" "length s' \<le> 500 \<longrightarrow> length ss \<le> NUM_CHUNKS"
    using new_chunks_ok [of s'] p unfolding pushed_def by blast
  obtain r2 where r2: "SumTree.extend chunk_ops r1 cs = Some r2" "par_extend chunk_ops r1 cs = Some r2" "wf_tree chunk_ops r2"
    "to_list r2 = to_list r1 @ cs" using extend_rope_ok [OF u(2)] by blast
  have few: "\<not> NUM_CHUNKS * MAX_BASE - NUM_CHUNKS * 4 < length s' \<Longrightarrow> \<not> NUM_CHUNKS < length ss"
    using cs(6) by (auto simp: NUM_CHUNKS_def)
  have "rope_push s r = (if s' = [] then Some r1 else Some r2)"
    using u(1) few cs(1,2) r2(1,2) by (simp add: rope_push_def f_def push_split_def push_large_def)
  then show ?thesis
    using p u(2) r2(3,4) cs(3-5) by (cases "s' = []") (auto simp: pushed_def rope_ok_def rope_text_def)
qed

lemma rope_from_ok:
  assumes "utf8 s"
  shows "\<exists>r. rope_from s = Some r \<and> rope_ok r \<and> rope_text r = s \<and> chunks_full (to_list r)"
  using rope_push_ok [OF rope_new_ok(1) assms] by (auto simp: rope_from_def)

lemma rope_push_all_ok:
  assumes "\<forall>s \<in> set ss. utf8 s" "rope_ok r"
  shows "\<exists>r'. rope_push_all ss r = Some r' \<and> rope_ok r' \<and> rope_text r' = rope_text r @ concat ss \<and>
    (chunks_full (to_list r) \<longrightarrow> chunks_full (to_list r'))"
  using assms
proof (induction ss arbitrary: r)
  case (Cons s ss)
  obtain r1 where r1: "rope_push s r = Some r1" "rope_ok r1" "rope_text r1 = rope_text r @ s"
    "chunks_full (to_list r) \<longrightarrow> chunks_full (to_list r1)"
    using rope_push_ok [OF Cons.prems(2), of s] Cons.prems(1) by auto
  from Cons.IH [OF _ r1(2)] Cons.prems(1) r1 show ?case by auto
qed auto

lemma rope_from_iter_ok:
  assumes "\<forall>s \<in> set ss. utf8 s"
  shows "\<exists>r. rope_from_iter ss = Some r \<and> rope_ok r \<and> rope_text r = concat ss \<and> chunks_full (to_list r)"
  using rope_push_all_ok [OF assms rope_new_ok(1)] by (auto simp: rope_from_iter_def)

lemma rope_push_front_ok:
  assumes r: "rope_ok r" and s: "utf8 s"
  shows "\<exists>r'. rope_push_front s r = Some r' \<and> rope_ok r' \<and> rope_text r' = s @ rope_text r \<and>
    (chunks_full (to_list r) \<longrightarrow> chunks_full (to_list r'))"
proof -
  have wf: "wf_tree chunk_ops r" using r by (simp add: rope_ok_def)
  consider "s = []" | "s \<noteq> []" "rope_text r = []" | "s \<noteq> []" "rope_text r \<noteq> []" by blast
  then show ?thesis
  proof cases
    case 1
    then show ?thesis using r by (auto simp: rope_push_front_def)
  next
    case 2
    then show ?thesis using rope_push_ok [OF r s] r by (auto simp: rope_push_front_def)
  next
    case 3
    then obtain c rest where c: "to_list r = c # rest" using rope_empty_iff [OF r] by (cases "to_list r") auto
    then have cok: "good_chunk c" "utf8 (ck_text c)" "length (ck_text c) \<le> 128" "chunk_of (ck_text c) = c"
      using r by (auto simp: rope_ok_def good_chunk_def chunk_ok_text)
    have first: "tree_first r = Some (Some c)" using chunks.tree_first_ok [OF wf] c by simp
    have e: "\<not> rope_is_empty r" using r 3 by simp
    show ?thesis
    proof (cases "chunk_len c + length s \<le> MAX_BASE")
      case True
      let ?c = "chunk_of (s @ ck_text c)"
      have "chunk_prepend_str s c = Some ?c"
        using chunk_prepend_ok [OF s cok(2)] chunk_new_ok [OF s] True by (simp add: chunk_prepend_str_def cok(4) chunk_len_def)
      moreover obtain r' where r': "update_first chunk_ops (\<lambda>_. ?c) r = Some r'" "wf_tree chunk_ops r'" "to_list r' = ?c # rest"
        using chunks.update_first_recursive_ok [OF rope_node [OF r 3(2)], of "\<lambda>_. ?c"] c by (auto simp: update_first_def wf_node_tree)
      ultimately have "rope_push_front s r = Some r'" using 3(1) e first True by (simp add: rope_push_front_def)
      moreover have "good_chunk ?c" using s cok(2) True 3(1) by (simp add: good_chunk_def chunk_len_def)
      moreover have "chunks_full (c # rest) \<Longrightarrow> chunks_full (?c # rest)"
        by (auto simp: chunks_full_Cons full_def chunk_len_def)
      ultimately show ?thesis using r r'(2,3) c by (auto simp: rope_ok_def rope_text_def)
    next
      case False
      obtain q where q: "rope_from s = Some q" "rope_ok q" "rope_text q = s" "chunks_full (to_list q)" using rope_from_ok [OF s] by blast
      from rope_append_ok [OF q(2) r] obtain r' where "rope_append q r = Some r'" "rope_ok r'" "rope_text r' = s @ rope_text r"
        "chunks_full (to_list r) \<longrightarrow> chunks_full (to_list r')" using q(3,4) by auto
      then show ?thesis using 3(1) e first False q(1) by (auto simp: rope_push_front_def)
    qed
  qed
qed

end
