(* ===== verification/RopeSlice.thy ===== *)
theory RopeSlice
  imports RopeBuild
begin

text \<open>
  The cursor of a rope: where it stands, and what a seek, a slice and a summary of the text between
  two offsets give. With them, slices and replacements of ranges.
\<close>

section \<open>Where a cursor stands\<close>

text \<open>
  Between the chunks passed and those ahead, with an offset in the first of those ahead or at its end.
\<close>

definition rope_cursor_at :: "rope_cursor \<Rightarrow> chunk list \<Rightarrow> chunk list \<Rightarrow> bool" where
  "rope_cursor_at c xs ys \<longleftrightarrow> rope_ok (rc_rope c) \<and> to_list (rc_rope c) = xs @ ys \<and>
     cursor_at chunk_ops len_dim (rc_chunks c) xs ys \<and> c_did_seek (rc_chunks c) \<and>
     length (texts xs) \<le> rc_offset c \<and> rc_offset c \<le> length (texts xs) + length (texts (take 1 ys))"

definition rope_cursor_ok :: "rope_cursor \<Rightarrow> bool" where
  "rope_cursor_ok c \<longleftrightarrow> (\<exists>xs ys. rope_cursor_at c xs ys)"

lemma len_zero [simp]: "d_zero len_dim = 0"
  by (simp add: len_dim_def)

lemma len_after: "\<forall>c \<in> set us. good_chunk c \<Longrightarrow> after chunk_ops len_dim 0 us = length (texts us)"
  using after_positions(1) [of us] by simp

lemma cursor_position: "cursor_at chunk_ops len_dim cu xs ys \<Longrightarrow> \<forall>c \<in> set xs. good_chunk c \<Longrightarrow> c_position cu = length (texts xs)"
  by (simp add: cursor_at_def len_after)

lemma rope_cursor_new_ok:
  assumes r: "rope_ok r" "n \<le> length (rope_text r)"
  shows "\<exists>c. rope_cursor_new r n = Some c \<and> rope_cursor_ok c \<and> rc_rope c = r \<and> rc_offset c = n"
proof -
  have good: "\<forall>c \<in> set (to_list r). good_chunk c" and wf: "wf_tree chunk_ops r" using r(1) by (simp_all add: rope_ok_def)
  obtain us vs where s: "advance chunk_ops len_dim (passes (ord_cmp n) Right) 0 (to_list r) = (us, vs)" "to_list r = us @ vs"
    "us \<noteq> [] \<Longrightarrow> \<not> n < length (texts us)" "vs \<noteq> [] \<Longrightarrow> n < length (texts (us @ [hd vs]))"
    by (rule len_pos.advance_split [where target = "ord_cmp n" and x = n and b = Right, OF good len_targets]) (auto simp: len_pos.before_def)
  have zero: "ord_cmp n (d_zero len_dim) \<noteq> Less" by (simp add: ord_cmp_def)
  obtain cu where cu: "cursor_seek len_dim (ord_cmp n) Right (cursor_new len_dim r) =
      Some (ord_cmp n (seek_end chunk_ops len_dim Right us vs) = Equal, cu)" "cursor_at chunk_ops len_dim cu us vs" "c_did_seek cu"
    using len_seek.cursor_seek_ok [OF cursor_at_new [OF wf], of "ord_cmp n" Right us vs]
      len_pos.passes_mono [where target = "ord_cmp n" and x = n and b = Right, OF good len_targets] s(1) zero by auto
  have "length (texts us) \<le> n" using s(3) by (cases "us = []") auto
  moreover have "n \<le> length (texts us) + length (texts (take 1 vs))"
    using s(2,4) r(2) by (cases vs) (auto simp: rope_text_def)
  ultimately show ?thesis using r(1) s(2) cu
    by (auto simp: rope_cursor_new_def rope_cursor_ok_def rope_cursor_at_def)
qed

text \<open>The move to an offset ahead.\<close>

lemma seek_to:
  assumes r: "rope_ok r" "to_list r = xs @ ys" and xs: "length (texts xs) \<le> n"
  obtains us vs where "advance chunk_ops len_dim (passes (ord_cmp n) Right) (length (texts xs)) ys = (us, vs)" "ys = us @ vs"
    "pass_mono chunk_ops len_dim (passes (ord_cmp n) Right) (length (texts xs)) ys"
    "length (texts (xs @ us)) \<le> n" "vs \<noteq> [] \<Longrightarrow> n < length (texts (xs @ us @ [hd vs]))"
proof -
  have good: "\<forall>c \<in> set (xs @ ys). good_chunk c" using r by (auto simp: rope_ok_def)
  obtain us vs where s: "advance chunk_ops len_dim (passes (ord_cmp n) Right) (after chunk_ops len_dim 0 xs) ys = (us, vs)" "ys = us @ vs"
    "pass_mono chunk_ops len_dim (passes (ord_cmp n) Right) (after chunk_ops len_dim 0 xs) ys"
    "us \<noteq> [] \<Longrightarrow> \<not> n < length (texts (xs @ us))" "vs \<noteq> [] \<Longrightarrow> n < length (texts (xs @ us @ [hd vs]))"
    by (rule len_pos.advance_from [where target = "ord_cmp n" and x = n and b = Right, OF good len_targets]) (use xs in \<open>auto simp: len_pos.before_def\<close>)
  then show thesis using good xs by (intro that [of us vs]) (cases "us = []"; auto simp: len_after)+
qed

lemma rope_seek_forward_ok:
  assumes c: "rope_cursor_ok c" and n: "rc_offset c \<le> n" "n \<le> length (rope_text (rc_rope c))"
  shows "\<exists>c'. rope_seek_forward n c = Some c' \<and> rope_cursor_ok c' \<and> rc_rope c' = rc_rope c \<and> rc_offset c' = n"
proof -
  obtain xs ys where a: "rope_cursor_at c xs ys" using c by (auto simp: rope_cursor_ok_def)
  then have r: "rope_ok (rc_rope c)" "to_list (rc_rope c) = xs @ ys" and cu: "cursor_at chunk_ops len_dim (rc_chunks c) xs ys"
    and off: "length (texts xs) \<le> n" using n(1) by (auto simp: rope_cursor_at_def)
  have gx: "\<forall>c \<in> set xs. good_chunk c" using r by (auto simp: rope_ok_def)
  note p = cursor_position [OF cu gx]
  have ahead: "ord_cmp n (length (texts xs)) \<noteq> Less" using off by (simp add: ord_cmp_def)
  obtain us vs where s: "advance chunk_ops len_dim (passes (ord_cmp n) Right) (length (texts xs)) ys = (us, vs)" "ys = us @ vs"
    "pass_mono chunk_ops len_dim (passes (ord_cmp n) Right) (length (texts xs)) ys"
    "length (texts (xs @ us)) \<le> n" "vs \<noteq> [] \<Longrightarrow> n < length (texts (xs @ us @ [hd vs]))"
    using seek_to [OF r off] by metis
  obtain cu' where cu': "cursor_seek_forward len_dim (ord_cmp n) Right (rc_chunks c) =
      Some (ord_cmp n (seek_end chunk_ops len_dim Right (xs @ us) vs) = Equal, cu')"
    "cursor_at chunk_ops len_dim cu' (xs @ us) vs" "c_did_seek cu'"
    using len_seek.cursor_seek_forward_ok [OF cu, of "ord_cmp n" Right us vs] s(1,3) ahead unfolding p by metis
  have "n \<le> length (texts (xs @ us)) + length (texts (take 1 vs))"
    using s(2,5) n(2) r(2) by (cases vs) (auto simp: rope_text_def)
  then have "rope_cursor_at (c\<lparr>rc_chunks := cu', rc_offset := n\<rparr>) (xs @ us) vs"
    using r s(2,4) cu'(2,3) by (simp add: rope_cursor_at_def)
  moreover have "rope_seek_forward n c = Some (c\<lparr>rc_chunks := cu', rc_offset := n\<rparr>)"
    using n r(1) cu'(1) by (simp add: rope_seek_forward_def)
  ultimately show ?thesis unfolding rope_cursor_ok_def by (intro exI [of _ "c\<lparr>rc_chunks := cu', rc_offset := n\<rparr>"]) auto
qed

section \<open>The text between two offsets\<close>

definition between :: "nat \<Rightarrow> nat \<Rightarrow> bytes \<Rightarrow> bytes" where
  "between i j s = take (j - i) (drop i s)"

lemma between_split: "i \<le> k \<Longrightarrow> k \<le> j \<Longrightarrow> between i j s = between i k s @ between k j s"
  using take_add [of "k - i" "j - k" "drop i s"] by (simp add: between_def)

lemma between_self [simp]: "between i i s = []"
  by (simp add: between_def)

lemma between_end: "between i (length s) s = drop i s"
  by (simp add: between_def)

lemma between_start: "between 0 j s = take j s"
  by (simp add: between_def)

lemma between_mid: "between (length xs) (length xs + length ys) (xs @ ys @ zs) = ys"
  by (simp add: between_def)

lemma utf8_between: "utf8 s \<Longrightarrow> str_is_char_boundary s i \<Longrightarrow> str_is_char_boundary s j \<Longrightarrow> i \<le> j \<Longrightarrow> utf8 (between i j s)"
  unfolding between_def by (rule utf8_take [OF utf8_drop boundary_drop])

lemma texts_boundary:
  assumes "rope_ok r" "to_list r = xs @ ys"
  shows "str_is_char_boundary (rope_text r) (length (texts xs))"
proof -
  have "\<forall>c \<in> set xs. good_chunk c" "\<forall>c \<in> set ys. good_chunk c" using assms by (auto simp: rope_ok_def)
  from utf8_texts [OF this(1)] utf8_texts [OF this(2)] show ?thesis using assms(2) boundary_prefix by (simp add: rope_text_def)
qed

text \<open>The piece of a chunk.\<close>

lemma chunk_piece:
  assumes r: "rope_ok r" "to_list r = xs @ y # ys" and b: "str_is_char_boundary (rope_text r) i" "str_is_char_boundary (rope_text r) j"
    and i: "length (texts xs) \<le> i" "i \<le> j" "j \<le> length (texts xs) + length (ck_text y)"
  shows "chunk_slice (i - length (texts xs)) (j - length (texts xs)) y = Some (chunk_of (between i j (rope_text r)))"
    "chunk_ok (chunk_of (between i j (rope_text r)))" "utf8 (between i j (rope_text r))"
    "length (between i j (rope_text r)) \<le> 128"
proof -
  note cut = rope_cut [OF r]
  let ?i = "i - length (texts xs)" and ?j = "j - length (texts xs)"
  have yb: "str_is_char_boundary (ck_text y) ?i" "str_is_char_boundary (ck_text y) ?j"
    using boundary_in_chunk(1) [OF cut(4,5) b(1) [unfolded cut(1)]] boundary_in_chunk(1) [OF cut(4,5) b(2) [unfolded cut(1)]] i by auto
  have eq: "take (j - i) (drop ?i (ck_text y)) = between i j (rope_text r)" using i by (simp add: between_def cut(1))
  have ij: "?j - ?i = j - i" "?i \<le> ?j" using i by auto
  show "chunk_slice ?i ?j y = Some (chunk_of (between i j (rope_text r)))"
    using chunk_slice_ok [OF cut(4,6) yb ij(2)] by (simp only: cut(7) ij(1) eq)
  show u: "utf8 (between i j (rope_text r))" using utf8_between [OF rope_text_utf8 [OF r(1)] b i(2)] .
  have "length (take (j - i) (drop ?i (ck_text y))) \<le> 128" using cut(6) by simp
  then show l: "length (between i j (rope_text r)) \<le> 128" by (simp only: eq)
  show "chunk_ok (chunk_of (between i j (rope_text r)))" using u l by simp
qed

section \<open>From the offset of a cursor to one ahead\<close>

text \<open>
  The text ahead is a piece of the chunk the cursor is in, and when the end is past that chunk, whole
  chunks and a piece of the chunk the end is in.
\<close>

definition piece_at :: "rope \<Rightarrow> nat \<Rightarrow> nat \<Rightarrow> chunk" where
  "piece_at r i j = chunk_of (between i j (rope_text r))"

lemma cursor_eval:
  assumes a: "rope_cursor_at c xs ys"
  shows "cursor_item (rc_chunks c) = Some (list_first ys)" "c_position (rc_chunks c) = length (texts xs)"
    "cursor_end len_dim (rc_chunks c) = Some (length (texts xs) + length (texts (take 1 ys)))"
proof -
  have cu: "cursor_at chunk_ops len_dim (rc_chunks c) xs ys" "c_did_seek (rc_chunks c)" and g: "\<forall>c \<in> set (xs @ ys). good_chunk c"
    using a by (auto simp: rope_cursor_at_def rope_ok_def)
  have gx: "\<forall>c \<in> set xs. good_chunk c" "\<forall>c \<in> set (xs @ take 1 ys). good_chunk c" using g by (auto dest: in_set_takeD)
  show "cursor_item (rc_chunks c) = Some (list_first ys)" by (rule cursor_item_ok [OF cu])
  show "c_position (rc_chunks c) = length (texts xs)" by (rule cursor_position [OF cu(1) gx(1)])
  show "cursor_end len_dim (rc_chunks c) = Some (length (texts xs) + length (texts (take 1 ys)))"
    using cursor_end_ok [OF cu] len_after [OF gx(2)] by simp
qed

lemma span_near:
  assumes a: "rope_cursor_at c xs (y # zs)" and e: "rc_offset c \<le> e"
    and b: "str_is_char_boundary (rope_text (rc_rope c)) (rc_offset c)" "str_is_char_boundary (rope_text (rc_rope c)) e"
  defines "m \<equiv> min e (length (texts xs) + length (ck_text y))"
  shows "chunk_slice (rc_offset c - length (texts xs)) (m - length (texts xs)) y = Some (piece_at (rc_rope c) (rc_offset c) m)"
    "chunk_ok (piece_at (rc_rope c) (rc_offset c) m)" "length (texts xs) \<le> rc_offset c" "length (texts xs) \<le> m"
    "ck_text (piece_at (rc_rope c) (rc_offset c) m) = between (rc_offset c) m (rope_text (rc_rope c))" "rc_offset c \<le> m"
proof -
  have r: "rope_ok (rc_rope c)" "to_list (rc_rope c) = xs @ y # zs" and off: "length (texts xs) \<le> rc_offset c"
    "rc_offset c \<le> length (texts xs) + length (ck_text y)" using a by (simp_all add: rope_cursor_at_def)
  have "str_is_char_boundary (rope_text (rc_rope c)) (length (texts (xs @ [y])))"
    using texts_boundary [OF r(1), of "xs @ [y]" zs] r(2) by simp
  then have bm: "str_is_char_boundary (rope_text (rc_rope c)) m" using b(2) by (simp add: m_def min_def)
  have m: "rc_offset c \<le> m" "m \<le> length (texts xs) + length (ck_text y)" using e off by (simp_all add: m_def)
  note p = chunk_piece [OF r b(1) bm off(1) m]
  show "chunk_slice (rc_offset c - length (texts xs)) (m - length (texts xs)) y = Some (piece_at (rc_rope c) (rc_offset c) m)"
    "chunk_ok (piece_at (rc_rope c) (rc_offset c) m)"
    "ck_text (piece_at (rc_rope c) (rc_offset c) m) = between (rc_offset c) m (rope_text (rc_rope c))"
    using p by (simp_all add: piece_at_def)
  show "length (texts xs) \<le> rc_offset c" "length (texts xs) \<le> m" "rc_offset c \<le> m" using off m by auto
qed

lemma span_far:
  assumes a: "rope_cursor_at c xs (y # zs)" and e: "length (texts xs) + length (ck_text y) < e" "e \<le> length (rope_text (rc_rope c))"
    and b: "str_is_char_boundary (rope_text (rc_rope c)) e"
  obtains ch us vs where "cursor_next len_dim (rc_chunks c) = Some ch" "cursor_at chunk_ops len_dim ch (xs @ [y]) zs" "c_did_seek ch"
    "zs = us @ vs" "ord_cmp e (c_position ch) \<noteq> Less" "pass_mono chunk_ops len_dim (passes (ord_cmp e) Right) (c_position ch) zs"
    "advance chunk_ops len_dim (passes (ord_cmp e) Right) (c_position ch) zs = (us, vs)"
    "length (texts (xs @ y # us)) \<le> e" "e \<le> length (texts (xs @ y # us)) + length (texts (take 1 vs))"
    "vs \<noteq> [] \<Longrightarrow> chunk_slice 0 (e - length (texts (xs @ y # us))) (hd vs) = Some (piece_at (rc_rope c) (length (texts (xs @ y # us))) e)"
    "vs = [] \<Longrightarrow> e = length (texts (xs @ y # us))"
    "chunk_ok (piece_at (rc_rope c) (length (texts (xs @ y # us))) e)"
    "ck_text (piece_at (rc_rope c) (length (texts (xs @ y # us))) e) = between (length (texts (xs @ y # us))) e (rope_text (rc_rope c))"
proof -
  have r: "rope_ok (rc_rope c)" "to_list (rc_rope c) = (xs @ [y]) @ zs"
    and cu: "cursor_at chunk_ops len_dim (rc_chunks c) xs (y # zs)" "c_did_seek (rc_chunks c)" using a by (simp_all add: rope_cursor_at_def)
  obtain ch where ch: "cursor_next len_dim (rc_chunks c) = Some ch" "c_did_seek ch" "cursor_at chunk_ops len_dim ch (xs @ [y]) zs"
    using len_seek.cursor_next_ok [OF cu(1)] cu(2) by auto
  have g: "\<forall>c \<in> set (xs @ [y]). good_chunk c" using r by (auto simp: rope_ok_def)
  note p = cursor_position [OF ch(3) g]
  have le: "length (texts (xs @ [y])) \<le> e" using e(1) by simp
  then have ahead: "ord_cmp e (c_position ch) \<noteq> Less" unfolding p by (simp add: ord_cmp_def)
  obtain us vs where s: "advance chunk_ops len_dim (passes (ord_cmp e) Right) (c_position ch) zs = (us, vs)" "zs = us @ vs"
    "pass_mono chunk_ops len_dim (passes (ord_cmp e) Right) (c_position ch) zs"
    "length (texts ((xs @ [y]) @ us)) \<le> e" "vs \<noteq> [] \<Longrightarrow> e < length (texts ((xs @ [y]) @ us @ [hd vs]))"
    using seek_to [OF r le] unfolding p by metis
  let ?ws = "xs @ y # us"
  have ru: "to_list (rc_rope c) = ?ws @ vs" using r(2) s(2) by simp
  note bu = texts_boundary [OF r(1) ru]
  have len: "length (rope_text (rc_rope c)) = length (texts ?ws) + length (texts vs)" using ru by (simp add: rope_text_def)
  have ge: "length (texts ?ws) \<le> e" using s(4) by simp
  have lt: "e \<le> length (texts ?ws) + length (texts (take 1 vs))" using s(5) len e(2) by (cases vs) auto
  have piece: "chunk_slice 0 (e - length (texts ?ws)) (hd vs) = Some (piece_at (rc_rope c) (length (texts ?ws)) e)"
    "chunk_ok (piece_at (rc_rope c) (length (texts ?ws)) e)" if "vs \<noteq> []"
  proof -
    obtain v ws where v: "vs = v # ws" using \<open>vs \<noteq> []\<close> by (cases vs) auto
    have "e \<le> length (texts ?ws) + length (ck_text v)" using lt v by simp
    from chunk_piece [OF r(1) ru [unfolded v] bu b le_refl ge this] show
      "chunk_slice 0 (e - length (texts ?ws)) (hd vs) = Some (piece_at (rc_rope c) (length (texts ?ws)) e)"
      "chunk_ok (piece_at (rc_rope c) (length (texts ?ws)) e)"
      by (simp_all only: piece_at_def v list.sel diff_self_eq_0)
  qed
  have nil: "e = length (texts ?ws)" if "vs = []" using that ge lt by simp
  have "chunk_ok (piece_at (rc_rope c) (length (texts ?ws)) e)"
    by (cases "vs = []") (use piece nil in \<open>auto simp: piece_at_def\<close>)
  moreover have "ck_text (piece_at (rc_rope c) (length (texts ?ws)) e) = between (length (texts ?ws)) e (rope_text (rc_rope c))"
    by (simp add: piece_at_def)
  ultimately show thesis using that [OF ch(1,3,2) s(2) ahead s(3,1) ge lt piece(1) nil] by blast
qed

section \<open>Slices\<close>

text \<open>A rope with the text, kept full.\<close>

definition holds :: "rope \<Rightarrow> bool \<Rightarrow> bytes \<Rightarrow> bool" where
  "holds r f s \<longleftrightarrow> rope_ok r \<and> rope_text r = s \<and> (f \<longrightarrow> chunks_full (to_list r))"

lemma push_piece:
  "holds r f s \<Longrightarrow> chunk_ok p \<Longrightarrow> \<exists>r'. push_chunk p r = Some r' \<and> holds r' f (s @ ck_text p)"
  using push_chunk_ok [of r p] unfolding holds_def by (metis append_Nil2 chunks_full_simps(2))

lemma append_holds:
  "holds r f s \<Longrightarrow> holds q f t \<Longrightarrow> \<exists>r'. rope_append r q = Some r' \<and> holds r' f (s @ t)"
  using rope_append_ok [of r q] unfolding holds_def by metis

lemma cursor_stays:
  assumes "rope_cursor_at c xs ys" "cursor_at chunk_ops len_dim ch xs' ys'" "c_did_seek ch" "xs' @ ys' = xs @ ys"
    "length (texts xs') \<le> e" "e \<le> length (texts xs') + length (texts (take 1 ys'))"
  shows "rope_cursor_ok (c\<lparr>rc_chunks := ch, rc_offset := e\<rparr>)"
  using assms unfolding rope_cursor_ok_def rope_cursor_at_def by (intro exI [of _ xs'] exI [of _ ys']) simp

lemma slice_past:
  assumes a: "rope_cursor_at c xs (y # zs)" and e: "length (texts xs) + length (ck_text y) < e" "e \<le> length (rope_text (rc_rope c))"
    and b: "str_is_char_boundary (rope_text (rc_rope c)) (rc_offset c)" "str_is_char_boundary (rope_text (rc_rope c)) e"
  defines "keep \<equiv> chunks_full (to_list (rc_rope c))"
  shows "\<exists>t c'. rope_cursor_slice e c = Some (t, c') \<and> rope_cursor_ok c' \<and> rc_rope c' = rc_rope c \<and> rc_offset c' = e \<and>
    holds t keep (between (rc_offset c) e (rope_text (rc_rope c)))"
proof -
  let ?T = "rope_text (rc_rope c)" and ?m = "length (texts xs) + length (ck_text y)" and ?k = "\<lambda>us. length (texts (xs @ y # us))"
  have r: "rope_ok (rc_rope c)" "to_list (rc_rope c) = xs @ y # zs" and le: "rc_offset c \<le> e" using a e(1) by (simp_all add: rope_cursor_at_def)
  have in_range: "\<not> (e < rc_offset c \<or> e > rope_len (rc_rope c))" using e le r(1) by simp
  have m: "min e ?m = ?m" using e(1) by simp
  note ev = cursor_eval [OF a] and near = span_near [OF a le b, unfolded m]
  obtain t where t: "push_chunk (piece_at (rc_rope c) (rc_offset c) ?m) rope_new = Some t" "holds t keep (between (rc_offset c) ?m ?T)"
    using push_piece [OF _ near(2), of rope_new keep "[]"] near(5) by (auto simp: holds_def)
  obtain ch us vs where f: "cursor_next len_dim (rc_chunks c) = Some ch" "cursor_at chunk_ops len_dim ch (xs @ [y]) zs" "c_did_seek ch"
    "zs = us @ vs" "ord_cmp e (c_position ch) \<noteq> Less" "pass_mono chunk_ops len_dim (passes (ord_cmp e) Right) (c_position ch) zs"
    "advance chunk_ops len_dim (passes (ord_cmp e) Right) (c_position ch) zs = (us, vs)"
    "?k us \<le> e" "e \<le> ?k us + length (texts (take 1 vs))"
    "vs \<noteq> [] \<Longrightarrow> chunk_slice 0 (e - ?k us) (hd vs) = Some (piece_at (rc_rope c) (?k us) e)" "vs = [] \<Longrightarrow> e = ?k us"
    "chunk_ok (piece_at (rc_rope c) (?k us) e)" "ck_text (piece_at (rc_rope c) (?k us) e) = between (?k us) e ?T"
    using span_far [OF a e b(2)] by metis
  obtain mid ch' where mid: "cursor_slice chunk_ops len_dim (ord_cmp e) Right ch = Some (mid, ch')" "wf_tree chunk_ops mid"
    "to_list mid = us" "cursor_at chunk_ops len_dim ch' ((xs @ [y]) @ us) vs" "c_did_seek ch'"
    using len_seek.cursor_slice_ok [OF f(2,5-7)] by blast
  have rl: "to_list (rc_rope c) = (xs @ [y]) @ us @ vs" using r(2) f(4) by simp
  then have g: "\<forall>c \<in> set ((xs @ [y]) @ us). good_chunk c" using r(1) by (auto simp: rope_ok_def)
  have "holds mid keep (texts us)" using rl mid(2,3) g chunks_full_part [of "xs @ [y]" us vs]
    by (auto simp: holds_def rope_ok_def rope_text_def keep_def)
  from append_holds [OF t(2) this] obtain t1 where t1: "rope_append t mid = Some t1" "holds t1 keep (between (rc_offset c) ?m ?T @ texts us)"
    by blast
  have "texts us = between ?m (?k us) ?T" using between_mid [of "texts (xs @ [y])" "texts us" "texts vs"] rl by (simp add: rope_text_def add.assoc)
  then have t1': "holds t1 keep (between (rc_offset c) (?k us) ?T)"
    using t1(2) between_split [of "rc_offset c" ?m "?k us" ?T] near(6) by simp
  obtain t2 where t2: "push_chunk (piece_at (rc_rope c) (?k us) e) t1 = Some t2" "holds t2 keep (between (rc_offset c) e ?T)"
    using push_piece [OF t1' f(12)] f(8,13) between_split [of "rc_offset c" "?k us" e ?T] near(6) by auto
  define res where "res = (if vs = [] then t1 else t2)"
  have "rope_cursor_slice e c = Some (res, c\<lparr>rc_chunks := ch', rc_offset := e\<rparr>)"
    using ev in_range near(1,3,4) t(1) e(1) f(1) mid(1) t1(1) cursor_item_ok [OF mid(4,5)] cursor_position [OF mid(4) g] f(8,10) t2(1)
    by (cases vs) (simp_all add: rope_cursor_slice_def sub_usize_def res_def)
  moreover have "holds res keep (between (rc_offset c) e ?T)" using t1' t2(2) f(11) by (auto simp: res_def)
  moreover have "rope_cursor_ok (c\<lparr>rc_chunks := ch', rc_offset := e\<rparr>)" using cursor_stays [OF a mid(4,5), of e] f(4,8,9) by simp
  ultimately show ?thesis by auto
qed

lemma rope_cursor_slice_ok:
  assumes c: "rope_cursor_ok c" and e: "rc_offset c \<le> e" "e \<le> length (rope_text (rc_rope c))"
    and b: "str_is_char_boundary (rope_text (rc_rope c)) (rc_offset c)" "str_is_char_boundary (rope_text (rc_rope c)) e"
  shows "\<exists>t c'. rope_cursor_slice e c = Some (t, c') \<and> rope_cursor_ok c' \<and> rc_rope c' = rc_rope c \<and> rc_offset c' = e \<and>
    holds t (chunks_full (to_list (rc_rope c))) (between (rc_offset c) e (rope_text (rc_rope c)))"
proof -
  let ?T = "rope_text (rc_rope c)" and ?full = "chunks_full (to_list (rc_rope c))"
  obtain xs ys where a: "rope_cursor_at c xs ys" using c by (auto simp: rope_cursor_ok_def)
  note ev = cursor_eval [OF a]
  have r: "rope_ok (rc_rope c)" "to_list (rc_rope c) = xs @ ys" and cu: "cursor_at chunk_ops len_dim (rc_chunks c) xs ys"
    "c_did_seek (rc_chunks c)" and off: "length (texts xs) \<le> rc_offset c"
    "rc_offset c \<le> length (texts xs) + length (texts (take 1 ys))" using a by (simp_all add: rope_cursor_at_def)
  have in_range: "\<not> (e < rc_offset c \<or> e > rope_len (rc_rope c))" using e r(1) by simp
  have new: "holds rope_new ?full []" by (simp add: holds_def)
  have near: "\<exists>t. rope_cursor_slice e c = Some (t, c\<lparr>rc_chunks := rc_chunks c, rc_offset := e\<rparr>) \<and> holds t ?full (between (rc_offset c) e ?T)"
    if "e \<le> length (texts xs) + length (texts (take 1 ys))"
  proof (cases ys)
    case Nil
    then have "e = rc_offset c" using e off r(2) that by (simp add: rope_text_def)
    then show ?thesis using ev in_range Nil off e(1) new by (auto simp: rope_cursor_slice_def)
  next
    case (Cons y zs)
    then have m: "min e (length (texts xs) + length (ck_text y)) = e" using that by simp
    note near = span_near [OF a [unfolded Cons] e(1) b, unfolded m]
    obtain t where "push_chunk (piece_at (rc_rope c) (rc_offset c) e) rope_new = Some t" "holds t ?full (between (rc_offset c) e ?T)"
      using push_piece [OF new near(2)] near(5) by auto
    then show ?thesis using ev in_range Cons near(1,3,4) that m by (simp add: rope_cursor_slice_def sub_usize_def)
  qed
  show ?thesis
  proof (cases "e \<le> length (texts xs) + length (texts (take 1 ys))")
    case True
    then show ?thesis using near cursor_stays [OF a cu refl, of e] off e(1) by auto
  next
    case False
    then obtain y zs where y: "ys = y # zs" using e(2) r(2) by (cases ys) (auto simp: rope_text_def)
    then show ?thesis using slice_past [OF a [unfolded y] _ e(2) b] False by simp
  qed
qed

text \<open>An end before the cursor or past the text is a panic.\<close>

lemma rope_cursor_slice_panics:
  "rope_ok (rc_rope c) \<Longrightarrow> e < rc_offset c \<or> length (rope_text (rc_rope c)) < e \<Longrightarrow>
     rope_cursor_slice e c = None \<and> rope_seek_forward e c = None \<and> rope_cursor_summary T e c = None"
  by (simp add: rope_cursor_slice_def rope_seek_forward_def rope_cursor_summary_def)

lemma rope_suffix_ok:
  assumes "rope_cursor_ok c" "str_is_char_boundary (rope_text (rc_rope c)) (rc_offset c)" "rc_offset c \<le> length (rope_text (rc_rope c))"
  shows "\<exists>t. rope_suffix c = Some t \<and> holds t (chunks_full (to_list (rc_rope c))) (drop (rc_offset c) (rope_text (rc_rope c)))"
proof -
  have r: "rope_ok (rc_rope c)" using assms(1) by (auto simp: rope_cursor_ok_def rope_cursor_at_def)
  have "extent len_dim (rc_rope c) = length (rope_text (rc_rope c))" using rope_len_ok [OF r] by (simp add: rope_len_def)
  then show ?thesis
    using rope_cursor_slice_ok [OF assms(1,3) le_refl assms(2) boundary_length] by (auto simp: rope_suffix_def between_end)
qed

lemma rope_slice_ok:
  assumes r: "rope_ok r" and b: "str_is_char_boundary (rope_text r) i" "str_is_char_boundary (rope_text r) j" "i \<le> j"
  shows "\<exists>t. rope_slice i j r = Some t \<and> holds t (chunks_full (to_list r)) (between i j (rope_text r))"
proof -
  have le: "j \<le> length (rope_text r)" using boundary_le [OF b(2)] .
  obtain c where c: "rope_cursor_new r 0 = Some c" "rope_cursor_ok c" "rc_rope c = r" "rc_offset c = 0"
    using rope_cursor_new_ok [OF r] by blast
  obtain c' where "rope_seek_forward i c = Some c'" "rope_cursor_ok c'" "rc_rope c' = r" "rc_offset c' = i"
    using rope_seek_forward_ok [OF c(2), of i] c(3,4) b(3) le by auto
  then show ?thesis using rope_cursor_slice_ok [of c' j] b le c(1) by (auto simp: rope_slice_def)
qed

lemma rope_replace_ok:
  assumes r: "rope_ok r" and b: "str_is_char_boundary (rope_text r) i" "str_is_char_boundary (rope_text r) j" "i \<le> j" and s: "utf8 s"
  shows "\<exists>r'. rope_replace i j s r = Some r' \<and> holds r' (chunks_full (to_list r)) (take i (rope_text r) @ s @ drop j (rope_text r))"
proof -
  let ?f = "chunks_full (to_list r)"
  have le: "j \<le> length (rope_text r)" using boundary_le [OF b(2)] .
  obtain c where c: "rope_cursor_new r 0 = Some c" "rope_cursor_ok c" "rc_rope c = r" "rc_offset c = 0"
    using rope_cursor_new_ok [OF r] by blast
  obtain p c1 where p: "rope_cursor_slice i c = Some (p, c1)" "rope_cursor_ok c1" "rc_rope c1 = r" "rc_offset c1 = i"
    "holds p ?f (take i (rope_text r))"
    using rope_cursor_slice_ok [OF c(2), of i] c(3,4) b le by (auto simp: between_start)
  obtain q where q: "rope_append rope_new p = Some q" "holds q ?f (take i (rope_text r))"
    using append_holds [OF _ p(5), of rope_new "[]"] by (auto simp: holds_def)
  obtain c2 where c2: "rope_seek_forward j c1 = Some c2" "rope_cursor_ok c2" "rc_rope c2 = r" "rc_offset c2 = j"
    using rope_seek_forward_ok [OF p(2), of j] p(3,4) b(3) le by auto
  obtain q1 where q1: "rope_push s q = Some q1" "holds q1 ?f (take i (rope_text r) @ s)"
    using rope_push_ok [of q s] q(2) s by (auto simp: holds_def)
  obtain t where t: "rope_suffix c2 = Some t" "holds t ?f (drop j (rope_text r))"
    using rope_suffix_ok [OF c2(2)] c2(3,4) b(2) le by auto
  from append_holds [OF q1(2) t(2)] show ?thesis
    using c(1) p(1) q(1) c2(1) q1(1) t(1) by (auto simp: rope_replace_def)
qed

text \<open>The rows of a slice start where the offset of their point says, which is a boundary.\<close>

lemma offset_for_mono: "\<not> point_less q p \<Longrightarrow> offset_for s p \<le> offset_for s q"
proof (rule ccontr)
  assume pq: "\<not> point_less q p" and less: "\<not> offset_for s p \<le> offset_for s q"
  then have "point_less q (point_of (take (Suc (offset_for s q)) s))" using offset_for_le [of s p] by (intro offset_for_stops) simp
  then have "point_less q (point_of (take (offset_for s p) s))"
    using point_of_take_mono [of "Suc (offset_for s q)" "offset_for s p" s] less by (auto simp: point_less_def)
  then show False using offset_for_passed [of p s] pq by (auto simp: point_less_def)
qed

lemma offset_for_above: "offset_for s p < m \<Longrightarrow> m \<le> length s \<Longrightarrow> point_less p (point_of (take m s))"
  using offset_for_stops [of s p] point_of_take_mono [of "Suc (offset_for s p)" m s] by (auto simp: point_less_def)

lemma row_start_newline:
  "offset_for s (point_new row 0) = 0 \<or> offset_for s (point_new row 0) = length s \<or> s ! (offset_for s (point_new row 0) - 1) = 10"
proof (cases "offset_for s (point_new row 0)")
  case (Suc m)
  let ?n = "offset_for s (point_new row 0)"
  have "s ! m = 10" if n: "?n < length s"
  proof (rule ccontr)
    assume "s ! m \<noteq> 10"
    then have "0 < pt_column (point_of (take ?n s))" using n by (simp add: Suc take_Suc_conv_app_nth)
    then show False using offset_for_passed [of "point_new row 0" s] offset_for_stops [OF n]
      by (auto simp: point_less_def take_Suc_conv_app_nth [OF n] split: if_splits)
  qed
  then show ?thesis using offset_for_le [of s "point_new row 0"] Suc by force
qed simp

lemma row_start_boundary:
  assumes s: "utf8 s"
  shows "str_is_char_boundary s (offset_for s (point_new row 0))"
proof -
  let ?n = "offset_for s (point_new row 0)"
  consider "?n = 0" | "?n = length s" | "0 < ?n" "?n < length s" "s ! (?n - 1) = 10"
    using row_start_newline [of s row] offset_for_le [of s "point_new row 0"] by linarith
  then show ?thesis using newline_boundary [OF s, of "?n - 1"] by cases auto
qed

lemma rope_slice_rows_ok:
  assumes r: "rope_ok r" "length (rope_text r) < 2 ^ 32" and rows: "a \<le> b"
  shows "\<exists>t. rope_slice_rows a b r = Some t \<and>
    holds t (chunks_full (to_list r)) (between (offset_for (rope_text r) (point_new a 0)) (offset_for (rope_text r) (point_new b 0)) (rope_text r))"
proof -
  have p: "rope_point_to_offset (point_new row 0) r = Some (offset_for (rope_text r) (point_new row 0))" for row
    by (rule rope_point_to_offset_ok [OF r]) simp
  have "\<not> point_less (point_new b 0) (point_new a 0)" using rows by (simp add: point_less_def)
  from rope_slice_ok [OF r(1) row_start_boundary row_start_boundary offset_for_mono [OF this]] rope_text_utf8 [OF r(1)]
  show ?thesis by (simp add: rope_slice_rows_def p)
qed

end
