(* ===== verification/RopeSummary.thy ===== *)
theory RopeSummary
  imports RopeSlice
begin

text \<open>
  The summary of the text between two offsets, for every dimension of a text: what the cursor computes
  is the dimension of the summary of that text.
\<close>

section \<open>The contract of a text dimension\<close>

text \<open>
  A dimension starts at that of the empty text, adding a summary is adding its dimension, and a chunk
  has the dimension of its summary.
\<close>

locale text_dim = seek_laws chunk_ops "td_dim T" for T :: "'d text_dimension" +
  assumes from_chunk: "td_from_chunk T c = td_from_text_summary T (chunk_text_summary c)"
    and add_from: "is_summary chunk_ops s \<Longrightarrow> td_add_assign T p (td_from_text_summary T s) = d_add (td_dim T) p s"
    and zero_add: "is_summary chunk_ops s \<Longrightarrow> d_add (td_dim T) (d_zero (td_dim T)) s = td_from_text_summary T s"
    and from_zero: "td_from_text_summary T ts_zero = d_zero (td_dim T)"

text \<open>What a cursor over lengths sums up on its way.\<close>

sublocale text_dim < along: two_dimensions chunk_ops len_dim "td_dim T"
  by unfold_locales

lemma chunk_ok_utf8: "chunk_ok c \<Longrightarrow> utf8 (ck_text c)"
  by (simp add: chunk_ok_text)

lemma is_summary_law: "is_summary chunk_ops s \<Longrightarrow> ts_law s"
  by (induction rule: is_summary.induct) (simp_all add: chunk_ts_law ts_law_add)

lemma is_summary_from: "utf8 s \<Longrightarrow> is_summary chunk_ops (text_summary_from s)"
  using rope_from_ok [of s] len_pos.is_summary_text unfolding rope_ok_def rope_text_def by metis

lemma len_text_dim: "text_dim len_text_dim"
  by unfold_locales (simp_all add: len_text_dim_def len_dim_def chunk_text_summary_def Let_def split: prod.split)

interpretation len_text: text_dim len_text_dim
  by (rule len_text_dim)

interpretation utf16_text: text_dim utf16_text_dim
  by unfold_locales (simp_all add: utf16_text_dim_def utf16_dim_def chunk_text_summary_def Let_def split: prod.split)

interpretation point_text: text_dim point_text_dim
  by unfold_locales (simp_all add: point_text_dim_def point_dim_def chunk_text_summary_def Let_def point_add_assoc split: prod.split)

interpretation point_utf16_text: text_dim point_utf16_text_dim
  by unfold_locales (simp_all add: point_utf16_text_dim_def point_utf16_dim_def chunk_text_summary_def Let_def lines_utf16_def
    point_eq_iff split: prod.split)

interpretation summary_text: text_dim summary_text_dim
  by unfold_locales
     (simp_all add: summary_text_dim_def summary_dim_def ts_add_assoc ts_add_zero_left is_summary_law)

text \<open>Pairs of dimensions, and the pair whose second component may be missing.\<close>

lemma pair_text_dim: "text_dim A \<Longrightarrow> text_dim B \<Longrightarrow> text_dim (pair_text_dim A B)"
  unfolding text_dim_def text_dim_axioms_def
  by (auto simp: pair_text_dim_def dims2_def intro!: seek_laws_dims2 [unfolded dims2_def])

lemma dimension_pair: "text_dim A \<Longrightarrow> text_dim B \<Longrightarrow> text_dim (dimension_pair A B)"
  unfolding text_dim_def text_dim_axioms_def seek_laws_def seek_laws_axioms_def
  by (auto simp: dimension_pair_def option.map_comp o_def intro!: option.map_cong split: option.splits)

interpretation point_len_text: text_dim "pair_text_dim point_text_dim len_text_dim"
  by (rule pair_text_dim [OF point_text.text_dim_axioms len_text_dim])

interpretation len_point_text: text_dim "dimension_pair len_text_dim point_text_dim"
  by (rule dimension_pair [OF len_text_dim point_text.text_dim_axioms])

context text_dim
begin

lemma from_append:
  "utf8 s \<Longrightarrow> utf8 t \<Longrightarrow>
   d_add (td_dim T) (td_from_text_summary T (text_summary_from s)) (text_summary_from t) = td_from_text_summary T (text_summary_from (s @ t))"
  using d_add_hom [OF is_summary_from is_summary_from, of s t "d_zero (td_dim T)"] is_summary_from [of "s @ t"]
  by (simp add: zero_add is_summary_from text_summary_from_append)

lemma from_piece: "chunk_ok p \<Longrightarrow> td_from_chunk T p = td_from_text_summary T (text_summary_from (ck_text p))"
  by (simp add: from_chunk chunk_summary)

lemma add_text: "utf8 s \<Longrightarrow> utf8 t \<Longrightarrow>
    td_add_assign T (td_from_text_summary T (text_summary_from s)) (td_from_text_summary T (text_summary_from t)) =
    td_from_text_summary T (text_summary_from (s @ t))"
  using from_append by (simp add: add_from is_summary_from)

lemma middle: "\<forall>c \<in> set us. good_chunk c \<Longrightarrow> after chunk_ops (td_dim T) (d_zero (td_dim T)) us = td_from_text_summary T (text_summary_from (texts us))"
proof (induction us rule: rev_induct)
  case (snoc c us)
  then have "chunk_ok c" "utf8 (ck_text c)" "utf8 (texts us)" using utf8_texts [of us] by (auto simp: good_chunk_def chunk_ok_text)
  then show ?case using snoc from_append [of "texts us" "ck_text c"] by (simp add: chunk_summary)
qed (simp add: from_zero)

lemma first_piece: "chunk_ok p \<Longrightarrow>
    td_add_assign T (d_zero (td_dim T)) (td_from_chunk T p) = td_from_text_summary T (text_summary_from (ck_text p))"
  using add_text [of "[]" "ck_text p"] by (simp add: from_piece from_zero chunk_ok_text)

text \<open>An end in the chunk of the cursor, and one past it.\<close>

lemma summary_past:
  assumes a: "rope_cursor_at c xs (y # zs)" and e: "length (texts xs) + length (ck_text y) < e" "e \<le> length (rope_text (rc_rope c))"
    and b: "str_is_char_boundary (rope_text (rc_rope c)) (rc_offset c)" "str_is_char_boundary (rope_text (rc_rope c)) e"
  shows "\<exists>c'. rope_cursor_summary T e c =
      Some (td_from_text_summary T (text_summary_from (between (rc_offset c) e (rope_text (rc_rope c)))), c') \<and>
    rope_cursor_ok c' \<and> rc_rope c' = rc_rope c \<and> rc_offset c' = e"
proof -
  let ?T = "rope_text (rc_rope c)" and ?m = "length (texts xs) + length (ck_text y)" and ?k = "\<lambda>us. length (texts (xs @ y # us))"
  let ?val = "\<lambda>s. td_from_text_summary T (text_summary_from s)"
  have r: "rope_ok (rc_rope c)" "to_list (rc_rope c) = xs @ y # zs" and le: "rc_offset c \<le> e" using a e(1) by (simp_all add: rope_cursor_at_def)
  have in_range: "\<not> (e < rc_offset c \<or> e > rope_len (rc_rope c))" using e le r(1) by simp
  have m: "min e ?m = ?m" using e(1) by simp
  note ev = cursor_eval [OF a] and near = span_near [OF a le b, unfolded m]
  obtain ch us vs where f: "cursor_next len_dim (rc_chunks c) = Some ch" "cursor_at chunk_ops len_dim ch (xs @ [y]) zs" "c_did_seek ch"
    "zs = us @ vs" "ord_cmp e (c_position ch) \<noteq> Less" "pass_mono chunk_ops len_dim (passes (ord_cmp e) Right) (c_position ch) zs"
    "advance chunk_ops len_dim (passes (ord_cmp e) Right) (c_position ch) zs = (us, vs)"
    "?k us \<le> e" "e \<le> ?k us + length (texts (take 1 vs))"
    "vs \<noteq> [] \<Longrightarrow> chunk_slice 0 (e - ?k us) (hd vs) = Some (piece_at (rc_rope c) (?k us) e)" "vs = [] \<Longrightarrow> e = ?k us"
    "chunk_ok (piece_at (rc_rope c) (?k us) e)" "ck_text (piece_at (rc_rope c) (?k us) e) = between (?k us) e ?T"
    using span_far [OF a e b(2)] by metis
  have rl: "to_list (rc_rope c) = (xs @ [y]) @ us @ vs" using r(2) f(4) by simp
  then have g: "\<forall>c \<in> set ((xs @ [y]) @ us). good_chunk c" and gu: "\<forall>c \<in> set us. good_chunk c" using r(1) by (auto simp: rope_ok_def)
  obtain ch' where mid: "cursor_summary len_dim (td_dim T) (ord_cmp e) Right ch = Some (?val (texts us), ch')"
    "cursor_at chunk_ops len_dim ch' ((xs @ [y]) @ us) vs" "c_did_seek ch'"
    using along.cursor_summary_ok [OF f(2,5-7)] unfolding middle [OF gu] by blast
  have pieces: "utf8 (between (rc_offset c) ?m ?T)" "utf8 (texts us)" "utf8 (between (?k us) e ?T)"
    using chunk_ok_utf8 [OF near(2)] chunk_ok_utf8 [OF f(12)] utf8_texts [OF gu] by (simp_all only: near(5) f(13))
  have "texts us = between ?m (?k us) ?T"
    using between_mid [of "texts (xs @ [y])" "texts us" "texts vs"] rl by (simp add: rope_text_def add.assoc)
  then have whole: "between (rc_offset c) e ?T = (between (rc_offset c) ?m ?T @ texts us) @ between (?k us) e ?T"
    using between_split [of "rc_offset c" ?m "?k us" ?T] between_split [of "rc_offset c" "?k us" e ?T] near(6) f(8) by simp
  have sum: "td_add_assign T (td_add_assign T (?val (between (rc_offset c) ?m ?T)) (?val (texts us))) (td_from_chunk T (piece_at (rc_rope c) (?k us) e)) =
      ?val (between (rc_offset c) e ?T)"
    using add_text [OF pieces(1,2)] add_text [OF _ pieces(3), of "between (rc_offset c) ?m ?T @ texts us"] pieces(1,2) from_piece [OF f(12)] unfolding f(13) whole by simp
  have nil: "between (?k us) e ?T = []" if "vs = []" using f(11) [OF that] by simp
  have "rope_cursor_summary T e c = Some (?val (between (rc_offset c) e ?T), c\<lparr>rc_chunks := ch', rc_offset := e\<rparr>)"
    using ev in_range near(1,3,4) first_piece [OF near(2)] near(5) e(1) f(1) mid(1) cursor_item_ok [OF mid(2,3)]
      cursor_position [OF mid(2) g] f(8,10) sum add_text [OF pieces(1,2)] nil whole
    by (cases vs) (simp_all add: rope_cursor_summary_def sub_usize_def)
  moreover have "rope_cursor_ok (c\<lparr>rc_chunks := ch', rc_offset := e\<rparr>)" using cursor_stays [OF a mid(2,3), of e] f(4,8,9) by simp
  ultimately show ?thesis by auto
qed

lemma rope_cursor_summary_ok:
  assumes c: "rope_cursor_ok c" and e: "rc_offset c \<le> e" "e \<le> length (rope_text (rc_rope c))"
    and b: "str_is_char_boundary (rope_text (rc_rope c)) (rc_offset c)" "str_is_char_boundary (rope_text (rc_rope c)) e"
  shows "\<exists>c'. rope_cursor_summary T e c =
      Some (td_from_text_summary T (text_summary_from (between (rc_offset c) e (rope_text (rc_rope c)))), c') \<and>
    rope_cursor_ok c' \<and> rc_rope c' = rc_rope c \<and> rc_offset c' = e"
proof -
  let ?T = "rope_text (rc_rope c)" and ?val = "\<lambda>s. td_from_text_summary T (text_summary_from s)"
  obtain xs ys where a: "rope_cursor_at c xs ys" using c by (auto simp: rope_cursor_ok_def)
  note ev = cursor_eval [OF a]
  have r: "rope_ok (rc_rope c)" "to_list (rc_rope c) = xs @ ys" and cu: "cursor_at chunk_ops len_dim (rc_chunks c) xs ys"
    "c_did_seek (rc_chunks c)" and off: "length (texts xs) \<le> rc_offset c"
    "rc_offset c \<le> length (texts xs) + length (texts (take 1 ys))" using a by (simp_all add: rope_cursor_at_def)
  have in_range: "\<not> (e < rc_offset c \<or> e > rope_len (rc_rope c))" using e r(1) by simp
  have near: "rope_cursor_summary T e c = Some (?val (between (rc_offset c) e ?T), c\<lparr>rc_chunks := rc_chunks c, rc_offset := e\<rparr>)"
    if "e \<le> length (texts xs) + length (texts (take 1 ys))"
  proof (cases ys)
    case Nil
    then have "e = rc_offset c" using e off r(2) that by (simp add: rope_text_def)
    then show ?thesis using ev in_range Nil off e(1) by (simp add: rope_cursor_summary_def from_zero)
  next
    case (Cons y zs)
    then have m: "min e (length (texts xs) + length (ck_text y)) = e" using that by simp
    note near = span_near [OF a [unfolded Cons] e(1) b, unfolded m]
    show ?thesis using ev in_range Cons near(1,3,4) first_piece [OF near(2)] near(5) that m
      by (simp add: rope_cursor_summary_def sub_usize_def)
  qed
  show ?thesis
  proof (cases "e \<le> length (texts xs) + length (texts (take 1 ys))")
    case True
    then show ?thesis using near cursor_stays [OF a cu refl, of e] off e(1) by auto
  next
    case False
    then obtain y zs where y: "ys = y # zs" using e(2) r(2) by (cases ys) (auto simp: rope_text_def)
    then show ?thesis using summary_past [OF a [unfolded y] _ e(2) b] False by simp
  qed
qed

end

end
