(* ===== verification/RopeSpec.thy ===== *)
theory RopeSpec
  imports RopeSummary
begin

text \<open>
  What a rope promises: the ropes that the operations build, their text and summary, and the positions
  in it.
\<close>

section \<open>The ropes the operations build\<close>

inductive rope_built :: "rope \<Rightarrow> bool" where
  built_new: "rope_built rope_new"
| built_push: "rope_built r \<Longrightarrow> utf8 s \<Longrightarrow> rope_push s r = Some r' \<Longrightarrow> rope_built r'"
| built_push_front: "rope_built r \<Longrightarrow> utf8 s \<Longrightarrow> rope_push_front s r = Some r' \<Longrightarrow> rope_built r'"
| built_append: "rope_built r \<Longrightarrow> rope_built q \<Longrightarrow> rope_append r q = Some r' \<Longrightarrow> rope_built r'"
| built_slice: "rope_built r \<Longrightarrow> str_is_char_boundary (rope_text r) i \<Longrightarrow> str_is_char_boundary (rope_text r) j \<Longrightarrow> i \<le> j \<Longrightarrow>
    rope_slice i j r = Some r' \<Longrightarrow> rope_built r'"
| built_replace: "rope_built r \<Longrightarrow> str_is_char_boundary (rope_text r) i \<Longrightarrow> str_is_char_boundary (rope_text r) j \<Longrightarrow> i \<le> j \<Longrightarrow>
    utf8 s \<Longrightarrow> rope_replace i j s r = Some r' \<Longrightarrow> rope_built r'"

lemma built_ok: "rope_built r \<Longrightarrow> rope_ok r \<and> chunks_full (to_list r)"
proof (induction rule: rope_built.induct)
  case (built_push r s r')
  then show ?case using rope_push_ok [of r s] by auto
next
  case (built_push_front r s r')
  then show ?case using rope_push_front_ok [of r s] by auto
next
  case (built_append r q r')
  then show ?case using rope_append_ok [of r q] by auto
next
  case (built_slice r i j r')
  then show ?case using rope_slice_ok [of r i j] by (auto simp: holds_def)
next
  case (built_replace r i j s r')
  then show ?case using rope_replace_ok [of r i j s] by (auto simp: holds_def)
qed simp

lemma built_from: "utf8 s \<Longrightarrow> \<exists>r. rope_from s = Some r \<and> rope_built r \<and> rope_text r = s"
  using rope_from_ok [of s] built_push [OF built_new] unfolding rope_from_def by blast

text \<open>The text \<open>a\<newline>b\<close>, for the concrete instances.\<close>

lemma utf8_lines: "utf8 [97, 10, 98]"
  by (intro utf8_ascii) simp

text \<open>
  C10: Every rope that \<open>new\<close>, \<open>push\<close>, \<open>push_front\<close>, \<open>append\<close>, \<open>slice\<close> and \<open>replace\<close> build is a well-formed
  tree of chunks; each chunk is a non-empty piece of UTF-8 of at most 128 bytes whose bitmaps are those
  of its text; every chunk but the last is half full up to a character, as \<open>check_invariants\<close> asserts.
\<close>

theorem built_ropes_well_formed:
  assumes "rope_built r"
  shows "wf_tree chunk_ops r \<and>
    (\<forall>c \<in> set (to_list r). utf8 (ck_text c) \<and> 0 < chunk_len c \<and> chunk_len c \<le> MAX_BASE \<and> c = chunk_of (ck_text c)) \<and>
    (\<forall>c \<in> set (butlast (to_list r)). MIN_BASE \<le> chunk_len c + 3)"
  using built_ok [OF assms] unfolding rope_ok_def good_chunk_def chunk_ok_def chunks_full_def by (auto simp: chunk_len_def)

lemma built_ropes_well_formed_witness: "\<exists>r. rope_from [97, 10, 98] = Some r \<and> wf_tree chunk_ops r"
  using built_from [OF utf8_lines] built_ropes_well_formed by blast

text \<open>
  C9: On well-formed ropes and UTF-8 text no operation that builds a rope panics, and the text is
  the one expected: \<open>push\<close> and \<open>append\<close> put at the end, \<open>push_front\<close> at the start, \<open>slice\<close> takes the text
  between two boundaries and \<open>replace\<close> puts the new text in place of it.
\<close>

theorem rope_edits_text:
  assumes "rope_built r" "rope_built q" "utf8 s"
    and "str_is_char_boundary (rope_text r) i" "str_is_char_boundary (rope_text r) j" "i \<le> j"
  shows "(\<exists>r'. rope_push s r = Some r' \<and> rope_built r' \<and> rope_text r' = rope_text r @ s) \<and>
    (\<exists>r'. rope_push_front s r = Some r' \<and> rope_built r' \<and> rope_text r' = s @ rope_text r) \<and>
    (\<exists>r'. rope_append r q = Some r' \<and> rope_built r' \<and> rope_text r' = rope_text r @ rope_text q) \<and>
    (\<exists>r'. rope_slice i j r = Some r' \<and> rope_built r' \<and> rope_text r' = take (j - i) (drop i (rope_text r))) \<and>
    (\<exists>r'. rope_replace i j s r = Some r' \<and> rope_built r' \<and> rope_text r' = take i (rope_text r) @ s @ drop j (rope_text r))"
proof (intro conjI)
  have r: "rope_ok r" "rope_ok q" using assms(1,2) built_ok by blast+
  show "\<exists>r'. rope_push s r = Some r' \<and> rope_built r' \<and> rope_text r' = rope_text r @ s"
    using rope_push_ok [OF r(1) assms(3)] built_push [OF assms(1,3)] by blast
  show "\<exists>r'. rope_push_front s r = Some r' \<and> rope_built r' \<and> rope_text r' = s @ rope_text r"
    using rope_push_front_ok [OF r(1) assms(3)] built_push_front [OF assms(1,3)] by blast
  show "\<exists>r'. rope_append r q = Some r' \<and> rope_built r' \<and> rope_text r' = rope_text r @ rope_text q"
    using rope_append_ok [OF r] built_append [OF assms(1,2)] by blast
  show "\<exists>r'. rope_slice i j r = Some r' \<and> rope_built r' \<and> rope_text r' = take (j - i) (drop i (rope_text r))"
    using rope_slice_ok [OF r(1) assms(4-6)] built_slice [OF assms(1,4-6)] unfolding holds_def between_def by blast
  show "\<exists>r'. rope_replace i j s r = Some r' \<and> rope_built r' \<and> rope_text r' = take i (rope_text r) @ s @ drop j (rope_text r)"
    using rope_replace_ok [OF r(1) assms(4-6,3)] built_replace [OF assms(1,4-6,3)] unfolding holds_def by blast
qed

lemma rope_edits_text_witness:
  "\<exists>r r'. rope_from [97, 10, 98] = Some r \<and> rope_replace 1 2 [10] r = Some r' \<and> rope_text r' = [97, 10, 98]"
proof -
  obtain r where r: "rope_from [97, 10, 98] = Some r" "rope_built r" "rope_text r = [97, 10, 98]" using built_from [OF utf8_lines] by blast
  have s: "utf8 [10]" by (intro utf8_ascii) simp
  have b: "str_is_char_boundary (rope_text r) 1" "str_is_char_boundary (rope_text r) 2" "(1 :: nat) \<le> 2"
    by (simp_all add: r(3) str_is_char_boundary_def is_char_start_def)
  show ?thesis using rope_edits_text [OF r(2) r(2) s b] r by auto
qed



section \<open>Chunks\<close>

text \<open>
  C35: The bitmaps of a chunk suffice for its summary: what \<open>text_summary\<close> computes from them with bit
  operations is the summary of the text, counted character by character.
\<close>

theorem chunk_summary_from_bitmaps:
  assumes "utf8 s" "length s \<le> MAX_BASE"
  shows "\<exists>c. chunk_new s = Some c \<and> ck_text c = s \<and> chunk_text_summary c = text_summary_from s"
  using chunk_new_ok [OF assms(1)] chunk_text_summary_ok [of s] assms by (intro exI [of _ "chunk_of s"]) simp

lemma chunk_summary_from_bitmaps_witness: "\<exists>c. chunk_new [97, 10, 98] = Some c \<and> chunk_text_summary c = text_summary_from [97, 10, 98]"
  using chunk_summary_from_bitmaps [OF utf8_lines] by auto

text \<open>
  C15: The branch-free selection of the n-th set bit of a bitmap: the bit it names is set, and n - 1 set
  bits lie below it.
\<close>

theorem nth_set_bit_selects:
  fixes v :: "128 word"
  assumes "1 \<le> n" "n \<le> count_ones v"
  shows "bit v (nth_set_bit v n) \<and> length (filter (bit v) [0..<nth_set_bit v n]) = n - 1"
  using nth_set_bit_ok [OF assms] by (simp add: ones_in_def)

lemma nth_set_bit_selects_witness: "bit (0b1010 :: 128 word) (nth_set_bit 0b1010 2)"
proof -
  have "2 \<le> count_ones (0b1010 :: 128 word)" by (simp add: count_ones_def upt_rec)
  then show ?thesis using nth_set_bit_selects [of 2 "0b1010"] by simp
qed



section \<open>Positions\<close>



text \<open>
  C13: At every boundary of a character, the offset in UTF-16 and the point in UTF-16 that a rope answers with
  are the code units of the text before, in all and since the last newline, and lead back to the offset.
\<close>

theorem utf16_roundtrips:
  assumes "rope_built r" "length (rope_text r) < 2 ^ 32" "str_is_char_boundary (rope_text r) n"
  shows "rope_offset_to_offset_utf16 n r = Some (utf16_units (take n (rope_text r))) \<and>
    rope_offset_utf16_to_offset (utf16_units (take n (rope_text r))) r = Some n \<and>
    rope_offset_to_point_utf16 n r = Some (point_utf16_of (take n (rope_text r))) \<and>
    rope_point_utf16_to_offset (point_utf16_of (take n (rope_text r))) r = Some n"
proof -
  have r: "rope_ok r" using built_ok [OF assms(1)] by simp
  show ?thesis
    using rope_offset_to_offset_utf16_ok [OF r assms(3)] rope_offset_utf16_to_offset_ok [OF r assms(3)]
      rope_offset_to_point_utf16_ok [OF r assms(3)] rope_point_utf16_to_offset_ok [OF r assms(2,3)] by simp
qed

text \<open>The text of one character of two bytes and a newline.\<close>

lemma utf8_two: "utf8 [0xC3, 0xA9, 10]"
proof -
  have "utf8_char [0xC3, 0xA9]" by (simp add: utf8_char_def is_char_start_def utf8_len_def)
  moreover have "utf8 [10]" by (intro utf8_ascii) simp
  ultimately show ?thesis using utf8_append [of "[0xC3, 0xA9]" "[10]"] by simp
qed

lemma two_boundary: "rope_text r = [0xC3, 0xA9, 10] \<Longrightarrow> str_is_char_boundary (rope_text r) 2"
  by (simp add: str_is_char_boundary_def is_char_start_def)

lemma utf16_roundtrips_witness:
  "\<exists>r n. rope_from [0xC3, 0xA9, 10] = Some r \<and> rope_offset_to_offset_utf16 2 r = Some n \<and> rope_offset_utf16_to_offset n r = Some 2"
proof -
  obtain r where r: "rope_from [0xC3, 0xA9, 10] = Some r" "rope_built r" "rope_text r = [0xC3, 0xA9, 10]" using built_from [OF utf8_two] by blast
  have "length (rope_text r) < 2 ^ 32" by (simp add: r(3))
  from utf16_roundtrips [OF r(2) this two_boundary [OF r(3)]] show ?thesis using r(1) by auto
qed

text \<open>
  C37: The conversions between positions agree: from any of offset, point, UTF-16 offset and UTF-16 point of a
  boundary to any other is the same as through the offset, by a search from the root or by a cursor.
\<close>

theorem position_conversions_agree:
  assumes "rope_built r" "length (rope_text r) < 2 ^ 32" "str_is_char_boundary (rope_text r) n"
    and "rope_offset_to_point n r = Some p" "rope_offset_to_offset_utf16 n r = Some u" "rope_offset_to_point_utf16 n r = Some q"
  shows "rope_point_to_point_utf16 p r = Some q \<and> rope_point_to_offset_utf16 p r = Some u \<and>
    rope_point_utf16_to_offset_utf16 q r = Some u \<and> rope_point_utf16_to_point q r = Some p \<and>
    rope_unclipped_point_utf16_to_point q r = Some p"
proof -
  have r: "rope_ok r" using built_ok [OF assms(1)] by simp
  have "p = point_of (take n (rope_text r))" "u = utf16_units (take n (rope_text r))" "q = point_utf16_of (take n (rope_text r))"
    using assms(4-6) rope_offset_to_point_ok [OF r, of n] rope_offset_to_offset_utf16_ok [OF r assms(3)]
      rope_offset_to_point_utf16_ok [OF r assms(3)] by simp_all
  then show ?thesis
    using rope_point_to_point_utf16_ok [OF r assms(2,3)] rope_point_to_offset_utf16_ok [OF r assms(2,3)]
      rope_point_utf16_to_offset_utf16_ok [OF r assms(2,3)] rope_point_utf16_to_point_ok [OF r assms(2,3)] by simp
qed

lemma position_conversions_agree_witness:
  "\<exists>r p q. rope_from [0xC3, 0xA9, 10] = Some r \<and> rope_offset_to_point 2 r = Some p \<and> rope_offset_to_point_utf16 2 r = Some q \<and>
     rope_point_to_point_utf16 p r = Some q"
proof -
  obtain r where r: "rope_from [0xC3, 0xA9, 10] = Some r" "rope_built r" "rope_text r = [0xC3, 0xA9, 10]" using built_from [OF utf8_two] by blast
  have l: "length (rope_text r) < 2 ^ 32" by (simp add: r(3))
  have ok: "rope_ok r" using built_ok [OF r(2)] by simp
  obtain p u q where c: "rope_offset_to_point 2 r = Some p" "rope_offset_to_offset_utf16 2 r = Some u" "rope_offset_to_point_utf16 2 r = Some q"
    using rope_offset_to_point_ok [OF ok] rope_offset_to_offset_utf16_ok [OF ok two_boundary [OF r(3)]]
      rope_offset_to_point_utf16_ok [OF ok two_boundary [OF r(3)]] by simp
  from position_conversions_agree [OF r(2) l two_boundary [OF r(3)] c] show ?thesis using r(1) c by auto
qed

section \<open>Boundaries\<close>





section \<open>Cursors\<close>





end
