(* ===== verification/Spec2Isabelle.thy ===== *)
theory Spec2Isabelle
  imports Clock Locator TreeSpec UndoMap OperationQueue Patch Subscription History Replica RopeSpec
begin

text \<open>
  A model of the text-buffer core of Dokkaebi Terminal (a fork of the Zed editor): the
  data structures under \<open>crates/clock\<close>, \<open>crates/sum_tree\<close>, \<open>crates/rope\<close> and \<open>crates/text\<close> on which
  buffers, multi-buffers and collaborative editing rest.

  Parts and theories.
  \<^item> \<open>Clock\<close>: \<open>crates/clock/src/clock.rs\<close>. Lamport timestamps (32-bit counter, 16-bit replica
    id, order by counter then replica) and version vectors (\<open>Global\<close>).
  \<^item> \<open>Locator\<close>: \<open>crates/text/src/locator.rs\<close>. Dense positions for fragments, as lists of 64-bit
    digits.
  \<^item> \<open>SumTree\<close>, \<open>SumTreeCorrect\<close>: \<open>crates/sum_tree/src/sum_tree.rs\<close>. The B+ tree with summaries;
    \<open>wf_node\<close> is the representation invariant (heights, capacity, cached summaries), \<open>to_list\<close>
    the abstraction to the item sequence. A panic is \<open>None\<close>.
  \<^item> \<open>Cursor\<close>, \<open>CursorCorrect\<close>, \<open>CursorOps\<close>, \<open>TreeIter\<close>: \<open>crates/sum_tree/src/cursor.rs\<close> and the
    \<open>find\<close> functions. A cursor is a stack of (node, index, position) entries, the head of the
    list being the top; its specification is a split of the sequence at the cursor.
  \<^item> \<open>KeyedTree\<close>, \<open>TreeMap\<close>, \<open>TreeSpec\<close>: keyed operations, \<open>crates/sum_tree/src/tree_map.rs\<close>, and the
    properties of the tree stated for every summary that satisfies the laws.
  \<^item> \<open>UndoMap\<close>, \<open>OperationQueue\<close>, \<open>Patch\<close>, \<open>Subscription\<close>: the files of these names under
    \<open>crates/text/src\<close>.

  \<^item> \<open>Utf8\<close>, \<open>TextSummary\<close>, \<open>Bitmap\<close>, \<open>Chunk\<close>: the text as a list of UTF-8 bytes; points and summaries
    (\<open>crates/rope/src/point.rs\<close>, \<open>rope.rs\<close>); the chunk of 128 bytes with its bitmaps (\<open>chunk.rs\<close>), and
    the selection of a set bit on which its conversions rest.
  \<^item> \<open>ChunkCorrect\<close>, \<open>ChunkPoints\<close>, \<open>ChunkClip\<close>: a chunk against its text. \<open>chunk_ok\<close> says that the bitmaps are
    those of the text; what is computed from them is what the text has.
  \<^item> \<open>Rope\<close>: \<open>crates/rope/src/rope.rs\<close>. The tree of chunks, its dimensions, building, cursors, conversions of
    positions, clipping.
  \<^item> \<open>RopeCorrect\<close>, \<open>RopePoints\<close>, \<open>RopeClip\<close>, \<open>RopeBuild\<close>, \<open>RopeSlice\<close>, \<open>RopeSummary\<close>, \<open>RopeSpec\<close>: the rope
    against the text it holds. \<open>rope_ok\<close> is the representation invariant, \<open>rope_text\<close> the abstraction,
    \<open>chunks_full\<close> what \<open>check_invariants\<close> asserts; \<open>rope_built\<close> are the ropes the operations build. A
    buffer keeps its text as bytes in the model, which is what these theorems show a rope to be.
  \<^item> \<open>History\<close>: the undo history of \<open>crates/text/src/text.rs\<close> (transactions, grouping, the undo and
    redo stacks).
  \<^item> \<open>Fragment\<close>, \<open>Buffer\<close>: the buffer of \<open>crates/text/src/text.rs\<close>: fragments with their summaries,
    positions and indexes, the rope builder, construction and local edits. The tree of fragments is
    represented by the sequence of its items and a cursor over it by what is ahead of it and its
    position, that is by what the theorems of \<open>TreeSpec\<close> show the tree to compute; the insertion index,
    the slice index, the undo map and the queue are the trees themselves.
  \<^item> \<open>Snapshot\<close>, \<open>BaseText\<close>, \<open>EditCore\<close>, \<open>EditWalk\<close>, \<open>LocalEdit\<close>: the invariant of a snapshot, the
    text it has under a choice of fragments (\<open>view\<close>), what each step of an edit keeps of them, and
    the specification of local edits as splicing.
  \<^item> \<open>FragmentIds\<close>, \<open>UndoEdit\<close>: the application of an undo operation: the fragments of the edits it
    names, found through the slice and insertion indexes, are made visible or hidden by their counts.
  \<^item> \<open>BufferOps\<close>, \<open>BufferInv\<close>, \<open>BufferCorrect\<close>: the operations of the user of a buffer (edits,
    transactions, undo and redo) and the invariant of a session, with the ticks the Lamport clock
    still has.
  \<^item> \<open>RemoteEdit\<close>: the edit of another replica, whose ranges are offsets among the fragments its
    version had seen. A mark says what a version sees, and the edit splices that view; a local edit
    replayed as a remote one gives the same snapshot.
  \<^item> \<open>RemoteOps\<close>, \<open>Replica\<close>: delivery of operations, the queue of those whose causal
    predecessors are missing, and the buffers a replica can reach by its own and others' operations.

  Interfaces. \<open>summary_laws\<close> and \<open>seek_laws\<close> are what the tree asks of a summary and of a
  dimension, \<open>keyed\<close> adds the key, \<open>seek_aggregate\<close> is the contract between \<open>seek_internal\<close> and
  what it feeds, \<open>map_contract\<close> is the map the users of \<open>TreeMap\<close> rely on, \<open>edit_walk\<close> is what an edit asks of the position it
  walks by, \<open>text_position\<close> and \<open>strict_position\<close> are what a search in a rope asks of a position, and
  \<open>text_dim\<close> what a cursor of a rope asks of a dimension it sums up. Each is interpreted
  on the definitions of the code: the map keys, the undo keys, the operation keys, the dimensions of a
  rope. The laws of a summary are asked of the summaries that occur (\<open>is_summary\<close>) only, since a text
  summary with arbitrary fields does not satisfy them; an empty tree has the zero summary.

  Bounds and fuel. No definition uses fuel: loops are recursive functions with a proved
  measure, except iterators collected to a list (\<open>partial_function\<close>, where the theorems
  show that the value exists). The capacity of the child arrays is checked by \<open>fit\<close>, and the
  theorems show it is never exceeded. The height of a tree is a natural number; the code keeps
  it in a byte and a cursor's stack in an array of 16 entries, and overflowing these is not modelled.
  Rows and columns are natural numbers; the comparison of points packs them into 64 bits, so that the
  theorems on positions ask for a text below 4 GiB.

  Not modelled. Reference counting and sharing of nodes, locks, \<open>Debug\<close> and serialization
  instances, parallel scheduling (\<open>rayon\<close> yields its results in order), the channels by which tasks wait for
  edits or versions, anchors and selections, the iterators of a rope over chunks, bytes and lines. The tree of fragments is seeked by
  versioned offsets only in \<open>RemoteEdit\<close>, where the seek is modelled on the sequence: the sum of a
  subtree whose fragments have versions that are not the same is invalid and the seek descends into
  it. That concurrent edits delivered in different orders converge is not proved. Rendering, the
  \<open>gpui\<close> entity system, file and network I/O, language servers, terminal emulation (an external
  crate) and the agent features are outside this development.
\<close>

end
